(* ===== verification/Prelude.thy ===== *)
theory Prelude
  imports Main "HOL-Library.Word" "HOL-Library.AList" "HOL-Library.List_Lexorder"
begin

text \<open>
  Shared vocabulary of the development: Go's machine types as words, slices of bytes as
  lists, the outcome of Go code that may return an error or panic, and generic lemmas on
  lists, options and words.  Component theories import this one.
\<close>

section \<open>Types\<close>

type_synonym byte = "8 word"
type_synonym bytes = "byte list"
type_synonym u32 = "32 word"
type_synonym u64 = "64 word"
type_synonym i8 = "8 word"
type_synonym i64 = "64 word"

text \<open>
  Go's \<open>int64\<close> and \<open>int8\<close> are kept as words: \<open>uint64(x)\<close> is then the identity and a
  signed reading is \<^term>\<open>sint\<close>.  Where the code computes with \<open>int\<close> indices, the model uses
  \<^typ>\<open>int\<close> and \<open>wrap64\<close> at every addition that can overflow.
\<close>

definition wrap64 :: "int \<Rightarrow> int" where
  "wrap64 x = (x + 2 ^ 63) mod 2 ^ 64 - 2 ^ 63"

text \<open>The outcome of a Go call that returns a value, returns an error, or panics.\<close>

datatype ('e, 'a) outcome = Ok 'a | Fail 'e | Panic

fun bind_outcome :: "('e, 'a) outcome \<Rightarrow> ('a \<Rightarrow> ('e, 'b) outcome) \<Rightarrow> ('e, 'b) outcome" where
  "bind_outcome (Ok x) f = f x"
| "bind_outcome (Fail e) f = Fail e"
| "bind_outcome Panic f = Panic"

section \<open>Collections of facts\<close>

named_theorems wire_simps \<open>lengths and shapes of encoded byte sequences\<close>
named_theorems inv_intros \<open>operations preserve the component invariant\<close>
named_theorems frame_simps \<open>fields an operation leaves alone\<close>

section \<open>Generic lemmas\<close>

subsection \<open>Outcomes\<close>

lemma bind_outcome_Ok_iff [simp]:
  "bind_outcome m f = Ok y \<longleftrightarrow> (\<exists>x. m = Ok x \<and> f x = Ok y)"
  by (cases m) auto

lemma bind_outcome_Fail_iff:
  "bind_outcome m f = Fail e \<longleftrightarrow> m = Fail e \<or> (\<exists>x. m = Ok x \<and> f x = Fail e)"
  by (cases m) auto

lemma case_sum_Inr_iff:
  "(case m of Inl e \<Rightarrow> Inl (g e) | Inr x \<Rightarrow> f x) = Inr y \<longleftrightarrow> (\<exists>x. m = Inr x \<and> f x = Inr y)"
  by (cases m) auto

subsection \<open>Wrapping arithmetic\<close>

lemma wrap64_id: "- (2 ^ 63) \<le> x \<Longrightarrow> x < 2 ^ 63 \<Longrightarrow> wrap64 x = x"
  by (simp add: wrap64_def)

lemma wrap64_over: "2 ^ 63 \<le> x \<Longrightarrow> x < 2 ^ 64 + 2 ^ 63 \<Longrightarrow> wrap64 x = x - 2 ^ 64"
  using minus_mod_self2 [of "x + 2 ^ 63" "2 ^ 64"] mod_pos_pos_trivial [of "x + 2 ^ 63 - 2 ^ 64" "2 ^ 64"]
  by (simp add: wrap64_def)

lemma wrap64_bounds: "- (2 ^ 63) \<le> wrap64 x \<and> wrap64 x < 2 ^ 63"
proof -
  have "0 \<le> (x + 2 ^ 63) mod 2 ^ 64" and "(x + 2 ^ 63) mod 2 ^ 64 < 2 ^ 64"
    by simp_all
  then show ?thesis unfolding wrap64_def by simp
qed

subsection \<open>Lists\<close>

text \<open>\<open>bytes.Compare\<close> is the lexicographic order of \<open>List_Lexorder\<close>.\<close>

lemma append_less_iff [simp]: "(xs @ ys < xs @ (zs :: bytes)) \<longleftrightarrow> ys < zs"
  by (induction xs) auto

lemma take_drop_append [simp]: "take (length ys) (drop (length xs) (xs @ ys @ zs)) = ys"
  by simp

lemma drop_length_suffix: "ys = drop m xs \<Longrightarrow> ys = drop (length xs - length ys) xs"
  by (cases "m \<le> length xs") auto

lemma sum_list_update_nat:
  "i < length (xs :: nat list) \<Longrightarrow> sum_list (xs[i := v]) + xs ! i = sum_list xs + v"
proof (induction xs arbitrary: i)
  case (Cons x xs)
  then show ?case by (cases i) auto
qed simp

lemma count_True_update:
  "i < length bs \<Longrightarrow> \<not> bs ! i \<Longrightarrow>
   length (filter id (bs[i := True])) = Suc (length (filter id bs))"
proof (induction bs arbitrary: i)
  case (Cons b bs)
  then show ?case by (cases i) auto
qed simp

lemma count_True_all:
  "length (filter id bs) = length bs \<longleftrightarrow> (\<forall>i < length bs. bs ! i)"
proof -
  have "length (filter id bs) = length bs \<longleftrightarrow> (\<forall>b \<in> set bs. b)"
    by (metis (full_types) filter_True filter_id_conv id_apply length_filter_less less_irrefl)
  then show ?thesis by (metis in_set_conv_nth)
qed

end
