(* ===== verification/Varint.thy ===== *)
theory Varint
  imports Prelude
begin

unbundle bit_operations_syntax

text \<open>
  The varint layer: \<open>encoding/binary\<close>'s \<open>PutUvarint\<close>, \<open>Uvarint\<close> and \<open>ReadUvarint\<close> as the
  Go standard library defines them, \<open>uvarintLen\<close> of \<open>snapproto.go\<close>, and the zigzag encoder
  \<open>putVarint\<close> of \<open>iavlenc.go\<close>.  The lemmas reduce the word loops to base-128 arithmetic on
  \<^typ>\<open>nat\<close> and give the round trips the decoders above rest on.
\<close>

section \<open>Encoding\<close>

lemma unat_drop_bit_7: "unat (drop_bit 7 (x :: u64)) = unat x div 128"
  by (simp add: unat_drop_bit_eq drop_bit_eq_div [where ?'a = nat])

lemma unat_drop_bit_7_less: "128 \<le> (x :: u64) \<Longrightarrow> unat (drop_bit 7 x) < unat x"
  using unat_drop_bit_7 [of x] by (simp add: word_le_nat_alt)

text \<open>\<open>binary.PutUvarint\<close>: seven bits per byte, least significant first.\<close>

function PutUvarint :: "u64 \<Rightarrow> bytes" where
  "PutUvarint x = (if x < 128 then [ucast x] else (ucast x OR 128) # PutUvarint (drop_bit 7 x))"
  by pat_completeness auto
termination
proof (relation "measure unat")
  fix x :: u64
  assume "\<not> x < 128"
  then show "(drop_bit 7 x, x) \<in> measure unat"
    by (simp add: unat_drop_bit_7_less not_less)
qed simp

declare PutUvarint.simps [simp del]

text \<open>\<open>uvarintLen\<close> of \<open>snapproto.go\<close>.\<close>

function uvarintLen :: "u64 \<Rightarrow> nat" where
  "uvarintLen v = (if 128 \<le> v then Suc (uvarintLen (drop_bit 7 v)) else 1)"
  by pat_completeness auto
termination
proof (relation "measure unat")
  fix x :: u64
  assume "128 \<le> x"
  then show "(drop_bit 7 x, x) \<in> measure unat"
    by (simp add: unat_drop_bit_7_less)
qed simp

declare uvarintLen.simps [simp del]

text \<open>\<open>putUvarint\<close> of \<open>iavlenc.go\<close> appends the encoding to \<open>dst\<close>; \<open>putVarint\<close> zigzags.\<close>

definition putUvarint :: "bytes \<Rightarrow> u64 \<Rightarrow> bytes" where
  "putUvarint dst x = dst @ PutUvarint x"

definition zigzag :: "i64 \<Rightarrow> u64" where
  "zigzag x = (let ux = push_bit 1 x in if x <s 0 then NOT ux else ux)"

definition putVarint :: "bytes \<Rightarrow> i64 \<Rightarrow> bytes" where
  "putVarint dst x = putUvarint dst (zigzag x)"

section \<open>Decoding\<close>

text \<open>
  \<open>binary.Uvarint\<close> returns the value and the number of bytes read; a count of 0 means the
  buffer ended early and a negative count an overflow.
\<close>

fun Uvarint_loop :: "nat \<Rightarrow> u64 \<Rightarrow> nat \<Rightarrow> bytes \<Rightarrow> u64 \<times> int" where
  "Uvarint_loop i x s [] = (0, 0)"
| "Uvarint_loop i x s (b # bs) =
     (if i = 10 then (0, - (int i + 1))
      else if b < 128 then
        (if i = 9 \<and> 1 < b then (0, - (int i + 1)) else (x OR push_bit s (ucast b), int i + 1))
      else Uvarint_loop (Suc i) (x OR push_bit s (ucast (b AND 127))) (s + 7) bs)"

definition Uvarint :: "bytes \<Rightarrow> u64 \<times> int" where
  "Uvarint buf = Uvarint_loop 0 0 0 buf"

text \<open>
  \<open>binary.ReadUvarint\<close> over a stream: the value and the rest of the stream, or the error.
  A clean end before the first byte is \<open>io.EOF\<close>, one after it \<open>io.ErrUnexpectedEOF\<close>.
\<close>

datatype read_error = EOF | UnexpectedEOF | VarintOverflow

fun ReadUvarint_loop :: "nat \<Rightarrow> u64 \<Rightarrow> nat \<Rightarrow> bytes \<Rightarrow> read_error + u64 \<times> bytes" where
  "ReadUvarint_loop i x s bs =
     (if 10 \<le> i then Inl VarintOverflow
      else case bs of
        [] \<Rightarrow> Inl (if 0 < i then UnexpectedEOF else EOF)
      | b # bs' \<Rightarrow>
          if b < 128 then
            (if i = 9 \<and> 1 < b then Inl VarintOverflow else Inr (x OR push_bit s (ucast b), bs'))
          else ReadUvarint_loop (Suc i) (x OR push_bit s (ucast (b AND 127))) (s + 7) bs')"

declare ReadUvarint_loop.simps [simp del]

definition ReadUvarint :: "bytes \<Rightarrow> read_error + u64 \<times> bytes" where
  "ReadUvarint bs = ReadUvarint_loop 0 0 0 bs"

section \<open>Base-128 arithmetic\<close>

text \<open>The encoding on \<^typ>\<open>nat\<close>, and the shape shared by every decoder below.\<close>

fun uv_nat :: "nat \<Rightarrow> bytes" where
  "uv_nat n = (if n < 128 then [of_nat n] else of_nat (n mod 128 + 128) # uv_nat (n div 128))"

declare uv_nat.simps [simp del]


lemma byte_of_nat_less [simp]: "n < 256 \<Longrightarrow> (of_nat n :: byte) < 128 \<longleftrightarrow> n < 128"
  by (simp add: word_less_nat_alt unsigned_of_nat take_bit_nat_eq_self)

lemma unat_byte_of_nat [simp]: "n < 256 \<Longrightarrow> unat (of_nat n :: byte) = n"
  by (simp add: unsigned_of_nat take_bit_nat_eq_self)

lemma unat_u64_of_nat: "n < 2 ^ 64 \<Longrightarrow> unat (of_nat n :: u64) = n"
  by (simp add: unsigned_of_nat take_bit_nat_eq_self)

lemma ucast_byte [simp]: "n < 256 \<Longrightarrow> (ucast (of_nat n :: byte) :: u64) = of_nat n"
  by (metis of_nat_unat unat_byte_of_nat)

lemma byte_and_127: "b AND 127 = (take_bit 7 b :: byte)"
  by (simp add: take_bit_eq_mask mask_eq_exp_minus_1)

lemma byte_and_127_of_nat [simp]: "m < 128 \<Longrightarrow> (of_nat (m + 128) :: byte) AND 127 = of_nat m"
  by (simp add: byte_and_127 word_eq_iff_unsigned [where ?'a = nat] unsigned_take_bit_eq
      take_bit_eq_mod [where ?'a = nat] unsigned_of_nat del: of_nat_add)

lemma or_push_bit_eq_add:
  fixes x :: u64
  assumes "unat x < 2 ^ s"
  shows "x OR push_bit s y = x + push_bit s y"
proof -
  have "take_bit s x = x"
    using assms by (simp add: word_eq_iff_unsigned [where ?'a = nat] unsigned_take_bit_eq take_bit_nat_eq_self)
  then have "\<not> bit x n" if "s \<le> n" for n
    using that by (metis bit_take_bit_iff leD)
  then have "x AND push_bit s y = 0"
    by (intro bit_eqI) (auto simp: bit_simps)
  then show ?thesis by (simp add: disjunctive_add_eq_or)
qed

lemma unat_or_push_bit:
  fixes x y :: u64
  assumes "unat x < 2 ^ s" and "unat x + unat y * 2 ^ s < 2 ^ 64"
  shows "unat (x OR push_bit s y) = unat x + unat y * 2 ^ s"
proof -
  have "x OR push_bit s y = of_nat (unat x + unat y * 2 ^ s)"
    using or_push_bit_eq_add [OF assms(1)] by (simp add: push_bit_eq_mult)
  then show ?thesis using assms(2) by (metis unat_u64_of_nat)
qed

lemma ucast_or_128:
  fixes x :: u64
  shows "(ucast x OR 128 :: byte) = of_nat (unat x mod 128 + 128)"
proof -
  have "(ucast x OR 128 :: byte) = (take_bit 7 (ucast x)) OR 128"
    by (rule bit_eqI) (auto simp: bit_simps numeral_eq_Suc less_Suc_eq)
  also have "\<dots> = take_bit 7 (ucast x) + 128"
    by (rule disjunctive_add_eq_or [symmetric], rule bit_eqI)
      (auto simp: bit_simps numeral_eq_Suc less_Suc_eq)
  also have "take_bit 7 (ucast x :: byte) = of_nat (unat x mod 128)"
    by (simp add: word_eq_iff_unsigned [where ?'a = nat] unsigned_take_bit_eq unsigned_ucast_eq
        take_bit_eq_mod [where ?'a = nat] unsigned_of_nat mod_mod_cancel)
  finally show ?thesis by simp
qed

lemma PutUvarint_nat: "PutUvarint x = uv_nat (unat x)"
proof (induction x rule: PutUvarint.induct)
  case (1 x)
  show ?case
  proof (cases "x < 128")
    case True
    then have "unat x < 128" by (simp add: word_less_nat_alt)
    with True show ?thesis
      by (simp add: PutUvarint.simps [of x] uv_nat.simps [of "unat x"])
  next
    case False
    then have "\<not> unat x < 128" by (simp add: word_less_nat_alt)
    with False 1 show ?thesis
      by (simp add: PutUvarint.simps [of x] uv_nat.simps [of "unat x"] ucast_or_128 unat_drop_bit_7)
  qed
qed

lemma uvarintLen_correct: "uvarintLen v = length (PutUvarint v)"
proof (induction v rule: uvarintLen.induct)
  case (1 v)
  show ?case
  proof (cases "128 \<le> v")
    case True
    with 1 show ?thesis by (simp add: uvarintLen.simps [of v] PutUvarint.simps [of v] leD)
  next
    case False
    then have "v < 128" by simp
    with False show ?thesis by (simp add: uvarintLen.simps [of v] PutUvarint.simps [of v])
  qed
qed

lemma length_uv_nat: "n < 128 ^ k \<Longrightarrow> 0 < k \<Longrightarrow> length (uv_nat n) \<le> k"
proof (induction k arbitrary: n)
  case (Suc k)
  show ?case
  proof (cases "n < 128")
    case False
    with Suc.prems have "0 < k" by (cases k) auto
    moreover have "n div 128 < 128 ^ k" using Suc.prems by (simp add: less_mult_imp_div_less mult.commute)
    ultimately show ?thesis using Suc.IH [of "n div 128"] False by (simp add: uv_nat.simps [of n])
  qed (simp add: uv_nat.simps)
qed simp

lemma length_PutUvarint [wire_simps]: "0 < length (PutUvarint x)" "length (PutUvarint x) \<le> 10"
proof -
  show "0 < length (PutUvarint x)" by (simp add: PutUvarint.simps [of x])
  have "unat x < 128 ^ 10" using unsigned_less [of x, where ?'a = nat] by simp
  then show "length (PutUvarint x) \<le> 10" by (simp add: PutUvarint_nat length_uv_nat)
qed

section \<open>Round trips\<close>

text \<open>
  Both loops are proved correct from an arbitrary iteration: \<open>i\<close> bytes read, the low
  \<open>7 * i\<close> bits already in the accumulator.
\<close>

lemma uv_step_bounds:
  assumes "i \<le> 9" and "X + n * 2 ^ (7 * i) < 2 ^ 64" and "\<not> n < (128 :: nat)"
  shows "i < 9" and "X + n mod 128 * 2 ^ (7 * i) + n div 128 * 2 ^ (7 * Suc i) = X + n * 2 ^ (7 * i)"
proof -
  have eq: "n mod 128 * 2 ^ (7 * i) + n div 128 * 2 ^ (7 * Suc i) = n * (2 :: nat) ^ (7 * i)"
    by (simp add: power_add flip: distrib_right mult.assoc)
  then show "X + n mod 128 * 2 ^ (7 * i) + n div 128 * 2 ^ (7 * Suc i) = X + n * 2 ^ (7 * i)"
    by simp
  show "i < 9"
  proof (rule ccontr)
    assume "\<not> i < 9"
    with assms(1) have "i = 9" by simp
    with assms(2,3) show False by simp
  qed
qed

lemma uv_last_bound:
  assumes "i = 9" and "X + n * 2 ^ (7 * i) < (2 :: nat) ^ 64" and "n < 128"
  shows "n \<le> 1"
  using assms by simp

lemma word_one_less_byte: "n < 256 \<Longrightarrow> (1 :: byte) < of_nat n \<longleftrightarrow> 1 < n"
  by (simp add: word_less_nat_alt)

lemma ReadUvarint_loop_uv:
  "\<lbrakk>unat x < 2 ^ (7 * i); unat x + n * 2 ^ (7 * i) < 2 ^ 64; i \<le> 9\<rbrakk> \<Longrightarrow>
   ReadUvarint_loop i x (7 * i) (uv_nat n @ rest) = Inr (of_nat (unat x + n * 2 ^ (7 * i)), rest)"
proof (induction n arbitrary: i x rule: uv_nat.induct)
  case (1 n)
  let ?s = "7 * i"
  show ?case
  proof (cases "n < 128")
    case True
    with 1 have "\<not> (i = 9 \<and> (1 :: byte) < of_nat n)"
      using uv_last_bound by (auto simp: word_one_less_byte)
    moreover have "x OR push_bit ?s (of_nat n) = of_nat (unat x + n * 2 ^ ?s)"
      using or_push_bit_eq_add [OF "1.prems"(1)] by (simp add: push_bit_eq_mult)
    ultimately show ?thesis using True "1.prems"
      by (simp add: uv_nat.simps [of n] ReadUvarint_loop.simps [of i] del: of_nat_add of_nat_mult)
  next
    case False
    note b = uv_step_bounds [OF "1.prems"(3,2) False]
    let ?x = "x OR push_bit ?s (of_nat (n mod 128))"
    have "n mod 128 * 2 ^ ?s + unat x \<le> n * 2 ^ ?s + unat x" by simp
    with "1.prems"(2) have lt: "unat x + n mod 128 * 2 ^ ?s < 2 ^ 64" by linarith
    have m: "unat (of_nat (n mod 128) :: u64) = n mod 128" by (simp add: unat_u64_of_nat)
    have ux: "unat ?x = unat x + n mod 128 * 2 ^ ?s"
      using unat_or_push_bit [OF "1.prems"(1), of "of_nat (n mod 128)"] lt m by simp
    have "n mod 128 * 2 ^ ?s \<le> 127 * 2 ^ ?s" by (rule mult_le_mono1) simp
    moreover have "(2 :: nat) ^ (7 * Suc i) = 128 * 2 ^ ?s" by (simp add: power_add)
    ultimately have "unat ?x < 2 ^ (7 * Suc i)" using ux "1.prems"(1) by linarith
    moreover have "unat ?x + n div 128 * 2 ^ (7 * Suc i) < 2 ^ 64" using b "1.prems"(2) ux by simp
    ultimately have "ReadUvarint_loop (Suc i) ?x (7 * Suc i) (uv_nat (n div 128) @ rest)
        = Inr (of_nat (unat ?x + n div 128 * 2 ^ (7 * Suc i)), rest)"
      using 1(1) [OF False] b(1) by (simp del: mult_Suc_right)
    then show ?thesis using False b ux
      by (simp add: uv_nat.simps [of n] ReadUvarint_loop.simps [of i] del: of_nat_add mult_Suc_right)
        (simp add: add.commute)
  qed
qed

lemma ReadUvarint_PutUvarint [simp]: "ReadUvarint (PutUvarint x @ rest) = Inr (x, rest)"
  using ReadUvarint_loop_uv [of 0 0 "unat x" rest] unsigned_less [of x, where ?'a = nat]
  by (simp add: ReadUvarint_def PutUvarint_nat)

text \<open>\<open>Uvarint\<close> agrees with \<open>ReadUvarint\<close> wherever the latter succeeds.\<close>

lemma Uvarint_loop_ReadUvarint_loop:
  "ReadUvarint_loop i x s bs = Inr (v, rest) \<Longrightarrow>
   Uvarint_loop i x s bs = (v, int i + int (length bs - length rest)) \<and>
   length rest < length bs \<and> rest = drop (length bs - length rest) bs"
proof (induction bs arbitrary: i x s)
  case (Cons b bs)
  show ?case
  proof (cases "b < 128")
    case False
    with Cons.prems have "ReadUvarint_loop (Suc i) (x OR push_bit s (ucast (b AND 127))) (s + 7) bs = Inr (v, rest)"
      and "i < 10" by (simp_all add: ReadUvarint_loop.simps [of i] split: if_splits)
    with Cons.IH [of "Suc i"] False show ?thesis by (auto simp: Suc_diff_le drop_Cons')
  qed (use Cons.prems in \<open>auto simp: ReadUvarint_loop.simps [of i] split: if_splits\<close>)
qed (simp add: ReadUvarint_loop.simps split: if_splits)

lemma Uvarint_PutUvarint [simp]: "Uvarint (PutUvarint x @ rest) = (x, int (length (PutUvarint x)))"
  using Uvarint_loop_ReadUvarint_loop [of 0 0 0 "PutUvarint x @ rest" x rest] ReadUvarint_PutUvarint [of x rest]
  by (simp add: Uvarint_def ReadUvarint_def)

text \<open>Whatever the bytes, a count returned by \<open>Uvarint\<close> is at most ten and inside the buffer.\<close>

lemma Uvarint_loop_bound:
  "Uvarint_loop i x s bs = (v, m) \<Longrightarrow> 0 < m \<Longrightarrow> i \<le> 10 \<Longrightarrow> int i < m \<and> m \<le> int i + int (length bs) \<and> m \<le> 10"
proof (induction bs arbitrary: i x s)
  case (Cons b bs)
  show ?case
  proof (cases "b < 128 \<or> i = 10")
    case False
    with Cons.prems have "Uvarint_loop (Suc i) (x OR push_bit s (ucast (b AND 127))) (s + 7) bs = (v, m)"
      by simp
    moreover from Cons.prems(3) False have "Suc i \<le> 10" by simp
    ultimately have "int (Suc i) < m \<and> m \<le> int (Suc i) + int (length bs) \<and> m \<le> 10"
      using Cons.IH Cons.prems(2) by blast
    then show ?thesis by simp
  qed (use Cons.prems in \<open>auto split: if_splits\<close>)
qed simp

lemma Uvarint_bound: "Uvarint bs = (v, m) \<Longrightarrow> 0 < m \<Longrightarrow> m \<le> int (length bs) \<and> m \<le> 10"
  using Uvarint_loop_bound [of 0 0 0 bs v m] by (simp add: Uvarint_def)

text \<open>A successful \<open>ReadUvarint\<close> consumes at least the canonical encoding's length.\<close>

lemma ReadUvarint_consumes:
  "ReadUvarint bs = Inr (v, rest) \<Longrightarrow> length rest < length bs \<and> rest = drop (length bs - length rest) bs"
  using Uvarint_loop_ReadUvarint_loop unfolding ReadUvarint_def by blast

text \<open>A decoded value never needs more bytes than were read for it.\<close>

lemma unat_less_bits: "unat (x :: u64) < 2 ^ k \<longleftrightarrow> (\<forall>n \<ge> k. \<not> bit x n)"
proof -
  have "unat x < 2 ^ k \<longleftrightarrow> take_bit k x = x"
    by (simp add: word_eq_iff_unsigned [where ?'a = nat] unsigned_take_bit_eq take_bit_nat_eq_self_iff)
  also have "\<dots> \<longleftrightarrow> (\<forall>n \<ge> k. \<not> bit x n)"
  proof
    assume eq: "take_bit k x = x"
    show "\<forall>n \<ge> k. \<not> bit x n" by (subst eq [symmetric]) (simp add: bit_take_bit_iff)
  next
    assume "\<forall>n \<ge> k. \<not> bit x n"
    then show "take_bit k x = x"
      by (intro bit_eqI) (auto simp: bit_take_bit_iff not_le [symmetric])
  qed
  finally show ?thesis .
qed

lemma unat_or_push_bit_less:
  assumes "unat (x :: u64) < 2 ^ s" and "unat y < 2 ^ t"
  shows "unat (x OR push_bit s y) < 2 ^ (s + t)"
  using assms unfolding unat_less_bits by (auto simp: bit_simps)

lemma unat_ucast_byte_less: "b < 128 \<Longrightarrow> unat (ucast (b :: byte) :: u64) < 2 ^ 7"
  by (simp add: unsigned_ucast_eq word_less_nat_alt take_bit_nat_eq_self)

lemma unat_ucast_byte_and: "unat (ucast (b AND 127 :: byte) :: u64) < 2 ^ 7"
  unfolding unat_less_bits byte_and_127 by (auto simp: bit_simps)

lemma ReadUvarint_loop_less:
  "ReadUvarint_loop i x (7 * i) bs = Inr (v, rest) \<Longrightarrow> unat x < 2 ^ (7 * i) \<Longrightarrow>
   unat v < 2 ^ (7 * (i + (length bs - length rest)))"
proof (induction bs arbitrary: i x)
  case (Cons b bs)
  show ?case
  proof (cases "b < 128")
    case True
    with Cons.prems have "v = x OR push_bit (7 * i) (ucast b)" and "rest = bs"
      by (auto simp: ReadUvarint_loop.simps [of i] split: if_splits)
    then show ?thesis
      using unat_or_push_bit_less [OF Cons.prems(2) unat_ucast_byte_less [OF True]] by (simp add: add.commute)
  next
    case False
    let ?x = "x OR push_bit (7 * i) (ucast (b AND 127))"
    have loop: "ReadUvarint_loop (Suc i) ?x (7 * Suc i) bs = Inr (v, rest)"
      using False Cons.prems(1) by (simp add: ReadUvarint_loop.simps [of i] add.commute split: if_splits)
    have "unat ?x < 2 ^ (7 * i + 7)"
      using unat_or_push_bit_less [OF Cons.prems(2) unat_ucast_byte_and] .
    then have "unat v < 2 ^ (7 * (Suc i + (length bs - length rest)))"
      using Cons.IH [OF loop] by (simp add: add.commute)
    moreover have "length rest < length bs"
      using Uvarint_loop_ReadUvarint_loop [OF loop] by blast
    ultimately show ?thesis by (simp add: Suc_diff_le)
  qed
qed (simp add: ReadUvarint_loop.simps split: if_splits)

lemma uvarintLen_minimal:
  assumes "ReadUvarint bs = Inr (v, rest)"
  shows "uvarintLen v + length rest \<le> length bs"
proof -
  let ?k = "length bs - length rest"
  have "0 < ?k" using ReadUvarint_consumes [OF assms] by simp
  have "unat v < 2 ^ (7 * ?k)"
    using ReadUvarint_loop_less [of 0 0 bs v rest] assms by (simp add: ReadUvarint_def)
  then have "unat v < 128 ^ ?k" by (simp add: power_mult)
  then have "uvarintLen v \<le> ?k"
    using length_uv_nat [OF _ \<open>0 < ?k\<close>] by (simp add: uvarintLen_correct PutUvarint_nat)
  then show ?thesis using \<open>0 < ?k\<close> by linarith
qed

section \<open>Zigzag\<close>

text \<open>The inverse, as \<open>binary.Varint\<close> computes it for the reader of the encoded nodes.\<close>

definition unzigzag :: "u64 \<Rightarrow> i64" where
  "unzigzag u = (if bit u 0 then NOT (drop_bit 1 u) else drop_bit 1 u)"

lemma zigzag_bits: "bit (zigzag x) n \<longleftrightarrow> n < 64 \<and> (bit x 63 \<longleftrightarrow> \<not> (0 < n \<and> bit x (n - 1)))"
proof -
  have "bit (push_bit 1 x) n \<longleftrightarrow> n < 64 \<and> 0 < n \<and> bit x (n - 1)"
    by (auto simp only: bit_push_bit_iff possible_bit_word) (auto simp: Suc_le_eq)
  moreover have "x <s 0 \<longleftrightarrow> bit x 63"
    using bit_last_iff [of x] by (simp add: word_sless_alt)
  ultimately show ?thesis
    by (auto simp: zigzag_def Let_def bit_not_iff simp del: push_bit_of_1)
qed

lemma unzigzag_zigzag [simp]: "unzigzag (zigzag x) = x"
proof (rule bit_eqI)
  fix n
  show "bit (unzigzag (zigzag x)) n \<longleftrightarrow> bit x n"
    unfolding unzigzag_def
    by (cases "n = 63") (auto simp: zigzag_bits bit_not_iff bit_drop_bit_eq dest: bit_imp_le_length)
qed

section \<open>Fixed-width integers\<close>

text \<open>Big-endian words: \<open>binary.BigEndian\<close> on four and eight bytes.\<close>

definition be32 :: "u32 \<Rightarrow> bytes" where
  "be32 w = [ucast (drop_bit 24 w), ucast (drop_bit 16 w), ucast (drop_bit 8 w), ucast w]"

definition be64 :: "u64 \<Rightarrow> bytes" where
  "be64 w = be32 (ucast (drop_bit 32 w)) @ be32 (ucast w)"

lemma length_be32 [simp, wire_simps]: "length (be32 w) = 4"
  by (simp add: be32_def)

lemma length_be64 [simp, wire_simps]: "length (be64 w) = 8"
  by (simp add: be64_def)

lemma be32_inject [simp]: "be32 v = be32 w \<longleftrightarrow> v = w"
proof
  assume eq: "be32 v = be32 w"
  show "v = w"
  proof (rule bit_eqI)
    fix n
    assume "possible_bit TYPE(u32) n"
    then have "n < 8 \<or> (8 \<le> n \<and> n < 16) \<or> (16 \<le> n \<and> n < 24) \<or> (24 \<le> n \<and> n < 32)" by auto
    moreover have "bit (ucast (drop_bit k v) :: byte) (n - k) = bit (ucast (drop_bit k w) :: byte) (n - k)"
      if "k \<in> {0, 8, 16, 24}" for k
      using eq that by (auto simp: be32_def)
    ultimately show "bit v n = bit w n"
      by (elim disjE) (force simp: bit_simps)+
  qed
qed simp

lemma be64_inject [simp]: "be64 v = be64 w \<longleftrightarrow> v = w"
proof
  assume "be64 v = be64 w"
  then have hi: "(ucast (drop_bit 32 v) :: u32) = ucast (drop_bit 32 w)" and lo: "(ucast v :: u32) = ucast w"
    by (simp_all add: be64_def)
  show "v = w"
  proof (rule bit_eqI)
    fix n
    assume "possible_bit TYPE(u64) n"
    then have n: "n < 64" by simp
    show "bit v n = bit w n"
    proof (cases "n < 32")
      case True
      with arg_cong [OF lo, of "\<lambda>x. bit x n"] n show ?thesis by (simp add: bit_simps)
    next
      case False
      then have "n - 32 < 32" using n by simp
      with False arg_cong [OF hi, of "\<lambda>x. bit x (n - 32)"] n show ?thesis by (simp add: bit_simps)
    qed
  qed
qed simp

end
