(* ===== verification/Sha256.thy ===== *)
theory Sha256
  imports Varint
begin

unbundle bit_operations_syntax

text \<open>
  \<open>crypto/sha256\<close>, the hash every component of the program compares and commits to, as
  FIPS 180-4 defines it.  The rest of the development uses it as an opaque function of
  which only the 32-byte length is known; \<open>Sha256_Vectors\<close> checks a
  test vector that ties the definition to the real function.
\<close>

definition rotr32 :: "nat \<Rightarrow> u32 \<Rightarrow> u32" where
  "rotr32 n x = drop_bit n x OR push_bit (32 - n) x"

definition sha_Ch :: "u32 \<Rightarrow> u32 \<Rightarrow> u32 \<Rightarrow> u32" where
  "sha_Ch x y z = (x AND y) XOR (NOT x AND z)"

definition sha_Maj :: "u32 \<Rightarrow> u32 \<Rightarrow> u32 \<Rightarrow> u32" where
  "sha_Maj x y z = (x AND y) XOR (x AND z) XOR (y AND z)"

definition sha_S0 :: "u32 \<Rightarrow> u32" where
  "sha_S0 x = rotr32 2 x XOR rotr32 13 x XOR rotr32 22 x"

definition sha_S1 :: "u32 \<Rightarrow> u32" where
  "sha_S1 x = rotr32 6 x XOR rotr32 11 x XOR rotr32 25 x"

definition sha_s0 :: "u32 \<Rightarrow> u32" where
  "sha_s0 x = rotr32 7 x XOR rotr32 18 x XOR drop_bit 3 x"

definition sha_s1 :: "u32 \<Rightarrow> u32" where
  "sha_s1 x = rotr32 17 x XOR rotr32 19 x XOR drop_bit 10 x"

definition sha_K :: "u32 list" where
  "sha_K =
  [1116352408, 1899447441, 3049323471, 3921009573, 961987163, 1508970993, 2453635748, 2870763221,
   3624381080, 310598401, 607225278, 1426881987, 1925078388, 2162078206, 2614888103, 3248222580,
   3835390401, 4022224774, 264347078, 604807628, 770255983, 1249150122, 1555081692, 1996064986,
   2554220882, 2821834349, 2952996808, 3210313671, 3336571891, 3584528711, 113926993, 338241895,
   666307205, 773529912, 1294757372, 1396182291, 1695183700, 1986661051, 2177026350, 2456956037,
   2730485921, 2820302411, 3259730800, 3345764771, 3516065817, 3600352804, 4094571909, 275423344,
   430227734, 506948616, 659060556, 883997877, 958139571, 1322822218, 1537002063, 1747873779,
   1955562222, 2024104815, 2227730452, 2361852424, 2428436474, 2756734187, 3204031479, 3329325298]"

type_synonym sha_state = "u32 \<times> u32 \<times> u32 \<times> u32 \<times> u32 \<times> u32 \<times> u32 \<times> u32"

definition sha_init :: sha_state where
  "sha_init = (1779033703, 3144134277, 1013904242, 2773480762, 1359893119, 2600822924, 528734635, 1541459225)"

fun words_be :: "bytes \<Rightarrow> u32 list" where
  "words_be (a # b # c # d # bs) =
     (push_bit 24 (ucast a) OR push_bit 16 (ucast b) OR push_bit 8 (ucast c) OR ucast d) # words_be bs"
| "words_be _ = []"

definition sha_pad :: "bytes \<Rightarrow> bytes" where
  "sha_pad m =
     (let z = (119 - length m mod 64) mod 64
      in m @ [0x80] @ replicate z 0 @ be64 (of_nat (8 * length m)))"

text \<open>The message schedule, kept newest word first.\<close>

fun sha_extend :: "nat \<Rightarrow> u32 list \<Rightarrow> u32 list" where
  "sha_extend 0 ws = ws"
| "sha_extend (Suc n) ws =
     sha_extend n ((sha_s1 (ws ! 1) + ws ! 6 + sha_s0 (ws ! 14) + ws ! 15) # ws)"

fun sha_round :: "u32 \<times> u32 \<Rightarrow> sha_state \<Rightarrow> sha_state" where
  "sha_round (k, w) (a, b, c, d, e, f, g, h) =
     (let t1 = h + sha_S1 e + sha_Ch e f g + k + w; t2 = sha_S0 a + sha_Maj a b c
      in (t1 + t2, a, b, c, d + t1, e, f, g))"

fun sha_add :: "sha_state \<Rightarrow> sha_state \<Rightarrow> sha_state" where
  "sha_add (a, b, c, d, e, f, g, h) (a', b', c', d', e', f', g', h') =
     (a + a', b + b', c + c', d + d', e + e', f + f', g + g', h + h')"

definition sha_compress :: "sha_state \<Rightarrow> bytes \<Rightarrow> sha_state" where
  "sha_compress s blk =
     sha_add s (fold sha_round (zip sha_K (rev (sha_extend 48 (rev (words_be blk))))) s)"

function sha_blocks :: "sha_state \<Rightarrow> bytes \<Rightarrow> sha_state" where
  "sha_blocks s bs = (if bs = [] then s else sha_blocks (sha_compress s (take 64 bs)) (drop 64 bs))"
  by pat_completeness auto
termination by (relation "measure (\<lambda>(s, bs). length bs)") auto

declare sha_blocks.simps [simp del]

fun sha_out :: "sha_state \<Rightarrow> bytes" where
  "sha_out (a, b, c, d, e, f, g, h) = concat (map be32 [a, b, c, d, e, f, g, h])"

definition sha256 :: "bytes \<Rightarrow> bytes" where
  "sha256 m = sha_out (sha_blocks sha_init (sha_pad m))"

lemma length_sha256 [simp, wire_simps]: "length (sha256 m) = 32"
  by (cases "sha_blocks sha_init (sha_pad m)" rule: sha_out.cases) (simp add: sha256_def)

end
