(* ===== verification/Sha256_Vectors.thy ===== *)
theory Sha256_Vectors
  imports Sha256
begin

text \<open>
  A published test vector, evaluated by the simplifier: the definition of \<open>Sha256\<close> is the
  function the Go standard library computes, at least here.
\<close>

text \<open>The hash of the empty message.\<close>

lemma sha256_empty:
  "sha256 [] =
   [227, 176, 196, 66, 152, 252, 28, 20, 154, 251, 244, 200, 153, 111, 185, 36, 39, 174, 65, 228, 100, 155, 147, 76, 164, 149, 153, 27, 120, 82, 184, 85]"
  by code_simp

end
