(* ===== verification/GoStrings.thy ===== *)
theory GoStrings
  imports Prelude
begin

text \<open>
  Go strings as byte sequences, and the parts of \<open>fmt\<close>, \<open>strconv\<close> and \<open>strings\<close> the program
  uses: decimal printing (\<open>%d\<close>, \<open>%05d\<close>), \<open>ParseUint\<close> and \<open>ParseInt\<close>, prefix and suffix
  tests and trimming.  Chunk file names and database keys are built from these.
\<close>

definition go_string :: "string \<Rightarrow> bytes" where
  "go_string s = map of_char s"

section \<open>Decimal printing\<close>

fun fmt_nat :: "nat \<Rightarrow> bytes" where
  "fmt_nat n = (if n < 10 then [of_nat (48 + n)] else fmt_nat (n div 10) @ [of_nat (48 + n mod 10)])"

declare fmt_nat.simps [simp del]

definition fmt_int :: "int \<Rightarrow> bytes" where
  "fmt_int i = (if i < 0 then 45 # fmt_nat (nat (- i)) else fmt_nat (nat i))"

text \<open>\<open>%05d\<close> of an unsigned value.\<close>

definition fmt_05d :: "nat \<Rightarrow> bytes" where
  "fmt_05d n = replicate (5 - length (fmt_nat n)) 48 @ fmt_nat n"

section \<open>Decimal parsing\<close>

definition is_digit :: "byte \<Rightarrow> bool" where
  "is_digit b \<longleftrightarrow> 48 \<le> b \<and> b \<le> 57"

definition digits_value :: "bytes \<Rightarrow> nat" where
  "digits_value bs = foldl (\<lambda>n b. 10 * n + (unat b - 48)) 0 bs"

text \<open>\<open>strconv.ParseUint(s, 10, bits)\<close>: \<open>None\<close> for a syntax or range error.\<close>

definition ParseUint :: "nat \<Rightarrow> bytes \<Rightarrow> nat option" where
  "ParseUint bits s =
     (if s = [] \<or> \<not> list_all is_digit s then None
      else if digits_value s < 2 ^ bits then Some (digits_value s) else None)"

text \<open>\<open>strconv.ParseInt(s, 10, bits)\<close>: an optional sign, then the digits of the magnitude.\<close>

definition ParseInt :: "nat \<Rightarrow> bytes \<Rightarrow> int option" where
  "ParseInt bits s =
     (case s of
        [] \<Rightarrow> None
      | c # cs \<Rightarrow>
          let neg = (c = 45); ds = (if c = 43 \<or> c = 45 then cs else s)
          in if ds = [] \<or> \<not> list_all is_digit ds then None
             else if \<not> neg \<and> digits_value ds < 2 ^ (bits - 1) then Some (int (digits_value ds))
             else if neg \<and> digits_value ds \<le> 2 ^ (bits - 1) then Some (- int (digits_value ds))
             else None)"

section \<open>Prefixes, suffixes, trimming\<close>

definition HasPrefix :: "bytes \<Rightarrow> bytes \<Rightarrow> bool" where
  "HasPrefix s p \<longleftrightarrow> take (length p) s = p"

definition HasSuffix :: "bytes \<Rightarrow> bytes \<Rightarrow> bool" where
  "HasSuffix s p \<longleftrightarrow> length p \<le> length s \<and> drop (length s - length p) s = p"

definition TrimPrefix :: "bytes \<Rightarrow> bytes \<Rightarrow> bytes" where
  "TrimPrefix s p = (if HasPrefix s p then drop (length p) s else s)"

definition TrimSuffix :: "bytes \<Rightarrow> bytes \<Rightarrow> bytes" where
  "TrimSuffix s p = (if HasSuffix s p then take (length s - length p) s else s)"

lemma HasPrefix_append [simp]: "HasPrefix (p @ s) p"
  by (simp add: HasPrefix_def)

lemma HasSuffix_append [simp]: "HasSuffix (s @ p) p"
  by (simp add: HasSuffix_def)

lemma HasSuffix_iff: "HasSuffix s p \<longleftrightarrow> (\<exists>x. s = x @ p)"
  by (metis HasSuffix_append HasSuffix_def append_take_drop_id)

lemma HasPrefix_iff: "HasPrefix s p \<longleftrightarrow> (\<exists>x. s = p @ x)"
  by (metis HasPrefix_append HasPrefix_def append_take_drop_id)

lemma TrimPrefix_append [simp]: "TrimPrefix (p @ s) p = s"
  by (simp add: TrimPrefix_def)

lemma TrimSuffix_append [simp]: "TrimSuffix (s @ p) p = s"
  by (simp add: TrimSuffix_def)

section \<open>Printing and parsing are inverse\<close>

lemma unat_byte_of_nat_le: "n < 256 \<Longrightarrow> unat (of_nat n :: byte) = n"
  by (simp add: unsigned_of_nat take_bit_nat_eq_self)

lemma is_digit_of_nat [simp]: "n < 10 \<Longrightarrow> is_digit (of_nat (48 + n))"
  by (simp add: is_digit_def word_le_nat_alt unat_byte_of_nat_le del: of_nat_add)

lemma is_digit_48 [simp]: "is_digit 48"
  by (simp add: is_digit_def)

lemma digits_value_snoc [simp]: "digits_value (xs @ [d]) = 10 * digits_value xs + (unat d - 48)"
  by (simp add: digits_value_def)

lemma digits_value_zeros [simp]: "digits_value (replicate k 48 @ xs) = digits_value xs"
  by (induction k) (simp_all add: digits_value_def)

lemma fmt_nat_digits [simp]: "list_all is_digit (fmt_nat n)"
proof (induction n rule: fmt_nat.induct)
  case (1 n)
  then show ?case by (cases "n < 10") (simp_all add: fmt_nat.simps [of n] del: of_nat_add)
qed

lemma fmt_nat_not_Nil [simp]: "fmt_nat n \<noteq> []"
  by (simp add: fmt_nat.simps [of n])

lemma digits_value_fmt_nat [simp]: "digits_value (fmt_nat n) = n"
proof (induction n rule: fmt_nat.induct)
  case (1 n)
  show ?case
  proof (cases "n < 10")
    case True
    then have "digits_value ([] @ [of_nat (48 + n)]) = n"
      by (simp only: digits_value_snoc) (simp add: digits_value_def unat_byte_of_nat_le del: of_nat_add)
    with True show ?thesis by (simp add: fmt_nat.simps [of n])
  next
    case False
    with 1 show ?thesis
      by (simp add: fmt_nat.simps [of n] unat_byte_of_nat_le del: of_nat_add)
  qed
qed

lemma fmt_nat_inject [simp]: "fmt_nat m = fmt_nat n \<longleftrightarrow> m = n"
  by (metis digits_value_fmt_nat)

lemma ParseUint_fmt_05d: "n < 2 ^ bits \<Longrightarrow> ParseUint bits (fmt_05d n) = Some n"
  by (auto simp: ParseUint_def fmt_05d_def list_all_iff)
    (use fmt_nat_digits in \<open>auto simp: list_all_iff\<close>)

lemma fmt_int_inject [simp]: "fmt_int i = fmt_int j \<longleftrightarrow> i = j"
proof -
  have "hd (fmt_nat n) \<noteq> 45" for n
    using fmt_nat_digits [of n] by (cases "fmt_nat n") (auto simp: is_digit_def)
  then show ?thesis
    by (auto simp: fmt_int_def split: if_splits) (metis list.sel(1))+
qed

lemma ParseInt_fmt_int:
  assumes "- (2 ^ 63) \<le> i" and "i < 2 ^ 63"
  shows "ParseInt 64 (fmt_int i) = Some i"
proof (cases "i < 0")
  case True
  with assms show ?thesis by (simp add: fmt_int_def ParseInt_def Let_def)
next
  case False
  obtain d ds where f: "fmt_nat (nat i) = d # ds" by (cases "fmt_nat (nat i)") auto
  then have "d \<noteq> 43" and "d \<noteq> 45" using fmt_nat_digits [of "nat i"] by (auto simp: is_digit_def)
  moreover have "nat i < 2 ^ 63" using assms(2) False by (simp add: nat_less_iff)
  ultimately show ?thesis
    using False f digits_value_fmt_nat [of "nat i"] fmt_nat_digits [of "nat i"]
    by (simp add: fmt_int_def ParseInt_def Let_def)
qed

end
