(* ===== verification/IavlEnc.thy ===== *)
theory IavlEnc
  imports Sha256 GoStrings
begin

unbundle bit_operations_syntax

text \<open>
  The byte formats of \<open>internal/snapshotimport/iavlenc.go\<close> and \<open>commitinfo.go\<close>: database
  keys, the hash pre-images and on-disk bytes of IAVL nodes, fast-storage entries, and the
  hand-rolled protobuf encoder of the commit info.  The lemmas show that the key spaces of
  a store do not overlap and that every encoding is a prefix code, so that nothing written
  is ambiguous.
\<close>

section \<open>Keys (iavlenc.go)\<close>

definition storePrefix :: "bytes \<Rightarrow> bytes" where
  "storePrefix name = go_string ''s/k:'' @ name @ go_string ''/''"

definition nodeDBKeyInto :: "bytes \<Rightarrow> bytes \<Rightarrow> i64 \<Rightarrow> u32 \<Rightarrow> bytes" where
  "nodeDBKeyInto buf sp version nonce = buf @ sp @ go_string ''s'' @ be64 version @ be32 nonce"

definition nodeDBKey :: "bytes \<Rightarrow> i64 \<Rightarrow> u32 \<Rightarrow> bytes" where
  "nodeDBKey sp version nonce = nodeDBKeyInto [] sp version nonce"

definition fastDBKeyInto :: "bytes \<Rightarrow> bytes \<Rightarrow> bytes \<Rightarrow> bytes" where
  "fastDBKeyInto buf sp userKey = buf @ sp @ go_string ''f'' @ userKey"

definition metadataDBKeyInto :: "bytes \<Rightarrow> bytes \<Rightarrow> bytes \<Rightarrow> bytes" where
  "metadataDBKeyInto buf sp metaKey = buf @ sp @ go_string ''m'' @ metaKey"

section \<open>Length-prefixed primitives (iavlenc.go)\<close>

definition putBytes :: "bytes \<Rightarrow> bytes \<Rightarrow> bytes" where
  "putBytes dst b = putUvarint dst (of_nat (length b)) @ b"

definition putHash32 :: "bytes \<Rightarrow> bytes \<Rightarrow> bytes" where
  "putHash32 dst h = (dst @ [0x20]) @ h"

section \<open>Hashes and node bytes (iavlenc.go)\<close>

text \<open>The pre-images are named so that they can be reasoned about apart from the hash.\<close>

definition leafPreimage :: "i64 \<Rightarrow> bytes \<Rightarrow> bytes \<Rightarrow> bytes" where
  "leafPreimage version key v =
     (let pre = putVarint [] 0; pre = putVarint pre 1; pre = putVarint pre version;
          pre = putBytes pre key
      in putHash32 pre (sha256 v))"

definition hashLeaf :: "i64 \<Rightarrow> bytes \<Rightarrow> bytes \<Rightarrow> bytes" where
  "hashLeaf version key v = sha256 (leafPreimage version key v)"

definition innerPreimage :: "i64 \<Rightarrow> i8 \<Rightarrow> i64 \<Rightarrow> bytes \<Rightarrow> bytes \<Rightarrow> bytes" where
  "innerPreimage version height sz left right =
     (let pre = putVarint [] (scast height); pre = putVarint pre sz; pre = putVarint pre version;
          pre = putHash32 pre left
      in putHash32 pre right)"

definition hashInner :: "i64 \<Rightarrow> i8 \<Rightarrow> i64 \<Rightarrow> bytes \<Rightarrow> bytes \<Rightarrow> bytes" where
  "hashInner version height sz left right = sha256 (innerPreimage version height sz left right)"

definition encodeLeafNodeInto :: "bytes \<Rightarrow> bytes \<Rightarrow> bytes \<Rightarrow> bytes" where
  "encodeLeafNodeInto buf key v =
     (let buf = putVarint buf 0; buf = putVarint buf 1; buf = putBytes buf key in putBytes buf v)"

definition encodeInnerNodeInto ::
  "bytes \<Rightarrow> i8 \<Rightarrow> i64 \<Rightarrow> bytes \<Rightarrow> bytes \<Rightarrow> i64 \<Rightarrow> u32 \<Rightarrow> i64 \<Rightarrow> u32 \<Rightarrow> bytes" where
  "encodeInnerNodeInto buf height sz key hash leftVersion leftNonce rightVersion rightNonce =
     (let buf = putVarint buf (scast height); buf = putVarint buf sz; buf = putBytes buf key;
          buf = putHash32 buf hash; buf = putVarint buf 0;
          buf = putVarint buf leftVersion; buf = putVarint buf (ucast leftNonce);
          buf = putVarint buf rightVersion
      in putVarint buf (ucast rightNonce))"

definition encodeFastNodeInto :: "bytes \<Rightarrow> i64 \<Rightarrow> bytes \<Rightarrow> bytes" where
  "encodeFastNodeInto buf version v = putBytes (putVarint buf version) v"

definition fastStorageVersionValue :: bytes where
  "fastStorageVersionValue = go_string ''1.1.0''"

definition fastStorageVersionDelimiter :: bytes where
  "fastStorageVersionDelimiter = go_string ''-''"

section \<open>Commit info (commitinfo.go)\<close>

record StoreInfo =
  si_Name :: bytes
  si_Hash :: bytes

text \<open>The tag byte \<open>byte(field<<3)\<close>.\<close>

definition field_tag :: "nat \<Rightarrow> byte" where
  "field_tag field = of_nat (field * 8)"

definition appendUvarintField :: "bytes \<Rightarrow> nat \<Rightarrow> u64 \<Rightarrow> bytes" where
  "appendUvarintField dst field v = dst @ [field_tag field] @ PutUvarint v"

definition appendBytesField :: "bytes \<Rightarrow> nat \<Rightarrow> bytes \<Rightarrow> bytes" where
  "appendBytesField dst field b =
     dst @ [field_tag field OR 2] @ PutUvarint (of_nat (length b)) @ b"

definition appendStringField :: "bytes \<Rightarrow> nat \<Rightarrow> bytes \<Rightarrow> bytes" where
  "appendStringField dst field s = appendBytesField dst field s"

definition appendEmbeddedField :: "bytes \<Rightarrow> nat \<Rightarrow> bytes \<Rightarrow> bytes" where
  "appendEmbeddedField dst field body = appendBytesField dst field body"

definition encodeCommitID :: "i64 \<Rightarrow> bytes \<Rightarrow> bytes" where
  "encodeCommitID version hash = appendBytesField (appendUvarintField [] 1 version) 2 hash"

definition encodeStoreInfo :: "StoreInfo \<Rightarrow> i64 \<Rightarrow> bytes" where
  "encodeStoreInfo si ver =
     appendEmbeddedField (appendStringField [] 1 (si_Name si)) 2 (encodeCommitID ver (si_Hash si))"

definition commitInfoBytes :: "i64 \<Rightarrow> StoreInfo list \<Rightarrow> bytes" where
  "commitInfoBytes version infos =
     fold (\<lambda>si out. appendEmbeddedField out 2 (encodeStoreInfo si version)) infos
       (appendUvarintField [] 1 version)"

definition commitInfoKey :: "i64 \<Rightarrow> bytes" where
  "commitInfoKey version = go_string ''s/'' @ fmt_int (sint version)"

definition latestVersionKey :: bytes where
  "latestVersionKey = go_string ''s/latest''"

definition latestVersionBytes :: "i64 \<Rightarrow> bytes" where
  "latestVersionBytes version = appendUvarintField [] 1 version"

section \<open>Appending encoders\<close>

text \<open>Every encoder appends to its first argument; the lemmas below state them on an empty one.\<close>

lemmas enc_defs = putUvarint_def putVarint_def putBytes_def putHash32_def

lemma putVarint_append: "putVarint dst x = dst @ putVarint [] x"
  by (simp add: enc_defs)

lemma putBytes_append: "putBytes dst x = dst @ putBytes [] x"
  by (simp add: enc_defs)

section \<open>Prefix codes\<close>

lemma PutUvarint_prefix [simp]: "PutUvarint x @ r = PutUvarint y @ r' \<longleftrightarrow> x = y \<and> r = r'"
  by (metis ReadUvarint_PutUvarint prod.inject sum.inject(2))

lemma putVarint_prefix [simp]: "putVarint [] x @ r = putVarint [] y @ r' \<longleftrightarrow> x = y \<and> r = r'"
  by (simp add: enc_defs) (metis unzigzag_zigzag)

lemma of_nat_length_inject:
  "length a < 2 ^ 64 \<Longrightarrow> length b < 2 ^ 64 \<Longrightarrow>
   (of_nat (length a) :: u64) = of_nat (length b) \<longleftrightarrow> length a = length b"
  by (metis unat_u64_of_nat)

lemma putBytes_prefix [simp]:
  "length a < 2 ^ 64 \<Longrightarrow> length b < 2 ^ 64 \<Longrightarrow>
   putBytes [] a @ r = putBytes [] b @ r' \<longleftrightarrow> a = b \<and> r = r'"
  by (auto simp: enc_defs of_nat_length_inject)

lemma hash_prefix [simp]:
  "length a = length b \<Longrightarrow> putHash32 [] a @ r = putHash32 [] b @ r' \<longleftrightarrow> a = b \<and> r = r'"
  by (simp add: putHash32_def)

lemma scast_i8_inject [simp]: "(scast (x :: i8) :: i64) = scast y \<longleftrightarrow> x = y"
proof
  assume eq: "(scast x :: i64) = scast y"
  show "x = y"
  proof (rule bit_eqI)
    fix n
    assume "possible_bit TYPE(i8) n"
    with arg_cong [OF eq, of "\<lambda>w. bit w n"] show "bit x n = bit y n" by (simp add: bit_simps)
  qed
qed simp

lemma ucast_u32_inject [simp]: "(ucast (x :: u32) :: i64) = ucast y \<longleftrightarrow> x = y"
proof
  assume eq: "(ucast x :: i64) = ucast y"
  show "x = y"
  proof (rule bit_eqI)
    fix n
    assume "possible_bit TYPE(u32) n"
    with arg_cong [OF eq, of "\<lambda>w. bit w n"] show "bit x n = bit y n" by (simp add: bit_simps)
  qed
qed simp

section \<open>Node encodings\<close>

lemma leafPreimage_eq:
  "leafPreimage version key v =
   putVarint [] 0 @ putVarint [] 1 @ putVarint [] version @ putBytes [] key @ putHash32 [] (sha256 v)"
  by (simp add: leafPreimage_def enc_defs Let_def)

lemma innerPreimage_eq:
  "innerPreimage version height sz l r =
   putVarint [] (scast height) @ putVarint [] sz @ putVarint [] version @ putHash32 [] l @ putHash32 [] r"
  by (simp add: innerPreimage_def enc_defs Let_def)

lemma encodeLeafNodeInto_eq:
  "encodeLeafNodeInto buf key v =
   buf @ putVarint [] 0 @ putVarint [] 1 @ putBytes [] key @ putBytes [] v"
  by (simp add: encodeLeafNodeInto_def enc_defs Let_def)

lemma encodeInnerNodeInto_eq:
  "encodeInnerNodeInto buf height sz key hash lv ln rv rn =
   buf @ putVarint [] (scast height) @ putVarint [] sz @ putBytes [] key @ putHash32 [] hash @
   putVarint [] 0 @ putVarint [] lv @ putVarint [] (ucast ln) @ putVarint [] rv @ putVarint [] (ucast rn)"
  by (simp add: encodeInnerNodeInto_def enc_defs Let_def)

lemma leafPreimage_inject:
  "length k < 2 ^ 64 \<Longrightarrow> length k' < 2 ^ 64 \<Longrightarrow>
   leafPreimage ver k v = leafPreimage ver' k' v' \<longleftrightarrow> ver = ver' \<and> k = k' \<and> sha256 v = sha256 v'"
  by (simp add: leafPreimage_eq) (auto simp: putHash32_def)

lemma innerPreimage_inject:
  assumes "length l = 32" "length r = 32" "length l' = 32" "length r' = 32"
  shows "innerPreimage ver h sz l r = innerPreimage ver' h' sz' l' r' \<longleftrightarrow>
    ver = ver' \<and> h = h' \<and> sz = sz' \<and> l = l' \<and> r = r'"
  using assms by (simp add: innerPreimage_eq) (auto simp: putHash32_def)

text \<open>A leaf writes height 0 first, an inner node a non-zero height.\<close>

lemma leaf_inner_preimage: "h \<noteq> 0 \<Longrightarrow> leafPreimage ver k v \<noteq> innerPreimage ver' h sz l r"
  using scast_i8_inject [of h 0] by (auto simp: leafPreimage_eq innerPreimage_eq)

lemma encodeInnerNodeInto_inject:
  assumes "length k < 2 ^ 64" "length k' < 2 ^ 64" "length hs = 32" "length hs' = 32"
  shows "encodeInnerNodeInto [] h sz k hs lv ln rv rn = encodeInnerNodeInto [] h' sz' k' hs' lv' ln' rv' rn' \<longleftrightarrow>
    h = h' \<and> sz = sz' \<and> k = k' \<and> hs = hs' \<and> lv = lv' \<and> ln = ln' \<and> rv = rv' \<and> rn = rn'"
  using assms putVarint_prefix [of "ucast rn" "[]" "ucast rn'" "[]"]
  by (simp add: encodeInnerNodeInto_eq)

section \<open>Key spaces\<close>

lemma nodeDBKeyInto_inject [simp]:
  "nodeDBKeyInto [] sp v n = nodeDBKeyInto [] sp v' n' \<longleftrightarrow> v = v' \<and> n = n'"
  by (simp add: nodeDBKeyInto_def)

lemma fastDBKeyInto_inject [simp]: "fastDBKeyInto [] sp k = fastDBKeyInto [] sp k' \<longleftrightarrow> k = k'"
  by (simp add: fastDBKeyInto_def)

lemma key_spaces_disjoint [simp]:
  "nodeDBKeyInto [] sp v n \<noteq> fastDBKeyInto [] sp k"
  "nodeDBKeyInto [] sp v n \<noteq> metadataDBKeyInto [] sp m"
  "fastDBKeyInto [] sp k \<noteq> metadataDBKeyInto [] sp m"
  "fastDBKeyInto [] sp k \<noteq> nodeDBKeyInto [] sp v n"
  "metadataDBKeyInto [] sp m \<noteq> nodeDBKeyInto [] sp v n"
  "metadataDBKeyInto [] sp m \<noteq> fastDBKeyInto [] sp k"
  by (simp_all add: nodeDBKeyInto_def fastDBKeyInto_def metadataDBKeyInto_def go_string_def)

text \<open>The prefixes of two stores whose names hold no slash never prefix one another.\<close>

lemma append_sep_eq:
  "c \<notin> set xs \<Longrightarrow> c \<notin> set ys \<Longrightarrow> xs @ c # zs = ys @ c # ws \<Longrightarrow> xs = ys \<and> zs = ws"
proof (induction xs arbitrary: ys)
  case Nil
  then show ?case by (cases ys) auto
next
  case (Cons x xs)
  then show ?case by (cases ys) auto
qed

lemma storePrefix_disjoint:
  assumes "0x2f \<notin> set a" and "0x2f \<notin> set b" and "storePrefix a @ r = storePrefix b @ r'"
  shows "a = b \<and> r = r'"
  using append_sep_eq [of "0x2f" a b r r'] assms by (simp add: storePrefix_def go_string_def)

lemma hd_fmt_int: "hd (fmt_int i) = 45 \<or> is_digit (hd (fmt_int i))"
  using fmt_nat_digits [of "nat i"] by (cases "fmt_nat (nat i)") (auto simp: fmt_int_def)

lemma commitInfoKey_letter: "commitInfoKey v = 0x73 # 0x2f # c # r \<Longrightarrow> c \<le> 57"
  using hd_fmt_int [of "sint v"] by (auto simp: commitInfoKey_def go_string_def is_digit_def)

lemma storePrefix_not_commit [simp]:
  "storePrefix a @ r \<noteq> latestVersionKey"
  "storePrefix a @ r \<noteq> commitInfoKey v"
proof -
  show "storePrefix a @ r \<noteq> latestVersionKey"
    by (simp add: storePrefix_def latestVersionKey_def go_string_def)
  have "(107 :: byte) \<le> 57" if "storePrefix a @ r = commitInfoKey v"
    using commitInfoKey_letter [OF that [symmetric, unfolded storePrefix_def go_string_def, simplified]] by simp
  then show "storePrefix a @ r \<noteq> commitInfoKey v" by auto
qed

lemma commitInfoKey_latest: "commitInfoKey v \<noteq> latestVersionKey"
proof
  assume "commitInfoKey v = latestVersionKey"
  from commitInfoKey_letter [OF this [unfolded latestVersionKey_def go_string_def, simplified]] show False by simp
qed

end
