(* ===== verification/SnapProto.thy ===== *)
theory SnapProto
  imports IavlEnc
begin

unbundle bit_operations_syntax

text \<open>
  The hand-rolled decoder of \<open>internal/snapshotimport/snapproto.go\<close>: the field scanners, the
  oneof decoder, and \<open>snapReader.Next\<close> with its eviction-pin bookkeeping.  Indices are Go
  \<open>int\<close>s: sums are wrapped, a negative or over-long index panics, and a scan that never ends
  is the value \<^term>\<open>None\<close>.
\<close>

section \<open>Field scanners\<close>

definition maxEnvelopeBytes :: u64 where
  "maxEnvelopeBytes = 64000000"

text \<open>
  One pass of \<open>getBytesField\<close>'s loop at index \<open>i\<close>; \<open>buf[i:i+int(ln)]\<close> panics when the bounds
  cross.  \<open>None\<close> inside \<^const>\<open>Ok\<close> is Go's nil slice.
\<close>

partial_function (option) getBytesField_loop ::
  "bytes \<Rightarrow> byte \<Rightarrow> int \<Rightarrow> (unit, bytes option) outcome option" where
  "getBytesField_loop buf want i =
     (if \<not> i < int (length buf) then Some (Ok None)
      else if i < 0 then Some Panic
      else let tag = buf ! nat i; i = i + 1; (ln, m) = Uvarint (drop (nat i) buf) in
        if tag = want then
          (if m \<le> 0 \<or> int (length buf) < wrap64 (i + m + sint ln) then Some (Ok None)
           else let i = i + m; hi = wrap64 (i + sint ln) in
             if i \<le> hi then Some (Ok (Some (take (nat (hi - i)) (drop (nat i) buf)))) else Some Panic)
        else if tag AND 7 = 0 then
          (if m \<le> 0 then Some (Ok None) else getBytesField_loop buf want (i + m))
        else if tag AND 7 = 2 then
          (if m \<le> 0 \<or> int (length buf) < wrap64 (i + m + sint ln) then Some (Ok None)
           else getBytesField_loop buf want (wrap64 (i + wrap64 (m + sint ln))))
        else Some (Ok None))"

definition getBytesField :: "bytes \<Rightarrow> nat \<Rightarrow> (unit, bytes option) outcome option" where
  "getBytesField buf field = getBytesField_loop buf (field_tag field OR 2) 0"

text \<open>\<open>copyBytesField\<close> returns a fresh copy: the same value.\<close>

definition copyBytesField :: "bytes \<Rightarrow> nat \<Rightarrow> (unit, bytes option) outcome option" where
  "copyBytesField buf field = getBytesField buf field"

partial_function (option) getVarintField_loop ::
  "bytes \<Rightarrow> byte \<Rightarrow> int \<Rightarrow> (unit, u64) outcome option" where
  "getVarintField_loop buf want i =
     (if \<not> i < int (length buf) then Some (Ok 0)
      else if i < 0 then Some Panic
      else let tag = buf ! nat i; i = i + 1; (ln, m) = Uvarint (drop (nat i) buf) in
        if tag = want then (if m \<le> 0 then Some (Ok 0) else Some (Ok ln))
        else if tag AND 7 = 0 then
          (if m \<le> 0 then Some (Ok 0) else getVarintField_loop buf want (i + m))
        else if tag AND 7 = 2 then
          (if m \<le> 0 \<or> int (length buf) < wrap64 (i + m + sint ln) then Some (Ok 0)
           else getVarintField_loop buf want (wrap64 (i + wrap64 (m + sint ln))))
        else Some (Ok 0))"

definition getVarintField :: "bytes \<Rightarrow> nat \<Rightarrow> (unit, u64) outcome option" where
  "getVarintField buf field = getVarintField_loop buf (field_tag field) 0"

section \<open>Items\<close>

datatype snapItem =
    StoreItem bytes
  | IAVLItem "bytes option" "bytes option" i64 i8
  | ExtMeta bytes u32
  | ExtPayload "bytes option"

datatype snap_error =
    ReadLength read_error
  | EnvelopeTooLarge
  | ReadBody read_error
  | BadWireType
  | BadInnerLength
  | UnknownOneOf

text \<open>A scan's result fed to the next step; the scanners never return an error of their own.\<close>

fun scan_then :: "(unit, 'a) outcome option \<Rightarrow> ('a \<Rightarrow> (snap_error, 'b) outcome option) \<Rightarrow>
    (snap_error, 'b) outcome option" where
  "scan_then None f = None"
| "scan_then (Some (Ok x)) f = f x"
| "scan_then (Some _) f = Some Panic"

text \<open>\<open>string(b)\<close> of a nil slice is the empty string.\<close>

definition nil_bytes :: "bytes option \<Rightarrow> bytes" where
  "nil_bytes b = (case b of None \<Rightarrow> [] | Some x \<Rightarrow> x)"

definition decodeOneOf :: "byte \<Rightarrow> bytes \<Rightarrow> (snap_error, snapItem) outcome option" where
  "decodeOneOf type buf =
     (if type = 1 then
        scan_then (getBytesField buf 1) (\<lambda>n. Some (Ok (StoreItem (nil_bytes n))))
      else if type = 2 then
        scan_then (copyBytesField buf 1) (\<lambda>k.
        scan_then (copyBytesField buf 2) (\<lambda>v.
        scan_then (getVarintField buf 3) (\<lambda>version.
        scan_then (getVarintField buf 4) (\<lambda>h.
          let height = (ucast h :: i8);
              v' = (if height = 0 \<and> v = None then Some [] else v)
          in Some (Ok (IAVLItem k v' version height))))))
      else if type = 3 then
        scan_then (getBytesField buf 1) (\<lambda>n.
        scan_then (getVarintField buf 2) (\<lambda>f. Some (Ok (ExtMeta (nil_bytes n) (ucast f)))))
      else if type = 4 then
        scan_then (copyBytesField buf 1) (\<lambda>p. Some (Ok (ExtPayload p)))
      else Some (Fail UnknownOneOf))"

section \<open>The reader\<close>

text \<open>
  \<open>sr_in\<close> is what \<open>bufio\<close> and the reader below it still hold; \<open>sr_pinner\<close> says whether the
  underlying reader is a \<open>ringPinner\<close>, and \<open>sr_advances\<close> lists the \<open>AdvancePin\<close> calls made.
\<close>

record snapReader =
  sr_in :: bytes
  sr_pinner :: bool
  sr_lastItemBytes :: int
  sr_advances :: "int list"

definition newSnapReader :: "bytes \<Rightarrow> bool \<Rightarrow> snapReader" where
  "newSnapReader r pinner =
     \<lparr>sr_in = r, sr_pinner = pinner, sr_lastItemBytes = 0, sr_advances = []\<rparr>"

datatype next_result = Item snapItem | NextEOF | NextErr snap_error | NextPanic

text \<open>\<open>io.ReadFull\<close>: exactly \<open>n\<close> bytes, \<open>EOF\<close> when there are none, \<open>UnexpectedEOF\<close> when too few.\<close>

definition ReadFull :: "nat \<Rightarrow> bytes \<Rightarrow> read_error + bytes \<times> bytes" where
  "ReadFull n bs =
     (if n \<le> length bs then Inr (take n bs, drop n bs)
      else Inl (if bs = [] then EOF else UnexpectedEOF))"

text \<open>The part of \<open>Next\<close> after the envelope is in memory; \<open>buf\<close> is not empty.\<close>

definition decodeEnvelope :: "bytes \<Rightarrow> (snap_error, snapItem) outcome option" where
  "decodeEnvelope buf =
     (let tag = hd buf; field = drop_bit 3 tag; wire = tag AND 7 in
      if wire \<noteq> 2 then Some (Fail BadWireType)
      else let (innerLen, n) = Uvarint (tl buf) in
        if n \<le> 0 then Some (Fail BadInnerLength)
        else let lo = 1 + n; hi = wrap64 (lo + sint innerLen) in
          if lo \<le> hi \<and> hi \<le> int (length buf)
          then decodeOneOf field (take (nat (hi - lo)) (drop (nat lo) buf))
          else Some Panic)"

definition advancePin :: "int \<Rightarrow> snapReader \<Rightarrow> snapReader" where
  "advancePin n s = (if sr_pinner s then s\<lparr>sr_advances := sr_advances s @ [n]\<rparr> else s)"

function Next_loop :: "snapReader \<Rightarrow> (next_result \<times> snapReader) option" where
  "Next_loop s =
     (case ReadUvarint (sr_in s) of
        Inl EOF \<Rightarrow> Some (NextEOF, s)
      | Inl e \<Rightarrow> Some (NextErr (ReadLength e), s)
      | Inr (envLen, rest) \<Rightarrow>
          if envLen = 0 then Next_loop (advancePin 1 (s\<lparr>sr_in := rest\<rparr>))
          else if maxEnvelopeBytes < envLen then Some (NextErr EnvelopeTooLarge, s\<lparr>sr_in := rest\<rparr>)
          else case ReadFull (unat envLen) rest of
              Inl e \<Rightarrow> Some (NextErr (ReadBody e), s\<lparr>sr_in := []\<rparr>)
            | Inr (buf, rest') \<Rightarrow>
                (case decodeEnvelope buf of
                   None \<Rightarrow> None
                 | Some (Ok item) \<Rightarrow>
                     Some (Item item, s\<lparr>sr_in := rest',
                       sr_lastItemBytes := int (uvarintLen envLen) + int (unat envLen)\<rparr>)
                 | Some (Fail e) \<Rightarrow> Some (NextErr e, s\<lparr>sr_in := rest'\<rparr>)
                 | Some Panic \<Rightarrow> Some (NextPanic, s\<lparr>sr_in := rest'\<rparr>)))"
  by pat_completeness auto
termination
  by (relation "measure (\<lambda>s. length (sr_in s))")
    (auto simp: advancePin_def dest: ReadUvarint_consumes)

declare Next_loop.simps [simp del]

definition Next :: "snapReader \<Rightarrow> (next_result \<times> snapReader) option" where
  "Next s =
     Next_loop (if sr_pinner s \<and> 0 < sr_lastItemBytes s
                then (advancePin (sr_lastItemBytes s) s)\<lparr>sr_lastItemBytes := 0\<rparr> else s)"

section \<open>Encoded messages\<close>

text \<open>
  A message is a list of fields, encoded with the package's own \<open>appendUvarintField\<close> and
  \<open>appendBytesField\<close>.
\<close>

datatype pfield = VField nat u64 | BField nat bytes

fun enc_field :: "pfield \<Rightarrow> bytes" where
  "enc_field (VField n v) = appendUvarintField [] n v"
| "enc_field (BField n b) = appendBytesField [] n b"

definition enc_fields :: "pfield list \<Rightarrow> bytes" where
  "enc_fields fs = concat (map enc_field fs)"

fun field_ok :: "pfield \<Rightarrow> bool" where
  "field_ok (VField n v) = (n < 32)"
| "field_ok (BField n b) = (n < 32)"

fun find_bytes :: "nat \<Rightarrow> pfield list \<Rightarrow> bytes option" where
  "find_bytes n [] = None"
| "find_bytes n (BField m b # fs) = (if m = n then Some b else find_bytes n fs)"
| "find_bytes n (VField m v # fs) = find_bytes n fs"

fun find_varint :: "nat \<Rightarrow> pfield list \<Rightarrow> u64" where
  "find_varint n [] = 0"
| "find_varint n (VField m v # fs) = (if m = n then v else find_varint n fs)"
| "find_varint n (BField m b # fs) = find_varint n fs"

subsection \<open>Tags\<close>

lemma field_tag_inject [simp]: "m < 32 \<Longrightarrow> n < 32 \<Longrightarrow> field_tag m = field_tag n \<longleftrightarrow> m = n"
  by (auto simp: field_tag_def word_eq_iff_unsigned [where ?'a = nat] unsigned_of_nat
      take_bit_eq_mod [where ?'a = nat] simp del: of_nat_mult)

lemma bit_field_tag: "bit (field_tag n) k \<longleftrightarrow> k < 8 \<and> 3 \<le> k \<and> bit n (k - 3)"
proof -
  have "field_tag n = push_bit 3 (of_nat n)" by (simp add: field_tag_def push_bit_eq_mult)
  then show ?thesis by (auto simp: bit_simps)
qed

lemma field_tag_and_7 [simp]: "field_tag n AND 7 = 0"
proof -
  have "field_tag n AND mask 3 = 0"
    by (intro bit_eqI) (auto simp: bit_and_iff bit_mask_iff bit_field_tag)
  then show ?thesis by (simp add: mask_eq_exp_minus_1)
qed

lemma field_tag_or_2_and_7 [simp]: "(field_tag n OR 2) AND 7 = 2"
  by (simp add: bit.conj_disj_distrib2)

lemma field_tag_or_2_inject [simp]:
  assumes "m < 32" and "n < 32"
  shows "field_tag m OR 2 = field_tag n OR 2 \<longleftrightarrow> m = n"
proof
  assume eq: "field_tag m OR 2 = field_tag n OR 2"
  have "field_tag m = field_tag n"
  proof (rule bit_eqI)
    fix k
    have "bit (2 :: byte) k \<longleftrightarrow> k = 1" by (auto simp: bit_simps bit_2_iff)
    with arg_cong [OF eq, of "\<lambda>w. bit w k"] show "bit (field_tag m) k = bit (field_tag n) k"
      by (cases "k = 1") (auto simp: bit_or_iff bit_field_tag)
  qed
  with assms show "m = n" by simp
qed simp

lemma field_tag_wire_neq [simp]: "field_tag m \<noteq> field_tag n OR 2"
proof
  assume "field_tag m = field_tag n OR 2"
  then have "field_tag m AND 7 = (field_tag n OR 2) AND 7" by (rule arg_cong)
  then show False unfolding field_tag_and_7 field_tag_or_2_and_7 by simp
qed

lemma field_tag_wire_neq' [simp]: "field_tag n OR 2 \<noteq> field_tag m"
  by (metis field_tag_wire_neq)

subsection \<open>The scanners on an encoded message\<close>

lemma sint_of_nat_u64: "n < 2 ^ 63 \<Longrightarrow> sint (of_nat n :: u64) = int n"
  by (simp add: signed_of_nat signed_take_bit_int_eq_self)

lemma length_enc_field [wire_simps]:
  "length (enc_field (VField n v)) = 1 + length (PutUvarint v)"
  "length (enc_field (BField n b)) = 1 + length (PutUvarint (of_nat (length b))) + length b"
  by (simp_all add: appendUvarintField_def appendBytesField_def)

lemma getBytesField_skip_varint:
  assumes "buf = pre @ enc_field (VField m v) @ post" and "want \<noteq> field_tag m"
  shows "getBytesField_loop buf want (int (length pre)) =
    getBytesField_loop buf want (int (length (pre @ enc_field (VField m v))))"
  using assms length_PutUvarint(1) [of v]
  by (subst getBytesField_loop.simps)
    (simp add: appendUvarintField_def nth_append nat_add_distrib ac_simps)

text \<open>With a sane length no sum of a skip wraps.\<close>

lemma wrap64_skip:
  assumes "0 \<le> i" "0 < m" "0 \<le> l" "i + m + l \<le> int n" "n < 2 ^ 62"
  shows "wrap64 (i + m + l) = i + m + l" and "wrap64 (i + wrap64 (m + l)) = i + m + l"
proof -
  have n: "int n < 2 ^ 63" using assms(5) by simp
  show "wrap64 (i + m + l) = i + m + l" using assms n by (intro wrap64_id) auto
  have "wrap64 (m + l) = m + l" using assms n by (intro wrap64_id) auto
  with \<open>wrap64 (i + m + l) = i + m + l\<close> show "wrap64 (i + wrap64 (m + l)) = i + m + l"
    by (simp add: add.assoc)
qed

lemma bytes_field_at:
  assumes "buf = pre @ enc_field (BField m b) @ post" and "length buf < 2 ^ 62"
  defines "i \<equiv> int (length pre) + 1" and "l \<equiv> int (length (PutUvarint (of_nat (length b))))"
  shows "buf ! length pre = field_tag m OR 2"
    and "Uvarint (drop (Suc (length pre)) buf) = (of_nat (length b), l)"
    and "sint (of_nat (length b) :: u64) = int (length b)"
    and "wrap64 (i + l + int (length b)) = int (length (pre @ enc_field (BField m b)))"
    and "wrap64 (i + wrap64 (l + int (length b))) = int (length (pre @ enc_field (BField m b)))"
    and "length (pre @ enc_field (BField m b)) \<le> length buf"
    and "0 < l"
proof -
  show l: "0 < l" using length_PutUvarint(1) by (simp add: l_def)
  have len: "i + l + int (length b) = int (length (pre @ enc_field (BField m b)))"
    by (simp add: i_def l_def appendBytesField_def)
  show le: "length (pre @ enc_field (BField m b)) \<le> length buf" by (simp add: assms(1))
  have bnd: "i + l + int (length b) \<le> int (length buf)" using len le by linarith
  have "0 \<le> i" by (simp add: i_def)
  with l bnd assms(2) wrap64_skip [of i l "int (length b)" "length buf"]
  show "wrap64 (i + l + int (length b)) = int (length (pre @ enc_field (BField m b)))"
    and "wrap64 (i + wrap64 (l + int (length b))) = int (length (pre @ enc_field (BField m b)))"
    by (simp_all add: len)
  have "length b < 2 ^ 63" using le assms(2) by (simp add: appendBytesField_def)
  then show "sint (of_nat (length b) :: u64) = int (length b)" by (rule sint_of_nat_u64)
qed (simp_all add: assms appendBytesField_def nth_append)

lemma getBytesField_hit:
  assumes "buf = pre @ enc_field (BField m b) @ post" and "length buf < 2 ^ 62"
  shows "getBytesField_loop buf (field_tag m OR 2) (int (length pre)) = Some (Ok (Some b))"
proof -
  note at = bytes_field_at [OF assms]
  have "take (length b) (drop (Suc (length pre + length (PutUvarint (of_nat (length b) :: u64)))) buf) = b"
    by (simp add: assms(1) appendBytesField_def)
  moreover have n: "nat (int (length pre) + 1 + int (length (PutUvarint (of_nat (length b) :: u64)))) =
      Suc (length pre + length (PutUvarint (of_nat (length b) :: u64)))" by simp
  moreover have "length pre < length buf" by (simp add: assms(1) appendBytesField_def)
  ultimately show ?thesis
    using at by (subst getBytesField_loop.simps)
      (simp add: n nat_add_distrib del: enc_field.simps, simp add: n appendBytesField_def)
qed

lemma getBytesField_skip_bytes:
  assumes "buf = pre @ enc_field (BField m b) @ post" and "length buf < 2 ^ 62"
    and "want \<noteq> field_tag m OR 2"
  shows "getBytesField_loop buf want (int (length pre)) =
    getBytesField_loop buf want (int (length (pre @ enc_field (BField m b))))"
proof -
  note at = bytes_field_at [OF assms(1,2)]
  have "length pre < length buf" by (simp add: assms(1) appendBytesField_def)
  then show ?thesis
    using at assms(3) by (subst getBytesField_loop.simps) (simp add: nat_add_distrib del: enc_field.simps)
qed

lemma getBytesField_loop_enc:
  "\<lbrakk>list_all field_ok fs; n < 32; length (pre @ enc_fields fs) < 2 ^ 62\<rbrakk> \<Longrightarrow>
   getBytesField_loop (pre @ enc_fields fs) (field_tag n OR 2) (int (length pre)) = Some (Ok (find_bytes n fs))"
proof (induction fs arbitrary: pre)
  case Nil
  then show ?case by (subst getBytesField_loop.simps) (simp add: enc_fields_def)
next
  case (Cons f fs)
  let ?buf = "pre @ enc_fields (f # fs)"
  have buf: "?buf = pre @ enc_field f @ enc_fields fs" by (simp add: enc_fields_def)
  have IH: "getBytesField_loop ?buf (field_tag n OR 2) (int (length (pre @ enc_field f))) = Some (Ok (find_bytes n fs))"
    using Cons.IH [of "pre @ enc_field f"] Cons.prems by (simp add: buf)
  show ?case
  proof (cases f)
    case (VField m v)
    with IH getBytesField_skip_varint [of ?buf pre m v "enc_fields fs"] buf show ?thesis by simp
  next
    case (BField m b)
    with IH getBytesField_skip_bytes [of ?buf pre m b "enc_fields fs"]
      getBytesField_hit [of ?buf pre m b "enc_fields fs"] buf Cons.prems show ?thesis
      by (cases "m = n") simp_all
  qed
qed

lemma getBytesField_enc [simp]:
  "\<lbrakk>list_all field_ok fs; n < 32; length (enc_fields fs) < 2 ^ 62\<rbrakk> \<Longrightarrow>
   getBytesField (enc_fields fs) n = Some (Ok (find_bytes n fs))"
  using getBytesField_loop_enc [of fs n "[]"] by (simp add: getBytesField_def)

lemma getVarintField_hit:
  assumes "buf = pre @ enc_field (VField m v) @ post"
  shows "getVarintField_loop buf (field_tag m) (int (length pre)) = Some (Ok v)"
  using assms length_PutUvarint(1) [of v]
  by (subst getVarintField_loop.simps)
    (simp add: appendUvarintField_def nth_append nat_add_distrib)

lemma getVarintField_skip_varint:
  assumes "buf = pre @ enc_field (VField m v) @ post" and "want \<noteq> field_tag m"
  shows "getVarintField_loop buf want (int (length pre)) =
    getVarintField_loop buf want (int (length (pre @ enc_field (VField m v))))"
  using assms length_PutUvarint(1) [of v]
  by (subst getVarintField_loop.simps)
    (simp add: appendUvarintField_def nth_append nat_add_distrib ac_simps)

lemma getVarintField_skip_bytes:
  assumes "buf = pre @ enc_field (BField m b) @ post" and "length buf < 2 ^ 62"
    and "want \<noteq> field_tag m OR 2"
  shows "getVarintField_loop buf want (int (length pre)) =
    getVarintField_loop buf want (int (length (pre @ enc_field (BField m b))))"
proof -
  note at = bytes_field_at [OF assms(1,2)]
  have "length pre < length buf" by (simp add: assms(1) appendBytesField_def)
  then show ?thesis
    using at assms(3) by (subst getVarintField_loop.simps) (simp add: nat_add_distrib del: enc_field.simps)
qed

lemma getVarintField_loop_enc:
  "\<lbrakk>list_all field_ok fs; n < 32; length (pre @ enc_fields fs) < 2 ^ 62\<rbrakk> \<Longrightarrow>
   getVarintField_loop (pre @ enc_fields fs) (field_tag n) (int (length pre)) = Some (Ok (find_varint n fs))"
proof (induction fs arbitrary: pre)
  case Nil
  then show ?case by (subst getVarintField_loop.simps) (simp add: enc_fields_def)
next
  case (Cons f fs)
  let ?buf = "pre @ enc_fields (f # fs)"
  have buf: "?buf = pre @ enc_field f @ enc_fields fs" by (simp add: enc_fields_def)
  have IH: "getVarintField_loop ?buf (field_tag n) (int (length (pre @ enc_field f))) = Some (Ok (find_varint n fs))"
    using Cons.IH [of "pre @ enc_field f"] Cons.prems by (simp add: buf)
  show ?case
  proof (cases f)
    case (VField m v)
    with IH getVarintField_skip_varint [of ?buf pre m v "enc_fields fs" "field_tag n"]
      getVarintField_hit [of ?buf pre m v "enc_fields fs"] buf Cons.prems show ?thesis
      by (cases "m = n") simp_all
  next
    case (BField m b)
    with IH getVarintField_skip_bytes [of ?buf pre m b "enc_fields fs" "field_tag n"] buf Cons.prems
    show ?thesis by simp
  qed
qed

lemma getVarintField_enc [simp]:
  "\<lbrakk>list_all field_ok fs; n < 32; length (enc_fields fs) < 2 ^ 62\<rbrakk> \<Longrightarrow>
   getVarintField (enc_fields fs) n = Some (Ok (find_varint n fs))"
  using getVarintField_loop_enc [of fs n "[]"] by (simp add: getVarintField_def)

section \<open>Items and streams\<close>

text \<open>
  The proto3 encoding of an item: fields with a zero or empty value are left out, integers
  are sign-extended to 64 bits.
\<close>

definition opt_bytes :: "nat \<Rightarrow> bytes \<Rightarrow> pfield list" where
  "opt_bytes n b = (if b = [] then [] else [BField n b])"

definition opt_varint :: "nat \<Rightarrow> u64 \<Rightarrow> pfield list" where
  "opt_varint n v = (if v = 0 then [] else [VField n v])"

fun item_fields :: "snapItem \<Rightarrow> pfield list" where
  "item_fields (StoreItem name) = opt_bytes 1 name"
| "item_fields (IAVLItem k v version height) =
     opt_bytes 1 (nil_bytes k) @ opt_bytes 2 (nil_bytes v) @ opt_varint 3 version @ opt_varint 4 (scast height)"
| "item_fields (ExtMeta name format) = opt_bytes 1 name @ opt_varint 2 (ucast format)"
| "item_fields (ExtPayload p) = opt_bytes 1 (nil_bytes p)"

fun item_type :: "snapItem \<Rightarrow> nat" where
  "item_type (StoreItem _) = 1"
| "item_type (IAVLItem _ _ _ _) = 2"
| "item_type (ExtMeta _ _) = 3"
| "item_type (ExtPayload _) = 4"

text \<open>The items a decoder can tell apart: an absent field is nil, except the value of a leaf.\<close>

fun item_ok :: "snapItem \<Rightarrow> bool" where
  "item_ok (StoreItem name) = True"
| "item_ok (IAVLItem k v version height) =
     (k \<noteq> Some [] \<and> (if height = 0 then v \<noteq> None else v \<noteq> Some []))"
| "item_ok (ExtMeta name format) = True"
| "item_ok (ExtPayload p) = (p \<noteq> Some [])"

definition item_body :: "snapItem \<Rightarrow> bytes" where
  "item_body it = appendBytesField [] (item_type it) (enc_fields (item_fields it))"

definition item_wire :: "snapItem \<Rightarrow> bytes" where
  "item_wire it = PutUvarint (of_nat (length (item_body it))) @ item_body it"

definition item_small :: "snapItem \<Rightarrow> bool" where
  "item_small it \<longleftrightarrow> length (item_body it) \<le> 64000000"

lemma ucast_scast_i8 [simp]: "(ucast (scast (h :: i8) :: u64) :: i8) = h"
  by (rule bit_eqI) (auto simp: bit_simps)

lemma scast_i8_0_iff [simp]: "(scast (h :: i8) :: u64) = 0 \<longleftrightarrow> h = 0"
  using scast_i8_inject [of h 0] by simp

lemma ucast_ucast_u32 [simp]: "(ucast (ucast (f :: u32) :: u64) :: u32) = f"
  by (rule bit_eqI) (auto simp: bit_simps)

lemma ucast_u32_0_iff [simp]: "(ucast (f :: u32) :: u64) = 0 \<longleftrightarrow> f = 0"
  using ucast_u32_inject [of f 0] by simp

lemmas opt_defs = opt_bytes_def opt_varint_def nil_bytes_def

lemma item_fields_ok: "list_all field_ok (item_fields it)"
  by (cases it) (auto simp: opt_defs)

lemma decodeOneOf_item:
  assumes "item_ok it" and "length (enc_fields (item_fields it)) < 2 ^ 62"
  shows "decodeOneOf (of_nat (item_type it)) (enc_fields (item_fields it)) = Some (Ok it)"
proof -
  have "getBytesField (enc_fields (item_fields it)) n = Some (Ok (find_bytes n (item_fields it)))"
    and "getVarintField (enc_fields (item_fields it)) n = Some (Ok (find_varint n (item_fields it)))"
    if "n < 32" for n
    using that assms(2) item_fields_ok by simp_all
  then show ?thesis using assms(1)
    by (cases it) (auto simp: decodeOneOf_def copyBytesField_def opt_defs split: option.splits if_splits)
qed

lemma drop_bit_field_tag: "n < 32 \<Longrightarrow> drop_bit 3 (field_tag n OR 2) = of_nat n"
proof (rule bit_eqI)
  fix k
  assume n: "n < 32"
  then have "take_bit 5 n = n" by (simp add: take_bit_nat_eq_self)
  then have "bit n k \<Longrightarrow> k < 5" by (metis bit_take_bit_iff)
  then show "bit (drop_bit 3 (field_tag n OR 2)) k = bit (of_nat n :: byte) k"
    by (auto simp: bit_simps bit_field_tag bit_2_iff bit_of_nat_iff)
qed

lemma item_type_less: "0 < item_type it" "item_type it < 32"
  by (cases it; simp)+

lemma decodeEnvelope_item:
  assumes "item_ok it" and "item_small it"
  shows "decodeEnvelope (item_body it) = Some (Ok it)"
proof -
  let ?b = "enc_fields (item_fields it)"
  have buf: "item_body it = [] @ enc_field (BField (item_type it) ?b) @ []" by (simp add: item_body_def)
  have small: "length (item_body it) < 2 ^ 62" using assms(2) by (simp add: item_small_def)
  note at = bytes_field_at [OF buf small]
  have len: "length (item_body it) = 1 + length (PutUvarint (of_nat (length ?b))) + length ?b"
    by (simp add: item_body_def appendBytesField_def)
  have tl: "tl (item_body it) = PutUvarint (of_nat (length ?b)) @ ?b"
    and hd: "hd (item_body it) = field_tag (item_type it) OR 2"
    by (simp_all add: item_body_def appendBytesField_def)
  have drop: "drop (Suc (length (PutUvarint (of_nat (length ?b) :: u64)))) (item_body it) = ?b"
    by (simp add: item_body_def appendBytesField_def)
  have "decodeOneOf (of_nat (item_type it)) ?b = Some (Ok it)"
    using assms(1) small len by (intro decodeOneOf_item) auto
  moreover have "drop_bit 3 (field_tag (item_type it) OR 2) = of_nat (item_type it)"
    using item_type_less by (intro drop_bit_field_tag)
  ultimately show ?thesis
    using at(3,4,7) len drop
    by (simp add: decodeEnvelope_def hd tl nat_add_distrib appendBytesField_def)
qed

subsection \<open>One item\<close>

lemma length_item_body: "0 < length (item_body it)"
  by (simp add: item_body_def appendBytesField_def)

lemma Next_loop_item:
  assumes "item_ok it" and "item_small it" and "sr_in s = item_wire it @ rest"
  shows "Next_loop s = Some (Item it, s\<lparr>sr_in := rest, sr_lastItemBytes := int (length (item_wire it))\<rparr>)"
proof -
  let ?n = "of_nat (length (item_body it)) :: u64"
  have un: "unat ?n = length (item_body it)"
    using assms(2) by (intro unat_u64_of_nat) (simp add: item_small_def)
  have "?n \<noteq> 0" and "\<not> maxEnvelopeBytes < ?n"
    using un length_item_body assms(2)
    by (auto simp: item_small_def maxEnvelopeBytes_def word_less_nat_alt simp flip: unat_eq_0)
  then show ?thesis
    using assms decodeEnvelope_item [OF assms(1,2)] un
    by (simp add: Next_loop.simps [of s] item_wire_def ReadFull_def uvarintLen_correct)
qed

lemma Next_loop_empty:
  "sr_in s = 0 # rest \<Longrightarrow> Next_loop s = Next_loop (advancePin 1 (s\<lparr>sr_in := rest\<rparr>))"
  using ReadUvarint_PutUvarint [of 0 rest]
  by (simp add: Next_loop.simps [of s] PutUvarint.simps)

lemma Next_loop_EOF: "sr_in s = [] \<Longrightarrow> Next_loop s = Some (NextEOF, s)"
  by (simp add: Next_loop.simps [of s] ReadUvarint_def ReadUvarint_loop.simps)

subsection \<open>Progress and the eviction pin\<close>

text \<open>
  \<open>sr_pos s0 s\<close>: how many bytes of \<open>s0\<close>'s input \<open>s\<close> has consumed; \<open>sr_pin\<close>: how far the pin
  has been advanced.
\<close>

definition sr_pin :: "snapReader \<Rightarrow> int" where
  "sr_pin s = sum_list (sr_advances s)"

lemma advancePin_simps [simp, frame_simps]:
  "sr_in (advancePin n s) = sr_in s" "sr_pinner (advancePin n s) = sr_pinner s"
  "sr_lastItemBytes (advancePin n s) = sr_lastItemBytes s"
  "sr_pin (advancePin n s) = sr_pin s + (if sr_pinner s then n else 0)"
  by (simp_all add: advancePin_def sr_pin_def)

lemma sr_pin_simps [simp, frame_simps]:
  "sr_pin (s\<lparr>sr_in := r\<rparr>) = sr_pin s" "sr_pin (s\<lparr>sr_lastItemBytes := n\<rparr>) = sr_pin s"
  by (simp_all add: sr_pin_def)

lemma Next_loop_pin:
  assumes "Next_loop s = Some (Item it, s')" and "0 \<le> sr_lastItemBytes s"
  shows "length (sr_in s') < length (sr_in s) \<and> sr_pinner s' = sr_pinner s \<and>
    sr_pin s \<le> sr_pin s' \<and> 0 < sr_lastItemBytes s' \<and>
    sr_pin s' + sr_lastItemBytes s' \<le> sr_pin s + int (length (sr_in s)) - int (length (sr_in s'))"
  using assms
proof (induction s rule: Next_loop.induct)
  case (1 s)
  obtain envLen rest where rd: "ReadUvarint (sr_in s) = Inr (envLen, rest)"
    using "1.prems"(1) by (auto simp: Next_loop.simps [of s] split: sum.splits read_error.splits)
  have len: "length rest < length (sr_in s)" using ReadUvarint_consumes [OF rd] by simp
  show ?case
  proof (cases "envLen = 0")
    case True
    with "1.prems" rd have "Next_loop (advancePin 1 (s\<lparr>sr_in := rest\<rparr>)) = Some (Item it, s')"
      by (simp add: Next_loop.simps [of s])
    from "1.IH" [OF rd refl True this] "1.prems"(2) len show ?thesis by auto
  next
    case False
    with "1.prems" rd obtain buf rest' where rf: "ReadFull (unat envLen) rest = Inr (buf, rest')"
      and s': "s' = s\<lparr>sr_in := rest', sr_lastItemBytes := int (uvarintLen envLen) + int (unat envLen)\<rparr>"
      by (auto simp: Next_loop.simps [of s] split: if_splits sum.splits option.splits outcome.splits)
    from rf have "length rest = unat envLen + length rest'" by (auto simp: ReadFull_def split: if_splits)
    moreover have "uvarintLen envLen + length rest \<le> length (sr_in s)" by (rule uvarintLen_minimal [OF rd])
    moreover have "0 < uvarintLen envLen" by (simp add: uvarintLen.simps [of envLen])
    ultimately show ?thesis using len by (simp add: s' del: of_nat_unat)
  qed
qed

lemma Next_pin:
  assumes "Next s = Some (Item it, s')" and "0 \<le> sr_lastItemBytes s" and "sr_pinner s"
  shows "length (sr_in s') < length (sr_in s) \<and> sr_pinner s' \<and>
    sr_pin s + sr_lastItemBytes s \<le> sr_pin s' \<and> 0 < sr_lastItemBytes s' \<and>
    sr_pin s' + sr_lastItemBytes s' \<le>
      sr_pin s + sr_lastItemBytes s + int (length (sr_in s)) - int (length (sr_in s'))"
proof (cases "0 < sr_lastItemBytes s")
  case True
  with assms show ?thesis
    using Next_loop_pin [of "(advancePin (sr_lastItemBytes s) s)\<lparr>sr_lastItemBytes := 0\<rparr>" it s']
    by (auto simp: Next_def)
next
  case False
  with assms show ?thesis using Next_loop_pin [of s it s'] by (auto simp: Next_def)
qed

subsection \<open>Whole streams\<close>

text \<open>Calling \<open>Next\<close> until it stops returning items, as every consumer of the reader does.\<close>

lemma Next_loop_shrinks:
  "Next_loop s = Some (Item it, s') \<Longrightarrow> length (sr_in s') < length (sr_in s)"
proof (induction s rule: Next_loop.induct)
  case (1 s)
  obtain envLen rest where rd: "ReadUvarint (sr_in s) = Inr (envLen, rest)"
    using "1.prems"(1) by (auto simp: Next_loop.simps [of s] split: sum.splits read_error.splits)
  have len: "length rest < length (sr_in s)" using ReadUvarint_consumes [OF rd] by simp
  show ?case
  proof (cases "envLen = 0")
    case True
    with "1.prems" rd have "Next_loop (advancePin 1 (s\<lparr>sr_in := rest\<rparr>)) = Some (Item it, s')"
      by (simp add: Next_loop.simps [of s])
    from "1.IH" [OF rd refl True this] len show ?thesis by simp
  next
    case False
    with "1.prems" rd len show ?thesis
      by (auto simp: Next_loop.simps [of s] ReadFull_def split: if_splits sum.splits option.splits outcome.splits)
  qed
qed

lemma Next_shrinks: "Next s = Some (Item it, s') \<Longrightarrow> length (sr_in s') < length (sr_in s)"
  unfolding Next_def by (drule Next_loop_shrinks) (auto split: if_splits)

function readItems :: "snapReader \<Rightarrow> (snapItem list \<times> next_result) option" where
  "readItems s =
     (case Next s of
        None \<Rightarrow> None
      | Some (Item it, s') \<Rightarrow> map_option (\<lambda>(its, r). (it # its, r)) (readItems s')
      | Some (r, s') \<Rightarrow> Some ([], r))"
  by pat_completeness auto
termination
  by (relation "measure (\<lambda>s. length (sr_in s))") (auto dest: Next_shrinks)

declare readItems.simps [simp del]

text \<open>A wire stream: encoded items with empty envelopes anywhere between them.\<close>

fun stream_wire :: "snapItem option list \<Rightarrow> bytes" where
  "stream_wire [] = []"
| "stream_wire (None # xs) = 0 # stream_wire xs"
| "stream_wire (Some it # xs) = item_wire it @ stream_wire xs"

fun stream_items :: "snapItem option list \<Rightarrow> snapItem list" where
  "stream_items [] = []"
| "stream_items (None # xs) = stream_items xs"
| "stream_items (Some it # xs) = it # stream_items xs"

lemma readItems_stream_aux:
  assumes "\<forall>it \<in> set (stream_items xs). item_ok it \<and> item_small it" and "sr_in s = stream_wire xs"
  shows "(case Next_loop s of None \<Rightarrow> None
      | Some (Item it, s') \<Rightarrow> map_option (\<lambda>(its, r). (it # its, r)) (readItems s')
      | Some (r, s') \<Rightarrow> Some ([], r)) = Some (stream_items xs, NextEOF)"
  using assms
proof (induction xs arbitrary: s rule: stream_wire.induct)
  case 1
  then show ?case by (simp add: Next_loop_EOF)
next
  case (2 xs)
  from "2.IH" [of "advancePin 1 (s\<lparr>sr_in := stream_wire xs\<rparr>)"] "2.prems" show ?case
    by (simp add: Next_loop_empty)
next
  case (3 it xs)
  let ?s = "s\<lparr>sr_in := stream_wire xs, sr_lastItemBytes := int (length (item_wire it))\<rparr>"
  have "Next_loop s = Some (Item it, ?s)" using "3.prems" by (intro Next_loop_item) auto
  moreover have "readItems ?s = Some (stream_items xs, NextEOF)"
    using "3.IH" "3.prems" by (simp add: readItems.simps [of ?s] Next_def del: split_paired_All)
  ultimately show ?case by simp
qed

lemma readItems_stream:
  assumes "\<forall>it \<in> set (stream_items xs). item_ok it \<and> item_small it"
  shows "readItems (newSnapReader (stream_wire xs) pinner) = Some (stream_items xs, NextEOF)"
  using readItems_stream_aux [OF assms, of "newSnapReader (stream_wire xs) pinner"]
  by (subst readItems.simps) (simp add: Next_def newSnapReader_def)

subsection \<open>Re-reading the last item\<close>

lemma Next_loop_reread:
  assumes "Next_loop s = Some (Item it, s')"
  shows "\<exists>k < length (sr_in s). sr_pin s' \<le> sr_pin s + int k \<and>
    (\<exists>m. sr_in s' = drop m (sr_in s)) \<and>
    (\<forall>b. \<exists>s2. Next_loop (newSnapReader (drop k (sr_in s)) b) = Some (Item it, s2) \<and> sr_in s2 = sr_in s')"
  using assms
proof (induction s rule: Next_loop.induct)
  case (1 s)
  obtain envLen rest where rd: "ReadUvarint (sr_in s) = Inr (envLen, rest)"
    using "1.prems"(1) by (auto simp: Next_loop.simps [of s] split: sum.splits read_error.splits)
  let ?d = "length (sr_in s) - length rest"
  have len: "length rest < length (sr_in s)" and suf: "rest = drop ?d (sr_in s)"
    using ReadUvarint_consumes [OF rd] by auto
  show ?case
  proof (cases "envLen = 0")
    case True
    let ?s = "advancePin 1 (s\<lparr>sr_in := rest\<rparr>)"
    from True "1.prems" rd have "Next_loop ?s = Some (Item it, s')" by (simp add: Next_loop.simps [of s])
    from "1.IH" [OF rd refl True this] obtain k m where k: "k < length rest" "sr_pin s' \<le> sr_pin ?s + int k"
      "sr_in s' = drop m rest"
      "\<forall>b. \<exists>s2. Next_loop (newSnapReader (drop k rest) b) = Some (Item it, s2) \<and> sr_in s2 = sr_in s'"
      by auto
    have "drop k rest = drop (k + ?d) (sr_in s)" "drop m rest = drop (m + ?d) (sr_in s)"
      by (subst suf, simp)+
    with k len show ?thesis by (intro exI [of _ "k + ?d"]) (auto split: if_splits)
  next
    case False
    with "1.prems" rd obtain buf rest' where rf: "ReadFull (unat envLen) rest = Inr (buf, rest')"
      and cap: "\<not> maxEnvelopeBytes < envLen" and dec: "decodeEnvelope buf = Some (Ok it)"
      and s': "s' = s\<lparr>sr_in := rest', sr_lastItemBytes := int (uvarintLen envLen) + int (unat envLen)\<rparr>"
      by (auto simp: Next_loop.simps [of s] split: if_splits sum.splits option.splits outcome.splits)
    from rf have "rest' = drop (unat envLen + ?d) (sr_in s)"
      by (subst (asm) suf) (auto simp: ReadFull_def split: if_splits)
    moreover have "\<exists>s2. Next_loop (newSnapReader (sr_in s) b) = Some (Item it, s2) \<and> sr_in s2 = rest'" for b
      using False rd rf cap dec by (subst Next_loop.simps) (simp add: newSnapReader_def)
    ultimately show ?thesis using len by (intro exI [of _ 0]) (auto simp: s')
  qed
qed

text \<open>The states a reader on \<open>r\<close> goes through, with the item it returned last.\<close>

inductive reader_at :: "bytes \<Rightarrow> snapReader \<Rightarrow> snapItem \<Rightarrow> bool" where
  first: "Next (newSnapReader r True) = Some (Item it, s) \<Longrightarrow> reader_at r s it"
| again: "reader_at r s it \<Longrightarrow> Next s = Some (Item it', s') \<Longrightarrow> reader_at r s' it'"

lemma reader_at_inv:
  "reader_at r s it \<Longrightarrow>
   sr_pinner s \<and> 0 < sr_lastItemBytes s \<and> sr_in s = drop (length r - length (sr_in s)) r \<and>
   length (sr_in s) < length r \<and>
   sr_pin s + sr_lastItemBytes s \<le> int (length r) - int (length (sr_in s))"
proof (induction rule: reader_at.induct)
  case (first r it s)
  then have "Next_loop (newSnapReader r True) = Some (Item it, s)" by (simp add: Next_def newSnapReader_def)
  then obtain m where "sr_in s = drop m r"
    using Next_loop_reread [of "newSnapReader r True" it s] by (auto simp: newSnapReader_def)
  with drop_length_suffix [OF this] Next_pin [OF first] show ?case
    by (simp add: newSnapReader_def sr_pin_def)
next
  case (again r s it it' s')
  let ?s = "(advancePin (sr_lastItemBytes s) s)\<lparr>sr_lastItemBytes := 0\<rparr>"
  have "Next_loop ?s = Some (Item it', s')" using again by (simp add: Next_def)
  then obtain m where "sr_in s' = drop m (sr_in s)"
    using Next_loop_reread [of ?s it' s'] by auto
  moreover have "sr_in s = drop (length r - length (sr_in s)) r" using again.IH by blast
  ultimately have "sr_in s' = drop (m + (length r - length (sr_in s))) r" by (metis drop_drop)
  from drop_length_suffix [OF this] Next_pin [OF again.hyps(2)] again.IH show ?case by auto
qed

section \<open>Hostile envelopes\<close>

text \<open>An inner length that overruns its envelope makes the slice expression panic.\<close>

lemma decodeEnvelope_overrun:
  assumes "hd buf AND 7 = 2" and "Uvarint (tl buf) = (innerLen, n)" and "0 < n"
    and "sint innerLen < 0 \<or> int (length buf) < 1 + n + sint innerLen"
    and "length buf < 2 ^ 62"
  shows "decodeEnvelope buf = Some Panic"
proof -
  have n: "n \<le> 10" using Uvarint_bound [OF assms(2,3)] by simp
  let ?x = "1 + n + sint innerLen"
  have b: "- (2 ^ 63) \<le> sint innerLen" "sint innerLen < 2 ^ 63"
    using sint_greater_eq [of innerLen] sint_less [of innerLen] by simp_all
  have "\<not> (1 + n \<le> wrap64 ?x \<and> wrap64 ?x \<le> int (length buf))"
  proof (cases "?x < 2 ^ 63")
    case True
    then have "wrap64 ?x = ?x" using b assms(3) by (intro wrap64_id) auto
    then show ?thesis using assms(4) by linarith
  next
    case False
    then have "wrap64 ?x = ?x - 2 ^ 64" using b n by (intro wrap64_over) auto
    then show ?thesis using b n by simp
  qed
  then show ?thesis using assms(1-3) by (auto simp: decodeEnvelope_def Let_def)
qed

text \<open>
  A skipped field whose length is \<open>-11\<close> as an \<open>int\<close> moves the cursor back to its own tag: the
  eleven bytes of the tag and the length are read again for ever.
\<close>

definition loop_field :: bytes where
  "loop_field = [0x12, 0xf5, 0xff, 0xff, 0xff, 0xff, 0xff, 0xff, 0xff, 0xff, 0x01]"

lemma loop_field_Uvarint: "Uvarint (drop 1 (loop_field @ rest)) = (- 11, 10)"
  by (simp add: loop_field_def Uvarint_def)

lemma getBytesField_loop_field:
  "getBytesField_loop (loop_field @ rest) (field_tag 1 OR 2) 0 = None"
proof (rule ccontr)
  assume "getBytesField_loop (loop_field @ rest) (field_tag 1 OR 2) 0 \<noteq> None"
  then obtain r where ret: "getBytesField_loop (loop_field @ rest) (field_tag 1 OR 2) 0 = Some r" by blast
  let ?P = "\<lambda>buf want i (r :: (unit, bytes option) outcome).
    \<not> (buf = loop_field @ rest \<and> want = field_tag 1 OR 2 \<and> i = (0 :: int))"
  have "?P (loop_field @ rest) (field_tag 1 OR 2) 0 r"
  proof (rule getBytesField_loop.raw_induct [where P = ?P, OF _ ret], goal_cases)
    case (1 f buf want i r)
    show ?case
    proof
      assume eq: "buf = loop_field @ rest \<and> want = field_tag 1 OR 2 \<and> i = 0"
      then have "f buf want 0 = Some r"
        using 1(2) loop_field_Uvarint [of rest]
        by (simp add: loop_field_def wrap64_def field_tag_def Let_def)
      with 1(1) eq show False by blast
    qed
  qed
  then show False by simp
qed

section \<open>Properties\<close>

text \<open>
  C24. A snapshot stream, that is any sequence of encoded items with empty envelopes
  anywhere between them, is decoded to exactly the items encoded, in order, and then ends
  with \<open>io.EOF\<close>: no error, no panic, no lost or invented item.  The items must be within the
  64 MB envelope cap and in the form proto3 can represent (absent and empty bytes coincide).
\<close>

theorem snapReader_decodes_stream:
  assumes "\<forall>it \<in> set (stream_items xs). item_ok it \<and> item_small it"
  shows "readItems (newSnapReader (stream_wire xs) pinner) = Some (stream_items xs, NextEOF)"
  using assms by (rule readItems_stream)

theorem snapReader_decodes_stream_witness:
  "readItems (newSnapReader (stream_wire [Some (StoreItem [0x61]), None, Some (IAVLItem (Some [1]) (Some []) 5 0)]) True)
     = Some ([StoreItem [0x61], IAVLItem (Some [1]) (Some []) 5 0], NextEOF)"
  using snapReader_decodes_stream
    [of "[Some (StoreItem [0x61]), None, Some (IAVLItem (Some [1]) (Some []) 5 0)]" True]
  by (simp add: item_small_def item_body_def appendBytesField_def appendUvarintField_def enc_fields_def
      opt_defs PutUvarint.simps)

text \<open>
  C25. The eviction pin (\<open>AdvancePin\<close>) a reader has asked for, whatever bytes it is fed, never
  passes the first byte of the item it returned last: there is an offset at or after the pin
  from which a fresh reader returns that same item again and then stands where this one does.
\<close>

theorem snapReader_pin_keeps_last_item:
  assumes "reader_at r s it"
  shows "\<exists>k. sr_pin s \<le> int k \<and> k < length r \<and>
    (\<forall>b. \<exists>s2. Next (newSnapReader (drop k r) b) = Some (Item it, s2) \<and> sr_in s2 = sr_in s)"
  using assms
proof cases
  case first
  then have "Next_loop (newSnapReader r True) = Some (Item it, s)" by (simp add: Next_def newSnapReader_def)
  from Next_loop_reread [OF this] show ?thesis
    by (auto simp: Next_def newSnapReader_def sr_pin_def)
next
  case (again s0 it0)
  note inv = reader_at_inv [OF again(1)]
  let ?s = "(advancePin (sr_lastItemBytes s0) s0)\<lparr>sr_lastItemBytes := 0\<rparr>"
  let ?d = "length r - length (sr_in s0)"
  have "Next_loop ?s = Some (Item it, s)" using again(2) inv by (simp add: Next_def)
  from Next_loop_reread [OF this] inv obtain k where k: "k < length (sr_in s0)"
    "sr_pin s \<le> sr_pin s0 + sr_lastItemBytes s0 + int k"
    "\<forall>b. \<exists>s2. Next_loop (newSnapReader (drop k (sr_in s0)) b) = Some (Item it, s2) \<and> sr_in s2 = sr_in s"
    by auto
  have "drop (k + ?d) r = drop k (sr_in s0)" using inv by (metis drop_drop)
  with k inv show ?thesis
    by (intro exI [of _ "k + ?d"]) (auto simp: Next_def newSnapReader_def)
qed

theorem snapReader_pin_keeps_last_item_witness:
  "\<exists>k. sr_pin \<lparr>sr_in = [], sr_pinner = True, sr_lastItemBytes = 6, sr_advances = [1]\<rparr> \<le> int k \<and> k < length [0, 5, 10, 3, 10, 1, 97 :: byte] \<and>
    (\<forall>b. \<exists>s2. Next (newSnapReader (drop k [0, 5, 10, 3, 10, 1, 97]) b) = Some (Item (StoreItem [97]), s2) \<and> sr_in s2 = [])"
proof -
  have "item_wire (StoreItem [97]) = [5, 10, 3, 10, 1, 97]"
    by (simp add: item_wire_def item_body_def appendBytesField_def enc_fields_def opt_defs field_tag_def
        PutUvarint.simps)
  then have "Next_loop \<lparr>sr_in = [5, 10, 3, 10, 1, 97], sr_pinner = True, sr_lastItemBytes = 0, sr_advances = [1]\<rparr> =
      Some (Item (StoreItem [97]), \<lparr>sr_in = [], sr_pinner = True, sr_lastItemBytes = 6, sr_advances = [1]\<rparr>)"
    using Next_loop_item [of "StoreItem [97]"
      "\<lparr>sr_in = [5, 10, 3, 10, 1, 97], sr_pinner = True, sr_lastItemBytes = 0, sr_advances = [1]\<rparr>" "[]"]
    by (simp add: item_small_def item_body_def appendBytesField_def enc_fields_def opt_defs PutUvarint.simps)
  then have "Next (newSnapReader [0, 5, 10, 3, 10, 1, 97] True) =
      Some (Item (StoreItem [97]), \<lparr>sr_in = [], sr_pinner = True, sr_lastItemBytes = 6, sr_advances = [1]\<rparr>)"
    by (simp add: Next_def newSnapReader_def Next_loop_empty advancePin_def)
  from snapReader_pin_keeps_last_item [OF reader_at.first [OF this]] show ?thesis by simp
qed

text \<open>
  C26. \<open>Next\<close> does not check the inner length against the envelope: an envelope of any size
  within the cap whose oneof length is negative as an \<open>int\<close>, or runs past the envelope, makes
  the slice expression panic instead of returning an error.
\<close>

theorem snapReader_inner_length_panics:
  assumes "body \<noteq> []" and "length body \<le> 64000000"
    and "hd body AND 7 = 2" and "Uvarint (tl body) = (innerLen, n)" and "0 < n"
    and "sint innerLen < 0 \<or> int (length body) < 1 + n + sint innerLen"
  shows "Next (newSnapReader (PutUvarint (of_nat (length body)) @ body @ rest) pinner) =
    Some (NextPanic, newSnapReader rest pinner)"
proof -
  let ?n = "of_nat (length body) :: u64"
  have un: "unat ?n = length body" using assms(2) by (intro unat_u64_of_nat) simp
  have "?n \<noteq> 0" and "\<not> maxEnvelopeBytes < ?n"
    using un assms(1,2) by (auto simp: maxEnvelopeBytes_def word_less_nat_alt simp flip: unat_eq_0)
  moreover have "decodeEnvelope body = Some Panic" using assms by (intro decodeEnvelope_overrun) auto
  ultimately show ?thesis
    using un by (simp add: Next_def newSnapReader_def Next_loop.simps ReadFull_def)
qed

theorem snapReader_inner_length_panics_witness:
  "Next (newSnapReader (PutUvarint 3 @ [0x0a, 5, 0x61] @ []) False) = Some (NextPanic, newSnapReader [] False)"
  using snapReader_inner_length_panics [of "[0x0a, 5, 0x61]" 5 1 "[]" False]
  by (simp add: Uvarint_def)

text \<open>
  C27. Nor do the field scanners bound a skipped length: this 13-byte envelope, a store item
  whose body starts with a field of length \<open>-11\<close>, sends \<open>getBytesField\<close> round its loop for
  ever, and \<open>Next\<close> with it, whatever follows.
\<close>

theorem snapReader_hangs:
  "Next (newSnapReader ([13, 0x0a, 11] @ loop_field @ rest) pinner) = None"
proof -
  have "getBytesField loop_field 1 = None"
    using getBytesField_loop_field [of "[]"] by (simp add: getBytesField_def)
  moreover have "decodeEnvelope ([0x0a, 11] @ loop_field) = decodeOneOf 1 loop_field"
    by (simp add: decodeEnvelope_def Uvarint_def wrap64_def loop_field_def drop_bit_eq_div)
  ultimately have "decodeEnvelope ([0x0a, 11] @ loop_field) = None" by (simp add: decodeOneOf_def)
  moreover have "ReadUvarint (13 # xs) = Inr (13, xs)" for xs
    using ReadUvarint_PutUvarint [of 13 xs] by (simp add: PutUvarint.simps)
  moreover have "length loop_field = 11" by (simp add: loop_field_def)
  ultimately show ?thesis
    by (simp add: Next_def newSnapReader_def Next_loop.simps ReadFull_def maxEnvelopeBytes_def)
qed

end
