(* ===== verification/StoreImporter.thy ===== *)
theory StoreImporter
  imports SnapProto
begin

text \<open>
  The stack-based store importer of \<open>internal/snapshotimport/importer.go\<close> (sequential path):
  \<open>nextNonce\<close> with its one-entry cache, \<open>addNode\<close>, \<open>finalize\<close>.  The database callbacks \<open>set\<close>
  and \<open>setFast\<close> are the arguments \<open>put\<close> and \<open>putFast\<close>.  The lemmas relate a run over a post-order stream to the tree
  it serialises.
\<close>

section \<open>State\<close>

record frame =
  fr_hash :: bytes
  fr_size :: i64
  fr_version :: i64
  fr_nonce :: u32
  fr_height :: i8

text \<open>
  \<open>st_nonces\<close> is Go's map read with its zero default; the top of \<open>st_stack\<close> comes first.
\<close>

record storeImporter =
  st_storeName :: bytes
  st_storePrefix :: bytes
  st_nonces :: "i64 \<Rightarrow> u32"
  st_nonceCacheVersion :: i64
  st_nonceCacheCounter :: u32
  st_stack :: "frame list"
  st_height :: i64
  st_lastIavlBytes :: bytes
  st_itemCount :: u64
  st_leafCount :: u64
  st_innerCount :: u64

definition newStoreImporter :: "bytes \<Rightarrow> i64 \<Rightarrow> storeImporter" where
  "newStoreImporter name height =
     \<lparr>st_storeName = name, st_storePrefix = storePrefix name, st_nonces = (\<lambda>_. 0),
      st_nonceCacheVersion = 0, st_nonceCacheCounter = 0, st_stack = [], st_height = height,
      st_lastIavlBytes = [], st_itemCount = 0, st_leafCount = 0, st_innerCount = 0\<rparr>"

datatype 'e import_error =
    SetLeaf 'e | SetFast 'e | NotSiblingPair | SetInner 'e
  | SetEmptyRoot 'e | SetRoot 'e | SetRedirect 'e | SetMarker 'e | ManyRoots nat

text \<open>Wrapping a callback's error, as \<open>fmt.Errorf\<close> with a cause does.\<close>

fun wrap_err :: "('e \<Rightarrow> 'f) \<Rightarrow> 'e + 'a \<Rightarrow> ('a \<Rightarrow> 'f + 'b) \<Rightarrow> 'f + 'b" where
  "wrap_err w (Inl e) f = Inl (w e)"
| "wrap_err w (Inr x) f = f x"

lemma wrap_err_Inr_iff: "wrap_err w m f = Inr y \<longleftrightarrow> (\<exists>x. m = Inr x \<and> f x = Inr y)"
  by (cases m) auto

lemma wrap_err_Inl_iff: "wrap_err w m f = Inl e \<longleftrightarrow> (\<exists>d. m = Inl d \<and> e = w d) \<or> (\<exists>x. m = Inr x \<and> f x = Inl e)"
  by (cases m) auto

type_synonym ('db, 'e) setter = "'db \<Rightarrow> bytes \<Rightarrow> bytes \<Rightarrow> 'e + 'db"

section \<open>Nonces\<close>

definition nextNonce :: "storeImporter \<Rightarrow> i64 \<Rightarrow> u32 \<times> storeImporter" where
  "nextNonce s version =
     (let s =
        (if version \<noteq> st_nonceCacheVersion s then
           let s = (if st_nonceCacheVersion s \<noteq> 0
                    then s\<lparr>st_nonces := (st_nonces s)(st_nonceCacheVersion s := st_nonceCacheCounter s)\<rparr>
                    else s);
               cur = st_nonces s version
           in s\<lparr>st_nonceCacheVersion := version, st_nonceCacheCounter := (if cur = 0 then 1 else cur)\<rparr>
         else s);
        c = st_nonceCacheCounter s + 1
      in (c, s\<lparr>st_nonceCacheCounter := c\<rparr>))"

section \<open>Nodes\<close>

definition closesPair :: "storeImporter \<Rightarrow> i8 \<Rightarrow> bool" where
  "closesPair s height =
     (case st_stack s of
        r # l # _ \<Rightarrow> fr_height r <s height \<and> fr_height l <s height
      | _ \<Rightarrow> False)"

definition addLeaf :: "('db, 'e) setter \<Rightarrow> ('db, 'e) setter \<Rightarrow> storeImporter \<Rightarrow> 'db \<Rightarrow>
    i64 \<Rightarrow> bytes \<Rightarrow> bytes \<Rightarrow> 'e import_error + storeImporter \<times> 'db" where
  "addLeaf put putFast s db version key v =
     (let (nonce, s) = nextNonce s version;
          h = hashLeaf version key v;
          nb = encodeLeafNodeInto [] key v
      in wrap_err SetLeaf (put db (nodeDBKeyInto [] (st_storePrefix s) version nonce) nb) (\<lambda>db.
         let s = s\<lparr>st_lastIavlBytes := nb\<rparr> in
         wrap_err SetFast
           (putFast db (fastDBKeyInto [] (st_storePrefix s) key) (encodeFastNodeInto [] version v)) (\<lambda>db.
         Inr (s\<lparr>st_stack :=
                  \<lparr>fr_hash = h, fr_size = 1, fr_version = version, fr_nonce = nonce, fr_height = 0\<rparr> # st_stack s,
                st_leafCount := st_leafCount s + 1\<rparr>, db))))"

definition addInner :: "('db, 'e) setter \<Rightarrow> storeImporter \<Rightarrow> 'db \<Rightarrow>
    i8 \<Rightarrow> i64 \<Rightarrow> bytes \<Rightarrow> 'e import_error + storeImporter \<times> 'db" where
  "addInner put s db height version key =
     (if \<not> closesPair s height then Inl NotSiblingPair
      else case st_stack s of
        right # left # rest \<Rightarrow>
          let s = s\<lparr>st_stack := rest\<rparr>;
              sz = fr_size left + fr_size right;
              (nonce, s) = nextNonce s version;
              h = hashInner version height sz (fr_hash left) (fr_hash right);
              nb = encodeInnerNodeInto [] height sz key h
                     (fr_version left) (fr_nonce left) (fr_version right) (fr_nonce right)
          in wrap_err SetInner (put db (nodeDBKeyInto [] (st_storePrefix s) version nonce) nb) (\<lambda>db.
             let s = s\<lparr>st_lastIavlBytes := nb\<rparr> in
             Inr (s\<lparr>st_stack :=
                      \<lparr>fr_hash = h, fr_size = sz, fr_version = version, fr_nonce = nonce, fr_height = height\<rparr>
                        # st_stack s,
                    st_innerCount := st_innerCount s + 1\<rparr>, db))
      | _ \<Rightarrow> Inl NotSiblingPair)"

definition addNode :: "('db, 'e) setter \<Rightarrow> ('db, 'e) setter \<Rightarrow> storeImporter \<Rightarrow> 'db \<Rightarrow>
    i8 \<Rightarrow> i64 \<Rightarrow> bytes \<Rightarrow> bytes \<Rightarrow> 'e import_error + storeImporter \<times> 'db" where
  "addNode put putFast s db height version key v =
     (let s = s\<lparr>st_itemCount := st_itemCount s + 1\<rparr> in
      if height = 0 then addLeaf put putFast s db version key v
      else addInner put s db height version key)"

section \<open>Closing a store\<close>

definition emptyIAVLTreeHash :: bytes where
  "emptyIAVLTreeHash = sha256 []"

definition storageVersionValue :: "i64 \<Rightarrow> bytes" where
  "storageVersionValue height =
     fastStorageVersionValue @ fastStorageVersionDelimiter @ fmt_int (sint height)"

definition writeStorageVersionMarker :: "('db, 'e) setter \<Rightarrow> storeImporter \<Rightarrow> 'db \<Rightarrow> 'e import_error + 'db" where
  "writeStorageVersionMarker put s db =
     wrap_err SetMarker
       (put db (metadataDBKeyInto [] (st_storePrefix s) (go_string ''storage_version''))
          (storageVersionValue (st_height s))) Inr"

definition redirectVal :: "i64 \<Rightarrow> bytes" where
  "redirectVal version = go_string ''s'' @ be64 version @ be32 1"

definition finalize :: "('db, 'e) setter \<Rightarrow> storeImporter \<Rightarrow> 'db \<Rightarrow> 'e import_error + bytes \<times> 'db" where
  "finalize put s db =
     (case st_stack s of
        [] \<Rightarrow>
          wrap_err SetEmptyRoot (put db (nodeDBKeyInto [] (st_storePrefix s) (st_height s) 1) []) (\<lambda>db.
          case writeStorageVersionMarker put s db of
            Inl e \<Rightarrow> Inl e
          | Inr db \<Rightarrow> Inr (emptyIAVLTreeHash, db))
      | [root] \<Rightarrow>
          wrap_err SetRoot
            (put db (nodeDBKeyInto [] (st_storePrefix s) (fr_version root) 1) (st_lastIavlBytes s)) (\<lambda>db.
          wrap_err SetRedirect
            (if fr_version root \<noteq> st_height s
             then put db (nodeDBKeyInto [] (st_storePrefix s) (st_height s) 1) (redirectVal (fr_version root))
             else Inr db) (\<lambda>db.
          case writeStorageVersionMarker put s db of
            Inl e \<Rightarrow> Inl e
          | Inr db \<Rightarrow> Inr (fr_hash root, db)))
      | fs \<Rightarrow> Inl (ManyRoots (length fs)))"

section \<open>The nonce cache implements per-version counters\<close>

text \<open>
  The specification: one counter per version, starting at 1.  \<open>counter s v\<close> is the nonce last
  handed out for \<open>v\<close>, read through the cache.
\<close>

definition counter :: "storeImporter \<Rightarrow> i64 \<Rightarrow> u32" where
  "counter s v =
     (if v = st_nonceCacheVersion s then st_nonceCacheCounter s
      else if st_nonces s v = 0 then 1 else st_nonces s v)"

text \<open>
  Version 0 doubles as the cache's empty mark, so the refinement is for the other versions.
  A counter must not have wrapped to 0, which would read as unset.
\<close>

definition live_cache :: "storeImporter \<Rightarrow> bool" where
  "live_cache s \<longleftrightarrow> (st_nonceCacheVersion s \<noteq> 0 \<longrightarrow> st_nonceCacheCounter s \<noteq> 0)"

lemma nextNonce_value: "v \<noteq> 0 \<Longrightarrow> fst (nextNonce s v) = counter s v + 1"
  by (cases "v = st_nonceCacheVersion s") (simp_all add: nextNonce_def counter_def Let_def)

lemma nextNonce_same: "counter (snd (nextNonce s v)) v = fst (nextNonce s v)"
  by (simp add: nextNonce_def counter_def Let_def)

lemma nextNonce_other:
  "w \<noteq> 0 \<Longrightarrow> w \<noteq> v \<Longrightarrow> live_cache s \<Longrightarrow> counter (snd (nextNonce s v)) w = counter s w"
  by (cases "v = st_nonceCacheVersion s"; cases "w = st_nonceCacheVersion s")
    (simp_all add: nextNonce_def counter_def live_cache_def Let_def)

lemma nextNonce_live: "fst (nextNonce s v) \<noteq> 0 \<Longrightarrow> live_cache (snd (nextNonce s v))"
  by (simp add: nextNonce_def live_cache_def Let_def)

lemma nextNonce_frame [simp, frame_simps]:
  "st_storeName (snd (nextNonce s v)) = st_storeName s"
  "st_storePrefix (snd (nextNonce s v)) = st_storePrefix s"
  "st_stack (snd (nextNonce s v)) = st_stack s"
  "st_height (snd (nextNonce s v)) = st_height s"
  "st_lastIavlBytes (snd (nextNonce s v)) = st_lastIavlBytes s"
  "st_itemCount (snd (nextNonce s v)) = st_itemCount s"
  by (simp_all add: nextNonce_def Let_def)

lemma counter_update [simp, frame_simps]:
  "counter (s\<lparr>st_stack := x\<rparr>) = counter s" "counter (s\<lparr>st_lastIavlBytes := b\<rparr>) = counter s"
  "counter (s\<lparr>st_itemCount := c\<rparr>) = counter s" "counter (s\<lparr>st_leafCount := c\<rparr>) = counter s"
  "counter (s\<lparr>st_innerCount := c\<rparr>) = counter s"
  by (simp_all add: counter_def fun_eq_iff)

lemma live_cache_update [simp, frame_simps]:
  "live_cache (s\<lparr>st_stack := x\<rparr>) = live_cache s" "live_cache (s\<lparr>st_lastIavlBytes := b\<rparr>) = live_cache s"
  "live_cache (s\<lparr>st_itemCount := c\<rparr>) = live_cache s" "live_cache (s\<lparr>st_leafCount := c\<rparr>) = live_cache s"
  "live_cache (s\<lparr>st_innerCount := c\<rparr>) = live_cache s"
  by (simp_all add: live_cache_def)

lemma newStoreImporter_counter [simp]:
  "v \<noteq> 0 \<Longrightarrow> counter (newStoreImporter name h) v = 1" "live_cache (newStoreImporter name h)"
  by (simp_all add: newStoreImporter_def counter_def live_cache_def)

end
