(* ===== verification/ImportTree.thy ===== *)
theory ImportTree
  imports StoreImporter
begin

text \<open>
  What a run of \<open>StoreImporter\<close> means: IAVL trees, their post-order streams and Merkle roots,
  and the proof that feeding a tree's stream to \<open>addNode\<close> rebuilds the tree in the database,
  for any key-value sink that obeys the contract \<open>kv_sink\<close>.
\<close>

section \<open>Trees\<close>

datatype tree =
    Leaf i64 bytes bytes
  | Node i64 i8 bytes tree tree

fun t_height :: "tree \<Rightarrow> i8" where
  "t_height (Leaf v k x) = 0"
| "t_height (Node v h k l r) = h"

fun t_version :: "tree \<Rightarrow> i64" where
  "t_version (Leaf v k x) = v"
| "t_version (Node v h k l r) = v"

fun t_leaves :: "tree \<Rightarrow> nat" where
  "t_leaves (Leaf v k x) = 1"
| "t_leaves (Node v h k l r) = t_leaves l + t_leaves r"

fun t_hash :: "tree \<Rightarrow> bytes" where
  "t_hash (Leaf v k x) = hashLeaf v k x"
| "t_hash (Node v h k l r) = hashInner v h (of_nat (t_leaves l + t_leaves r)) (t_hash l) (t_hash r)"

fun leaf_keys :: "tree \<Rightarrow> bytes list" where
  "leaf_keys (Leaf v k x) = [k]"
| "leaf_keys (Node v h k l r) = leaf_keys l @ leaf_keys r"

fun nodes_at :: "i64 \<Rightarrow> tree \<Rightarrow> nat" where
  "nodes_at w (Leaf v k x) = (if v = w then 1 else 0)"
| "nodes_at w (Node v h k l r) = nodes_at w l + nodes_at w r + (if v = w then 1 else 0)"

fun t_size :: "tree \<Rightarrow> nat" where
  "t_size (Leaf v k x) = 1"
| "t_size (Node v h k l r) = Suc (t_size l + t_size r)"

text \<open>The exported stream: height, version, key and value of each node, children first.\<close>

type_synonym export_node = "i8 \<times> i64 \<times> bytes \<times> bytes"

fun stream :: "tree \<Rightarrow> export_node list" where
  "stream (Leaf v k x) = [(0, v, k, x)]"
| "stream (Node v h k l r) = stream l @ stream r @ [(h, v, k, [])]"

fun wf_tree :: "tree \<Rightarrow> bool" where
  "wf_tree (Leaf v k x) = (v \<noteq> 0)"
| "wf_tree (Node v h k l r) =
     (v \<noteq> 0 \<and> h \<noteq> 0 \<and> t_height l <s h \<and> t_height r <s h \<and> wf_tree l \<and> wf_tree r \<and>
      distinct (leaf_keys l @ leaf_keys r))"

lemma length_t_hash [simp]: "length (t_hash t) = 32"
  by (cases t) (simp_all add: hashLeaf_def hashInner_def)

lemma nodes_at_le: "nodes_at w t \<le> t_size t"
  by (induction t) auto

section \<open>Running the importer over a stream\<close>

fun addNodes :: "('db, 'e) setter \<Rightarrow> ('db, 'e) setter \<Rightarrow> storeImporter \<Rightarrow> 'db \<Rightarrow> export_node list \<Rightarrow>
    'e import_error + storeImporter \<times> 'db" where
  "addNodes put putFast s db [] = Inr (s, db)"
| "addNodes put putFast s db ((h, v, k, x) # ns) =
     (case addNode put putFast s db h v k x of
        Inl e \<Rightarrow> Inl e
      | Inr (s, db) \<Rightarrow> addNodes put putFast s db ns)"

lemma addNodes_append:
  "addNodes put putFast s db (xs @ ys) =
     (case addNodes put putFast s db xs of
        Inl e \<Rightarrow> Inl e
      | Inr (s, db) \<Rightarrow> addNodes put putFast s db ys)"
  by (induction xs arbitrary: s db) (auto split: sum.splits)

text \<open>Whatever both callbacks keep of the database, a run keeps.\<close>

lemma addNodes_keeps:
  assumes "\<And>db k x db'. put db k x = Inr db' \<Longrightarrow> Q db \<Longrightarrow> Q db'"
    and "\<And>db k x db'. putFast db k x = Inr db' \<Longrightarrow> Q db \<Longrightarrow> Q db'"
  shows "addNodes put putFast s db ns = Inr (s', db') \<Longrightarrow> Q db \<Longrightarrow> Q db' \<and> st_storeName s' = st_storeName s"
proof (induction ns arbitrary: s db)
  case (Cons a ns)
  obtain h v k x where a: "a = (h, v, k, x)" by (cases a)
  with Cons.prems obtain s1 db1 where
    n: "addNode put putFast s db h v k x = Inr (s1, db1)" and ns: "addNodes put putFast s1 db1 ns = Inr (s', db')"
    by (auto simp: case_sum_Inr_iff)
  from n have "Q db1 \<and> st_storeName s1 = st_storeName s"
    unfolding addNode_def addLeaf_def addInner_def Let_def case_prod_beta
    using assms(1) [OF _ Cons.prems(2)] assms(1,2)
    by (fastforce simp: wrap_err_Inr_iff split: if_splits list.splits)
  with Cons.IH [OF ns] show ?case by simp
qed simp

lemma finalize_keeps:
  assumes "\<And>db k x db'. put db k x = Inr db' \<Longrightarrow> Q db \<Longrightarrow> Q db'"
    and "finalize put s db = Inr (h, db')" and "Q db"
  shows "Q db'"
  using assms(2,3) unfolding finalize_def writeStorageVersionMarker_def
  by (fastforce simp: wrap_err_Inr_iff case_sum_Inr_iff split: list.splits if_splits dest: assms(1))

section \<open>Trees with the nonces the importer assigns\<close>

datatype ltree =
    LLeaf i64 u32 bytes bytes
  | LNode i64 u32 i8 bytes ltree ltree

fun erase :: "ltree \<Rightarrow> tree" where
  "erase (LLeaf v n k x) = Leaf v k x"
| "erase (LNode v n h k l r) = Node v h k (erase l) (erase r)"

fun l_nonce :: "ltree \<Rightarrow> u32" where
  "l_nonce (LLeaf v n k x) = n"
| "l_nonce (LNode v n h k l r) = n"

fun l_ids :: "ltree \<Rightarrow> (i64 \<times> u32) set" where
  "l_ids (LLeaf v n k x) = {(v, n)}"
| "l_ids (LNode v n h k l r) = insert (v, n) (l_ids l \<union> l_ids r)"

abbreviation l_version :: "ltree \<Rightarrow> i64" where
  "l_version t \<equiv> t_version (erase t)"

text \<open>The bytes stored for the root of a labelled tree: children by version and nonce.\<close>

fun node_bytes :: "ltree \<Rightarrow> bytes" where
  "node_bytes (LLeaf v n k x) = encodeLeafNodeInto [] k x"
| "node_bytes (LNode v n h k l r) =
     encodeInnerNodeInto [] h (of_nat (t_leaves (erase l) + t_leaves (erase r))) k
       (t_hash (erase (LNode v n h k l r))) (l_version l) (l_nonce l) (l_version r) (l_nonce r)"

definition frame_of :: "ltree \<Rightarrow> frame" where
  "frame_of t =
     \<lparr>fr_hash = t_hash (erase t), fr_size = of_nat (t_leaves (erase t)), fr_version = l_version t,
      fr_nonce = l_nonce t, fr_height = t_height (erase t)\<rparr>"

text \<open>Every node is found under its own key, every leaf also under its fast-storage key.\<close>

fun stored :: "(bytes \<Rightarrow> bytes option) \<Rightarrow> bytes \<Rightarrow> ltree \<Rightarrow> bool" where
  "stored c p (LLeaf v n k x) =
     (c (nodeDBKeyInto [] p v n) = Some (node_bytes (LLeaf v n k x)) \<and>
      c (fastDBKeyInto [] p k) = Some (encodeFastNodeInto [] v x))"
| "stored c p (LNode v n h k l r) =
     (c (nodeDBKeyInto [] p v n) = Some (node_bytes (LNode v n h k l r)) \<and> stored c p l \<and> stored c p r)"

definition tree_keys :: "bytes \<Rightarrow> ltree \<Rightarrow> bytes set" where
  "tree_keys p t =
     (\<lambda>(v, n). nodeDBKeyInto [] p v n) ` l_ids t \<union> fastDBKeyInto [] p ` set (leaf_keys (erase t))"

lemma stored_cong: "(\<And>k. k \<in> tree_keys p t \<Longrightarrow> c' k = c k) \<Longrightarrow> stored c p t \<Longrightarrow> stored c' p t"
  by (induction t) (auto simp: tree_keys_def)

lemma tree_keys_LNode:
  "tree_keys p (LNode v n h k l r) = insert (nodeDBKeyInto [] p v n) (tree_keys p l \<union> tree_keys p r)"
  by (auto simp: tree_keys_def)

lemma take_store_prefix [simp]:
  "take (length p) (nodeDBKeyInto [] p v n) = p" "take (length p) (fastDBKeyInto [] p k) = p"
  "take (length p) (metadataDBKeyInto [] p m) = p"
  by (simp_all add: nodeDBKeyInto_def fastDBKeyInto_def metadataDBKeyInto_def)

lemma tree_keys_prefix: "k \<in> tree_keys p t \<Longrightarrow> take (length p) k = p"
  by (auto simp: tree_keys_def)

section \<open>What a reader finds\<close>

text \<open>
  \<open>node_at c p v n t\<close>: starting from the node stored under version \<open>v\<close> and nonce \<open>n\<close> and following
  the child references, a reader of store \<open>p\<close> sees exactly the tree \<open>t\<close>.
\<close>

inductive node_at :: "(bytes \<Rightarrow> bytes option) \<Rightarrow> bytes \<Rightarrow> i64 \<Rightarrow> u32 \<Rightarrow> tree \<Rightarrow> bool" for c p where
  leaf: "c (nodeDBKeyInto [] p v n) = Some (encodeLeafNodeInto [] k x) \<Longrightarrow> node_at c p v n (Leaf v k x)"
| inner: "c (nodeDBKeyInto [] p v n) =
      Some (encodeInnerNodeInto [] h (of_nat (t_leaves l + t_leaves r)) k (t_hash (Node v h k l r))
        (t_version l) nl (t_version r) nr) \<Longrightarrow>
    node_at c p (t_version l) nl l \<Longrightarrow> node_at c p (t_version r) nr r \<Longrightarrow> node_at c p v n (Node v h k l r)"

inductive_cases node_at_LeafE: "node_at c p v n (Leaf w k x)"
inductive_cases node_at_NodeE: "node_at c p v n (Node w h k l r)"

fun leaves :: "tree \<Rightarrow> (i64 \<times> bytes \<times> bytes) list" where
  "leaves (Leaf v k x) = [(v, k, x)]"
| "leaves (Node v h k l r) = leaves l @ leaves r"

text \<open>
  The finished store: the tree hangs off the canonical root key, or is reached from the snapshot
  height through a redirect; every leaf is in fast storage; the storage version is marked.
\<close>

definition imported :: "(bytes \<Rightarrow> bytes option) \<Rightarrow> bytes \<Rightarrow> i64 \<Rightarrow> tree \<Rightarrow> bool" where
  "imported c p height t \<longleftrightarrow>
     node_at c p (t_version t) 1 t \<and>
     (t_version t \<noteq> height \<longrightarrow> c (nodeDBKeyInto [] p height 1) = Some (redirectVal (t_version t))) \<and>
     (\<forall>(v, k, x) \<in> set (leaves t). c (fastDBKeyInto [] p k) = Some (encodeFastNodeInto [] v x)) \<and>
     c (metadataDBKeyInto [] p (go_string ''storage_version'')) = Some (storageVersionValue height)"

lemma stored_node_at: "stored c p t \<Longrightarrow> node_at c p (l_version t) (l_nonce t) (erase t)"
proof (induction t)
  case (LNode v n h k l r)
  then show ?case using node_at.inner [of c p v n h "erase l" "erase r" k "l_nonce l" "l_nonce r"] by simp
qed (simp add: node_at.leaf)

lemma stored_node_at_root:
  "stored c p t \<Longrightarrow> c (nodeDBKeyInto [] p (l_version t) m) = Some (node_bytes t) \<Longrightarrow>
   node_at c p (l_version t) m (erase t)"
proof (cases t)
  case (LNode v n h k l r)
  assume "stored c p t" and "c (nodeDBKeyInto [] p (l_version t) m) = Some (node_bytes t)"
  with LNode show ?thesis
    using node_at.inner [of c p v m h "erase l" "erase r" k "l_nonce l" "l_nonce r"]
      stored_node_at [of c p l] stored_node_at [of c p r] by simp
qed (simp add: node_at.leaf)

lemma stored_fast:
  "stored c p t \<Longrightarrow> (v, k, x) \<in> set (leaves (erase t)) \<Longrightarrow>
   c (fastDBKeyInto [] p k) = Some (encodeFastNodeInto [] v x)"
  by (induction t) auto

text \<open>A store holds a tree or nothing.\<close>

fun store_stream :: "tree option \<Rightarrow> export_node list" where
  "store_stream None = []"
| "store_stream (Some t) = stream t"

fun store_hash :: "tree option \<Rightarrow> bytes" where
  "store_hash None = emptyIAVLTreeHash"
| "store_hash (Some t) = t_hash t"

fun store_keys :: "tree option \<Rightarrow> bytes list" where
  "store_keys None = []"
| "store_keys (Some t) = leaf_keys t"

fun wf_store :: "tree option \<Rightarrow> bool" where
  "wf_store None = True"
| "wf_store (Some t) = (wf_tree t \<and> t_size t + 1 < 2 ^ 32)"

fun store_imported :: "(bytes \<Rightarrow> bytes option) \<Rightarrow> bytes \<Rightarrow> i64 \<Rightarrow> tree option \<Rightarrow> bool" where
  "store_imported c p height None =
     (c (nodeDBKeyInto [] p height 1) = Some [] \<and>
      c (metadataDBKeyInto [] p (go_string ''storage_version'')) = Some (storageVersionValue height))"
| "store_imported c p height (Some t) = imported c p height t"

lemma node_at_cong:
  "node_at c p v n t \<Longrightarrow> (\<And>k. take (length p) k = p \<Longrightarrow> c' k = c k) \<Longrightarrow> node_at c' p v n t"
  by (induction rule: node_at.induct) (auto intro: node_at.intros)

lemma store_imported_cong:
  assumes "store_imported c p height t" and "\<And>k. take (length p) k = p \<Longrightarrow> c' k = c k"
  shows "store_imported c' p height t"
  using assms(1) node_at_cong [of c p _ _ _ c'] assms(2) by (cases t) (auto simp: imported_def)

text \<open>Feeding a whole store's stream to a fresh importer and closing it, as the driver does.\<close>

definition importStore :: "('db, 'e) setter \<Rightarrow> ('db, 'e) setter \<Rightarrow> bytes \<Rightarrow> i64 \<Rightarrow> 'db \<Rightarrow> export_node list \<Rightarrow>
    'e import_error + bytes \<times> 'db" where
  "importStore put putFast name height db ns =
     (case addNodes put putFast (newStoreImporter name height) db ns of
        Inl e \<Rightarrow> Inl e
      | Inr (s, db) \<Rightarrow> finalize put s db)"

section \<open>What one subtree does to the importer and the database\<close>

definition grows :: "storeImporter \<Rightarrow> storeImporter \<Rightarrow> (bytes \<Rightarrow> bytes option) \<Rightarrow> (bytes \<Rightarrow> bytes option) \<Rightarrow>
    ltree \<Rightarrow> bool" where
  "grows s s' c c' t \<longleftrightarrow>
     live_cache s' \<and> st_storePrefix s' = st_storePrefix s \<and> st_height s' = st_height s \<and>
     st_lastIavlBytes s' = node_bytes t \<and>
     (\<forall>v. v \<noteq> 0 \<longrightarrow> unat (counter s' v) = unat (counter s v) + nodes_at v (erase t)) \<and>
     (\<forall>v n. (v, n) \<in> l_ids t \<longrightarrow> v \<noteq> 0 \<and> unat (counter s v) < unat n \<and> unat n \<le> unat (counter s' v)) \<and>
     (\<forall>k. k \<notin> tree_keys (st_storePrefix s) t \<longrightarrow> c' k = c k) \<and>
     stored c' (st_storePrefix s) t"

text \<open>One more nonce at version \<open>v\<close>, as \<open>nextNonce\<close> hands it out while no counter wraps.\<close>

definition bumps :: "storeImporter \<Rightarrow> storeImporter \<Rightarrow> i64 \<Rightarrow> u32 \<Rightarrow> bool" where
  "bumps s s' v n \<longleftrightarrow>
     unat n = unat (counter s v) + 1 \<and> live_cache s' \<and>
     (\<forall>w. w \<noteq> 0 \<longrightarrow> unat (counter s' w) = unat (counter s w) + (if v = w then 1 else 0))"

lemma unat_plus_one: "unat (x :: u32) + 1 < 2 ^ 32 \<Longrightarrow> unat (x + 1) = unat x + 1"
  by (simp add: unat_word_ariths)

lemma nextNonce_bumps:
  assumes "v \<noteq> 0" and "live_cache s" and "unat (counter s v) + 1 < 2 ^ 32"
    and "counter s' = counter (snd (nextNonce s v))" and "live_cache s' = live_cache (snd (nextNonce s v))"
  shows "bumps s s' v (fst (nextNonce s v))"
proof -
  have n: "unat (fst (nextNonce s v)) = unat (counter s v) + 1"
    using nextNonce_value [OF assms(1)] unat_plus_one [OF assms(3)] by simp
  then have "fst (nextNonce s v) \<noteq> 0" by (metis Suc_eq_plus1 nat.distinct(1) unat_0)
  then show ?thesis
    using n assms(2,4,5) nextNonce_live [of s v] nextNonce_same [of s v] nextNonce_other [of _ v s]
    by (auto simp: bumps_def)
qed

lemma tree_keys_disjoint:
  assumes "distinct (leaf_keys (erase l) @ leaf_keys (erase r))" and "l_ids l \<inter> l_ids r = {}"
  shows "tree_keys p l \<inter> tree_keys p r = {}"
  using assms by (fastforce simp: tree_keys_def)

lemma node_key_fresh: "(v, n) \<notin> l_ids t \<Longrightarrow> nodeDBKeyInto [] p v n \<notin> tree_keys p t"
  by (auto simp: tree_keys_def)

lemma grows_node:
  assumes l: "grows s s1 c c1 l" and r: "grows s1 s2 c1 c2 r" and b: "bumps s2 s3 v n"
    and c3: "c3 = c2(nodeDBKeyInto [] (st_storePrefix s) v n \<mapsto> node_bytes (LNode v n h k l r))"
    and last: "st_lastIavlBytes s3 = node_bytes (LNode v n h k l r)"
    and pre: "st_storePrefix s3 = st_storePrefix s2" "st_height s3 = st_height s2"
    and keys: "distinct (leaf_keys (erase l) @ leaf_keys (erase r))" and v: "v \<noteq> 0"
  shows "grows s s3 c c3 (LNode v n h k l r)"
proof -
  let ?p = "st_storePrefix s"
  have p: "st_storePrefix s1 = ?p" using l by (simp add: grows_def)
  have cnt: "unat (counter s1 w) = unat (counter s w) + nodes_at w (erase l)"
    "unat (counter s2 w) = unat (counter s1 w) + nodes_at w (erase r)"
    "unat (counter s3 w) = unat (counter s2 w) + (if v = w then 1 else 0)" if "w \<noteq> 0" for w
    using l r b that by (simp_all add: grows_def bumps_def)
  have n: "unat n = unat (counter s2 v) + 1" using b by (simp add: bumps_def)
  have idl: "w \<noteq> 0 \<and> unat (counter s w) < unat m \<and> unat m \<le> unat (counter s1 w)" if "(w, m) \<in> l_ids l" for w m
    using l that unfolding grows_def by blast
  have idr: "w \<noteq> 0 \<and> unat (counter s1 w) < unat m \<and> unat m \<le> unat (counter s2 w)" if "(w, m) \<in> l_ids r" for w m
    using r that unfolding grows_def by blast
  have fresh: "(v, n) \<notin> l_ids l" "(v, n) \<notin> l_ids r"
    using idl [of v n] idr [of v n] cnt(2) [OF v] n by linarith+
  have "(w, m) \<notin> l_ids r" if "(w, m) \<in> l_ids l" for w m
    using idl [OF that] idr [of w m] by linarith
  then have "l_ids l \<inter> l_ids r = {}" by auto
  from tree_keys_disjoint [OF keys this] have dis: "tree_keys ?p l \<inter> tree_keys ?p r = {}" .
  have keep2: "c2 x = c1 x" if "x \<notin> tree_keys ?p r" for x using r that p by (simp add: grows_def)
  have keep1: "c1 x = c x" if "x \<notin> tree_keys ?p l" for x using l that by (simp add: grows_def)
  have "stored c3 ?p l"
  proof (rule stored_cong [of ?p l c3 c1])
    fix x assume x: "x \<in> tree_keys ?p l"
    with dis node_key_fresh [OF fresh(1)] show "c3 x = c1 x" by (auto simp: c3 intro!: keep2)
  qed (use l in \<open>simp add: grows_def\<close>)
  moreover have "stored c3 ?p r"
  proof (rule stored_cong [of ?p r c3 c2])
    fix x assume x: "x \<in> tree_keys ?p r"
    with node_key_fresh [OF fresh(2)] show "c3 x = c2 x" by (auto simp: c3)
  qed (use r p in \<open>simp add: grows_def\<close>)
  ultimately have "stored c3 ?p (LNode v n h k l r)" by (simp add: c3)
  moreover have "c3 x = c x" if "x \<notin> tree_keys ?p (LNode v n h k l r)" for x
    using that keep1 keep2 by (simp add: tree_keys_LNode c3)
  moreover have "w \<noteq> 0 \<and> unat (counter s w) < unat m \<and> unat m \<le> unat (counter s3 w)"
    if "(w, m) \<in> l_ids (LNode v n h k l r)" for w m
    using that idl [of w m] idr [of w m] cnt [of w] n v by auto
  moreover have "unat (counter s3 w) = unat (counter s w) + nodes_at w (erase (LNode v n h k l r))"
    if "w \<noteq> 0" for w using cnt [OF that] by simp
  moreover have "live_cache s3" and "st_storePrefix s3 = ?p" and "st_height s3 = st_height s"
    using l r b pre by (simp_all add: grows_def bumps_def)
  ultimately show ?thesis using last unfolding grows_def by blast
qed

section \<open>The sink contract\<close>

definition routes :: "bytes set \<Rightarrow> bytes \<Rightarrow> bool" where
  "routes F p \<longleftrightarrow> (\<forall>v n. nodeDBKeyInto [] p v n \<notin> F) \<and> (\<forall>m. metadataDBKeyInto [] p m \<notin> F) \<and>
     (\<forall>k. fastDBKeyInto [] p k \<in> F)"

text \<open>
  The two callbacks of \<open>addNode\<close> go to different places (a batch and a sorted table), so the
  contract separates their keys: \<open>F\<close> holds the fast-storage keys, \<open>sound\<close> is the sink's own
  invariant, and \<open>content\<close> is what a reader of the finished database finds.
\<close>

locale kv_sink =
  fixes put :: "('db, 'e) setter"
    and putFast :: "('db, 'e) setter"
    and content :: "'db \<Rightarrow> bytes \<Rightarrow> bytes option"
    and sound :: "'db \<Rightarrow> bool"
    and F :: "bytes set"
  assumes put_content: "sound db \<Longrightarrow> k \<notin> F \<Longrightarrow> put db k x = Inr db' \<Longrightarrow>
      sound db' \<and> content db' = (content db)(k \<mapsto> x)"
    and putFast_content: "sound db \<Longrightarrow> k \<in> F \<Longrightarrow> putFast db k x = Inr db' \<Longrightarrow>
      sound db' \<and> content db' = (content db)(k \<mapsto> x)"
begin

lemma addLeaf_Inr:
  assumes "addLeaf put putFast s db v k x = Inr (s', db')" and "sound db" and "routes F (st_storePrefix s)"
  defines "n \<equiv> fst (nextNonce s v)"
  shows "content db' = (content db)(nodeDBKeyInto [] (st_storePrefix s) v n \<mapsto> encodeLeafNodeInto [] k x,
      fastDBKeyInto [] (st_storePrefix s) k \<mapsto> encodeFastNodeInto [] v x)" (is ?content)
    and "st_stack s' = frame_of (LLeaf v n k x) # st_stack s"
    and "st_lastIavlBytes s' = node_bytes (LLeaf v n k x)"
    and "counter s' = counter (snd (nextNonce s v))" and "live_cache s' = live_cache (snd (nextNonce s v))"
    and "st_storePrefix s' = st_storePrefix s" and "st_height s' = st_height s" and "sound db'"
proof -
  from assms(1) obtain db1 where
    p1: "put db (nodeDBKeyInto [] (st_storePrefix s) v n) (encodeLeafNodeInto [] k x) = Inr db1"
    and p2: "putFast db1 (fastDBKeyInto [] (st_storePrefix s) k) (encodeFastNodeInto [] v x) = Inr db'"
    and s': "s' = (snd (nextNonce s v))\<lparr>st_lastIavlBytes := encodeLeafNodeInto [] k x,
       st_stack := frame_of (LLeaf v n k x) # st_stack s,
       st_leafCount := st_leafCount (snd (nextNonce s v)) + 1\<rparr>"
    unfolding addLeaf_def Let_def case_prod_beta wrap_err_Inr_iff n_def frame_of_def by auto
  from put_content [OF _ _ p1] have c1: "sound db1 \<and> content db1 = (content db)
      (nodeDBKeyInto [] (st_storePrefix s) v n \<mapsto> encodeLeafNodeInto [] k x)"
    using assms(2,3) by (simp add: routes_def)
  with putFast_content [OF _ _ p2] assms(3) show ?content and "sound db'" by (simp_all add: routes_def)
  show "st_stack s' = frame_of (LLeaf v n k x) # st_stack s"
    and "st_lastIavlBytes s' = node_bytes (LLeaf v n k x)"
    and "counter s' = counter (snd (nextNonce s v))" and "live_cache s' = live_cache (snd (nextNonce s v))"
    and "st_storePrefix s' = st_storePrefix s" and "st_height s' = st_height s"
    by (simp_all add: s')
qed

lemma addInner_Inr:
  assumes "addInner put s db h v k = Inr (s', db')" and "st_stack s = frame_of r # frame_of l # rest"
    and "sound db" and "routes F (st_storePrefix s)"
  defines "n \<equiv> fst (nextNonce (s\<lparr>st_stack := rest\<rparr>) v)"
  shows "content db' = (content db)(nodeDBKeyInto [] (st_storePrefix s) v n \<mapsto> node_bytes (LNode v n h k l r))" (is ?content)
    and "st_stack s' = frame_of (LNode v n h k l r) # rest"
    and "st_lastIavlBytes s' = node_bytes (LNode v n h k l r)"
    and "counter s' = counter (snd (nextNonce (s\<lparr>st_stack := rest\<rparr>) v))"
    and "live_cache s' = live_cache (snd (nextNonce (s\<lparr>st_stack := rest\<rparr>) v))"
    and "st_storePrefix s' = st_storePrefix s" and "st_height s' = st_height s" and "sound db'"
proof -
  from assms(1,2) have
    p1: "put db (nodeDBKeyInto [] (st_storePrefix s) v n) (node_bytes (LNode v n h k l r)) = Inr db'"
    and s': "s' = (snd (nextNonce (s\<lparr>st_stack := rest\<rparr>) v))\<lparr>st_lastIavlBytes := node_bytes (LNode v n h k l r),
       st_stack := frame_of (LNode v n h k l r) # rest,
       st_innerCount := st_innerCount (snd (nextNonce (s\<lparr>st_stack := rest\<rparr>) v)) + 1\<rparr>"
    unfolding addInner_def Let_def case_prod_beta n_def frame_of_def
    by (auto split: if_splits simp: wrap_err_Inr_iff)
  show ?content and "sound db'" using put_content [OF _ _ p1] assms(3,4) by (simp_all add: routes_def)
  show "st_stack s' = frame_of (LNode v n h k l r) # rest"
    and "st_lastIavlBytes s' = node_bytes (LNode v n h k l r)"
    and "counter s' = counter (snd (nextNonce (s\<lparr>st_stack := rest\<rparr>) v))"
    and "live_cache s' = live_cache (snd (nextNonce (s\<lparr>st_stack := rest\<rparr>) v))"
    and "st_storePrefix s' = st_storePrefix s" and "st_height s' = st_height s"
    by (simp_all add: s')
qed

lemma addNode_leaf_grows:
  assumes "addNode put putFast s db 0 v k x = Inr (s', db')"
    and "v \<noteq> 0" and "live_cache s" and "unat (counter s v) + 1 < 2 ^ 32"
    and "sound db" and "routes F (st_storePrefix s)"
  shows "sound db' \<and> (\<exists>t. erase t = Leaf v k x \<and> st_stack s' = frame_of t # st_stack s \<and>
    grows s s' (content db) (content db') t)"
proof -
  let ?s = "s\<lparr>st_itemCount := st_itemCount s + 1\<rparr>"
  let ?n = "fst (nextNonce ?s v)"
  have a: "addLeaf put putFast ?s db v k x = Inr (s', db')" using assms(1) by (simp add: addNode_def)
  have "routes F (st_storePrefix ?s)" using assms(6) by simp
  note add = addLeaf_Inr [OF a assms(5) this]
  have "bumps ?s s' v ?n" using assms add by (intro nextNonce_bumps) simp_all
  then have "grows s s' (content db) (content db') (LLeaf v ?n k x)"
    using add assms(2) by (auto simp: grows_def bumps_def tree_keys_def)
  then show ?thesis using add(2,8) by (intro conjI exI [of _ "LLeaf v ?n k x"]) simp_all
qed

lemma addNode_inner_grows:
  assumes "addNode put putFast s db h v k x = Inr (s', db')" and "st_stack s = frame_of r # frame_of l # rest"
    and "h \<noteq> 0" and "v \<noteq> 0" and "live_cache s" and "unat (counter s v) + 1 < 2 ^ 32"
    and "sound db" and "routes F (st_storePrefix s)"
  shows "\<exists>n. st_stack s' = frame_of (LNode v n h k l r) # rest \<and> bumps s s' v n \<and>
    content db' = (content db)(nodeDBKeyInto [] (st_storePrefix s) v n \<mapsto> node_bytes (LNode v n h k l r)) \<and>
    st_lastIavlBytes s' = node_bytes (LNode v n h k l r) \<and>
    st_storePrefix s' = st_storePrefix s \<and> st_height s' = st_height s \<and> sound db'"
proof -
  let ?s = "s\<lparr>st_itemCount := st_itemCount s + 1\<rparr>"
  have "addInner put ?s db h v k = Inr (s', db')" using assms(1,3) by (simp add: addNode_def)
  note add = addInner_Inr [OF this, of r l rest, simplified, OF assms(2,7,8)]
  have "bumps (?s\<lparr>st_stack := rest\<rparr>) s' v (fst (nextNonce (?s\<lparr>st_stack := rest\<rparr>) v))"
    using assms add by (intro nextNonce_bumps) simp_all
  then show ?thesis using add by (auto simp: bumps_def)
qed

lemma addNodes_tree:
  assumes "addNodes put putFast s db (stream t) = Inr (s', db')" and "wf_tree t" and "live_cache s"
    and "\<forall>v. v \<noteq> 0 \<longrightarrow> unat (counter s v) + nodes_at v t < 2 ^ 32"
    and "sound db" and "routes F (st_storePrefix s)"
  shows "sound db' \<and> (\<exists>lt. erase lt = t \<and> st_stack s' = frame_of lt # st_stack s \<and>
    grows s s' (content db) (content db') lt)"
  using assms
proof (induction t arbitrary: s db s' db')
  case (Leaf v k x)
  then have "addNode put putFast s db 0 v k x = Inr (s', db')" by (simp split: sum.splits prod.splits)
  moreover have "unat (counter s v) + 1 < 2 ^ 32" using Leaf.prems(2,4) by force
  ultimately show ?case using Leaf.prems by (intro addNode_leaf_grows) simp_all
next
  case (Node v h k l r)
  from Node.prems(1) obtain s1 db1 s2 db2 where
    al: "addNodes put putFast s db (stream l) = Inr (s1, db1)" and
    ar: "addNodes put putFast s1 db1 (stream r) = Inr (s2, db2)" and
    an: "addNode put putFast s2 db2 h v k [] = Inr (s', db')"
    by (auto simp: addNodes_append split: sum.splits)
  have room: "unat (counter s w) + nodes_at w l + nodes_at w r + (if v = w then 1 else 0) < 2 ^ 32"
    if "w \<noteq> 0" for w using Node.prems(4) that by (auto simp: add.assoc)
  from Node.IH(1) [OF al] Node.prems obtain ll where ll: "erase ll = l"
    "st_stack s1 = frame_of ll # st_stack s" "grows s s1 (content db) (content db1) ll"
    and d1: "sound db1" by (force simp: algebra_simps)
  have live1: "live_cache s1" and p1: "routes F (st_storePrefix s1)" and c1: "\<forall>w. w \<noteq> 0 \<longrightarrow> unat (counter s1 w) = unat (counter s w) + nodes_at w l"
    using ll Node.prems(6) by (auto simp: grows_def)
  from Node.IH(2) [OF ar _ live1 _ d1 p1] Node.prems(2) room c1 obtain lr where lr: "erase lr = r"
    "st_stack s2 = frame_of lr # st_stack s1" "grows s1 s2 (content db1) (content db2) lr"
    and d2: "sound db2" by fastforce
  have "unat (counter s2 v) + 1 < 2 ^ 32" and "live_cache s2" and p2: "routes F (st_storePrefix s2)"
    using lr c1 p1 room [of v] Node.prems(2) by (auto simp: grows_def)
  with addNode_inner_grows [OF an, of lr ll "st_stack s"] d2 ll lr Node.prems(2) obtain n where n:
    "st_stack s' = frame_of (LNode v n h k ll lr) # st_stack s" "bumps s2 s' v n"
    "content db' = (content db2)(nodeDBKeyInto [] (st_storePrefix s2) v n \<mapsto> node_bytes (LNode v n h k ll lr))"
    "st_lastIavlBytes s' = node_bytes (LNode v n h k ll lr)"
    "st_storePrefix s' = st_storePrefix s2" "st_height s' = st_height s2" "sound db'"
    by auto
  have "st_storePrefix s2 = st_storePrefix s" using ll lr by (simp add: grows_def)
  with n ll lr Node.prems(2) have "grows s s' (content db) (content db') (LNode v n h k ll lr)"
    by (intro grows_node [OF ll(3) lr(3) n(2)]) auto
  then show ?case using n(1,7) ll(1) lr(1) by (intro conjI exI [of _ "LNode v n h k ll lr"]) simp_all
qed

lemma finalize_root:
  assumes "finalize put s db = Inr (h, db')" and "st_stack s = [frame_of t]" and "sound db"
    and "routes F (st_storePrefix s)"
  defines "p \<equiv> st_storePrefix s"
  shows "h = t_hash (erase t) \<and> sound db' \<and>
    content db' = (content db)(nodeDBKeyInto [] p (l_version t) 1 \<mapsto> st_lastIavlBytes s) ++
      (if l_version t \<noteq> st_height s then [nodeDBKeyInto [] p (st_height s) 1 \<mapsto> redirectVal (l_version t)]
       else Map.empty) ++
      [metadataDBKeyInto [] p (go_string ''storage_version'') \<mapsto> storageVersionValue (st_height s)]"
proof -
  from assms(1,2) obtain db1 db2 where
    d1: "put db (nodeDBKeyInto [] p (l_version t) 1) (st_lastIavlBytes s) = Inr db1" and
    d2: "(if l_version t \<noteq> st_height s
          then put db1 (nodeDBKeyInto [] p (st_height s) 1) (redirectVal (l_version t)) else Inr db1) = Inr db2" and
    d3: "put db2 (metadataDBKeyInto [] p (go_string ''storage_version'')) (storageVersionValue (st_height s)) = Inr db'"
    and h: "h = t_hash (erase t)"
    by (auto simp: finalize_def wrap_err_Inr_iff writeStorageVersionMarker_def frame_of_def p_def
        case_sum_Inr_iff cong: if_cong)
  have F: "nodeDBKeyInto [] p v n \<notin> F" "metadataDBKeyInto [] p m \<notin> F" for v n m
    using assms(4) by (simp_all add: routes_def p_def)
  note c1 = put_content [OF assms(3) F(1) d1]
  have c2: "sound db2 \<and> content db2 = content db1 ++
      (if l_version t \<noteq> st_height s then [nodeDBKeyInto [] p (st_height s) 1 \<mapsto> redirectVal (l_version t)]
       else Map.empty)"
    using d2 c1 put_content [OF _ F(1)] by (auto split: if_splits)
  from put_content [OF _ F(2) d3] c1 c2 h show ?thesis by auto
qed

lemma importStore_tree:
  assumes run: "importStore put putFast name height db (stream t) = Inr (h, db')"
    and "wf_tree t" and "t_size t + 1 < 2 ^ 32" and "sound db" and "routes F (storePrefix name)"
  shows "h = t_hash t \<and> sound db' \<and> imported (content db') (storePrefix name) height t \<and>
    (\<forall>k. take (length (storePrefix name)) k \<noteq> storePrefix name \<longrightarrow> content db' k = content db k)"
proof -
  let ?p = "storePrefix name" and ?s0 = "newStoreImporter name height"
  from run obtain s1 db1 where
    a: "addNodes put putFast ?s0 db (stream t) = Inr (s1, db1)" and f: "finalize put s1 db1 = Inr (h, db')"
    by (auto simp: importStore_def case_sum_Inr_iff)
  have s0: "st_storePrefix ?s0 = ?p" "st_stack ?s0 = []" "st_height ?s0 = height"
    by (simp_all add: newStoreImporter_def)
  have "\<forall>v. v \<noteq> 0 \<longrightarrow> unat (counter ?s0 v) + nodes_at v t < 2 ^ 32"
    using nodes_at_le [of _ t] assms(3) by (auto intro: le_less_trans)
  from addNodes_tree [OF a assms(2) _ this assms(4)] s0 assms(5) obtain lt where
    lt: "erase lt = t" "st_stack s1 = [frame_of lt]" and d1: "sound db1"
    and g: "grows ?s0 s1 (content db) (content db1) lt" by auto
  have s1: "st_storePrefix s1 = ?p" "st_height s1 = height" "st_lastIavlBytes s1 = node_bytes lt"
    and st: "stored (content db1) ?p lt" and same: "\<forall>k. k \<notin> tree_keys ?p lt \<longrightarrow> content db1 k = content db k"
    using g s0 by (simp_all add: grows_def)
  have fresh: "(v, 1) \<notin> l_ids lt" for v
    using g newStoreImporter_counter(1) unfolding grows_def by (metis less_irrefl unat_1)
  note fin = finalize_root [OF f lt(2) d1, unfolded s1, OF assms(5)]
  have "stored (content db') ?p lt"
  proof (rule stored_cong [OF _ st])
    fix k assume "k \<in> tree_keys ?p lt"
    with fresh fin show "content db' k = content db1 k" by (auto simp: tree_keys_def map_add_def)
  qed
  moreover have "content db' (nodeDBKeyInto [] ?p (l_version lt) 1) = Some (node_bytes lt)"
    using fin by (auto simp: map_add_def)
  ultimately have "imported (content db') ?p height t"
    using fin lt(1) stored_node_at_root [of _ ?p lt] stored_fast [of _ ?p lt]
    by (auto simp: imported_def map_add_def)
  moreover have "content db' k = content db k" if "take (length ?p) k \<noteq> ?p" for k
  proof -
    have "k \<noteq> nodeDBKeyInto [] ?p v n" "k \<noteq> metadataDBKeyInto [] ?p m" for v n m using that by auto
    moreover have "content db1 k = content db k" using that same tree_keys_prefix [of k ?p lt] by blast
    ultimately show ?thesis using fin by (simp add: map_add_def)
  qed
  ultimately show ?thesis using fin lt(1) by simp
qed

lemma importStore_store:
  assumes run: "importStore put putFast name height db (store_stream t) = Inr (h, db')"
    and "wf_store t" and "sound db" and "routes F (storePrefix name)"
  shows "h = store_hash t \<and> sound db' \<and> store_imported (content db') (storePrefix name) height t \<and>
    (\<forall>k. take (length (storePrefix name)) k \<noteq> storePrefix name \<longrightarrow> content db' k = content db k)"
proof (cases t)
  case (Some u)
  then show ?thesis using importStore_tree [of name height db u h db'] assms by simp
next
  case None
  let ?p = "storePrefix name"
  have F: "nodeDBKeyInto [] ?p v n \<notin> F" "metadataDBKeyInto [] ?p m \<notin> F" for v n m
    using assms(4) by (simp_all add: routes_def)
  from run None obtain db1 where
    d1: "put db (nodeDBKeyInto [] ?p height 1) [] = Inr db1" and
    d2: "put db1 (metadataDBKeyInto [] ?p (go_string ''storage_version'')) (storageVersionValue height) = Inr db'"
    and h: "h = emptyIAVLTreeHash"
    by (auto simp: importStore_def finalize_def newStoreImporter_def wrap_err_Inr_iff writeStorageVersionMarker_def
        case_sum_Inr_iff)
  note c1 = put_content [OF assms(3) F(1) d1]
  note c2 = put_content [OF _ F(2) d2]
  from c1 c2 have "content db' = (content db)(nodeDBKeyInto [] ?p height 1 \<mapsto> [],
      metadataDBKeyInto [] ?p (go_string ''storage_version'') \<mapsto> storageVersionValue height)" by simp
  with c1 c2 h None show ?thesis by auto
qed

end

text \<open>A sink that takes every entry, as long as the fast keys of a store come in increasing order.\<close>

locale kv_sink_live = kv_sink put putFast content sound F
  for put :: "('db, 'e) setter" and putFast and content and sound and F +
  fixes admits :: "'db \<Rightarrow> bytes \<Rightarrow> bool"
  assumes put_ok: "sound db \<Longrightarrow> k \<notin> F \<Longrightarrow> \<exists>db'. put db k x = Inr db' \<and> admits db' = admits db"
    and putFast_ok: "sound db \<Longrightarrow> k \<in> F \<Longrightarrow> admits db k \<Longrightarrow>
      \<exists>db'. putFast db k x = Inr db' \<and> (\<forall>k'. k < k' \<longrightarrow> admits db' k')"
begin

lemma addLeaf_ok:
  assumes "sound db" and "routes F (st_storePrefix s)" and "admits db (fastDBKeyInto [] (st_storePrefix s) k)"
  shows "\<exists>s' db'. addNode put putFast s db 0 v k x = Inr (s', db') \<and> sound db' \<and>
    st_storePrefix s' = st_storePrefix s \<and> (\<exists>f. st_stack s' = f # st_stack s \<and> fr_height f = 0) \<and>
    (\<forall>k'. fastDBKeyInto [] (st_storePrefix s) k < k' \<longrightarrow> admits db' k')"
proof -
  let ?p = "st_storePrefix s" and ?s = "s\<lparr>st_itemCount := st_itemCount s + 1\<rparr>"
  let ?n = "fst (nextNonce ?s v)"
  have F: "nodeDBKeyInto [] ?p v n \<notin> F" "fastDBKeyInto [] ?p k \<in> F" for n
    using assms(2) by (simp_all add: routes_def)
  from put_ok [OF assms(1) F(1)] obtain db1 where
    d1: "put db (nodeDBKeyInto [] ?p v ?n) (encodeLeafNodeInto [] k x) = Inr db1" "admits db1 = admits db" by blast
  have s1: "sound db1" using put_content [OF assms(1) F(1) d1(1)] by blast
  from putFast_ok [OF s1 F(2)] d1(2) assms(3) obtain db2 where
    d2: "putFast db1 (fastDBKeyInto [] ?p k) (encodeFastNodeInto [] v x) = Inr db2"
      "\<forall>k'. fastDBKeyInto [] ?p k < k' \<longrightarrow> admits db2 k'" by metis
  have "sound db2" using putFast_content [OF s1 F(2) d2(1)] by blast
  then show ?thesis using d1(1) d2 by (simp add: addNode_def addLeaf_def Let_def case_prod_beta)
qed

lemma addInner_ok:
  assumes "sound db" and "routes F (st_storePrefix s)" and "h \<noteq> 0"
    and "st_stack s = r # l # rest" and "fr_height l <s h" and "fr_height r <s h"
  shows "\<exists>s' db'. addNode put putFast s db h v k x = Inr (s', db') \<and> sound db' \<and>
    st_storePrefix s' = st_storePrefix s \<and> (\<exists>f. st_stack s' = f # rest \<and> fr_height f = h) \<and>
    admits db' = admits db"
proof -
  have F: "nodeDBKeyInto [] (st_storePrefix s) v n \<notin> F" for n using assms(2) by (simp add: routes_def)
  let ?n = "fst (nextNonce (s\<lparr>st_itemCount := st_itemCount s + 1, st_stack := rest\<rparr>) v)"
  let ?sz = "fr_size l + fr_size r"
  let ?b = "encodeInnerNodeInto [] h ?sz k (hashInner v h ?sz (fr_hash l) (fr_hash r))
    (fr_version l) (fr_nonce l) (fr_version r) (fr_nonce r)"
  obtain db' where "put db (nodeDBKeyInto [] (st_storePrefix s) v ?n) ?b = Inr db'" "sound db'" "admits db' = admits db"
    using put_ok [OF assms(1) F] put_content [OF assms(1) F] by metis
  then show ?thesis
    using assms(3-) by (simp add: addNode_def addInner_def closesPair_def Let_def case_prod_beta)
qed

lemma addNodes_ok:
  assumes "wf_tree t" and "sorted_wrt (<) (leaf_keys t)" and "sound db" and "routes F (st_storePrefix s)"
    and "\<forall>k \<in> set (leaf_keys t). admits db (fastDBKeyInto [] (st_storePrefix s) k)"
  shows "\<exists>s' db'. addNodes put putFast s db (stream t) = Inr (s', db') \<and> sound db' \<and>
    st_storePrefix s' = st_storePrefix s \<and> (\<exists>f. st_stack s' = f # st_stack s \<and> fr_height f = t_height t) \<and>
    (\<forall>k. (\<forall>k' \<in> set (leaf_keys t). k' < k) \<longrightarrow> admits db' (fastDBKeyInto [] (st_storePrefix s) k))"
  using assms
proof (induction t arbitrary: s db)
  case (Leaf v k x)
  then show ?case using addLeaf_ok [of db s k v x] by (fastforce simp: fastDBKeyInto_def)
next
  case (Node v h k l r)
  let ?p = "st_storePrefix s"
  from Node.IH(1) [of db s] Node.prems obtain s1 db1 f1 where
    l: "addNodes put putFast s db (stream l) = Inr (s1, db1)" "sound db1" "st_storePrefix s1 = ?p"
      "st_stack s1 = f1 # st_stack s" "fr_height f1 = t_height l"
      "\<forall>k. (\<forall>k' \<in> set (leaf_keys l). k' < k) \<longrightarrow> admits db1 (fastDBKeyInto [] ?p k)"
    by (auto simp: sorted_wrt_append)
  from Node.IH(2) [of db1 s1] l Node.prems obtain s2 db2 f2 where
    r: "addNodes put putFast s1 db1 (stream r) = Inr (s2, db2)" "sound db2" "st_storePrefix s2 = ?p"
      "st_stack s2 = f2 # st_stack s1" "fr_height f2 = t_height r"
      "\<forall>k. (\<forall>k' \<in> set (leaf_keys r). k' < k) \<longrightarrow> admits db2 (fastDBKeyInto [] ?p k)"
    by (auto simp: sorted_wrt_append)
  from addInner_ok [of db2 s2 h f2 f1 "st_stack s" v k "[]"] l r Node.prems obtain s3 db3 f3 where
    "addNode put putFast s2 db2 h v k [] = Inr (s3, db3)" "sound db3" "st_storePrefix s3 = ?p"
    "st_stack s3 = f3 # st_stack s" "fr_height f3 = h" "admits db3 = admits db2" by auto
  with l(1) r(1,6) show ?case by (auto simp: addNodes_append)
qed

lemma put_pass:
  assumes "sound db" and "k \<notin> F"
  shows "\<exists>db'. put db k x = Inr db' \<and> sound db' \<and> admits db' = admits db"
  using put_ok [OF assms] put_content [OF assms] by metis

lemma finalize_ok:
  assumes "sound db" and "routes F (st_storePrefix s)" and "length (st_stack s) \<le> 1"
  shows "\<exists>h db'. finalize put s db = Inr (h, db')"
proof -
  have F: "nodeDBKeyInto [] (st_storePrefix s) v n \<notin> F" "metadataDBKeyInto [] (st_storePrefix s) m \<notin> F" for v n m
    using assms(2) by (simp_all add: routes_def)
  have marker: "\<exists>db'. writeStorageVersionMarker put s d = Inr db'" if "sound d" for d
    using put_pass [OF that F(2), of "go_string ''storage_version''" "storageVersionValue (st_height s)"]
    by (auto simp: writeStorageVersionMarker_def)
  consider "st_stack s = []" | r where "st_stack s = [r]"
    using assms(3) by (cases "st_stack s"; cases "tl (st_stack s)") auto
  then show ?thesis
  proof cases
    case 1
    obtain d where "put db (nodeDBKeyInto [] (st_storePrefix s) (st_height s) 1) [] = Inr d" "sound d"
      using put_pass [OF assms(1) F(1)] by blast
    with 1 marker [of d] show ?thesis by (force simp: finalize_def)
  next
    case (2 r)
    obtain d where d: "put db (nodeDBKeyInto [] (st_storePrefix s) (fr_version r) 1) (st_lastIavlBytes s) = Inr d" "sound d"
      using put_pass [OF assms(1) F(1)] by blast
    obtain d' where
      "put d (nodeDBKeyInto [] (st_storePrefix s) (st_height s) 1) (redirectVal (fr_version r)) = Inr d'" "sound d'"
      using put_pass [OF d(2) F(1)] by blast
    with 2 d marker [of d] marker [of d'] show ?thesis by (force simp: finalize_def)
  qed
qed

lemma importStore_ok:
  assumes "wf_store t" and "sorted_wrt (<) (store_keys t)" and "sound db" and "routes F (storePrefix name)"
    and "\<forall>k \<in> set (store_keys t). admits db (fastDBKeyInto [] (storePrefix name) k)"
  shows "\<exists>h db'. importStore put putFast name height db (store_stream t) = Inr (h, db')"
proof -
  let ?s = "newStoreImporter name height"
  have s: "st_storePrefix ?s = storePrefix name" "st_stack ?s = []" by (simp_all add: newStoreImporter_def)
  have "\<exists>s' db'. addNodes put putFast ?s db (store_stream t) = Inr (s', db') \<and> sound db' \<and>
      st_storePrefix s' = storePrefix name \<and> length (st_stack s') \<le> 1"
  proof (cases t)
    case (Some u)
    then show ?thesis using addNodes_ok [of u db ?s] assms s by auto
  qed (use assms s in simp)
  then show ?thesis using finalize_ok assms(4) by (fastforce simp: importStore_def)
qed

end

end
