(* ===== verification/Filepath.thy ===== *)
theory Filepath
  imports GoStrings
begin

text \<open>
  The parts of Go's \<open>path/filepath\<close> (Unix) that the sources use to name files: \<open>Clean\<close> and
  \<open>Join\<close>, on byte strings.
\<close>

abbreviation slash :: byte where
  "slash \<equiv> 0x2f"

fun split_slash :: "bytes \<Rightarrow> bytes list" where
  "split_slash [] = [[]]"
| "split_slash (c # cs) =
     (if c = slash then [] # split_slash cs
      else case split_slash cs of
          [] \<Rightarrow> [[c]]
        | w # ws \<Rightarrow> (c # w) # ws)"

fun join_slash :: "bytes list \<Rightarrow> bytes" where
  "join_slash [] = []"
| "join_slash [w] = w"
| "join_slash (w # v # ws) = w @ slash # join_slash (v # ws)"

definition dotdot :: bytes where
  "dotdot = [0x2e, 0x2e]"

text \<open>One path element against the elements kept so far, the innermost first.\<close>

definition clean_step :: "bool \<Rightarrow> bytes list \<Rightarrow> bytes \<Rightarrow> bytes list" where
  "clean_step rooted out w =
     (if w = [] \<or> w = [0x2e] then out
      else if w = dotdot then
        (case out of
           [] \<Rightarrow> if rooted then [] else [dotdot]
         | v # vs \<Rightarrow> if v = dotdot then dotdot # out else vs)
      else w # out)"

definition Clean :: "bytes \<Rightarrow> bytes" where
  "Clean p =
     (let rooted = (p \<noteq> [] \<and> hd p = slash);
          out = join_slash (rev (foldl (clean_step rooted) [] (split_slash p)))
      in if rooted then slash # out else if out = [] then [0x2e] else out)"

definition Join :: "bytes list \<Rightarrow> bytes" where
  "Join elems =
     (let es = dropWhile (\<lambda>e. e = []) elems
      in if es = [] then [] else Clean (join_slash es))"

section \<open>Plain elements\<close>

text \<open>An element that is neither empty nor a dot name and has no slash is kept as it is.\<close>

definition plain_elem :: "bytes \<Rightarrow> bool" where
  "plain_elem w \<longleftrightarrow> w \<noteq> [] \<and> w \<noteq> [0x2e] \<and> w \<noteq> dotdot \<and> slash \<notin> set w"

lemma split_slash_plain: "slash \<notin> set w \<Longrightarrow> split_slash w = [w]"
  by (induction w) auto

lemma split_slash_append: "split_slash (xs @ slash # ys) = split_slash xs @ split_slash ys"
proof (induction xs)
  case (Cons x xs)
  moreover have "split_slash xs \<noteq> []" for xs by (induction xs) (auto split: list.splits)
  ultimately show ?case by (auto split: list.splits)
qed simp

lemma Clean_plain:
  assumes "plain_elem w" and "d \<noteq> []"
  shows "foldl (clean_step r) [] (split_slash (d @ slash # w)) =
    w # foldl (clean_step r) [] (split_slash d)"
  using assms by (simp add: split_slash_append split_slash_plain plain_elem_def clean_step_def)

lemma clean_step_plain: "plain_elem w \<Longrightarrow> clean_step r out w = w # out"
  by (simp add: clean_step_def plain_elem_def)

lemma foldl_clean_plain:
  "list_all plain_elem ws \<Longrightarrow> foldl (clean_step r) out ws = rev ws @ out"
  by (induction ws arbitrary: out) (auto simp: clean_step_plain)

lemma split_join_slash:
  "ws \<noteq> [] \<Longrightarrow> list_all (\<lambda>w. slash \<notin> set w) ws \<Longrightarrow> split_slash (join_slash ws) = ws"
  by (induction ws rule: join_slash.induct) (auto simp: split_slash_plain split_slash_append)

text \<open>A rooted path of plain elements is clean, and joining a plain element extends it.\<close>

definition rooted_path :: "bytes list \<Rightarrow> bytes" where
  "rooted_path ws = slash # join_slash ws"

lemma join_slash_append:
  "ws \<noteq> [] \<Longrightarrow> vs \<noteq> [] \<Longrightarrow> join_slash (ws @ vs) = join_slash ws @ slash # join_slash vs"
proof (induction ws rule: join_slash.induct)
  case (2 w)
  then show ?case by (cases vs) auto
qed auto

lemma rooted_path_snoc: "ws \<noteq> [] \<Longrightarrow> rooted_path (ws @ [w]) = rooted_path ws @ slash # w"
  by (simp add: rooted_path_def join_slash_append)

lemma Clean_rooted:
  assumes "ws \<noteq> []" and "list_all (\<lambda>w. slash \<notin> set w) ws"
  shows "Clean (rooted_path ws) = rooted_path (rev (foldl (clean_step True) [] ws))"
  using assms by (simp add: Clean_def rooted_path_def split_join_slash Let_def clean_step_def)

lemma Join_rooted:
  assumes "ws \<noteq> []" and "vs \<noteq> []" and "list_all (\<lambda>w. slash \<notin> set w) (ws @ vs)"
  shows "Join [rooted_path ws, join_slash vs] = rooted_path (rev (foldl (clean_step True) [] (ws @ vs)))"
proof -
  have "Join [rooted_path ws, join_slash vs] = Clean (rooted_path (ws @ vs))"
    using assms(1,2) by (simp add: Join_def rooted_path_def join_slash_append)
  then show ?thesis using Clean_rooted [of "ws @ vs"] assms by simp
qed

end
