(* ===== verification/RunImport.thy ===== *)
theory RunImport
  imports ImportTree Filepath
begin

text \<open>
  The sequential import driver: \<open>runImport\<close> of \<open>importer.go\<close> with its batch closures, the
  fast-storage ingester (\<open>ingester.go\<close>) and the extension writer (\<open>extensions.go\<close>).  Pebble and
  the file system are parameters: records of operations whose documented laws are the locales
  \<open>pebble\<close> and \<open>pebble_live\<close>.
\<close>

section \<open>Parameters\<close>

text \<open>
  \<open>CreateWriter\<close> stands for \<open>vfs.Default.Create\<close> and \<open>sstable.NewWriter\<close>; the file a writer has
  closed is what \<open>Ingest\<close> is given the path of.  \<open>Commit\<close> takes pebble's sync flag.
\<close>

record ('db, 'b, 'w, 'f, 'e) pebble_ops =
  NewBatch :: "'db \<Rightarrow> 'b"
  BatchSet :: "'b \<Rightarrow> bytes \<Rightarrow> bytes \<Rightarrow> 'e + 'b"
  Commit :: "'b \<Rightarrow> bool \<Rightarrow> 'db \<Rightarrow> 'e + 'db"
  CreateWriter :: "bytes \<Rightarrow> 'e + 'w"
  WriterSet :: "'w \<Rightarrow> bytes \<Rightarrow> bytes \<Rightarrow> 'e + 'w"
  WriterClose :: "'w \<Rightarrow> 'e + 'f"
  Ingest :: "'db \<Rightarrow> 'f \<Rightarrow> 'e + 'db"

record ('fs, 'e) file_ops =
  MkdirAll :: "'fs \<Rightarrow> bytes \<Rightarrow> 'e + 'fs"
  WriteFile :: "'fs \<Rightarrow> bytes \<Rightarrow> bytes \<Rightarrow> 'e + 'fs"

section \<open>The fast-storage ingester\<close>

record 'w fastIngester =
  ig_tmpDir :: bytes
  ig_curWriter :: "'w option"
  ig_curPath :: bytes
  ig_curName :: bytes
  ig_curCount :: nat

datatype 'e ingest_error =
    StillOpen bytes bytes
  | CreateErr 'e
  | NoWriterOpen bytes
  | WriterSetErr 'e
  | OtherStore bytes bytes
  | CloseErr 'e
  | IngestErr 'e

definition newFastIngester :: "bytes \<Rightarrow> 'w fastIngester" where
  "newFastIngester tmpDir =
     \<lparr>ig_tmpDir = tmpDir, ig_curWriter = None, ig_curPath = [], ig_curName = [], ig_curCount = 0\<rparr>"

definition sanitize :: "bytes \<Rightarrow> bytes" where
  "sanitize s =
     map (\<lambda>c. if (0x61 \<le> c \<and> c \<le> 0x7a) \<or> (0x41 \<le> c \<and> c \<le> 0x5a) \<or> (0x30 \<le> c \<and> c \<le> 0x39) \<or>
                 c = 0x2d \<or> c = 0x5f \<or> c = 0x2e then c else 0x5f) s"

definition openStore :: "('db, 'b, 'w, 'f, 'e) pebble_ops \<Rightarrow> 'w fastIngester \<Rightarrow> bytes \<Rightarrow>
    'e ingest_error + 'w fastIngester" where
  "openStore P i name =
     (if ig_curWriter i \<noteq> None then Inl (StillOpen name (ig_curName i))
      else let path = Join [ig_tmpDir i, go_string ''fast-'' @ sanitize name @ go_string ''.sst''] in
        case CreateWriter P path of
          Inl e \<Rightarrow> Inl (CreateErr e)
        | Inr w \<Rightarrow> Inr (i\<lparr>ig_curWriter := Some w, ig_curPath := path, ig_curName := name, ig_curCount := 0\<rparr>))"

definition ingesterSet :: "('db, 'b, 'w, 'f, 'e) pebble_ops \<Rightarrow> 'w fastIngester \<Rightarrow> bytes \<Rightarrow> bytes \<Rightarrow>
    'e ingest_error + 'w fastIngester" where
  "ingesterSet P i key v =
     (case ig_curWriter i of
        None \<Rightarrow> Inl (NoWriterOpen (ig_curName i))
      | Some w \<Rightarrow>
          (case WriterSet P w key v of
             Inl e \<Rightarrow> Inl (WriterSetErr e)
           | Inr w \<Rightarrow> Inr (i\<lparr>ig_curWriter := Some w, ig_curCount := ig_curCount i + 1\<rparr>)))"

definition ingestStore :: "('db, 'b, 'w, 'f, 'e) pebble_ops \<Rightarrow> 'w fastIngester \<Rightarrow> 'db \<Rightarrow> bytes \<Rightarrow>
    'e ingest_error + 'w fastIngester \<times> 'db" where
  "ingestStore P i db name =
     (case ig_curWriter i of
        None \<Rightarrow> Inr (i, db)
      | Some w \<Rightarrow>
          if ig_curName i \<noteq> name then Inl (OtherStore name (ig_curName i))
          else let count = ig_curCount i;
                   i = i\<lparr>ig_curWriter := None, ig_curPath := [], ig_curName := [], ig_curCount := 0\<rparr>
            in if count = 0 then Inr (i, db)
               else (case WriterClose P w of
                   Inl e \<Rightarrow> Inl (CloseErr e)
                 | Inr f \<Rightarrow>
                     (case Ingest P db f of
                        Inl e \<Rightarrow> Inl (IngestErr e)
                      | Inr db \<Rightarrow> Inr (i, db))))"

section \<open>The extension writer\<close>

record extensionWriter =
  ex_extDir :: bytes
  ex_curName :: bytes
  ex_curFormat :: u32
  ex_curIndex :: u32

definition newExtensionWriter :: "bytes \<Rightarrow> extensionWriter" where
  "newExtensionWriter extDir = \<lparr>ex_extDir = extDir, ex_curName = [], ex_curFormat = 0, ex_curIndex = 0\<rparr>"

definition openMeta :: "('fs, 'e) file_ops \<Rightarrow> extensionWriter \<Rightarrow> 'fs \<Rightarrow> bytes \<Rightarrow> u32 \<Rightarrow>
    'e + extensionWriter \<times> 'fs" where
  "openMeta X e fs name format =
     (let e = e\<lparr>ex_curName := name, ex_curFormat := format, ex_curIndex := 0\<rparr> in
      if ex_extDir e = [] then Inr (e, fs)
      else case MkdirAll X fs (Join [ex_extDir e, name]) of
          Inl err \<Rightarrow> Inl err
        | Inr fs \<Rightarrow> Inr (e, fs))"

definition payloadPath :: "extensionWriter \<Rightarrow> bytes" where
  "payloadPath e =
     Join [ex_extDir e, ex_curName e,
           go_string ''payload-'' @ fmt_nat (unat (ex_curIndex e)) @
           go_string ''-format'' @ fmt_nat (unat (ex_curFormat e)) @ go_string ''.bin'']"

definition writePayload :: "('fs, 'e) file_ops \<Rightarrow> extensionWriter \<Rightarrow> 'fs \<Rightarrow> bytes \<Rightarrow>
    'e + extensionWriter \<times> 'fs" where
  "writePayload X e fs payload =
     (if ex_extDir e = [] \<or> ex_curName e = [] then Inr (e\<lparr>ex_curIndex := ex_curIndex e + 1\<rparr>, fs)
      else case WriteFile X fs (payloadPath e) payload of
          Inl err \<Rightarrow> Inl err
        | Inr fs \<Rightarrow> Inr (e\<lparr>ex_curIndex := ex_curIndex e + 1\<rparr>, fs))"

section \<open>The batch\<close>

record ('db, 'b, 'w) sink =
  sk_db :: 'db
  sk_batch :: 'b
  sk_batchBytes :: int
  sk_ing :: "'w fastIngester"

datatype 'e sink_error = BatchErr 'e | FastErr "'e ingest_error"

definition flushBytes :: int where
  "flushBytes = 64 * 2 ^ 20"

definition flush :: "('db, 'b, 'w, 'f, 'e) pebble_ops \<Rightarrow> ('db, 'b, 'w) sink \<Rightarrow> 'e + ('db, 'b, 'w) sink" where
  "flush P k =
     (if sk_batchBytes k = 0 then Inr k
      else case Commit P (sk_batch k) False (sk_db k) of
          Inl e \<Rightarrow> Inl e
        | Inr db \<Rightarrow> Inr (k\<lparr>sk_db := db, sk_batch := NewBatch P db, sk_batchBytes := 0\<rparr>))"

definition runSet :: "('db, 'b, 'w, 'f, 'e) pebble_ops \<Rightarrow> (('db, 'b, 'w) sink, 'e sink_error) setter" where
  "runSet P k key v =
     (case BatchSet P (sk_batch k) key v of
        Inl e \<Rightarrow> Inl (BatchErr e)
      | Inr b \<Rightarrow>
          let k = k\<lparr>sk_batch := b, sk_batchBytes := sk_batchBytes k + int (length key) + int (length v)\<rparr> in
          if flushBytes \<le> sk_batchBytes k
          then (case flush P k of Inl e \<Rightarrow> Inl (BatchErr e) | Inr k \<Rightarrow> Inr k)
          else Inr k)"

definition runSetFast :: "('db, 'b, 'w, 'f, 'e) pebble_ops \<Rightarrow> (('db, 'b, 'w) sink, 'e sink_error) setter" where
  "runSetFast P k key v =
     (case ingesterSet P (sk_ing k) key v of
        Inl e \<Rightarrow> Inl (FastErr e)
      | Inr i \<Rightarrow> Inr (k\<lparr>sk_ing := i\<rparr>))"

section \<open>The driver\<close>

record ('db, 'b, 'w, 'fs) importRun =
  ir_sink :: "('db, 'b, 'w) sink"
  ir_current :: "storeImporter option"
  ir_curName :: bytes
  ir_stores :: "StoreInfo list"
  ir_ext :: extensionWriter
  ir_fs :: 'fs
  ir_Items :: u64
  ir_Extensions :: int
  ir_ExtensionPayloads :: int

datatype 'e run_error =
    ReadItem snap_error
  | FinalizeStore bytes "'e sink_error import_error"
  | IngestStore bytes "'e ingest_error"
  | OpenStore bytes "'e ingest_error"
  | NoStoreItem
  | AddNode bytes "'e sink_error import_error"
  | OpenMeta 'e
  | WritePayload 'e
  | WriteCommitInfo "'e sink_error"
  | WriteLatest "'e sink_error"
  | FinalFlush 'e

definition closeCurrent :: "('db, 'b, 'w, 'f, 'e) pebble_ops \<Rightarrow> ('db, 'b, 'w, 'fs) importRun \<Rightarrow>
    'e run_error + ('db, 'b, 'w, 'fs) importRun" where
  "closeCurrent P r =
     (case ir_current r of
        None \<Rightarrow> Inr r
      | Some cur \<Rightarrow>
          wrap_err (FinalizeStore (ir_curName r)) (finalize (runSet P) cur (ir_sink r)) (\<lambda>(hash, k).
          wrap_err (IngestStore (ir_curName r)) (ingestStore P (sk_ing k) (sk_db k) (st_storeName cur)) (\<lambda>(i, db).
          Inr (r\<lparr>ir_sink := k\<lparr>sk_ing := i, sk_db := db\<rparr>,
                 ir_stores := ir_stores r @ [\<lparr>si_Name = ir_curName r, si_Hash = hash\<rparr>],
                 ir_Items := ir_Items r + st_itemCount cur,
                 ir_current := None\<rparr>))))"

fun importItem :: "('db, 'b, 'w, 'f, 'e) pebble_ops \<Rightarrow> ('fs, 'e) file_ops \<Rightarrow> i64 \<Rightarrow>
    ('db, 'b, 'w, 'fs) importRun \<Rightarrow> snapItem \<Rightarrow> 'e run_error + ('db, 'b, 'w, 'fs) importRun" where
  "importItem P X height r (StoreItem name) =
     (case closeCurrent P r of
        Inl e \<Rightarrow> Inl e
      | Inr r \<Rightarrow>
          let r = r\<lparr>ir_current := Some (newStoreImporter name height), ir_curName := name\<rparr> in
          wrap_err (OpenStore name) (openStore P (sk_ing (ir_sink r)) name) (\<lambda>i.
          Inr (r\<lparr>ir_sink := (ir_sink r)\<lparr>sk_ing := i\<rparr>\<rparr>)))"
| "importItem P X height r (IAVLItem key v version h) =
     (case ir_current r of
        None \<Rightarrow> Inl NoStoreItem
      | Some cur \<Rightarrow>
          wrap_err (AddNode (ir_curName r))
            (addNode (runSet P) (runSetFast P) cur (ir_sink r) h version (nil_bytes key) (nil_bytes v)) (\<lambda>(cur, k).
          Inr (r\<lparr>ir_current := Some cur, ir_sink := k\<rparr>)))"
| "importItem P X height r (ExtMeta name format) =
     (case closeCurrent P r of
        Inl e \<Rightarrow> Inl e
      | Inr r \<Rightarrow>
          wrap_err OpenMeta (openMeta X (ir_ext r) (ir_fs r) name format) (\<lambda>(e, fs).
          Inr (r\<lparr>ir_ext := e, ir_fs := fs, ir_Extensions := ir_Extensions r + 1\<rparr>)))"
| "importItem P X height r (ExtPayload payload) =
     wrap_err WritePayload (writePayload X (ir_ext r) (ir_fs r) (nil_bytes payload)) (\<lambda>(e, fs).
     Inr (r\<lparr>ir_ext := e, ir_fs := fs, ir_ExtensionPayloads := ir_ExtensionPayloads r + 1\<rparr>))"

function importLoop :: "('db, 'b, 'w, 'f, 'e) pebble_ops \<Rightarrow> ('fs, 'e) file_ops \<Rightarrow> i64 \<Rightarrow> snapReader \<Rightarrow>
    ('db, 'b, 'w, 'fs) importRun \<Rightarrow> ('e run_error, ('db, 'b, 'w, 'fs) importRun) outcome option" where
  "importLoop P X height sr r =
     (case Next sr of
        None \<Rightarrow> None
      | Some (NextEOF, _) \<Rightarrow> Some (Ok r)
      | Some (NextErr e, _) \<Rightarrow> Some (Fail (ReadItem e))
      | Some (NextPanic, _) \<Rightarrow> Some Panic
      | Some (Item item, sr') \<Rightarrow>
          (case importItem P X height r item of
             Inl e \<Rightarrow> Some (Fail e)
           | Inr r' \<Rightarrow> importLoop P X height sr' r'))"
  by pat_completeness auto
termination
  by (relation "measure (\<lambda>(_, _, _, sr, _). length (sr_in sr))") (auto dest: Next_shrinks)

declare importLoop.simps [simp del]

definition importEnd :: "('db, 'b, 'w, 'f, 'e) pebble_ops \<Rightarrow> i64 \<Rightarrow> ('db, 'b, 'w, 'fs) importRun \<Rightarrow>
    'e run_error + ('db, 'b, 'w, 'fs) importRun" where
  "importEnd P height r =
     (case closeCurrent P r of
        Inl e \<Rightarrow> Inl e
      | Inr r \<Rightarrow>
          wrap_err WriteCommitInfo (runSet P (ir_sink r) (commitInfoKey height) (commitInfoBytes height (ir_stores r))) (\<lambda>k.
          wrap_err WriteLatest (runSet P k latestVersionKey (latestVersionBytes height)) (\<lambda>k.
          wrap_err FinalFlush
            (if 0 < sk_batchBytes k
             then (case Commit P (sk_batch k) True (sk_db k) of
                 Inl e \<Rightarrow> Inl e
               | Inr db \<Rightarrow> Inr (k\<lparr>sk_db := db, sk_batch := NewBatch P db, sk_batchBytes := 0\<rparr>))
             else Inr k) (\<lambda>k.
          Inr (r\<lparr>ir_sink := k\<rparr>)))))"

definition importStart :: "('db, 'b, 'w, 'f, 'e) pebble_ops \<Rightarrow> 'db \<Rightarrow> 'fs \<Rightarrow> bytes \<Rightarrow> bytes \<Rightarrow>
    ('db, 'b, 'w, 'fs) importRun" where
  "importStart P db fs extDir ingestTmpDir =
     \<lparr>ir_sink = \<lparr>sk_db = db, sk_batch = NewBatch P db, sk_batchBytes = 0, sk_ing = newFastIngester ingestTmpDir\<rparr>,
      ir_current = None, ir_curName = [], ir_stores = [], ir_ext = newExtensionWriter extDir, ir_fs = fs,
      ir_Items = 0, ir_Extensions = 0, ir_ExtensionPayloads = 0\<rparr>"

definition runImport :: "('db, 'b, 'w, 'f, 'e) pebble_ops \<Rightarrow> ('fs, 'e) file_ops \<Rightarrow> bytes \<Rightarrow> 'db \<Rightarrow> 'fs \<Rightarrow> i64 \<Rightarrow>
    bytes \<Rightarrow> bytes \<Rightarrow> ('e run_error, ('db, 'b, 'w, 'fs) importRun) outcome option" where
  "runImport P X input db fs height extDir ingestTmpDir =
     map_option (\<lambda>res. bind_outcome res (\<lambda>r.
         case importEnd P height r of Inl e \<Rightarrow> Fail e | Inr r \<Rightarrow> Ok r))
       (importLoop P X height (newSnapReader input False) (importStart P db fs extDir ingestTmpDir))"

end
