(* ===== verification/ImportLog.thy ===== *)
theory ImportLog
  imports ImportTree
begin

text \<open>
  What a store importer writes does not depend on where it writes it: the entries are a function of
  the store's name, the height and the stream.  \<open>storeLog\<close> collects them, and every sink that obeys
  \<open>kv_sink\<close> ends up with exactly these entries added.
\<close>

section \<open>A sink that only logs\<close>

definition logPut :: "((bytes \<times> bytes) list, unit) setter" where
  "logPut l k v = Inr ((k, v) # l)"

definition storeLog :: "bytes \<Rightarrow> i64 \<Rightarrow> export_node list \<Rightarrow> (bytes \<times> bytes) list" where
  "storeLog name height ns =
     (case importStore logPut logPut name height [] ns of Inr (h, l) \<Rightarrow> l | Inl _ \<Rightarrow> [])"

context kv_sink
begin

abbreviation logged :: "'db \<Rightarrow> (bytes \<times> bytes) list \<Rightarrow> 'db \<Rightarrow> (bytes \<times> bytes) list \<Rightarrow> bool" where
  "logged db l db' l' \<equiv> sound db' \<and> (\<exists>new. l' = new @ l \<and> content db' = content db ++ map_of new)"

lemma logged_put:
  assumes "sound db" and "k \<notin> F" and "put db k x = Inr db'"
  shows "logged db l db' ((k, x) # l)"
  using put_content [OF assms] by (intro conjI exI [of _ "[(k, x)]"]) auto

lemma logged_putFast:
  assumes "sound db" and "k \<in> F" and "putFast db k x = Inr db'"
  shows "logged db l db' ((k, x) # l)"
  using putFast_content [OF assms] by (intro conjI exI [of _ "[(k, x)]"]) auto

lemma logged_trans: "logged db l db1 l1 \<Longrightarrow> logged db1 l1 db2 l2 \<Longrightarrow> logged db l db2 l2"
proof (elim conjE exE, intro conjI)
  fix n1 n2
  assume "l1 = n1 @ l" "content db1 = content db ++ map_of n1" "l2 = n2 @ l1" "content db2 = content db1 ++ map_of n2"
  then show "\<exists>new. l2 = new @ l \<and> content db2 = content db ++ map_of new"
    by (intro exI [of _ "n2 @ n1"]) simp
qed

lemma addLeaf_log:
  assumes "addLeaf put putFast s db v k x = Inr (s', db')" and "sound db" and "routes F (st_storePrefix s)"
  shows "\<exists>l'. addLeaf logPut logPut s l v k x = Inr (s', l') \<and> logged db l db' l' \<and> st_storePrefix s' = st_storePrefix s"
proof -
  let ?p = "st_storePrefix s" and ?n = "fst (nextNonce s v)"
  from assms(1) obtain db1 where
    p1: "put db (nodeDBKeyInto [] ?p v ?n) (encodeLeafNodeInto [] k x) = Inr db1" and
    p2: "putFast db1 (fastDBKeyInto [] ?p k) (encodeFastNodeInto [] v x) = Inr db'"
    by (auto simp: addLeaf_def Let_def case_prod_beta wrap_err_Inr_iff)
  have F: "nodeDBKeyInto [] ?p v ?n \<notin> F" "fastDBKeyInto [] ?p k \<in> F" using assms(3) by (simp_all add: routes_def)
  note l1 = logged_put [OF assms(2) F(1) p1, of l]
  note l2 = logged_putFast [OF conjunct1 [OF l1] F(2) p2]
  from assms(1) p1 p2 logged_trans [OF l1 l2] show ?thesis
    by (auto simp: addLeaf_def Let_def case_prod_beta logPut_def)
qed

lemma addInner_log:
  assumes "addInner put s db h v k = Inr (s', db')" and "sound db" and "routes F (st_storePrefix s)"
  shows "\<exists>l'. addInner logPut s l h v k = Inr (s', l') \<and> logged db l db' l' \<and> st_storePrefix s' = st_storePrefix s"
proof -
  from assms(1) obtain fr fl rest where st: "st_stack s = fr # fl # rest" and c: "closesPair s h"
    by (auto simp: addInner_def split: if_splits list.splits)
  let ?n = "nextNonce (s\<lparr>st_stack := rest\<rparr>) v"
  have F: "nodeDBKeyInto [] (st_storePrefix s) v (fst ?n) \<notin> F" using assms(3) by (simp add: routes_def)
  from assms(1) st c logged_put [OF assms(2) F, of _ db' l] show ?thesis
    by (auto simp: addInner_def Let_def case_prod_beta wrap_err_Inr_iff logPut_def)
qed

lemma addNode_log:
  assumes "addNode put putFast s db h v k x = Inr (s', db')" and "sound db" and "routes F (st_storePrefix s)"
  shows "\<exists>l'. addNode logPut logPut s l h v k x = Inr (s', l') \<and> logged db l db' l' \<and> st_storePrefix s' = st_storePrefix s"
  using assms addLeaf_log [of "s\<lparr>st_itemCount := st_itemCount s + 1\<rparr>" db v k x s' db' l]
    addInner_log [of "s\<lparr>st_itemCount := st_itemCount s + 1\<rparr>" db h v k s' db' l]
  by (auto simp: addNode_def Let_def split: if_splits)

lemma addNodes_log:
  assumes "addNodes put putFast s db ns = Inr (s', db')" and "sound db" and "routes F (st_storePrefix s)"
  shows "\<exists>l'. addNodes logPut logPut s l ns = Inr (s', l') \<and> logged db l db' l' \<and> st_storePrefix s' = st_storePrefix s"
  using assms
proof (induction ns arbitrary: s db l)
  case Nil
  then show ?case by (auto intro: exI [of _ "[]"])
next
  case (Cons a ns)
  obtain h v k x where a: "a = (h, v, k, x)" by (cases a)
  with Cons.prems(1) obtain s1 db1 where
    n: "addNode put putFast s db h v k x = Inr (s1, db1)" and ns: "addNodes put putFast s1 db1 ns = Inr (s', db')"
    by (auto simp: case_sum_Inr_iff)
  from addNode_log [OF n Cons.prems(2,3), of l] obtain l1 where
    l1: "addNode logPut logPut s l h v k x = Inr (s1, l1)" "logged db l db1 l1" "st_storePrefix s1 = st_storePrefix s" by blast
  from Cons.IH [OF ns, of l1] l1(2,3) Cons.prems(3) obtain l2 where
    l2: "addNodes logPut logPut s1 l1 ns = Inr (s', l2)" "logged db1 l1 db' l2" "st_storePrefix s' = st_storePrefix s1" by auto
  with l1 a logged_trans [OF l1(2) l2(2)] show ?case by auto
qed

lemma finalize_log:
  assumes "finalize put s db = Inr (h, db')" and "sound db" and "routes F (st_storePrefix s)"
  shows "\<exists>l'. finalize logPut s l = Inr (h, l') \<and> logged db l db' l'"
proof -
  let ?p = "st_storePrefix s"
  have F: "nodeDBKeyInto [] ?p v n \<notin> F" "metadataDBKeyInto [] ?p m \<notin> F" for v n m
    using assms(3) by (simp_all add: routes_def)
  have marker: "\<exists>l'. writeStorageVersionMarker logPut s k = Inr l' \<and> logged d k d' l'"
    if "writeStorageVersionMarker put s d = Inr d'" "sound d" for d d' k
    using that logged_put [OF that(2) F(2), of _ _ d' k]
    by (auto simp: writeStorageVersionMarker_def wrap_err_Inr_iff logPut_def)
  consider "st_stack s = []" | r where "st_stack s = [r]"
    using assms(1) by (auto simp: finalize_def split: list.splits)
  then show ?thesis
  proof cases
    case 1
    with assms(1) obtain d where d: "put db (nodeDBKeyInto [] ?p (st_height s) 1) [] = Inr d"
      and m: "writeStorageVersionMarker put s d = Inr db'" and h: "h = emptyIAVLTreeHash"
      by (auto simp: finalize_def wrap_err_Inr_iff case_sum_Inr_iff)
    note l1 = logged_put [OF assms(2) F(1) d, of l]
    from marker [OF m conjunct1 [OF l1]] obtain l2 where
      l2: "writeStorageVersionMarker logPut s ((nodeDBKeyInto [] ?p (st_height s) 1, []) # l) = Inr l2"
        "logged d ((nodeDBKeyInto [] ?p (st_height s) 1, []) # l) db' l2" by blast
    with 1 h logged_trans [OF l1 l2(2)] show ?thesis by (auto simp: finalize_def logPut_def)
  next
    case (2 r)
    with assms(1) obtain d d' where
      d: "put db (nodeDBKeyInto [] ?p (fr_version r) 1) (st_lastIavlBytes s) = Inr d" and
      d': "(if fr_version r \<noteq> st_height s then put d (nodeDBKeyInto [] ?p (st_height s) 1) (redirectVal (fr_version r))
        else Inr d) = Inr d'" and m: "writeStorageVersionMarker put s d' = Inr db'" and h: "h = fr_hash r"
      by (auto simp: finalize_def wrap_err_Inr_iff case_sum_Inr_iff cong: if_cong)
    note l1 = logged_put [OF assms(2) F(1) d, of l]
    let ?l1 = "(nodeDBKeyInto [] ?p (fr_version r) 1, st_lastIavlBytes s) # l"
    have "\<exists>l2. (if fr_version r \<noteq> st_height s then logPut ?l1 (nodeDBKeyInto [] ?p (st_height s) 1) (redirectVal (fr_version r))
        else Inr ?l1) = Inr l2 \<and> logged d ?l1 d' l2"
      using d' l1 logged_put [OF conjunct1 [OF l1] F(1), of "st_height s" 1 _ d' ?l1]
      by (auto simp: logPut_def split: if_splits intro: exI [of _ "[]"])
    then obtain l2 where l2: "(if fr_version r \<noteq> st_height s
        then logPut ?l1 (nodeDBKeyInto [] ?p (st_height s) 1) (redirectVal (fr_version r)) else Inr ?l1) = Inr l2"
      "logged d ?l1 d' l2" by blast
    from marker [OF m conjunct1 [OF l2(2)]] obtain l3 where
      l3: "writeStorageVersionMarker logPut s l2 = Inr l3" "logged d' l2 db' l3" by blast
    have "finalize logPut s l = Inr (h, l3)" using 2 h l2(1) l3(1) by (simp add: finalize_def logPut_def split: if_splits)
    with logged_trans [OF logged_trans [OF l1 l2(2)] l3(2)] show ?thesis by blast
  qed
qed

lemma importStore_log:
  assumes "importStore put putFast name height db ns = Inr (h, db')" and "sound db" and "routes F (storePrefix name)"
  shows "sound db'" and "content db' = content db ++ map_of (storeLog name height ns)"
proof -
  let ?s = "newStoreImporter name height"
  from assms(1) obtain s1 db1 where
    a: "addNodes put putFast ?s db ns = Inr (s1, db1)" and f: "finalize put s1 db1 = Inr (h, db')"
    by (auto simp: importStore_def case_sum_Inr_iff)
  from addNodes_log [OF a assms(2), of "[]"] assms(3) obtain l1 where
    l1: "addNodes logPut logPut ?s [] ns = Inr (s1, l1)" "logged db [] db1 l1" "st_storePrefix s1 = storePrefix name"
    by (auto simp: newStoreImporter_def)
  from finalize_log [OF f, of l1] l1 assms(3) obtain l2 where
    l2: "finalize logPut s1 l1 = Inr (h, l2)" "logged db1 l1 db' l2" by auto
  have "storeLog name height ns = l2" using l1(1) l2(1) by (simp add: storeLog_def importStore_def)
  with logged_trans [OF l1(2) l2(2)] show "sound db'" and "content db' = content db ++ map_of (storeLog name height ns)" by auto
qed

end

interpretation logsink: kv_sink logPut logPut map_of "\<lambda>_. True" F for F
  by unfold_locales (auto simp: logPut_def)

lemma storeLog_prefix:
  assumes "wf_store t" and "routes F (storePrefix name)" and "k \<in> fst ` set (storeLog name height (store_stream t))"
  shows "take (length (storePrefix name)) k = storePrefix name"
proof (cases "importStore logPut logPut name height [] (store_stream t)")
  case (Inr hl)
  obtain h l where hl: "hl = (h, l)" by (cases hl)
  with Inr have "\<forall>k. take (length (storePrefix name)) k \<noteq> storePrefix name \<longrightarrow> map_of l k = None"
    using logsink.importStore_store [OF _ assms(1) _ assms(2)] by simp
  moreover have "map_of l k \<noteq> None" using assms(3) Inr hl by (simp add: storeLog_def map_of_eq_None_iff)
  ultimately show ?thesis by auto
qed (use assms(3) in \<open>simp add: storeLog_def\<close>)

end
