(* ===== verification/ImportDriver.thy ===== *)
theory ImportDriver
  imports RunImport ImportLog
begin

text \<open>
  Correctness of the import driver over the documented behaviour of pebble: the batch and the
  ingester form a sink in the sense of \<open>kv_sink\<close>, and a whole stream of stores and extensions
  ends in a database that holds every tree, the commit info and the latest version.
\<close>

section \<open>What pebble promises\<close>

text \<open>
  A committed batch and an ingested table become visible, later entries winning; a batch and a
  table hold what was set in them, latest first.
\<close>

locale pebble =
  fixes P :: "('db, 'b, 'w, 'f, 'e) pebble_ops"
    and db_content :: "'db \<Rightarrow> bytes \<Rightarrow> bytes option"
    and batch_of :: "'b \<Rightarrow> (bytes \<times> bytes) list"
    and writer_of :: "'w \<Rightarrow> (bytes \<times> bytes) list"
    and file_of :: "'f \<Rightarrow> (bytes \<times> bytes) list"
  assumes NewBatch_law: "batch_of (NewBatch P db) = []"
    and BatchSet_law: "BatchSet P b k v = Inr b' \<Longrightarrow> batch_of b' = (k, v) # batch_of b"
    and Commit_law: "Commit P b sync db = Inr db' \<Longrightarrow> db_content db' = db_content db ++ map_of (batch_of b)"
    and CreateWriter_law: "CreateWriter P path = Inr w \<Longrightarrow> writer_of w = []"
    and WriterSet_law: "WriterSet P w k v = Inr w' \<Longrightarrow> writer_of w' = (k, v) # writer_of w"
    and WriterClose_law: "WriterClose P w = Inr f \<Longrightarrow> file_of f = writer_of w"
    and Ingest_law: "Ingest P db f = Inr db' \<Longrightarrow> db_content db' = db_content db ++ map_of (file_of f)"

text \<open>
  Pebble and the file system in working order: no operation fails, given that the keys of a
  table are set in strictly increasing order.
\<close>

locale pebble_live = pebble P db_content batch_of writer_of file_of
  for P :: "('db, 'b, 'w, 'f, 'e) pebble_ops" and db_content and batch_of and writer_of and file_of +
  fixes X :: "('fs, 'e) file_ops"
  assumes BatchSet_live: "\<exists>b'. BatchSet P b k v = Inr b'"
    and Commit_live: "\<exists>db'. Commit P b sync db = Inr db'"
    and CreateWriter_live: "\<exists>w. CreateWriter P path = Inr w"
    and WriterSet_live: "(\<forall>k' \<in> fst ` set (writer_of w). k' < k) \<Longrightarrow> \<exists>w'. WriterSet P w k v = Inr w'"
    and WriterClose_live: "\<exists>f. WriterClose P w = Inr f"
    and Ingest_live: "\<exists>db'. Ingest P db f = Inr db'"
    and MkdirAll_live: "\<exists>fs'. MkdirAll X fs path = Inr fs'"
    and WriteFile_live: "\<exists>fs'. WriteFile X fs path v = Inr fs'"

section \<open>The sink\<close>

text \<open>
  The keys no batch may hold: fast-storage keys of any store whose name has no slash, and the
  empty key, which would not count in \<open>batchBytes\<close>.
\<close>

definition fastKeys :: "bytes set" where
  "fastKeys = insert [] {fastDBKeyInto [] (storePrefix name) k | name k. slash \<notin> set name}"

lemma routes_fastKeys:
  assumes "slash \<notin> set name"
  shows "routes fastKeys (storePrefix name)"
proof -
  have "c = 0x66" if "storePrefix name @ c # r \<in> fastKeys" for c r
    using that assms storePrefix_disjoint [OF assms]
    by (auto simp: fastKeys_def fastDBKeyInto_def go_string_def storePrefix_def)
  then show ?thesis using assms
    by (fastforce simp: routes_def nodeDBKeyInto_def metadataDBKeyInto_def fastDBKeyInto_def go_string_def storePrefix_def
        fastKeys_def)
qed

lemma commit_keys_not_fast: "commitInfoKey v \<notin> fastKeys" "latestVersionKey \<notin> fastKeys"
proof -
  have "commitInfoKey v \<noteq> []" "latestVersionKey \<noteq> []"
    by (simp_all add: commitInfoKey_def latestVersionKey_def go_string_def)
  then show "commitInfoKey v \<notin> fastKeys" "latestVersionKey \<notin> fastKeys"
    unfolding fastKeys_def fastDBKeyInto_def append_Nil by (auto dest: sym)
qed

definition batch_size :: "(bytes \<times> bytes) list \<Rightarrow> int" where
  "batch_size es = int (sum_list (map (\<lambda>(k, v). length k + length v) es))"

definition writer_entries :: "('w \<Rightarrow> (bytes \<times> bytes) list) \<Rightarrow> 'w fastIngester \<Rightarrow> (bytes \<times> bytes) list" where
  "writer_entries writer_of i = (case ig_curWriter i of None \<Rightarrow> [] | Some w \<Rightarrow> writer_of w)"

definition sink_content :: "('db \<Rightarrow> bytes \<Rightarrow> bytes option) \<Rightarrow> ('b \<Rightarrow> (bytes \<times> bytes) list) \<Rightarrow>
    ('w \<Rightarrow> (bytes \<times> bytes) list) \<Rightarrow> ('db, 'b, 'w) sink \<Rightarrow> bytes \<Rightarrow> bytes option" where
  "sink_content db_content batch_of writer_of k =
     db_content (sk_db k) ++ map_of (batch_of (sk_batch k)) ++ map_of (writer_entries writer_of (sk_ing k))"

definition sink_sound :: "('b \<Rightarrow> (bytes \<times> bytes) list) \<Rightarrow> ('w \<Rightarrow> (bytes \<times> bytes) list) \<Rightarrow>
    ('db, 'b, 'w) sink \<Rightarrow> bool" where
  "sink_sound batch_of writer_of k \<longleftrightarrow>
     fst ` set (batch_of (sk_batch k)) \<inter> fastKeys = {} \<and>
     fst ` set (writer_entries writer_of (sk_ing k)) \<subseteq> fastKeys \<and>
     sk_batchBytes k = batch_size (batch_of (sk_batch k)) \<and>
     (ig_curWriter (sk_ing k) \<noteq> None \<longrightarrow> ig_curCount (sk_ing k) = length (writer_entries writer_of (sk_ing k)))"

lemma map_add_swap:
  assumes "fst ` set xs \<inter> fst ` set ys = {}"
  shows "m ++ map_of xs ++ map_of ys = m ++ map_of ys ++ map_of xs"
  using assms by (metis dom_map_of_conv_image_fst map_add_assoc map_add_comm)

context pebble
begin

abbreviation content :: "('db, 'b, 'w) sink \<Rightarrow> bytes \<Rightarrow> bytes option" where
  "content \<equiv> sink_content db_content batch_of writer_of"

abbreviation sound :: "('db, 'b, 'w) sink \<Rightarrow> bool" where
  "sound \<equiv> sink_sound batch_of writer_of"

lemma commit_batch:
  assumes "sound k" and "Commit P (sk_batch k) sync (sk_db k) = Inr db"
  shows "sound (k\<lparr>sk_db := db, sk_batch := NewBatch P db, sk_batchBytes := 0\<rparr>)"
    and "content (k\<lparr>sk_db := db, sk_batch := NewBatch P db, sk_batchBytes := 0\<rparr>) = content k"
  using assms Commit_law [OF assms(2)]
  by (simp_all add: sink_sound_def sink_content_def NewBatch_law batch_size_def)

lemma flush_content:
  assumes "sound k" and "flush P k = Inr k'"
  shows "sound k' \<and> content k' = content k \<and> sk_ing k' = sk_ing k"
  using assms commit_batch [OF assms(1), of False] by (auto simp: flush_def case_sum_Inr_iff split: if_splits)

lemma runSet_content:
  assumes "sound k" and "key \<notin> fastKeys" and "runSet P k key v = Inr k'"
  shows "sound k' \<and> content k' = (content k)(key \<mapsto> v) \<and> sk_ing k' = sk_ing k"
proof -
  from assms(3) obtain b where b: "BatchSet P (sk_batch k) key v = Inr b"
    by (auto simp: runSet_def case_sum_Inr_iff)
  let ?k = "k\<lparr>sk_batch := b, sk_batchBytes := sk_batchBytes k + int (length key) + int (length v)\<rparr>"
  have sound: "sound ?k" using assms(1,2) BatchSet_law [OF b] by (auto simp: sink_sound_def batch_size_def)
  have "map_of (writer_entries writer_of (sk_ing k)) key = None"
    using assms(1,2) by (auto simp: map_of_eq_None_iff sink_sound_def)
  then have content: "content ?k = (content k)(key \<mapsto> v)"
    using BatchSet_law [OF b] by (auto simp: sink_content_def map_add_def fun_eq_iff)
  from assms(3) b have "k' = ?k \<or> flush P ?k = Inr k'"
    by (auto simp: runSet_def Let_def case_sum_Inr_iff split: if_splits)
  with sound content flush_content [OF sound, of k'] show ?thesis by auto
qed

lemma runSetFast_content:
  assumes "sound k" and "key \<in> fastKeys" and "runSetFast P k key v = Inr k'"
  shows "sound k' \<and> content k' = (content k)(key \<mapsto> v)"
proof -
  from assms(3) obtain w w' where w: "ig_curWriter (sk_ing k) = Some w" "WriterSet P w key v = Inr w'"
    and k': "k' = k\<lparr>sk_ing := (sk_ing k)\<lparr>ig_curWriter := Some w', ig_curCount := ig_curCount (sk_ing k) + 1\<rparr>\<rparr>"
    by (auto simp: runSetFast_def ingesterSet_def case_sum_Inr_iff split: option.splits)
  show ?thesis
    using assms(1,2) WriterSet_law [OF w(2)] w(1)
    by (auto simp: k' sink_sound_def sink_content_def writer_entries_def)
qed

end

sublocale pebble \<subseteq> kv: kv_sink "runSet P" "runSetFast P" "sink_content db_content batch_of writer_of"
    "sink_sound batch_of writer_of" fastKeys
proof unfold_locales
  fix db k x db'
  assume "sink_sound batch_of writer_of db" and "k \<notin> fastKeys" and "runSet P db k x = Inr db'"
  then show "sink_sound batch_of writer_of db' \<and>
      sink_content db_content batch_of writer_of db' = (sink_content db_content batch_of writer_of db)(k \<mapsto> x)"
    using runSet_content by blast
next
  fix db k x db'
  assume "sink_sound batch_of writer_of db" and "k \<in> fastKeys" and "runSetFast P db k x = Inr db'"
  then show "sink_sound batch_of writer_of db' \<and>
      sink_content db_content batch_of writer_of db' = (sink_content db_content batch_of writer_of db)(k \<mapsto> x)"
    using runSetFast_content by blast
qed

section \<open>Streams of stores and extensions\<close>

fun iavl_item :: "export_node \<Rightarrow> snapItem" where
  "iavl_item (h, v, k, x) =
     IAVLItem (if k = [] then None else Some k) (if h = 0 \<or> x \<noteq> [] then Some x else None) v h"

fun store_items :: "bytes \<times> tree option \<Rightarrow> snapItem list" where
  "store_items (name, t) = StoreItem name # map iavl_item (store_stream t)"

fun ext_items :: "bytes \<times> u32 \<times> bytes list \<Rightarrow> snapItem list" where
  "ext_items (name, format, ps) =
     ExtMeta name format # map (\<lambda>p. ExtPayload (if p = [] then None else Some p)) ps"

fun importItems :: "('db, 'b, 'w, 'f, 'e) pebble_ops \<Rightarrow> ('fs, 'e) file_ops \<Rightarrow> i64 \<Rightarrow>
    ('db, 'b, 'w, 'fs) importRun \<Rightarrow> snapItem list \<Rightarrow> 'e run_error + ('db, 'b, 'w, 'fs) importRun" where
  "importItems P X height r [] = Inr r"
| "importItems P X height r (it # its) =
     (case importItem P X height r it of Inl e \<Rightarrow> Inl e | Inr r \<Rightarrow> importItems P X height r its)"

definition importAll :: "('db, 'b, 'w, 'f, 'e) pebble_ops \<Rightarrow> ('fs, 'e) file_ops \<Rightarrow> i64 \<Rightarrow>
    ('db, 'b, 'w, 'fs) importRun \<Rightarrow> snapItem list \<Rightarrow> 'e run_error + ('db, 'b, 'w, 'fs) importRun" where
  "importAll P X height r its =
     (case importItems P X height r its of Inl e \<Rightarrow> Inl e | Inr r \<Rightarrow> closeCurrent P r)"

lemma nil_bytes_if [simp]: "nil_bytes (if k = [] then None else Some k) = k"
  by (simp add: nil_bytes_def)

lemma nil_bytes_if_or [simp]: "nil_bytes (if Q \<or> x \<noteq> [] then Some x else None) = x"
  by (auto simp: nil_bytes_def)

lemma importLoop_items:
  "readItems sr = Some (its, NextEOF) \<Longrightarrow>
   importLoop P X height sr r =
     Some (case importItems P X height r its of Inl e \<Rightarrow> Fail e | Inr r \<Rightarrow> Ok r)"
proof (induction sr arbitrary: its r rule: readItems.induct)
  case (1 sr)
  from "1.prems" show ?case
    by (subst importLoop.simps)
      (auto simp: readItems.simps [of sr] "1.IH" split: option.splits next_result.splits sum.splits)
qed

lemma importItems_append:
  "importItems P X height r (xs @ ys) =
     (case importItems P X height r xs of Inl e \<Rightarrow> Inl e | Inr r \<Rightarrow> importItems P X height r ys)"
  by (induction xs arbitrary: r) (auto split: sum.splits)

lemma importItems_iavl:
  "ir_current r = Some cur \<Longrightarrow>
   importItems P X height r (map iavl_item ns) =
     (case addNodes (runSet P) (runSetFast P) cur (ir_sink r) ns of
        Inl e \<Rightarrow> Inl (AddNode (ir_curName r) e)
      | Inr (cur, k) \<Rightarrow> Inr (r\<lparr>ir_current := Some cur, ir_sink := k\<rparr>))"
proof (induction ns arbitrary: r cur)
  case (Cons a ns)
  obtain h v k x where a: "a = (h, v, k, x)" by (cases a)
  show ?case
  proof (cases "addNode (runSet P) (runSetFast P) cur (ir_sink r) h v k x")
    case (Inr ck)
    obtain cur' k' where "ck = (cur', k')" by (cases ck)
    with Inr Cons a show ?thesis by (auto split: sum.splits)
  qed (use Cons a in auto)
qed simp

lemma closeCurrent_idle [simp]: "ir_current r = None \<Longrightarrow> closeCurrent P r = Inr r"
  by (simp add: closeCurrent_def)

lemma closeCurrent_closes: "closeCurrent P r = Inr r' \<Longrightarrow> ir_current r' = None"
  by (auto simp: closeCurrent_def wrap_err_Inr_iff split: option.splits)

text \<open>What a run does to the file system: the extension items in order, whatever lies between them.\<close>

fun runExts :: "('fs, 'e) file_ops \<Rightarrow> extensionWriter \<Rightarrow> 'fs \<Rightarrow> snapItem list \<Rightarrow> 'e + extensionWriter \<times> 'fs" where
  "runExts X e fs [] = Inr (e, fs)"
| "runExts X e fs (ExtMeta name format # its) =
     (case openMeta X e fs name format of Inl err \<Rightarrow> Inl err | Inr (e, fs) \<Rightarrow> runExts X e fs its)"
| "runExts X e fs (ExtPayload p # its) =
     (case writePayload X e fs (nil_bytes p) of Inl err \<Rightarrow> Inl err | Inr (e, fs) \<Rightarrow> runExts X e fs its)"
| "runExts X e fs (_ # its) = runExts X e fs its"

lemma closeCurrent_fs: "closeCurrent P r = Inr r' \<Longrightarrow> ir_ext r' = ir_ext r \<and> ir_fs r' = ir_fs r"
  by (auto simp: closeCurrent_def wrap_err_Inr_iff split: option.splits)

lemma importItems_fs:
  "importItems P X height r its = Inr r' \<Longrightarrow> runExts X (ir_ext r) (ir_fs r) its = Inr (ir_ext r', ir_fs r')"
proof (induction its arbitrary: r)
  case (Cons it its)
  then obtain r1 where r1: "importItem P X height r it = Inr r1" and its: "importItems P X height r1 its = Inr r'"
    by (auto simp: case_sum_Inr_iff)
  from Cons.IH [OF its] r1 show ?case
    by (cases it) (auto simp: wrap_err_Inr_iff case_sum_Inr_iff dest!: closeCurrent_fs split: option.splits)
qed simp

lemma runExts_stores: "runExts X e fs (concat (map store_items ss) @ its) = runExts X e fs its"
proof (induction ss)
  case (Cons a ss)
  have "runExts X e fs (map iavl_item ns @ its') = runExts X e fs its'" for ns its' by (induction ns) auto
  with Cons show ?case by (cases a) simp
qed simp

lemma runImport_fs:
  assumes "readItems (newSnapReader input False) = Some (its, NextEOF)"
    and "runImport P X input db fs height extDir tmp = Some (Ok r)"
  shows "\<exists>e. runExts X (newExtensionWriter extDir) fs its = Inr (e, ir_fs r)"
proof -
  from assms(2) obtain r1 where r1: "importItems P X height (importStart P db fs extDir tmp) its = Inr r1"
    and fin: "importEnd P height r1 = Inr r"
    by (auto simp: runImport_def importLoop_items [OF assms(1)] split: sum.splits)
  from fin have "ir_fs r = ir_fs r1"
    by (auto simp: importEnd_def case_sum_Inr_iff wrap_err_Inr_iff dest!: closeCurrent_fs)
  with importItems_fs [OF r1] show ?thesis by (auto simp: importStart_def)
qed

text \<open>Items that start a section: the open store is closed before they are handled.\<close>

fun opens_section :: "snapItem \<Rightarrow> bool" where
  "opens_section (StoreItem _) = True"
| "opens_section (ExtMeta _ _) = True"
| "opens_section _ = False"

lemma importItem_section:
  "opens_section it \<Longrightarrow> importItem P X height r it =
     (case closeCurrent P r of Inl e \<Rightarrow> Inl e | Inr r \<Rightarrow> importItem P X height r it)"
  by (cases it) (auto split: sum.splits dest: closeCurrent_closes)

lemma importAll_append:
  assumes "ys = [] \<or> opens_section (hd ys)"
  shows "importAll P X height r (xs @ ys) =
    (case importAll P X height r xs of Inl e \<Rightarrow> Inl e | Inr r \<Rightarrow> importAll P X height r ys)"
proof (cases "importItems P X height r xs")
  case (Inr r1)
  then show ?thesis
  proof (cases ys)
    case Nil
    with Inr show ?thesis by (auto simp: importAll_def dest: closeCurrent_closes split: sum.splits)
  next
    case (Cons y ys')
    then have "opens_section y" using assms by simp
    then have "importItem P X height r1 y =
        (case closeCurrent P r1 of Inl e \<Rightarrow> Inl e | Inr r \<Rightarrow> importItem P X height r y)"
      by (rule importItem_section)
    with Inr Cons show ?thesis by (auto simp: importAll_def importItems_append split: sum.splits)
  qed
qed (simp add: importAll_def importItems_append)

section \<open>A whole import\<close>

text \<open>Between stores: nothing open, and the sink in order.\<close>

definition settled :: "('b \<Rightarrow> (bytes \<times> bytes) list) \<Rightarrow> ('w \<Rightarrow> (bytes \<times> bytes) list) \<Rightarrow>
    ('db, 'b, 'w, 'fs) importRun \<Rightarrow> bool" where
  "settled batch_of writer_of r \<longleftrightarrow>
     ir_current r = None \<and> ig_curWriter (sk_ing (ir_sink r)) = None \<and> sink_sound batch_of writer_of (ir_sink r)"

text \<open>The entries of all stores, the last store first.\<close>

definition storesLog :: "i64 \<Rightarrow> (bytes \<times> tree option) list \<Rightarrow> (bytes \<times> bytes) list" where
  "storesLog height ss = concat (rev (map (\<lambda>(name, t). storeLog name height (store_stream t)) ss))"

definition writer_admits :: "('w \<Rightarrow> (bytes \<times> bytes) list) \<Rightarrow> ('db, 'b, 'w) sink \<Rightarrow> bytes \<Rightarrow> bool" where
  "writer_admits writer_of k key \<longleftrightarrow>
     ig_curWriter (sk_ing k) \<noteq> None \<and> (\<forall>k' \<in> fst ` set (writer_entries writer_of (sk_ing k)). k' < key)"

context pebble_live
begin

lemma runSet_live: "\<exists>k'. runSet P k key v = Inr k'"
proof -
  obtain b where "BatchSet P (sk_batch k) key v = Inr b" using BatchSet_live by blast
  moreover have "\<exists>k2. flush P k1 = Inr k2" for k1
    using Commit_live [of "sk_batch k1" False "sk_db k1"] by (auto simp: flush_def)
  ultimately show ?thesis by (auto simp: runSet_def Let_def split: sum.splits) (metis sum.distinct(1))
qed

lemma runSetFast_live:
  assumes "writer_admits writer_of k key"
  shows "\<exists>k'. runSetFast P k key v = Inr k' \<and> (\<forall>key'. key < key' \<longrightarrow> writer_admits writer_of k' key')"
proof -
  from assms obtain w where w: "ig_curWriter (sk_ing k) = Some w" "\<forall>k' \<in> fst ` set (writer_of w). k' < key"
    by (cases "ig_curWriter (sk_ing k)") (simp_all add: writer_admits_def writer_entries_def)
  then obtain w' where "WriterSet P w key v = Inr w'" using WriterSet_live by blast
  with w show ?thesis using WriterSet_law [of w key v w']
    by (auto simp: runSetFast_def ingesterSet_def writer_admits_def writer_entries_def intro: less_trans)
qed

end

sublocale pebble_live \<subseteq> kvl: kv_sink_live "runSet P" "runSetFast P" "sink_content db_content batch_of writer_of"
    "sink_sound batch_of writer_of" fastKeys "writer_admits writer_of"
proof unfold_locales
  fix k :: "('db, 'b, 'w) sink" and key v
  assume "sink_sound batch_of writer_of k" and "key \<notin> fastKeys"
  then show "\<exists>k'. runSet P k key v = Inr k' \<and> writer_admits writer_of k' = writer_admits writer_of k"
    using runSet_live [of k key v] runSet_content [of k key v] by (auto simp: writer_admits_def fun_eq_iff)
qed (use runSetFast_live in blast)

context pebble_live
begin

lemma openStore_live:
  assumes "ig_curWriter (sk_ing k) = None" and "sound k"
  shows "\<exists>i. openStore P (sk_ing k) name = Inr i \<and> sound (k\<lparr>sk_ing := i\<rparr>) \<and>
    content (k\<lparr>sk_ing := i\<rparr>) = content k \<and> (\<forall>key. writer_admits writer_of (k\<lparr>sk_ing := i\<rparr>) key) \<and>
    ig_curName i = name"
proof -
  obtain w where w: "CreateWriter P (Join [ig_tmpDir (sk_ing k), go_string ''fast-'' @ sanitize name @ go_string ''.sst'']) = Inr w"
    using CreateWriter_live by blast
  with assms CreateWriter_law [OF w] show ?thesis
    by (auto simp: openStore_def Let_def sink_sound_def sink_content_def writer_entries_def writer_admits_def)
qed

lemma ingestStore_live:
  assumes "sound k" and "ig_curName (sk_ing k) = name"
  shows "\<exists>i db. ingestStore P (sk_ing k) (sk_db k) name = Inr (i, db) \<and> ig_curWriter i = None \<and>
    sound (k\<lparr>sk_ing := i, sk_db := db\<rparr>) \<and> content (k\<lparr>sk_ing := i, sk_db := db\<rparr>) = content k"
proof (cases "ig_curWriter (sk_ing k)")
  case None
  then show ?thesis using assms by (simp add: ingestStore_def)
next
  case (Some w)
  have count: "ig_curCount (sk_ing k) = length (writer_of w)"
    using assms(1) Some by (simp add: sink_sound_def writer_entries_def)
  obtain f db where f: "WriterClose P w = Inr f" and db: "Ingest P (sk_db k) f = Inr db"
    using WriterClose_live Ingest_live by metis
  have "db_content db = db_content (sk_db k) ++ map_of (writer_of w)"
    using Ingest_law [OF db] WriterClose_law [OF f] by simp
  moreover have "fst ` set (batch_of (sk_batch k)) \<inter> fst ` set (writer_of w) = {}"
    using assms(1) Some by (auto simp: sink_sound_def writer_entries_def)
  ultimately show ?thesis using Some assms f db count map_add_swap [of "batch_of (sk_batch k)" "writer_of w"]
    by (auto simp: ingestStore_def Let_def sink_sound_def sink_content_def writer_entries_def)
qed

lemma run_keeps_name:
  "runSet P k key v = Inr k' \<Longrightarrow> ig_curName (sk_ing k) = n \<Longrightarrow> ig_curName (sk_ing k') = n"
  "runSetFast P k key v = Inr k' \<Longrightarrow> ig_curName (sk_ing k) = n \<Longrightarrow> ig_curName (sk_ing k') = n"
  by (auto simp: runSet_def flush_def runSetFast_def ingesterSet_def Let_def case_sum_Inr_iff
      split: if_splits option.splits)

text \<open>One store, from its \<open>StoreItem\<close> to the close of its table.\<close>

lemma importAll_store:
  assumes "settled batch_of writer_of r" and "slash \<notin> set name" and "wf_store t" and "sorted_wrt (<) (store_keys t)"
  shows "\<exists>r'. importAll P X height r (store_items (name, t)) = Inr r' \<and> settled batch_of writer_of r' \<and>
    ir_stores r' = ir_stores r @ [\<lparr>si_Name = name, si_Hash = store_hash t\<rparr>] \<and>
    store_imported (content (ir_sink r')) (storePrefix name) height t \<and>
    (\<forall>k. take (length (storePrefix name)) k \<noteq> storePrefix name \<longrightarrow> content (ir_sink r') k = content (ir_sink r) k) \<and>
    content (ir_sink r') = content (ir_sink r) ++ map_of (storeLog name height (store_stream t))"
proof -
  let ?k = "ir_sink r" and ?s = "newStoreImporter name height"
  have idle: "ir_current r = None" and w: "ig_curWriter (sk_ing ?k) = None" and sd: "sound ?k"
    using assms(1) by (simp_all add: settled_def)
  note routes = routes_fastKeys [OF assms(2)]
  from openStore_live [OF w sd] obtain i where
    i: "openStore P (sk_ing ?k) name = Inr i" "sound (?k\<lparr>sk_ing := i\<rparr>)" "content (?k\<lparr>sk_ing := i\<rparr>) = content ?k"
      "\<forall>key. writer_admits writer_of (?k\<lparr>sk_ing := i\<rparr>) key" "ig_curName i = name" by blast
  from kvl.importStore_ok [OF assms(3,4) i(2) routes] i(4) obtain h k2 where
    run: "importStore (runSet P) (runSetFast P) name height (?k\<lparr>sk_ing := i\<rparr>) (store_stream t) = Inr (h, k2)"
    by blast
  note imp = kv.importStore_store [OF run assms(3) i(2) routes]
  note log = kv.importStore_log(2) [OF run i(2) routes]
  from run obtain cur k1 where
    add: "addNodes (runSet P) (runSetFast P) ?s (?k\<lparr>sk_ing := i\<rparr>) (store_stream t) = Inr (cur, k1)" and
    fin: "finalize (runSet P) cur k1 = Inr (h, k2)"
    by (auto simp: importStore_def case_sum_Inr_iff)
  have n1: "ig_curName (sk_ing k1) = name \<and> st_storeName cur = name"
    using addNodes_keeps [where Q = "\<lambda>k. ig_curName (sk_ing k) = name", OF run_keeps_name add] i(5)
    by (simp add: newStoreImporter_def)
  then have "ig_curName (sk_ing k2) = name"
    using finalize_keeps [where Q = "\<lambda>k. ig_curName (sk_ing k) = name", OF run_keeps_name(1) fin] by simp
  with ingestStore_live [of k2 name] imp obtain i2 db2 where
    g: "ingestStore P (sk_ing k2) (sk_db k2) name = Inr (i2, db2)" "ig_curWriter i2 = None"
      "sound (k2\<lparr>sk_ing := i2, sk_db := db2\<rparr>)" "content (k2\<lparr>sk_ing := i2, sk_db := db2\<rparr>) = content k2" by blast
  let ?r1 = "r\<lparr>ir_current := Some ?s, ir_curName := name, ir_sink := ?k\<lparr>sk_ing := i\<rparr>\<rparr>"
  let ?r' = "r\<lparr>ir_current := None, ir_curName := name, ir_sink := k2\<lparr>sk_ing := i2, sk_db := db2\<rparr>,
    ir_stores := ir_stores r @ [\<lparr>si_Name = name, si_Hash = h\<rparr>], ir_Items := ir_Items r + st_itemCount cur\<rparr>"
  have "importItem P X height r (StoreItem name) = Inr ?r1" using idle i(1) by simp
  then have "importAll P X height r (store_items (name, t)) = Inr ?r'"
    using add fin g(1) n1 by (simp add: importAll_def importItems_iavl closeCurrent_def)
  with imp g i(3) log show ?thesis by (auto simp: settled_def)
qed

lemma opens_section_store_items: "concat (map store_items ss) = [] \<or> opens_section (hd (concat (map store_items ss)))"
  by (cases ss) auto

lemma opens_section_ext_items: "concat (map ext_items es) = [] \<or> opens_section (hd (concat (map ext_items es)))"
  by (cases es) auto

lemma importAll_stores:
  assumes "settled batch_of writer_of r" and "distinct (map fst ss)"
    and "\<forall>(name, t) \<in> set ss. slash \<notin> set name \<and> wf_store t \<and> sorted_wrt (<) (store_keys t)"
  shows "\<exists>r'. importAll P X height r (concat (map store_items ss)) = Inr r' \<and> settled batch_of writer_of r' \<and>
    ir_stores r' = ir_stores r @ map (\<lambda>(name, t). \<lparr>si_Name = name, si_Hash = store_hash t\<rparr>) ss \<and>
    (\<forall>(name, t) \<in> set ss. store_imported (content (ir_sink r')) (storePrefix name) height t) \<and>
    (\<forall>k. (\<forall>(name, t) \<in> set ss. take (length (storePrefix name)) k \<noteq> storePrefix name) \<longrightarrow>
       content (ir_sink r') k = content (ir_sink r) k) \<and>
    content (ir_sink r') = content (ir_sink r) ++ map_of (storesLog height ss)"
  using assms
proof (induction ss arbitrary: r)
  case Nil
  then show ?case by (auto simp: importAll_def settled_def storesLog_def)
next
  case (Cons a ss)
  obtain name t where a: "a = (name, t)" by (cases a)
  with Cons.prems have ok: "slash \<notin> set name" "wf_store t" "sorted_wrt (<) (store_keys t)" by auto
  from importAll_store [OF Cons.prems(1) ok] obtain r1 where
    r1: "importAll P X height r (store_items (name, t)) = Inr r1" "settled batch_of writer_of r1"
      "ir_stores r1 = ir_stores r @ [\<lparr>si_Name = name, si_Hash = store_hash t\<rparr>]"
      "store_imported (content (ir_sink r1)) (storePrefix name) height t"
      "\<forall>k. take (length (storePrefix name)) k \<noteq> storePrefix name \<longrightarrow> content (ir_sink r1) k = content (ir_sink r) k"
      "content (ir_sink r1) = content (ir_sink r) ++ map_of (storeLog name height (store_stream t))"
    by blast
  from Cons.IH [OF r1(2)] Cons.prems(2,3) obtain r2 where
    r2: "importAll P X height r1 (concat (map store_items ss)) = Inr r2" "settled batch_of writer_of r2"
      "ir_stores r2 = ir_stores r1 @ map (\<lambda>(name, t). \<lparr>si_Name = name, si_Hash = store_hash t\<rparr>) ss"
      "\<forall>(name, t) \<in> set ss. store_imported (content (ir_sink r2)) (storePrefix name) height t"
      "\<forall>k. (\<forall>(name, t) \<in> set ss. take (length (storePrefix name)) k \<noteq> storePrefix name) \<longrightarrow>
         content (ir_sink r2) k = content (ir_sink r1) k"
      "content (ir_sink r2) = content (ir_sink r1) ++ map_of (storesLog height ss)" by auto
  have "take (length (storePrefix n)) k \<noteq> storePrefix n"
    if "take (length (storePrefix name)) k = storePrefix name" "(n, u) \<in> set ss" for k n u
  proof
    assume "take (length (storePrefix n)) k = storePrefix n"
    with that(1) have "storePrefix n @ drop (length (storePrefix n)) k = storePrefix name @ drop (length (storePrefix name)) k"
      by (metis append_take_drop_id)
    moreover have "slash \<notin> set n" "n \<noteq> name" using Cons.prems(2,3) that(2) a by force+
    ultimately show False using storePrefix_disjoint [of n name] ok(1) by blast
  qed
  then have "store_imported (content (ir_sink r2)) (storePrefix name) height t"
    using r2(5) by (intro store_imported_cong [OF r1(4)]) blast
  moreover have "importAll P X height r (concat (map store_items (a # ss))) = Inr r2"
    using importAll_append [OF opens_section_store_items [of ss], of P X height r "store_items a"] r1(1) r2(1) a
    by (simp del: store_items.simps)
  moreover have "content (ir_sink r2) = content (ir_sink r) ++ map_of (storesLog height (a # ss))"
    using r1(6) r2(6) a by (simp add: storesLog_def)
  ultimately show ?case using r1(3,5) r2 a by (intro exI [of _ r2]) simp
qed

lemma ext_live:
  "\<exists>e' fs'. openMeta X e fs name format = Inr (e', fs')" "\<exists>e' fs'. writePayload X e fs p = Inr (e', fs')"
  using MkdirAll_live [of fs "Join [ex_extDir e, name]"] WriteFile_live [of fs "payloadPath e" p]
  by (cases "ex_extDir e = []"; cases "ex_curName e = []"; force simp: openMeta_def writePayload_def Let_def)+

lemma importAll_exts:
  assumes "ir_current r = None"
  shows "\<exists>r'. importAll P X height r (concat (map ext_items es)) = Inr r' \<and> ir_current r' = None \<and>
    ir_sink r' = ir_sink r \<and> ir_stores r' = ir_stores r"
  using assms
proof (induction es arbitrary: r)
  case Nil
  then show ?case by (simp add: importAll_def)
next
  case (Cons a es)
  obtain name format ps where a: "a = (name, format, ps)" by (cases a)
  have pay: "\<exists>r'. importItems P X height r (map (\<lambda>p. ExtPayload (if p = [] then None else Some p)) ps) = Inr r' \<and>
      ir_current r' = None \<and> ir_sink r' = ir_sink r \<and> ir_stores r' = ir_stores r"
    if "ir_current r = None" for r using that
  proof (induction ps arbitrary: r)
    case (Cons p ps)
    obtain e fs where "writePayload X (ir_ext r) (ir_fs r) p = Inr (e, fs)"
      using ext_live(2) by blast
    then show ?case using Cons.IH [of "r\<lparr>ir_ext := e, ir_fs := fs, ir_ExtensionPayloads := ir_ExtensionPayloads r + 1\<rparr>"]
      Cons.prems by auto
  qed simp
  obtain e fs where o: "openMeta X (ir_ext r) (ir_fs r) name format = Inr (e, fs)"
    using ext_live(1) by blast
  let ?r = "r\<lparr>ir_ext := e, ir_fs := fs, ir_Extensions := ir_Extensions r + 1\<rparr>"
  from pay [of ?r] Cons.prems obtain r1 where
    r1: "importItems P X height ?r (map (\<lambda>p. ExtPayload (if p = [] then None else Some p)) ps) = Inr r1"
      "ir_current r1 = None" "ir_sink r1 = ir_sink r" "ir_stores r1 = ir_stores r" by auto
  have "importAll P X height r (ext_items a) = Inr r1" using o r1 Cons.prems a by (simp add: importAll_def)
  with Cons.IH [OF r1(2)] r1 importAll_append [OF opens_section_ext_items [of es], of P X height r "ext_items a"]
  show ?case by (auto simp del: ext_items.simps)
qed

lemma sound_batch_empty:
  assumes "sound k" and "\<not> 0 < sk_batchBytes k"
  shows "batch_of (sk_batch k) = []"
proof -
  have "sk_batchBytes k = batch_size (batch_of (sk_batch k))" and "[] \<notin> fst ` set (batch_of (sk_batch k))"
    using assms(1) by (auto simp: sink_sound_def fastKeys_def)
  moreover have "0 < batch_size ((a, b) # es)" if "a \<noteq> []" for a b es
    using that by (cases a) (simp_all add: batch_size_def)
  ultimately show ?thesis using assms(2) by (cases "batch_of (sk_batch k)") auto
qed

lemma importEnd_live:
  assumes "closeCurrent P r = Inr r2" and "settled batch_of writer_of r2"
  shows "\<exists>r'. importEnd P height r = Inr r' \<and> ir_stores r' = ir_stores r2 \<and>
    db_content (sk_db (ir_sink r')) = (content (ir_sink r2))
      (commitInfoKey height \<mapsto> commitInfoBytes height (ir_stores r2), latestVersionKey \<mapsto> latestVersionBytes height)"
proof -
  have sd: "sound (ir_sink r2)" and w: "ig_curWriter (sk_ing (ir_sink r2)) = None"
    using assms(2) by (simp_all add: settled_def)
  obtain k1 k2 where
    k1: "runSet P (ir_sink r2) (commitInfoKey height) (commitInfoBytes height (ir_stores r2)) = Inr k1" and
    k2: "runSet P k1 latestVersionKey (latestVersionBytes height) = Inr k2" using runSet_live by metis
  note c1 = runSet_content [OF sd commit_keys_not_fast(1) k1]
  note c2 = runSet_content [OF conjunct1 [OF c1] commit_keys_not_fast(2) k2]
  obtain db where db: "Commit P (sk_batch k2) True (sk_db k2) = Inr db" using Commit_live by blast
  note c3 = commit_batch [OF conjunct1 [OF c2] db]
  define k3 where "k3 = (if 0 < sk_batchBytes k2
    then k2\<lparr>sk_db := db, sk_batch := NewBatch P db, sk_batchBytes := 0\<rparr> else k2)"
  have "content k3 = content k2" using c3 by (simp add: k3_def)
  moreover have "batch_of (sk_batch k3) = []"
    using sound_batch_empty [OF conjunct1 [OF c2]] by (simp add: k3_def NewBatch_law)
  moreover have "ig_curWriter (sk_ing k3) = None" using c1 c2 w by (simp add: k3_def)
  ultimately have "db_content (sk_db k3) = content k2" by (simp add: sink_content_def writer_entries_def)
  moreover have "importEnd P height r = Inr (r2\<lparr>ir_sink := k3\<rparr>)"
    using assms(1) k1 k2 db by (simp add: importEnd_def k3_def)
  ultimately show ?thesis using c1 c2 by auto
qed

lemma settled_start: "settled batch_of writer_of (importStart P db fs extDir tmp)"
  by (simp add: settled_def importStart_def sink_sound_def newFastIngester_def NewBatch_law batch_size_def
      writer_entries_def)

lemma content_start: "content (ir_sink (importStart P db fs extDir tmp)) = db_content db"
  by (simp add: importStart_def sink_content_def newFastIngester_def NewBatch_law writer_entries_def)

lemma runImport_stream:
  assumes "readItems (newSnapReader input False) = Some (concat (map store_items ss) @ concat (map ext_items es), NextEOF)"
    and "distinct (map fst ss)"
    and "\<forall>(name, t) \<in> set ss. slash \<notin> set name \<and> wf_store t \<and> sorted_wrt (<) (store_keys t)"
  defines "infos \<equiv> map (\<lambda>(name, t). \<lparr>si_Name = name, si_Hash = store_hash t\<rparr>) ss"
  shows "\<exists>r. runImport P X input db fs height extDir tmp = Some (Ok r) \<and> ir_stores r = infos \<and>
    (\<exists>c. db_content (sk_db (ir_sink r)) =
         c(commitInfoKey height \<mapsto> commitInfoBytes height infos, latestVersionKey \<mapsto> latestVersionBytes height) \<and>
       (\<forall>(name, t) \<in> set ss. store_imported c (storePrefix name) height t) \<and>
       (\<forall>k. (\<forall>(name, t) \<in> set ss. take (length (storePrefix name)) k \<noteq> storePrefix name) \<longrightarrow> c k = db_content db k) \<and>
       c = db_content db ++ map_of (storesLog height ss))"
proof -
  let ?r = "importStart P db fs extDir tmp" and ?xs = "concat (map store_items ss)" and ?ys = "concat (map ext_items es)"
  from importAll_stores [OF settled_start assms(2,3), of height db fs extDir tmp] obtain r1 where
    r1: "importAll P X height ?r ?xs = Inr r1" "settled batch_of writer_of r1" "ir_stores r1 = infos"
      "\<forall>(name, t) \<in> set ss. store_imported (content (ir_sink r1)) (storePrefix name) height t"
      "\<forall>k. (\<forall>(name, t) \<in> set ss. take (length (storePrefix name)) k \<noteq> storePrefix name) \<longrightarrow>
         content (ir_sink r1) k = db_content db k"
      "content (ir_sink r1) = db_content db ++ map_of (storesLog height ss)"
    by (auto simp: infos_def content_start importStart_def [of P db fs extDir tmp, THEN arg_cong [of _ _ ir_stores]])
  from importAll_exts [of r1 height es] r1(2) obtain r2 where
    r2: "importAll P X height r1 ?ys = Inr r2" "ir_current r2 = None" "ir_sink r2 = ir_sink r1" "ir_stores r2 = ir_stores r1"
    by (auto simp: settled_def)
  from r1(1) r2(1) have "importAll P X height ?r (?xs @ ?ys) = Inr r2"
    by (simp add: importAll_append [OF opens_section_ext_items])
  then obtain r3 where r3: "importItems P X height ?r (?xs @ ?ys) = Inr r3" "closeCurrent P r3 = Inr r2"
    by (auto simp: importAll_def case_sum_Inr_iff)
  have "settled batch_of writer_of r2" using r1(2) r2 by (simp add: settled_def)
  from importEnd_live [OF r3(2) this, of height] r1(3) r2(3,4) obtain r4 where
    r4: "importEnd P height r3 = Inr r4" "ir_stores r4 = infos"
      "db_content (sk_db (ir_sink r4)) = (content (ir_sink r1))
        (commitInfoKey height \<mapsto> commitInfoBytes height infos, latestVersionKey \<mapsto> latestVersionBytes height)"
    by auto
  have "runImport P X input db fs height extDir tmp = Some (Ok r4)"
    using r3(1) r4(1) by (simp add: runImport_def importLoop_items [OF assms(1)])
  with r4(2,3) r1(4-6) show ?thesis by (intro exI [of _ r4] conjI exI [of _ "content (ir_sink r1)"])
qed

end

section \<open>A pebble in memory\<close>

definition mem_pebble :: "(bytes \<Rightarrow> bytes option, (bytes \<times> bytes) list, (bytes \<times> bytes) list,
    (bytes \<times> bytes) list, unit) pebble_ops" where
  "mem_pebble =
     \<lparr>NewBatch = (\<lambda>db. []), BatchSet = (\<lambda>b k v. Inr ((k, v) # b)), Commit = (\<lambda>b sync db. Inr (db ++ map_of b)),
      CreateWriter = (\<lambda>path. Inr []),
      WriterSet = (\<lambda>w k v. if \<forall>k' \<in> fst ` set w. k' < k then Inr ((k, v) # w) else Inl ()),
      WriterClose = Inr, Ingest = (\<lambda>db f. Inr (db ++ map_of f))\<rparr>"

definition mem_files :: "(bytes \<Rightarrow> bytes option, unit) file_ops" where
  "mem_files = \<lparr>MkdirAll = (\<lambda>fs p. Inr fs), WriteFile = (\<lambda>fs p b. Inr (fs(p \<mapsto> b)))\<rparr>"

interpretation mem: pebble_live mem_pebble id id id id mem_files
  by unfold_locales (auto simp: mem_pebble_def mem_files_def split: if_splits)

section \<open>Properties\<close>

lemma item_ok_stream:
  "it \<in> set (concat (map store_items ss) @ concat (map ext_items es)) \<Longrightarrow> item_ok it"
  by (auto split: if_splits)



end
