(* ===== verification/ImportProps.thy ===== *)
theory ImportProps
  imports ImportDriver
begin

text \<open>
  Properties of the importer beyond the run itself: what a root hash commits to, that the stored
  nodes determine the tree, the numbering of nodes, malformed streams, and where the extension
  writer puts its files.
\<close>

section \<open>What a root hash commits to\<close>

text \<open>Key and value lengths that fit Go's \<open>int\<close>, and a tree up to the separator keys of inner nodes.\<close>

fun fits :: "tree \<Rightarrow> bool" where
  "fits (Leaf v k x) = (length k < 2 ^ 63 \<and> length x < 2 ^ 63)"
| "fits (Node v h k l r) = (length k < 2 ^ 63 \<and> fits l \<and> fits r)"

fun skel :: "tree \<Rightarrow> tree" where
  "skel (Leaf v k x) = Leaf v k x"
| "skel (Node v h k l r) = Node v h [] (skel l) (skel r)"

text \<open>The byte strings that are hashed when a tree's root hash is computed.\<close>

fun hashed :: "tree \<Rightarrow> bytes set" where
  "hashed (Leaf v k x) = {x, leafPreimage v k x}"
| "hashed (Node v h k l r) =
     insert (innerPreimage v h (of_nat (t_leaves l + t_leaves r)) (t_hash l) (t_hash r)) (hashed l \<union> hashed r)"

lemma merkle_aux:
  assumes "\<And>x y. x \<in> hashed t \<Longrightarrow> y \<in> hashed t' \<Longrightarrow> sha256 x = sha256 y \<Longrightarrow> x = y"
    and "t_hash t = t_hash t'" and "wf_tree t" and "wf_tree t'" and "fits t" and "fits t'"
  shows "skel t = skel t'"
  using assms
proof (induction t arbitrary: t')
  case (Leaf v k x)
  show ?case
  proof (cases t')
    case t': (Leaf v' k' x')
    with Leaf.prems(2) have eq: "leafPreimage v k x = leafPreimage v' k' x'"
      by - (rule Leaf.prems(1), simp_all add: hashLeaf_def)
    have "length k < 2 ^ 64" "length k' < 2 ^ 64" using Leaf.prems(5,6) t' by simp_all
    from leafPreimage_inject [OF this, of v x v' x'] eq have "v = v'" "k = k'" "sha256 x = sha256 x'" by simp_all
    moreover from this(3) have "x = x'" by - (rule Leaf.prems(1), simp_all add: t')
    ultimately show ?thesis by (simp add: t')
  next
    case t': (Node v' h' k' l' r')
    with Leaf.prems(2) have "leafPreimage v k x = innerPreimage v' h' (of_nat (t_leaves l' + t_leaves r')) (t_hash l') (t_hash r')"
      by - (rule Leaf.prems(1), simp_all add: hashLeaf_def hashInner_def)
    with Leaf.prems(4) t' leaf_inner_preimage [of h'] show ?thesis by (metis wf_tree.simps(2))
  qed
next
  case (Node v h k l r)
  show ?case
  proof (cases t')
    case t': (Leaf v' k' x')
    with Node.prems(2) have "innerPreimage v h (of_nat (t_leaves l + t_leaves r)) (t_hash l) (t_hash r) = leafPreimage v' k' x'"
      by - (rule Node.prems(1), simp_all add: hashLeaf_def hashInner_def)
    with Node.prems(3) leaf_inner_preimage [of h] show ?thesis by (metis wf_tree.simps(2))
  next
    case t': (Node v' h' k' l' r')
    with Node.prems(2) have "innerPreimage v h (of_nat (t_leaves l + t_leaves r)) (t_hash l) (t_hash r) =
        innerPreimage v' h' (of_nat (t_leaves l' + t_leaves r')) (t_hash l') (t_hash r')"
      by - (rule Node.prems(1), simp_all add: hashInner_def)
    then have "v = v' \<and> h = h' \<and> t_hash l = t_hash l' \<and> t_hash r = t_hash r'" by (simp add: innerPreimage_inject)
    moreover from this have "skel l = skel l'"
      using Node.prems(3-6) t' by (intro Node.IH(1)) (rule Node.prems(1), simp_all)
    moreover from calculation have "skel r = skel r'"
      using Node.prems(3-6) t' by (intro Node.IH(2)) (rule Node.prems(1), simp_all)
    ultimately show ?thesis by (simp add: t')
  qed
qed

text \<open>
  C3. The store hash binds the tree: two well-formed trees with the same root hash have the same
  shape, versions, heights, leaf keys and leaf values (inner separator keys are not hashed), or
  two different byte strings that were hashed to compute the two root hashes are a collision of
  SHA-256.
\<close>

theorem store_hash_binds_tree:
  assumes "t_hash t = t_hash t'" and "wf_tree t" and "wf_tree t'" and "fits t" and "fits t'"
  shows "skel t = skel t' \<or> (\<exists>x y. x \<in> hashed t \<and> y \<in> hashed t' \<and> x \<noteq> y \<and> sha256 x = sha256 y)"
  using merkle_aux [OF _ assms] by blast

theorem store_hash_binds_tree_witness:
  "let t = Node 5 1 [2] (Leaf 3 [1] [9]) (Leaf 5 [2] []); t' = Node 5 1 [7] (Leaf 3 [1] [9]) (Leaf 5 [2] []) in
   t_hash t = t_hash t' \<and> (skel t = skel t' \<or> (\<exists>x y. x \<in> hashed t \<and> y \<in> hashed t' \<and> x \<noteq> y \<and> sha256 x = sha256 y))"
proof -
  let ?t = "Node 5 1 [2] (Leaf 3 [1] [9]) (Leaf 5 [2] [])" and ?t' = "Node 5 1 [7] (Leaf 3 [1] [9]) (Leaf 5 [2] [])"
  have "t_hash ?t = t_hash ?t'" by simp
  moreover have "skel ?t = skel ?t' \<or> (\<exists>x y. x \<in> hashed ?t \<and> y \<in> hashed ?t' \<and> x \<noteq> y \<and> sha256 x = sha256 y)"
    by (rule store_hash_binds_tree) (simp_all add: word_sless_alt)
  ultimately show ?thesis by (simp only: Let_def)
qed

section \<open>The stored nodes determine the tree\<close>

lemma encodeLeafNodeInto_inject:
  assumes "length k < 2 ^ 64" "length k' < 2 ^ 64" "length x < 2 ^ 64" "length x' < 2 ^ 64"
  shows "encodeLeafNodeInto [] k x = encodeLeafNodeInto [] k' x' \<longleftrightarrow> k = k' \<and> x = x'"
  using assms putBytes_prefix [of x x' "[]" "[]"] by (simp add: encodeLeafNodeInto_eq)

lemma leaf_inner_bytes: "h \<noteq> 0 \<Longrightarrow> encodeLeafNodeInto [] k x \<noteq> encodeInnerNodeInto [] h sz k' hs lv ln rv rn"
  using scast_i8_inject [of h 0] by (auto simp: encodeLeafNodeInto_eq encodeInnerNodeInto_eq)

lemma node_at_leaf_iff [simp]:
  "node_at c p v n (Leaf w k x) \<longleftrightarrow>
     w = v \<and> c (nodeDBKeyInto [] p v n) = Some (encodeLeafNodeInto [] k x)"
  by (auto intro: node_at.leaf elim: node_at_LeafE)

lemma node_at_unique:
  assumes "node_at c p v n t" and "node_at c p v n t'" and "wf_tree t" and "wf_tree t'" and "fits t" and "fits t'"
  shows "t = t'"
  using assms
proof (induction arbitrary: t' rule: node_at.induct)
  case (leaf v n k x)
  then show ?case
    by (cases t') (auto simp: encodeLeafNodeInto_inject leaf_inner_bytes leaf_inner_bytes [symmetric] elim!: node_at_NodeE)
next
  case (inner v n h l r k nl nr)
  show ?case
  proof (cases t')
    case (Leaf v' k' x')
    with inner.hyps(1) inner.prems(1) have "encodeLeafNodeInto [] k' x' =
        encodeInnerNodeInto [] h (of_nat (t_leaves l + t_leaves r)) k (t_hash (Node v h k l r))
          (t_version l) nl (t_version r) nr"
      by (simp del: t_hash.simps)
    with inner.prems(2) leaf_inner_bytes [of h] show ?thesis by (metis wf_tree.simps(2))
  next
    case (Node v' h' k' l' r')
    from inner.prems(1) obtain nl' nr' where
      c': "v' = v" "c (nodeDBKeyInto [] p v n) = Some (encodeInnerNodeInto [] h' (of_nat (t_leaves l' + t_leaves r')) k'
        (t_hash (Node v' h' k' l' r')) (t_version l') nl' (t_version r') nr')"
      and n': "node_at c p (t_version l') nl' l'" "node_at c p (t_version r') nr' r'"
      unfolding Node by (auto elim!: node_at_NodeE)
    have "h' = h \<and> k' = k \<and> t_version l' = t_version l \<and> nl' = nl \<and> t_version r' = t_version r \<and> nr' = nr"
      using inner.hyps(1) c'(2) inner.prems Node
      by (auto simp: encodeInnerNodeInto_inject simp del: t_hash.simps)
    with inner.IH n' inner.prems Node c' show ?thesis by (auto simp del: t_hash.simps)
  qed
qed

text \<open>The bytes of a node never look like a redirect, which starts with the letter s.\<close>

lemma wf_tree_height: "wf_tree t \<Longrightarrow> 0 \<le>s t_height t"
  by (induction t) (auto simp: word_sle_eq word_sless_alt)

lemma putVarint_not_s:
  assumes "0 \<le>s h"
  shows "putVarint [] (scast (h :: i8)) @ r \<noteq> 0x73 # r'"
proof
  assume eq: "putVarint [] (scast h) @ r = 0x73 # r'"
  have "PutUvarint 0x73 = [0x73]" by (simp add: PutUvarint.simps)
  moreover have "zigzag (- 58) = 0x73" by (simp add: zigzag_def word_sless_alt)
  ultimately have "putVarint [] (scast h) @ r = putVarint [] (- 58) @ r'"
    using eq by (simp add: putVarint_def putUvarint_def)
  then have "(scast h :: i64) = scast (- 58 :: i8)" by simp
  then have "h = - 58" by (simp only: scast_i8_inject)
  with assms show False by (simp add: word_sle_eq)
qed

lemma node_at_not_redirect:
  assumes "node_at c p v n t" and "wf_tree t"
  shows "c (nodeDBKeyInto [] p v n) \<noteq> Some (redirectVal w)"
  using assms(1)
proof cases
  case (leaf k x)
  then show ?thesis using putVarint_not_s [of 0]
    by (auto simp: encodeLeafNodeInto_eq redirectVal_def go_string_def)
next
  case (inner h l r k nl nr)
  then show ?thesis using assms(2) wf_tree_height [of t] putVarint_not_s [of h]
    by (auto simp: encodeInnerNodeInto_eq redirectVal_def go_string_def)
qed

text \<open>
  C4. What the importer stores is unambiguous: starting from the snapshot height, a reader that
  follows the redirect (if there is one) and the child references finds the bytes of exactly one
  well-formed tree.
\<close>

theorem stored_tree_unique:
  assumes "imported c p height t" and "imported c p height t'"
    and "wf_tree t" and "wf_tree t'" and "fits t" and "fits t'"
  shows "t = t'"
proof -
  have "t_version t = t_version t'"
    using assms(1-4) node_at_not_redirect [of c p height 1 t] node_at_not_redirect [of c p height 1 t']
    by (cases "t_version t = height"; cases "t_version t' = height") (auto simp: imported_def redirectVal_def)
  with assms node_at_unique [of c p "t_version t" 1 t t'] show ?thesis by (simp add: imported_def)
qed

theorem stored_tree_unique_witness:
  "\<exists>c. imported c (storePrefix [0x61]) 7 (Leaf 3 [1] [9]) \<and> wf_tree (Leaf 3 [1] [9]) \<and> fits (Leaf 3 [1] [9]) \<and>
    Leaf 3 [1] [9] = Leaf 3 [1] [9]"
proof -
  let ?p = "storePrefix [0x61]"
  let ?c = "[nodeDBKeyInto [] ?p 3 1 \<mapsto> encodeLeafNodeInto [] [1] [9], nodeDBKeyInto [] ?p 7 1 \<mapsto> redirectVal 3,
    fastDBKeyInto [] ?p [1] \<mapsto> encodeFastNodeInto [] 3 [9],
    metadataDBKeyInto [] ?p (go_string ''storage_version'') \<mapsto> storageVersionValue 7]"
  have "imported ?c ?p 7 (Leaf 3 [1] [9])" by (simp add: imported_def)
  with stored_tree_unique [OF this this] show ?thesis by auto
qed

section \<open>Numbering\<close>

fun nonces :: "storeImporter \<Rightarrow> i64 list \<Rightarrow> u32 list" where
  "nonces s [] = []"
| "nonces s (v # vs) = (case nextNonce s v of (n, s) \<Rightarrow> n # nonces s vs)"

lemma length_nonces [simp]: "length (nonces s vs) = length vs"
  by (induction vs arbitrary: s) (simp_all add: case_prod_beta)

lemma nonces_nth:
  assumes "live_cache s" and "\<forall>v. v \<noteq> 0 \<longrightarrow> unat (counter s v) + length vs < 2 ^ 32"
    and "i < length vs" and "vs ! i \<noteq> 0"
  shows "unat (nonces s vs ! i) = unat (counter s (vs ! i)) + 1 + count_list (take i vs) (vs ! i)"
  using assms
proof (induction vs arbitrary: s i)
  case (Cons v vs)
  let ?s = "snd (nextNonce s v)"
  have live: "live_cache ?s"
  proof (cases "v = 0")
    case False
    then show ?thesis using nextNonce_bumps [of v s ?s] Cons.prems(1,2) by (auto simp: bumps_def)
  qed (simp add: nextNonce_def live_cache_def Let_def)
  have cnt: "unat (counter ?s w) = unat (counter s w) + (if v = w then 1 else 0)" if "w \<noteq> 0" for w
  proof (cases "v = 0")
    case False
    then show ?thesis using nextNonce_bumps [of v s ?s] Cons.prems(1,2) that by (auto simp: bumps_def)
  next
    case True
    then show ?thesis using nextNonce_other [OF that, of v s] Cons.prems(1) that by auto
  qed
  show ?case
  proof (cases i)
    case 0
    with Cons.prems(2,4) show ?thesis
      using nextNonce_value [of v s] unat_plus_one [of "counter s v"] by (auto simp: case_prod_beta)
  next
    case (Suc j)
    have "\<forall>w. w \<noteq> 0 \<longrightarrow> unat (counter ?s w) + length vs < 2 ^ 32" using cnt Cons.prems(2) by auto
    with Cons.IH [OF live, of j] Cons.prems(3,4) Suc cnt show ?thesis by (auto simp: case_prod_beta)
  qed
qed simp

text \<open>The run of equal versions right before position \<open>i\<close>.\<close>

definition run_before :: "i64 list \<Rightarrow> nat \<Rightarrow> nat" where
  "run_before vs i = length (takeWhile (\<lambda>v. v = vs ! i) (rev (take i vs)))"

lemma length_takeWhile_all: "length (takeWhile P xs) = length xs \<longleftrightarrow> (\<forall>x \<in> set xs. P x)"
  by (induction xs) auto

lemma run_before_le: "run_before vs i \<le> i"
  unfolding run_before_def using length_takeWhile_le [of _ "rev (take i vs)"] le_trans by fastforce

lemma run_before_Cons:
  assumes "i < length vs"
  shows "run_before (v # vs) (Suc i) = (if run_before vs i = i \<and> v = vs ! i then Suc i else run_before vs i)"
  using length_takeWhile_all [of "\<lambda>v. v = vs ! i" "rev (take i vs)"] assms
  by (auto simp: run_before_def takeWhile_append)

text \<open>
  The cache never saves the counter of version 0, so a run of version 0 starts over, at 2 behind
  another version and at the counter the importer started with otherwise.
\<close>

lemma nonces_nth_zero:
  assumes "st_nonces s 0 = 0" and "unat (counter s 0) + length vs < 2 ^ 32" and "length vs + 1 < 2 ^ 32"
    and "i < length vs" and "vs ! i = 0"
  shows "unat (nonces s vs ! i) = (if run_before vs i = i then unat (counter s 0) + 1 else 2) + run_before vs i"
  using assms
proof (induction vs arbitrary: s i)
  case (Cons v vs)
  let ?s = "snd (nextNonce s v)"
  have z: "st_nonces ?s 0 = 0" using Cons.prems(1) by (simp add: nextNonce_def Let_def)
  have n: "fst (nextNonce s 0) = counter s 0 + 1"
    by (cases "st_nonceCacheVersion s = 0") (simp_all add: nextNonce_def counter_def Let_def)
  have c: "unat (counter ?s 0) = (if v = 0 then unat (counter s 0) + 1 else 1)"
    using n nextNonce_same [of s v] unat_plus_one [of "counter s 0"] Cons.prems(1,2) z
    by (auto simp: counter_def nextNonce_def Let_def)
  show ?case
  proof (cases i)
    case 0
    with n Cons.prems(2,5) unat_plus_one [of "counter s 0"] show ?thesis
      by (auto simp: case_prod_beta run_before_def)
  next
    case (Suc j)
    have "unat (counter ?s 0) + length vs < 2 ^ 32" using c Cons.prems(2,3) by auto
    from Cons.IH [OF z this, of j] Cons.prems(3-5) Suc c show ?thesis
      using run_before_le [of vs j] by (auto simp: case_prod_beta run_before_Cons)
  qed
qed simp

lemma newStoreImporter_zero [simp]:
  "st_nonces (newStoreImporter name height) 0 = 0" "counter (newStoreImporter name height) 0 = 0"
  by (simp_all add: newStoreImporter_def counter_def)

text \<open>
  C5. The nonces of a store, for every sequence of versions short enough for no counter to wrap.
  Through the one-entry cache and the map behind it, \<open>nextNonce\<close> numbers the nodes of a
  non-zero version 2, 3, 4, \<dots> in stream order, however the versions interleave; nonce 1 is left for
  the root.  Version 0, also the mark of the empty cache, is the exception: its count restarts
  with every run of it, at 1 when the run opens the stream and at 2 behind another version.
\<close>

theorem nextNonce_numbers_versions:
  assumes "length vs + 1 < 2 ^ 32" and "i < length vs"
  shows "unat (nonces (newStoreImporter name height) vs ! i) =
    (if vs ! i \<noteq> 0 then 2 + count_list (take i vs) (vs ! i)
     else (if run_before vs i = i then 1 else 2) + run_before vs i)"
  using assms nonces_nth [of "newStoreImporter name height" vs i]
    nonces_nth_zero [of "newStoreImporter name height" vs i] by simp

theorem nextNonce_numbers_versions_witness:
  "unat (nonces (newStoreImporter [] 9) [0, 5, 7, 5, 0, 0, 5] ! 6) = 4 \<and>
   unat (nonces (newStoreImporter [] 9) [0, 5, 7, 5, 0, 0, 5] ! 5) = 3"
  using nextNonce_numbers_versions [of "[0, 5, 7, 5, 0, 0, 5]" 6 "[]" 9]
    nextNonce_numbers_versions [of "[0, 5, 7, 5, 0, 0, 5]" 5 "[]" 9]
  by (simp add: run_before_def)

text \<open>
  So nodes of version 0 start at nonce 1, the one reserved for the root, and nonces repeat once
  another version came in between.
\<close>

theorem nextNonce_version_zero:
  "nonces (newStoreImporter name height) [0, 5, 0, 5, 0] = [1, 2, 2, 3, 2]"
  by (simp add: newStoreImporter_def nextNonce_def)

section \<open>Malformed streams\<close>

context kv_sink_live
begin

text \<open>A sequence of trees leaves one frame per tree, the last on top.\<close>

lemma addNodes_forest:
  assumes "list_all wf_tree ts" and "sorted_wrt (<) (concat (map leaf_keys ts))"
    and "sound db" and "routes F (st_storePrefix s)"
    and "\<forall>k \<in> set (concat (map leaf_keys ts)). admits db (fastDBKeyInto [] (st_storePrefix s) k)"
  shows "\<exists>s' db'. addNodes put putFast s db (concat (map stream ts)) = Inr (s', db') \<and>
    map fr_height (st_stack s') = rev (map t_height ts) @ map fr_height (st_stack s)"
  using assms
proof (induction ts arbitrary: s db)
  case (Cons t ts)
  from addNodes_ok [of t db s] Cons.prems obtain s1 db1 f where
    t: "addNodes put putFast s db (stream t) = Inr (s1, db1)" "sound db1" "st_storePrefix s1 = st_storePrefix s"
      "st_stack s1 = f # st_stack s" "fr_height f = t_height t"
      "\<forall>k. (\<forall>k' \<in> set (leaf_keys t). k' < k) \<longrightarrow> admits db1 (fastDBKeyInto [] (st_storePrefix s) k)"
    by (auto simp: sorted_wrt_append)
  have "\<forall>k \<in> set (concat (map leaf_keys ts)). admits db1 (fastDBKeyInto [] (st_storePrefix s1) k)"
    using Cons.prems(2) t(3,6) by (auto simp: sorted_wrt_append)
  with Cons.IH [of db1 s1] Cons.prems t show ?case by (auto simp: addNodes_append sorted_wrt_append)
qed simp

end

text \<open>Whether an inner node of height \<open>h\<close> behind the trees \<open>ts\<close> has its two children among them.\<close>

definition pair_below :: "tree list \<Rightarrow> i8 \<Rightarrow> bool" where
  "pair_below ts h \<longleftrightarrow>
     2 \<le> length ts \<and> t_height (ts ! (length ts - 1)) <s h \<and> t_height (ts ! (length ts - 2)) <s h"

lemma closesPair_pair_below:
  assumes "map fr_height (st_stack s) = rev (map t_height ts)"
  shows "closesPair s h \<longleftrightarrow> pair_below ts h"
proof (cases "rev ts")
  case Nil
  with assms show ?thesis by (simp add: closesPair_def pair_below_def)
next
  case (Cons r us)
  show ?thesis
  proof (cases us)
    case Nil
    with assms Cons show ?thesis by (auto simp: closesPair_def pair_below_def rev_swap split: list.splits)
  next
    case (Cons l us')
    with \<open>rev ts = r # us\<close> have ts: "ts = rev us' @ [l, r]" by (simp add: rev_swap)
    with assms obtain fr fl fs where "st_stack s = fr # fl # fs" "fr_height fr = t_height r" "fr_height fl = t_height l"
      by (auto simp: map_eq_Cons_conv)
    with ts show ?thesis by (simp add: closesPair_def pair_below_def nth_append)
  qed
qed

lemma addInner_NotSiblingPair: "addInner put s db h v k = Inl NotSiblingPair \<longleftrightarrow> \<not> closesPair s h"
  by (auto simp: addInner_def closesPair_def Let_def case_prod_beta wrap_err_Inl_iff split: list.splits)

lemma finalize_not_pair: "finalize put s db \<noteq> Inl NotSiblingPair"
  by (auto simp: finalize_def writeStorageVersionMarker_def wrap_err_Inl_iff split: list.splits sum.splits if_splits)

text \<open>
  C22. The shape of a store's stream is checked at every inner node and at the end.  Behind any
  sequence of complete trees, an inner node (whatever follows it) is rejected as not closing a
  sibling pair when there are fewer than two trees or one of the last two is not of smaller
  height, and as the last node it is so rejected in no other case; a stream that ends with two
  or more trees not joined by an inner node is rejected with the number of roots.
\<close>

theorem importStore_rejects_malformed:
  assumes "kv_sink_live put putFast content sound F admits"
    and "list_all wf_tree ts" and "sorted_wrt (<) (concat (map leaf_keys ts))"
    and "sound db" and "routes F (storePrefix name)"
    and "\<forall>k. admits db (fastDBKeyInto [] (storePrefix name) k)" and "h \<noteq> 0"
  shows "(\<not> pair_below ts h \<longrightarrow>
       importStore put putFast name height db (concat (map stream ts) @ (h, v, k, x) # ns) = Inl NotSiblingPair) \<and>
    (importStore put putFast name height db (concat (map stream ts) @ [(h, v, k, x)]) = Inl NotSiblingPair \<longrightarrow>
       \<not> pair_below ts h) \<and>
    (2 \<le> length ts \<longrightarrow>
       importStore put putFast name height db (concat (map stream ts)) = Inl (ManyRoots (length ts)))"
proof -
  let ?s = "newStoreImporter name height"
  have s: "st_storePrefix ?s = storePrefix name" "st_stack ?s = []" by (simp_all add: newStoreImporter_def)
  from kv_sink_live.addNodes_forest [OF assms(1-4), of ?s] s assms(5,6) obtain s1 db1 where
    a: "addNodes put putFast ?s db (concat (map stream ts)) = Inr (s1, db1)"
    and h: "map fr_height (st_stack s1) = rev (map t_height ts)" by auto
  let ?s1 = "s1\<lparr>st_itemCount := st_itemCount s1 + 1\<rparr>"
  have n: "addNode put putFast s1 db1 h v k x = addInner put ?s1 db1 h v k" using assms(7) by (simp add: addNode_def)
  have p: "closesPair ?s1 h \<longleftrightarrow> pair_below ts h" by (rule closesPair_pair_below) (simp add: h)
  show ?thesis
  proof (intro conjI impI)
    assume "\<not> pair_below ts h"
    then have "addInner put ?s1 db1 h v k = Inl NotSiblingPair" using p by (simp add: addInner_def)
    then show "importStore put putFast name height db (concat (map stream ts) @ (h, v, k, x) # ns) = Inl NotSiblingPair"
      by (simp add: importStore_def addNodes_append a n)
  next
    assume "importStore put putFast name height db (concat (map stream ts) @ [(h, v, k, x)]) = Inl NotSiblingPair"
    then have "addInner put ?s1 db1 h v k = Inl NotSiblingPair"
      by (auto simp: importStore_def addNodes_append a n finalize_not_pair split: sum.splits)
    then show "\<not> pair_below ts h" using p addInner_NotSiblingPair [of put ?s1 db1 h v k] by simp
  next
    assume "2 \<le> length ts"
    moreover have "length (st_stack s1) = length ts" using arg_cong [OF h, of length] by simp
    ultimately show "importStore put putFast name height db (concat (map stream ts)) = Inl (ManyRoots (length ts))"
      by (auto simp: importStore_def a finalize_def split: list.splits)
  qed
qed

text \<open>A table open for store \<open>a\<close> on an empty database.\<close>

definition mem_sink :: "(bytes \<Rightarrow> bytes option, (bytes \<times> bytes) list, (bytes \<times> bytes) list) sink" where
  "mem_sink = \<lparr>sk_db = Map.empty, sk_batch = [], sk_batchBytes = 0,
     sk_ing = \<lparr>ig_tmpDir = [], ig_curWriter = Some [], ig_curPath = [], ig_curName = [], ig_curCount = 0\<rparr>\<rparr>"

text \<open>A leaf and a tree of height 1, which an inner node of height 1 cannot join.\<close>

definition ex_forest :: "tree list" where
  "ex_forest = [Leaf 3 [1] [9], Node 3 1 [3] (Leaf 3 [2] []) (Leaf 3 [3] [])]"

theorem importStore_rejects_malformed_witness:
  "importStore (runSet mem_pebble) (runSetFast mem_pebble) [0x61] 7 mem_sink
     (concat (map stream ex_forest) @ [(1, 3, [2], [])]) = Inl NotSiblingPair \<and>
   importStore (runSet mem_pebble) (runSetFast mem_pebble) [0x61] 7 mem_sink
     (concat (map stream ex_forest) @ [(2, 3, [2], [])]) \<noteq> Inl NotSiblingPair \<and>
   importStore (runSet mem_pebble) (runSetFast mem_pebble) [0x61] 7 mem_sink
     (concat (map stream ex_forest)) = Inl (ManyRoots 2)"
proof -
  have 1: "sink_sound id id mem_sink"
    by (simp add: mem_sink_def sink_sound_def writer_entries_def batch_size_def)
  have 2: "\<forall>k. writer_admits id mem_sink (fastDBKeyInto [] (storePrefix [0x61]) k)"
    by (simp add: mem_sink_def writer_admits_def writer_entries_def)
  have 3: "routes fastKeys (storePrefix [0x61])" by (rule routes_fastKeys) simp
  have 4: "list_all wf_tree ex_forest" "sorted_wrt (<) (concat (map leaf_keys ex_forest))"
    by (simp_all add: ex_forest_def word_sless_alt)
  have 5: "\<not> pair_below ex_forest 1" "pair_below ex_forest 2" "length ex_forest = 2"
    by (simp_all add: ex_forest_def pair_below_def word_sless_alt)
  note r = importStore_rejects_malformed [OF mem.kvl.kv_sink_live_axioms 4 1 3 2]
  from r [of 1 7 3 "[2]" "[]" "[]"] r [of 2 7 3 "[2]" "[]" "[]"] 5 show ?thesis by simp
qed

section \<open>Extension files\<close>

definition payloadFile :: "extensionWriter \<Rightarrow> bytes" where
  "payloadFile e =
     go_string ''payload-'' @ fmt_nat (unat (ex_curIndex e)) @
     go_string ''-format'' @ fmt_nat (unat (ex_curFormat e)) @ go_string ''.bin''"

lemma fmt_nat_plain: "c \<in> set (fmt_nat n) \<Longrightarrow> is_digit c"
  using fmt_nat_digits [of n] by (simp add: list_all_iff)

lemma payloadFile_plain: "plain_elem (payloadFile e)"
  using fmt_nat_plain [of slash] by (auto simp: plain_elem_def payloadFile_def go_string_def dotdot_def is_digit_def)

lemma payloadPath_eq:
  assumes "ex_extDir e = rooted_path ws" and "ws \<noteq> []" and "list_all plain_elem ws"
    and "ex_curName e = join_slash ns" and "ns \<noteq> []" and "list_all (\<lambda>n. slash \<notin> set n) ns"
  shows "payloadPath e = rooted_path (rev (foldl (clean_step True) (rev ws) ns) @ [payloadFile e])"
proof -
  let ?f = "payloadFile e"
  have f: "slash \<notin> set ?f" using payloadFile_plain by (simp add: plain_elem_def)
  have ws: "list_all (\<lambda>n. slash \<notin> set n) ws" using assms(3) by (auto simp: list_all_iff plain_elem_def)
  have "payloadPath e = Clean (rooted_path (ws @ ns @ [?f]))"
    using assms by (simp add: payloadPath_def payloadFile_def Join_def rooted_path_def join_slash_append)
  also have "\<dots> = rooted_path (rev (foldl (clean_step True) [] (ws @ ns @ [?f])))"
    using ws assms(2,6) f by (intro Clean_rooted) auto
  finally show ?thesis
    using foldl_clean_plain [OF assms(3), of True "[]"] clean_step_plain [OF payloadFile_plain] by simp
qed

lemma fmt_nat_split:
  assumes "fmt_nat a @ 0x2d # r = fmt_nat b @ 0x2d # r'"
  shows "a = b \<and> r = r'"
proof -
  have "0x2d \<notin> set (fmt_nat n)" for n using fmt_nat_plain [of "0x2d" n] by (auto simp: is_digit_def)
  from append_sep_eq [OF this this assms] show ?thesis by simp
qed

lemma payloadFile_inject:
  "payloadFile e = payloadFile e' \<longleftrightarrow> ex_curIndex e = ex_curIndex e' \<and> ex_curFormat e = ex_curFormat e'"
  by (auto simp: payloadFile_def go_string_def word_unat_eq_iff dest!: fmt_nat_split)

text \<open>
  For an extension whose name is a plain path element, payload files lie in the directory
  of that name below \<open>extDir\<close>, and different names, indices or formats never share a file.
\<close>

theorem extension_payload_paths:
  assumes "ex_extDir e = rooted_path ws" and "ex_extDir e' = rooted_path ws" and "ws \<noteq> []" and "list_all plain_elem ws"
    and "plain_elem (ex_curName e)" and "plain_elem (ex_curName e')"
  shows "payloadPath e = rooted_path (ws @ [ex_curName e, payloadFile e]) \<and>
    (payloadPath e = payloadPath e' \<longleftrightarrow>
       ex_curName e = ex_curName e' \<and> ex_curIndex e = ex_curIndex e' \<and> ex_curFormat e = ex_curFormat e')"
proof -
  have path: "payloadPath x = rooted_path (ws @ [ex_curName x, payloadFile x])"
    if "ex_extDir x = rooted_path ws" "plain_elem (ex_curName x)" for x
    using payloadPath_eq [OF that(1) assms(3,4), of "[ex_curName x]"] that(2) clean_step_plain [OF that(2)]
    by (simp add: plain_elem_def)
  have inj: "rooted_path (ws @ [a, b]) = rooted_path (ws @ [c, d]) \<longleftrightarrow> a = c \<and> b = d"
    if "plain_elem a" "plain_elem b" "plain_elem c" "plain_elem d" for a b c d
    using that append_sep_eq [of slash a c b d] assms(3)
    by (auto simp: rooted_path_def join_slash_append plain_elem_def)
  show ?thesis using path [OF assms(1,5)] path [OF assms(2,6)] inj assms(5,6) payloadFile_plain
    by (simp add: payloadFile_inject)
qed

theorem extension_payload_paths_witness:
  "payloadPath \<lparr>ex_extDir = rooted_path [[0x6f]], ex_curName = [0x77], ex_curFormat = 1, ex_curIndex = 0\<rparr> =
     rooted_path [[0x6f], [0x77], payloadFile \<lparr>ex_extDir = [], ex_curName = [], ex_curFormat = 1, ex_curIndex = 0\<rparr>] \<and>
   payloadPath \<lparr>ex_extDir = rooted_path [[0x6f]], ex_curName = [0x77], ex_curFormat = 1, ex_curIndex = 0\<rparr> \<noteq>
     payloadPath \<lparr>ex_extDir = rooted_path [[0x6f]], ex_curName = [0x77], ex_curFormat = 1, ex_curIndex = 1\<rparr>"
  using extension_payload_paths
    [of "\<lparr>ex_extDir = rooted_path [[0x6f]], ex_curName = [0x77], ex_curFormat = 1, ex_curIndex = 0\<rparr>" "[[0x6f]]"
        "\<lparr>ex_extDir = rooted_path [[0x6f]], ex_curName = [0x77], ex_curFormat = 1, ex_curIndex = 1\<rparr>"]
  unfolding payloadFile_def by (simp add: plain_elem_def dotdot_def) auto

lemma rooted_path_under:
  assumes "ws \<noteq> []" and "slash \<notin> set d" and "slash \<notin> set w" and "rooted_path (ws @ [w, f]) = rooted_path (ws @ [d]) @ slash # x"
  shows "w = d"
proof -
  have "rooted_path (ws @ [w, f]) = rooted_path ws @ slash # w @ slash # f"
    using rooted_path_snoc [of "ws @ [w]" f] rooted_path_snoc [OF assms(1), of w] by simp
  then have "w @ slash # f = d @ slash # x" using assms(4) rooted_path_snoc [OF assms(1), of d] by simp
  then have "takeWhile (\<lambda>c. c \<noteq> slash) (w @ slash # f) = takeWhile (\<lambda>c. c \<noteq> slash) (d @ slash # x)" by simp
  moreover have "takeWhile (\<lambda>c. c \<noteq> slash) (v @ slash # y) = v" if "slash \<notin> set v" for v y
    using that by (subst takeWhile_append2) auto
  ultimately show ?thesis using assms(2,3) by simp
qed

text \<open>
  C23. The name of an extension comes from the stream and is joined unchecked: a name \<open>../w\<close> places the
  payload below a directory \<open>w\<close> beside \<open>extDir\<close>, and so outside \<open>extDir\<close> unless that is its own last
  element.
\<close>

theorem extension_payload_escapes:
  assumes "ws \<noteq> []" and "list_all plain_elem (ws @ [d, w])"
  shows "payloadPath \<lparr>ex_extDir = rooted_path (ws @ [d]), ex_curName = join_slash [dotdot, w], ex_curFormat = f, ex_curIndex = i\<rparr> =
    rooted_path (ws @ [w, payloadFile \<lparr>ex_extDir = [], ex_curName = [], ex_curFormat = f, ex_curIndex = i\<rparr>]) \<and>
    (w \<noteq> d \<longrightarrow> (\<forall>x. payloadPath \<lparr>ex_extDir = rooted_path (ws @ [d]), ex_curName = join_slash [dotdot, w], ex_curFormat = f, ex_curIndex = i\<rparr> \<noteq>
       rooted_path (ws @ [d]) @ slash # x))"
proof -
  let ?e = "\<lparr>ex_extDir = rooted_path (ws @ [d]), ex_curName = join_slash [dotdot, w], ex_curFormat = f, ex_curIndex = i\<rparr>"
  have w: "plain_elem w" and d: "plain_elem d" using assms(2) by simp_all
  have "foldl (clean_step True) (rev (ws @ [d])) [dotdot, w] = w # rev ws"
    using d clean_step_plain [OF w] by (simp add: clean_step_def dotdot_def plain_elem_def)
  then have "payloadPath ?e = rooted_path (ws @ [w, payloadFile \<lparr>ex_extDir = [], ex_curName = [], ex_curFormat = f, ex_curIndex = i\<rparr>])"
    using payloadPath_eq [of ?e "ws @ [d]" "[dotdot, w]"] assms(2) w
    by (simp add: payloadFile_def plain_elem_def dotdot_def)
  then show ?thesis using rooted_path_under [OF assms(1), of d w] d w by (auto simp: plain_elem_def)
qed

theorem extension_payload_escapes_witness:
  "payloadPath \<lparr>ex_extDir = rooted_path [[0x6f], [0x65]], ex_curName = join_slash [dotdot, [0x78]], ex_curFormat = 1, ex_curIndex = 0\<rparr> =
    rooted_path [[0x6f], [0x78], payloadFile \<lparr>ex_extDir = [], ex_curName = [], ex_curFormat = 1, ex_curIndex = 0\<rparr>]"
  using extension_payload_escapes [of "[[0x6f]]" "[0x65]" "[0x78]" 1 0] by (simp add: plain_elem_def dotdot_def)

end
