(* ===== verification/ChunkRing.thy ===== *)
theory ChunkRing
  imports Prelude
begin

text \<open>
  The in-memory chunk ring of \<open>internal/snapshotimport/chunkring.go\<close>: one producer, many readers,
  bounded memory.  Every operation runs under the ring's mutex; a call that would wait on the
  condition variable returns \<open>Blocked\<close>, and \<open>ring_step\<close> interleaves the calls of all parties in
  any order.
\<close>

section \<open>State\<close>

record chunkEnt =
  ce_start :: int
  ce_data :: bytes

record chunkRingReader =
  rr_pos :: int
  rr_pin :: int
  rr_manual :: bool
  rr_endLimit :: int

text \<open>
  Readers are told apart by a number where Go compares pointers.  Pooled buffers all have
  capacity \<open>chunkSize\<close>, so the pool is its length, bounded by \<open>cr_maxChunks\<close>.
\<close>

record 'e chunkRing =
  cr_chunkSize :: int
  cr_maxBytes :: int
  cr_chunks :: "chunkEnt list"
  cr_tail :: int
  cr_head :: int
  cr_closed :: bool
  cr_err :: "'e option"
  cr_readers :: "(nat \<times> chunkRingReader) list"
  cr_freeBufs :: int
  cr_maxChunks :: int

section \<open>Operations\<close>

definition newChunkRing :: "int \<Rightarrow> int \<Rightarrow> (unit, 'e chunkRing) outcome" where
  "newChunkRing chunkSize maxBytes =
     (if chunkSize \<le> 0 then Panic
      else if maxBytes < chunkSize then Panic
      else Ok \<lparr>cr_chunkSize = chunkSize, cr_maxBytes = maxBytes, cr_chunks = [], cr_tail = 0, cr_head = 0,
               cr_closed = False, cr_err = None, cr_readers = [], cr_freeBufs = 0,
               cr_maxChunks = maxBytes div chunkSize\<rparr>)"

definition allocBufLocked :: "'e chunkRing \<Rightarrow> 'e chunkRing" where
  "allocBufLocked r = (if 0 < cr_freeBufs r then r\<lparr>cr_freeBufs := cr_freeBufs r - 1\<rparr> else r)"

definition freeBufLocked :: "'e chunkRing \<Rightarrow> 'e chunkRing" where
  "freeBufLocked r = (if cr_maxChunks r \<le> cr_freeBufs r then r else r\<lparr>cr_freeBufs := cr_freeBufs r + 1\<rparr>)"

definition effectivePin :: "chunkRingReader \<Rightarrow> int" where
  "effectivePin rd = (if rr_manual rd then rr_pin rd else rr_pos rd)"

fun evictChunks :: "int \<Rightarrow> chunkEnt list \<Rightarrow> 'e chunkRing \<Rightarrow> 'e chunkRing" where
  "evictChunks minPin [] r = r\<lparr>cr_chunks := []\<rparr>"
| "evictChunks minPin (c # cs) r =
     (if minPin < ce_start c + int (length (ce_data c)) then r\<lparr>cr_chunks := c # cs\<rparr>
      else evictChunks minPin cs (freeBufLocked (r\<lparr>cr_head := ce_start c + int (length (ce_data c))\<rparr>)))"

definition minPin :: "chunkRingReader list \<Rightarrow> int" where
  "minPin rds = foldl (\<lambda>m rd. let p = effectivePin rd in if p < m then p else m) (effectivePin (hd rds)) (tl rds)"

definition evictLocked :: "'e chunkRing \<Rightarrow> 'e chunkRing" where
  "evictLocked r =
     (if cr_readers r = [] then r else evictChunks (minPin (map snd (cr_readers r))) (cr_chunks r) r)"

subsection \<open>The producer\<close>

datatype write_result = Wrote nat | WriteDone | WriteBlocked | WriteClosed

text \<open>One round of the loop of \<open>Write\<close> on the bytes still to be written.\<close>

definition writeRound :: "'e chunkRing \<Rightarrow> bytes \<Rightarrow> write_result \<times> 'e chunkRing" where
  "writeRound r p =
     (if p = [] then (WriteDone, r)
      else if \<not> cr_closed r \<and> cr_maxBytes r \<le> cr_tail r - cr_head r then (WriteBlocked, r)
      else if cr_closed r then (WriteClosed, r)
      else let cap = cr_maxBytes r - (cr_tail r - cr_head r) in
        if cr_chunks r \<noteq> [] \<and> int (length (ce_data (last (cr_chunks r)))) < cr_chunkSize r then
          let c = last (cr_chunks r);
              room = cr_chunkSize r - int (length (ce_data c));
              n = int (length p);
              n = (if room < n then room else n);
              n = (if cap < n then cap else n)
          in if n = 0 then (Wrote 0, r)
             else (Wrote (nat n),
                   r\<lparr>cr_chunks := butlast (cr_chunks r) @ [c\<lparr>ce_data := ce_data c @ take (nat n) p\<rparr>],
                     cr_tail := cr_tail r + n\<rparr>)
        else
          let n = int (length p);
              n = (if cr_chunkSize r < n then cr_chunkSize r else n);
              n = (if cap < n then cap else n)
          in if n = 0 then (Wrote 0, r)
             else let r = allocBufLocked r in
                  (Wrote (nat n),
                   r\<lparr>cr_chunks := cr_chunks r @ [\<lparr>ce_start = cr_tail r, ce_data = take (nat n) p\<rparr>],
                     cr_tail := cr_tail r + n\<rparr>))"

definition closeRing :: "'e chunkRing \<Rightarrow> 'e option \<Rightarrow> 'e chunkRing" where
  "closeRing r err = r\<lparr>cr_closed := True, cr_err := (if cr_err r = None then err else cr_err r)\<rparr>"

subsection \<open>Readers\<close>

datatype new_reader_error = ErrStartEvicted

definition NewReader :: "'e chunkRing \<Rightarrow> nat \<Rightarrow> int \<Rightarrow> int \<Rightarrow> new_reader_error + 'e chunkRing" where
  "NewReader r i start endLimit =
     (if start < cr_head r then Inl ErrStartEvicted
      else Inr (r\<lparr>cr_readers := cr_readers r @
        [(i, \<lparr>rr_pos = start, rr_pin = 0, rr_manual = False, rr_endLimit = endLimit\<rparr>)]\<rparr>))"

definition setReader :: "'e chunkRing \<Rightarrow> nat \<Rightarrow> chunkRingReader \<Rightarrow> 'e chunkRing" where
  "setReader r i rd = r\<lparr>cr_readers := map (\<lambda>(j, x). (j, if j = i then rd else x)) (cr_readers r)\<rparr>"

definition EnableManualPin :: "'e chunkRing \<Rightarrow> nat \<Rightarrow> chunkRingReader \<Rightarrow> 'e chunkRing" where
  "EnableManualPin r i rd =
     (if rr_manual rd then r else setReader r i (rd\<lparr>rr_pin := rr_pos rd, rr_manual := True\<rparr>))"

definition AdvancePin :: "'e chunkRing \<Rightarrow> nat \<Rightarrow> chunkRingReader \<Rightarrow> int \<Rightarrow> 'e chunkRing" where
  "AdvancePin r i rd n =
     (if n \<le> 0 then r
      else let rd = (if rr_manual rd then rd else rd\<lparr>rr_pin := rr_pos rd, rr_manual := True\<rparr>);
               target = rr_pin rd + n;
               target = (if rr_pos rd < target then rr_pos rd else target)
        in if target \<le> rr_pin rd then setReader r i rd
           else evictLocked (setReader r i (rd\<lparr>rr_pin := target\<rparr>)))"

definition findChunkLocked :: "'e chunkRing \<Rightarrow> int \<Rightarrow> chunkEnt option" where
  "findChunkLocked r pos =
     find (\<lambda>c. ce_start c \<le> pos \<and> pos < ce_start c + int (length (ce_data c))) (cr_chunks r)"

datatype 'e read_result = GotBytes bytes | GotEOF | GotError 'e | Evicted | ReadBlocked

text \<open>One round of the loop of \<open>Read\<close> into a buffer of \<open>k\<close> bytes.\<close>

definition Read :: "'e chunkRing \<Rightarrow> nat \<Rightarrow> chunkRingReader \<Rightarrow> nat \<Rightarrow> 'e read_result \<times> 'e chunkRing" where
  "Read r i rd k =
     (if 0 \<le> rr_endLimit rd \<and> rr_endLimit rd \<le> rr_pos rd then (GotEOF, r)
      else case findChunkLocked r (rr_pos rd) of
        Some c \<Rightarrow>
          let off = nat (rr_pos rd - ce_start c);
              toRead = min (length (ce_data c) - off) k;
              toRead = (if 0 \<le> rr_endLimit rd \<and> rr_endLimit rd < rr_pos rd + int toRead
                        then nat (rr_endLimit rd - rr_pos rd) else toRead)
          in (GotBytes (take toRead (drop off (ce_data c))),
              evictLocked (setReader r i (rd\<lparr>rr_pos := rr_pos rd + int toRead\<rparr>)))
      | None \<Rightarrow>
          if rr_pos rd < cr_head r then (Evicted, r)
          else if cr_closed r \<and> cr_tail r \<le> rr_pos rd then
            (case cr_err r of Some e \<Rightarrow> (GotError e, r) | None \<Rightarrow> (GotEOF, r))
          else (ReadBlocked, r))"

definition SetEnd :: "'e chunkRing \<Rightarrow> nat \<Rightarrow> chunkRingReader \<Rightarrow> int \<Rightarrow> 'e chunkRing" where
  "SetEnd r i rd e = setReader r i (rd\<lparr>rr_endLimit := e\<rparr>)"

definition closeReader :: "'e chunkRing \<Rightarrow> nat \<Rightarrow> 'e chunkRing" where
  "closeReader r i = evictLocked (r\<lparr>cr_readers := filter (\<lambda>(j, x). j \<noteq> i) (cr_readers r)\<rparr>)"

section \<open>Interleaving\<close>

text \<open>A state is the ring and the bytes written to it so far.\<close>

inductive ring_step :: "'e chunkRing \<times> bytes \<Rightarrow> 'e chunkRing \<times> bytes \<Rightarrow> bool" where
  write_some: "writeRound r p = (Wrote n, r') \<Longrightarrow> ring_step (r, w) (r', w @ take n p)"
| close_ring: "ring_step (r, w) (closeRing r err, w)"
| new_reader: "i \<notin> fst ` set (cr_readers r) \<Longrightarrow> NewReader r i start e = Inr r' \<Longrightarrow> ring_step (r, w) (r', w)"
| manual_pin: "(i, rd) \<in> set (cr_readers r) \<Longrightarrow> ring_step (r, w) (EnableManualPin r i rd, w)"
| advance_pin: "(i, rd) \<in> set (cr_readers r) \<Longrightarrow> ring_step (r, w) (AdvancePin r i rd n, w)"
| read_some: "(i, rd) \<in> set (cr_readers r) \<Longrightarrow> ring_step (r, w) (snd (Read r i rd k), w)"
| set_end: "(i, rd) \<in> set (cr_readers r) \<Longrightarrow> ring_step (r, w) (SetEnd r i rd e, w)"
| close_reader: "ring_step (r, w) (closeReader r i, w)"

inductive ring_reachable :: "'e chunkRing \<times> bytes \<Rightarrow> bool" where
  ring_new: "newChunkRing chunkSize maxBytes = Ok r \<Longrightarrow> ring_reachable (r, [])"
| ring_more: "ring_reachable s \<Longrightarrow> ring_step s s' \<Longrightarrow> ring_reachable s'"

section \<open>Invariant\<close>

fun full_run :: "int \<Rightarrow> int \<Rightarrow> chunkEnt list \<Rightarrow> int \<Rightarrow> bool" where
  "full_run S h [] t = (h = t)"
| "full_run S h (c # cs) t = (ce_start c = h \<and> int (length (ce_data c)) = S \<and> full_run S (h + S) cs t)"

text \<open>Chunks lie end to end from \<open>h\<close> to \<open>t\<close>; only the last may be short of \<open>S\<close> bytes.\<close>

definition chunk_run :: "int \<Rightarrow> int \<Rightarrow> chunkEnt list \<Rightarrow> int \<Rightarrow> bool" where
  "chunk_run S h cs t \<longleftrightarrow>
     (if cs = [] then h = t
      else full_run S h (butlast cs) (ce_start (last cs)) \<and> ce_data (last cs) \<noteq> [] \<and>
        int (length (ce_data (last cs))) \<le> S \<and> t = ce_start (last cs) + int (length (ce_data (last cs))))"

definition readers_ok :: "int \<Rightarrow> (nat \<times> chunkRingReader) list \<Rightarrow> bool" where
  "readers_ok head rds \<longleftrightarrow>
     distinct (map fst rds) \<and>
     (\<forall>(i, rd) \<in> set rds. head \<le> effectivePin rd \<and> (rr_manual rd \<longrightarrow> rr_pin rd \<le> rr_pos rd))"

fun ring_inv :: "'e chunkRing \<times> bytes \<Rightarrow> bool" where
  "ring_inv (r, w) \<longleftrightarrow>
     0 < cr_chunkSize r \<and> cr_chunkSize r \<le> cr_maxBytes r \<and>
     chunk_run (cr_chunkSize r) (cr_head r) (cr_chunks r) (cr_tail r) \<and>
     0 \<le> cr_head r \<and> int (length w) = cr_tail r \<and> cr_tail r - cr_head r \<le> cr_maxBytes r \<and>
     concat (map ce_data (cr_chunks r)) = drop (nat (cr_head r)) w \<and>
     readers_ok (cr_head r) (cr_readers r) \<and>
     0 \<le> cr_freeBufs r \<and>
     (int (length (cr_chunks r)) + cr_freeBufs r) * cr_chunkSize r < cr_maxBytes r + cr_chunkSize r"

lemma full_run_snoc:
  "full_run S h (cs @ [c]) t \<longleftrightarrow> full_run S h cs (ce_start c) \<and> int (length (ce_data c)) = S \<and> t = ce_start c + S"
  by (induction cs arbitrary: h) auto

lemma full_run_length: "full_run S h cs t \<Longrightarrow> t = h + int (length cs) * S"
proof (induction cs arbitrary: h)
  case (Cons c cs)
  from Cons.IH [of "h + S"] Cons.prems show ?case by (simp add: algebra_simps)
qed simp

lemma chunk_run_snoc:
  "chunk_run S h (cs @ [c]) t \<longleftrightarrow>
     full_run S h cs (ce_start c) \<and> ce_data c \<noteq> [] \<and> int (length (ce_data c)) \<le> S \<and>
     t = ce_start c + int (length (ce_data c))"
  by (simp add: chunk_run_def)

lemma chunk_run_full:
  assumes "chunk_run S h cs t" and "cs = [] \<or> \<not> int (length (ce_data (last cs))) < S"
  shows "full_run S h cs t"
proof (cases cs rule: rev_cases)
  case (snoc ds c)
  with assms show ?thesis by (auto simp: chunk_run_snoc full_run_snoc)
qed (use assms in \<open>simp add: chunk_run_def\<close>)

lemma chunk_run_count:
  assumes "chunk_run S h cs t" and "0 < S"
  shows "int (length cs) * S < t - h + S" and "h \<le> t"
proof -
  have "int (length cs) * S < t - h + S \<and> h \<le> t"
  proof (cases cs rule: rev_cases)
    case (snoc ds c)
    with assms(1) have "ce_start c = h + int (length ds) * S" and "ce_data c \<noteq> []"
      and t: "t = ce_start c + int (length (ce_data c))"
      by (auto simp: chunk_run_snoc dest: full_run_length)
    moreover have "0 \<le> int (length ds) * S" using assms(2) by simp
    ultimately show ?thesis using snoc by (auto simp: algebra_simps)
  qed (use assms in \<open>simp add: chunk_run_def\<close>)
  then show "int (length cs) * S < t - h + S" and "h \<le> t" by simp_all
qed

lemma chunk_run_Cons:
  "chunk_run S h (c # cs) t \<Longrightarrow>
     ce_start c = h \<and> ce_data c \<noteq> [] \<and> int (length (ce_data c)) \<le> S \<and> chunk_run S (h + int (length (ce_data c))) cs t"
  if "0 < S"
  using that by (cases cs rule: rev_cases) (auto simp: chunk_run_def)

subsection \<open>Eviction\<close>

lemma freeBufLocked_simps [simp, frame_simps]:
  "cr_chunkSize (freeBufLocked r) = cr_chunkSize r" "cr_maxBytes (freeBufLocked r) = cr_maxBytes r"
  "cr_tail (freeBufLocked r) = cr_tail r" "cr_head (freeBufLocked r) = cr_head r"
  "cr_closed (freeBufLocked r) = cr_closed r" "cr_err (freeBufLocked r) = cr_err r"
  "cr_readers (freeBufLocked r) = cr_readers r" "cr_maxChunks (freeBufLocked r) = cr_maxChunks r"
  by (simp_all add: freeBufLocked_def)

lemma allocBufLocked_simps [simp, frame_simps]:
  "cr_chunkSize (allocBufLocked r) = cr_chunkSize r" "cr_maxBytes (allocBufLocked r) = cr_maxBytes r"
  "cr_chunks (allocBufLocked r) = cr_chunks r"
  "cr_tail (allocBufLocked r) = cr_tail r" "cr_head (allocBufLocked r) = cr_head r"
  "cr_closed (allocBufLocked r) = cr_closed r" "cr_err (allocBufLocked r) = cr_err r"
  "cr_readers (allocBufLocked r) = cr_readers r" "cr_maxChunks (allocBufLocked r) = cr_maxChunks r"
  by (simp_all add: allocBufLocked_def)

lemma freeBufLocked_count:
  "cr_freeBufs r \<le> cr_freeBufs (freeBufLocked r)" "cr_freeBufs (freeBufLocked r) \<le> cr_freeBufs r + 1"
  by (simp_all add: freeBufLocked_def)

lemma evictChunks_simps [simp, frame_simps]:
  "cr_chunkSize (evictChunks m cs r) = cr_chunkSize r" "cr_maxBytes (evictChunks m cs r) = cr_maxBytes r"
  "cr_tail (evictChunks m cs r) = cr_tail r" "cr_closed (evictChunks m cs r) = cr_closed r"
  "cr_err (evictChunks m cs r) = cr_err r" "cr_readers (evictChunks m cs r) = cr_readers r"
  by (induction m cs r rule: evictChunks.induct) simp_all

lemma evictChunks_props:
  fixes m :: int
  assumes "chunk_run S (cr_head r) cs t" and "0 < S"
  defines "r' \<equiv> evictChunks m cs r"
  shows "chunk_run S (cr_head r') (cr_chunks r') t \<and> cr_head r \<le> cr_head r' \<and>
    (cr_head r' = cr_head r \<or> cr_head r' \<le> m) \<and>
    concat (map ce_data (cr_chunks r')) = drop (nat (cr_head r' - cr_head r)) (concat (map ce_data cs)) \<and>
    int (length (cr_chunks r')) + cr_freeBufs r' \<le> int (length cs) + cr_freeBufs r \<and> cr_freeBufs r \<le> cr_freeBufs r'"
  unfolding r'_def using assms(1)
proof (induction m cs r rule: evictChunks.induct)
  case (2 m c cs r)
  let ?e = "ce_start c + int (length (ce_data c))"
  let ?r = "freeBufLocked (r\<lparr>cr_head := ?e\<rparr>)"
  note c = chunk_run_Cons [OF assms(2) "2.prems"]
  show ?case
  proof (cases "m < ?e")
    case False
    have run: "chunk_run S (cr_head ?r) cs t" using c by simp
    note ih = "2.IH" [OF False run]
    have e: "cr_head ?r = cr_head r + int (length (ce_data c))" using c by simp
    have "nat (cr_head (evictChunks m cs ?r) - cr_head r) =
        length (ce_data c) + nat (cr_head (evictChunks m cs ?r) - cr_head ?r)"
      using ih e by linarith
    then have "drop (nat (cr_head (evictChunks m cs ?r) - cr_head r)) (concat (map ce_data (c # cs))) =
        concat (map ce_data (cr_chunks (evictChunks m cs ?r)))"
      using ih by simp
    moreover have "cr_head (evictChunks m cs ?r) \<le> m" using ih False by auto
    moreover have "cr_freeBufs r \<le> cr_freeBufs ?r" "cr_freeBufs ?r \<le> cr_freeBufs r + 1"
      using freeBufLocked_count [of "r\<lparr>cr_head := ?e\<rparr>"] by simp_all
    ultimately show ?thesis using ih e False by auto
  qed (use "2.prems" in simp)
qed simp

lemma minPin_le: "rd \<in> set rds \<Longrightarrow> minPin rds \<le> effectivePin rd"
proof -
  have *: "foldl (\<lambda>m rd. let p = effectivePin rd in if p < m then p else m) a xs \<le> a \<and>
      (\<forall>rd \<in> set xs. foldl (\<lambda>m rd. let p = effectivePin rd in if p < m then p else m) a xs \<le> effectivePin rd)" for a xs
  proof (induction xs arbitrary: a)
    case (Cons x xs)
    from Cons.IH [of "if effectivePin x < a then effectivePin x else a"] show ?case by (auto simp: Let_def split: if_splits)
  qed simp
  assume "rd \<in> set rds"
  then show ?thesis using * [of "effectivePin (hd rds)" "tl rds"] by (cases rds) (auto simp: minPin_def)
qed

lemma evictLocked_inv:
  assumes "ring_inv (r, w)"
  shows "ring_inv (evictLocked r, w)"
proof (cases "cr_readers r = []")
  case False
  let ?m = "minPin (map snd (cr_readers r))" and ?S = "cr_chunkSize r"
  let ?r = "evictChunks ?m (cr_chunks r) r"
  have run: "chunk_run ?S (cr_head r) (cr_chunks r) (cr_tail r)" and S: "0 < ?S"
    using assms unfolding ring_inv.simps by blast+
  note p = evictChunks_props [OF run S, of ?m]
  have "?m \<le> effectivePin rd" if "(i, rd) \<in> set (cr_readers r)" for i rd using that by (force intro: minPin_le)
  then have "readers_ok (cr_head ?r) (cr_readers r)"
    using assms p by (fastforce simp: readers_ok_def)
  moreover have "(int (length (cr_chunks ?r)) + cr_freeBufs ?r) * ?S < cr_maxBytes r + ?S"
  proof (rule le_less_trans)
    show "(int (length (cr_chunks ?r)) + cr_freeBufs ?r) * ?S \<le> (int (length (cr_chunks r)) + cr_freeBufs r) * ?S"
      using p S by (intro mult_right_mono) auto
  qed (use assms in simp)
  moreover have "concat (map ce_data (cr_chunks ?r)) = drop (nat (cr_head ?r)) w"
    using p assms by (simp add: nat_add_distrib [symmetric])
  moreover have "cr_head r \<le> cr_head ?r" using p by simp
  moreover have "cr_tail r - cr_head ?r \<le> cr_maxBytes r" "0 \<le> cr_head ?r" "0 \<le> cr_freeBufs ?r"
    using assms p by auto
  ultimately show ?thesis using False assms p by (simp add: evictLocked_def)
qed (use assms in \<open>simp add: evictLocked_def\<close>)

subsection \<open>Every step keeps the invariant\<close>

lemma setReader_inv:
  assumes "ring_inv (r, w)" and "cr_head r \<le> effectivePin rd" and "rr_manual rd \<longrightarrow> rr_pin rd \<le> rr_pos rd"
  shows "ring_inv (setReader r i rd, w)"
proof -
  have "readers_ok (cr_head r) (map (\<lambda>(j, x). (j, if j = i then rd else x)) (cr_readers r))"
    using assms by (auto simp: readers_ok_def comp_def case_prod_beta)
  then show ?thesis using assms(1) by (simp add: setReader_def)
qed

lemma reader_bounds:
  assumes "ring_inv (r, w)" and "(i, rd) \<in> set (cr_readers r)"
  shows "cr_head r \<le> effectivePin rd" and "rr_manual rd \<longrightarrow> rr_pin rd \<le> rr_pos rd" and "cr_head r \<le> rr_pos rd"
  using assms by (auto simp: readers_ok_def effectivePin_def split: if_splits)

lemma EnableManualPin_inv:
  assumes "ring_inv (r, w)" and "(i, rd) \<in> set (cr_readers r)"
  shows "ring_inv (EnableManualPin r i rd, w)"
  using assms reader_bounds [OF assms]
  by (auto simp: EnableManualPin_def effectivePin_def simp del: ring_inv.simps intro!: setReader_inv)

lemma AdvancePin_inv:
  assumes "ring_inv (r, w)" and "(i, rd) \<in> set (cr_readers r)"
  shows "ring_inv (AdvancePin r i rd n, w)"
  using assms(1) reader_bounds [OF assms]
  unfolding AdvancePin_def Let_def
  by (auto simp: effectivePin_def simp del: ring_inv.simps intro!: evictLocked_inv setReader_inv split: if_splits)

lemma SetEnd_inv:
  assumes "ring_inv (r, w)" and "(i, rd) \<in> set (cr_readers r)"
  shows "ring_inv (SetEnd r i rd e, w)"
  using assms reader_bounds [OF assms]
  by (auto simp: SetEnd_def effectivePin_def simp del: ring_inv.simps intro!: setReader_inv)

lemma Read_inv:
  assumes "ring_inv (r, w)" and "(i, rd) \<in> set (cr_readers r)"
  shows "ring_inv (snd (Read r i rd k), w)"
  using assms(1) reader_bounds [OF assms]
  unfolding Read_def Let_def
  by (auto simp: effectivePin_def simp del: ring_inv.simps intro!: evictLocked_inv setReader_inv
      split: option.splits if_splits)

lemma closeReader_inv: "ring_inv (r, w) \<Longrightarrow> ring_inv (closeReader r i, w)"
  unfolding closeReader_def
  by (rule evictLocked_inv) (auto simp: readers_ok_def distinct_map_filter)

lemma NewReader_inv:
  assumes "ring_inv (r, w)" and "i \<notin> fst ` set (cr_readers r)" and "NewReader r i start e = Inr r'"
  shows "ring_inv (r', w)"
  using assms by (auto simp: NewReader_def readers_ok_def effectivePin_def split: if_splits)

lemma closeRing_inv: "ring_inv (r, w) \<Longrightarrow> ring_inv (closeRing r err, w)"
  by (simp add: closeRing_def)

lemma clip_min: "(if a < b then a else b) = min b (a :: int)"
  by auto

lemma writeRound_grow:
  assumes "writeRound r p = (Wrote n, r')" and "cr_chunks r = cs @ [c]" and "int (length (ce_data c)) < cr_chunkSize r"
    and "0 < n"
  shows "int (length (ce_data c)) + int n \<le> cr_chunkSize r" and "int n \<le> cr_maxBytes r - (cr_tail r - cr_head r)"
    and "n \<le> length p"
    and "r' = r\<lparr>cr_chunks := cs @ [c\<lparr>ce_data := ce_data c @ take n p\<rparr>], cr_tail := cr_tail r + int n\<rparr>"
proof -
  let ?m = "min (min (int (length p)) (cr_chunkSize r - int (length (ce_data c)))) (cr_maxBytes r - (cr_tail r - cr_head r))"
  from assms(1,4) have "n = nat ?m \<and>
      r' = r\<lparr>cr_chunks := cs @ [c\<lparr>ce_data := ce_data c @ take (nat ?m) p\<rparr>], cr_tail := cr_tail r + ?m\<rparr>"
    using assms(2,3) unfolding writeRound_def Let_def clip_min by (auto split: if_split_asm)
  moreover from this assms(4) have "?m = int n" by linarith
  ultimately show "r' = r\<lparr>cr_chunks := cs @ [c\<lparr>ce_data := ce_data c @ take n p\<rparr>], cr_tail := cr_tail r + int n\<rparr>"
    and "int (length (ce_data c)) + int n \<le> cr_chunkSize r" and "int n \<le> cr_maxBytes r - (cr_tail r - cr_head r)"
    and "n \<le> length p"
    by simp_all
qed

lemma writeRound_fresh:
  assumes "writeRound r p = (Wrote n, r')"
    and "\<not> (cr_chunks r \<noteq> [] \<and> int (length (ce_data (last (cr_chunks r)))) < cr_chunkSize r)" and "0 < n"
  shows "int n \<le> cr_chunkSize r" and "int n \<le> cr_maxBytes r - (cr_tail r - cr_head r)" and "n \<le> length p"
    and "r' = (allocBufLocked r)\<lparr>cr_chunks := cr_chunks r @ [\<lparr>ce_start = cr_tail r, ce_data = take n p\<rparr>],
      cr_tail := cr_tail r + int n\<rparr>"
proof -
  let ?m = "min (min (int (length p)) (cr_chunkSize r)) (cr_maxBytes r - (cr_tail r - cr_head r))"
  from assms(1,3) have "n = nat ?m \<and>
      r' = (allocBufLocked r)\<lparr>cr_chunks := cr_chunks r @ [\<lparr>ce_start = cr_tail r, ce_data = take (nat ?m) p\<rparr>],
        cr_tail := cr_tail r + ?m\<rparr>"
    using assms(2) unfolding writeRound_def Let_def clip_min by (auto split: if_split_asm)
  moreover from this assms(3) have "?m = int n" by linarith
  ultimately show "r' = (allocBufLocked r)\<lparr>cr_chunks := cr_chunks r @ [\<lparr>ce_start = cr_tail r, ce_data = take n p\<rparr>],
      cr_tail := cr_tail r + int n\<rparr>"
    and "int n \<le> cr_chunkSize r" and "int n \<le> cr_maxBytes r - (cr_tail r - cr_head r)" and "n \<le> length p"
    by simp_all
qed

lemma writeRound_inv:
  assumes inv: "ring_inv (r, w)" and wr: "writeRound r p = (Wrote n, r')"
  shows "ring_inv (r', w @ take n p)"
proof (cases "n = 0")
  case True
  then have "r' = r" using wr inv by (auto simp: writeRound_def Let_def split: if_split_asm)
  with True inv show ?thesis by simp
next
  case False
  let ?S = "cr_chunkSize r"
  have run: "chunk_run ?S (cr_head r) (cr_chunks r) (cr_tail r)" and S: "0 < ?S"
    and head: "0 \<le> cr_head r" and tail: "int (length w) = cr_tail r" using inv by simp_all
  have "cr_head r \<le> cr_tail r" using chunk_run_count(2) [OF run S] .
  then have old: "drop (nat (cr_head r)) (w @ take n p) = concat (map ce_data (cr_chunks r)) @ take n p"
    using inv head tail by simp
  show ?thesis
  proof (cases "cr_chunks r \<noteq> [] \<and> int (length (ce_data (last (cr_chunks r)))) < ?S")
    case True
    then obtain cs c where snoc: "cr_chunks r = cs @ [c]" by (cases "cr_chunks r" rule: rev_cases) auto
    have "int (length (ce_data c)) < ?S" and "0 < n" using True snoc False by simp_all
    note g = writeRound_grow [OF wr snoc this]
    have "chunk_run ?S (cr_head r) (cr_chunks r') (cr_tail r')" using run g snoc by (simp add: chunk_run_snoc)
    then show ?thesis using inv g old tail snoc by simp
  next
    case notshort: False
    have "0 < n" using False by simp
    note f = writeRound_fresh [OF wr notshort this]
    have run': "chunk_run ?S (cr_head r) (cr_chunks r') (cr_tail r')"
      using chunk_run_full [OF run] notshort f False by (auto simp: chunk_run_snoc)
    have "int (length (cr_chunks r')) * ?S < cr_tail r' - cr_head r + ?S" by (rule chunk_run_count(1) [OF run' S])
    moreover have "int (length (cr_chunks r')) = 1 + int (length (cr_chunks r))" and "cr_tail r' = cr_tail r + int n"
      using f(4) by simp_all
    ultimately have "(1 + int (length (cr_chunks r))) * ?S < cr_tail r + int n - cr_head r + ?S" by metis
    then have "(1 + int (length (cr_chunks r))) * ?S < cr_maxBytes r + ?S" using f(2) by linarith
    then have "(int (length (cr_chunks r')) + cr_freeBufs r') * ?S < cr_maxBytes r + ?S" and "0 \<le> cr_freeBufs r'"
      using f(4) inv by (auto simp: allocBufLocked_def)
    then show ?thesis using inv f run' old tail by simp
  qed
qed

lemma ring_step_inv: "ring_step s s' \<Longrightarrow> ring_inv s \<Longrightarrow> ring_inv s'"
  by (induction rule: ring_step.induct)
    (auto simp del: ring_inv.simps intro: writeRound_inv closeRing_inv NewReader_inv EnableManualPin_inv
      AdvancePin_inv Read_inv SetEnd_inv closeReader_inv)

lemma ring_reachable_inv: "ring_reachable s \<Longrightarrow> ring_inv s"
proof (induction rule: ring_reachable.induct)
  case (ring_new chunkSize maxBytes r)
  then show ?case
    by (auto simp: newChunkRing_def chunk_run_def readers_ok_def split: if_splits)
next
  case (ring_more s s')
  then show ?case by (blast intro: ring_step_inv)
qed

section \<open>What a read returns\<close>

lemma chunk_run_find:
  assumes "chunk_run S h cs t" and "0 < S" and "h \<le> pos" and "pos < t"
  shows "\<exists>c. find (\<lambda>c. ce_start c \<le> pos \<and> pos < ce_start c + int (length (ce_data c))) cs = Some c \<and>
    ce_start c \<le> pos \<and> pos < ce_start c + int (length (ce_data c)) \<and>
    (\<exists>rest. drop (nat (pos - h)) (concat (map ce_data cs)) = drop (nat (pos - ce_start c)) (ce_data c) @ rest)"
  using assms
proof (induction cs arbitrary: h)
  case Nil
  then show ?case by (simp add: chunk_run_def)
next
  case (Cons c cs)
  note c = chunk_run_Cons [OF assms(2) Cons.prems(1)]
  show ?case
  proof (cases "pos < ce_start c + int (length (ce_data c))")
    case True
    then have "nat (pos - h) \<le> length (ce_data c)" using c by simp
    with True c Cons.prems(3) show ?thesis by auto
  next
    case False
    have "nat (pos - h) = length (ce_data c) + nat (pos - (h + int (length (ce_data c))))" using False c by simp
    with Cons.IH [of "h + int (length (ce_data c))"] c False Cons.prems show ?thesis by auto
  qed
qed

lemma chunk_run_find_None:
  assumes "chunk_run S h cs t" and "0 < S" and "t \<le> pos"
  shows "find (\<lambda>c. ce_start c \<le> pos \<and> pos < ce_start c + int (length (ce_data c))) cs = None"
  using assms
proof (induction cs arbitrary: h)
  case (Cons c cs)
  note c = chunk_run_Cons [OF assms(2) Cons.prems(1)]
  then have "h + int (length (ce_data c)) \<le> t" using chunk_run_count(2) assms(2) by blast
  with Cons c show ?case by auto
qed simp

lemma Read_stream:
  assumes inv: "ring_inv (r, w)" and rd: "(i, rd) \<in> set (cr_readers r)"
    and more: "rr_pos rd < cr_tail r" "rr_endLimit rd < 0 \<or> rr_pos rd < rr_endLimit rd"
  shows "\<exists>n. fst (Read r i rd k) = GotBytes (take n (drop (nat (rr_pos rd)) w)) \<and>
    nat (rr_pos rd) + n \<le> length w \<and> (0 < k \<longrightarrow> 0 < n) \<and> n \<le> k \<and>
    (0 \<le> rr_endLimit rd \<longrightarrow> rr_pos rd + int n \<le> rr_endLimit rd) \<and>
    snd (Read r i rd k) = evictLocked (setReader r i (rd\<lparr>rr_pos := rr_pos rd + int n\<rparr>))"
proof -
  let ?pos = "rr_pos rd"
  have run: "chunk_run (cr_chunkSize r) (cr_head r) (cr_chunks r) (cr_tail r)" and S: "0 < cr_chunkSize r"
    and head: "0 \<le> cr_head r" and tail: "int (length w) = cr_tail r"
    and data: "concat (map ce_data (cr_chunks r)) = drop (nat (cr_head r)) w" using inv by simp_all
  note pos = reader_bounds(3) [OF inv rd]
  from chunk_run_find [OF run S pos more(1)] obtain c rest where
    c: "findChunkLocked r ?pos = Some c" "ce_start c \<le> ?pos" "?pos < ce_start c + int (length (ce_data c))" and
    rest: "drop (nat (?pos - cr_head r)) (concat (map ce_data (cr_chunks r))) = drop (nat (?pos - ce_start c)) (ce_data c) @ rest"
    by (auto simp: findChunkLocked_def)
  let ?off = "nat (?pos - ce_start c)"
  let ?m = "min (length (ce_data c) - ?off) k"
  let ?n = "if 0 \<le> rr_endLimit rd \<and> rr_endLimit rd < ?pos + int ?m then nat (rr_endLimit rd - ?pos) else ?m"
  have w: "drop (nat ?pos) w = drop ?off (ce_data c) @ rest"
    using rest head pos by (simp add: data nat_add_distrib [symmetric])
  have n: "?n \<le> length (ce_data c) - ?off" "?n \<le> k" "0 < k \<longrightarrow> 0 < ?n"
    using more(2) c by auto
  have read: "Read r i rd k = (GotBytes (take ?n (drop ?off (ce_data c))),
      evictLocked (setReader r i (rd\<lparr>rr_pos := ?pos + int ?n\<rparr>)))"
    using more(2) c(1) by (auto simp: Read_def Let_def)
  have bytes: "take ?n (drop (nat ?pos) w) = take ?n (drop ?off (ce_data c))" using n(1) by (simp add: w)
  have "length (drop ?off (ce_data c)) \<le> length (drop (nat ?pos) w)" by (simp add: w)
  then have "?n \<le> length w - nat ?pos" using n(1) by simp
  moreover have "nat ?pos < length w" using more(1) tail head pos by linarith
  ultimately have len: "nat ?pos + ?n \<le> length w" by linarith
  have "0 \<le> rr_endLimit rd \<longrightarrow> ?pos + int ?n \<le> rr_endLimit rd" using more(2) by auto
  then show ?thesis using n len by (intro exI [of _ ?n]) (simp add: read bytes)
qed

section \<open>A reader that pins what it has not committed\<close>

text \<open>An open ring whose only reader pins the first byte of the stream.\<close>

definition pinned_at_start :: "int \<Rightarrow> int \<Rightarrow> 'e chunkRing \<Rightarrow> bytes \<Rightarrow> chunkRingReader \<Rightarrow> bool" where
  "pinned_at_start S M r w rd \<longleftrightarrow>
     ring_reachable (r, w) \<and> cr_chunkSize r = S \<and> cr_maxBytes r = M \<and> \<not> cr_closed r \<and> cr_readers r = [(0, rd)] \<and>
     rr_manual rd \<and> rr_pin rd = 0 \<and> rr_endLimit rd < 0 \<and> rr_pos rd \<le> cr_tail r"

lemma pinned_head:
  assumes "pinned_at_start S M r w rd"
  shows "cr_head r = 0" and "ring_inv (r, w)"
proof -
  show inv: "ring_inv (r, w)" by (rule ring_reachable_inv) (use assms in \<open>simp add: pinned_at_start_def\<close>)
  have "cr_head r \<le> effectivePin rd"
    using reader_bounds(1) [OF inv, of 0 rd] assms by (simp add: pinned_at_start_def)
  with inv assms show "cr_head r = 0" by (simp add: pinned_at_start_def effectivePin_def)
qed

lemma pinned_start:
  assumes "0 < S" and "S \<le> M"
  shows "\<exists>(r :: 'e chunkRing) rd. pinned_at_start S M r [] rd"
proof -
  let ?r = "\<lparr>cr_chunkSize = S, cr_maxBytes = M, cr_chunks = [], cr_tail = 0, cr_head = 0, cr_closed = False,
    cr_err = None, cr_readers = [], cr_freeBufs = 0, cr_maxChunks = M div S\<rparr> :: 'e chunkRing"
  let ?rd = "\<lparr>rr_pos = 0, rr_pin = 0, rr_manual = False, rr_endLimit = -1\<rparr>"
  have "ring_reachable (?r, [])" using assms by (intro ring_new [of S M]) (simp add: newChunkRing_def)
  moreover have "ring_step (?r, []) (?r\<lparr>cr_readers := [(0, ?rd)]\<rparr>, [])"
    by (rule new_reader [of 0 _ 0 "-1"]) (simp_all add: NewReader_def)
  moreover have "ring_step (?r\<lparr>cr_readers := [(0, ?rd)]\<rparr>, [])
      (EnableManualPin (?r\<lparr>cr_readers := [(0, ?rd)]\<rparr>) 0 ?rd, [])"
    by (rule manual_pin) simp
  ultimately have "ring_reachable (EnableManualPin (?r\<lparr>cr_readers := [(0, ?rd)]\<rparr>) 0 ?rd, [])"
    by (blast intro: ring_more)
  then have "pinned_at_start S M (EnableManualPin (?r\<lparr>cr_readers := [(0, ?rd)]\<rparr>) 0 ?rd) [] (?rd\<lparr>rr_manual := True\<rparr>)"
    by (simp add: pinned_at_start_def EnableManualPin_def setReader_def)
  then show ?thesis by blast
qed

lemma pinned_write:
  fixes r :: "'e chunkRing"
  assumes "pinned_at_start S M r w rd" and "cr_tail r < M"
  shows "\<exists>r' :: 'e chunkRing. pinned_at_start S M r' (w @ [0]) rd \<and> cr_tail r' = cr_tail r + 1"
proof -
  note h = pinned_head [OF assms(1)]
  have "0 < S" "M - cr_tail r \<ge> 1" using h(2) assms by (simp_all add: pinned_at_start_def)
  then have "\<exists>r'. writeRound r [0] = (Wrote 1, r') \<and> cr_tail r' = cr_tail r + 1 \<and> cr_readers r' = cr_readers r \<and>
      cr_chunkSize r' = cr_chunkSize r \<and> cr_maxBytes r' = cr_maxBytes r \<and> cr_closed r' = cr_closed r"
    using assms h(1) unfolding writeRound_def Let_def clip_min by (auto simp: pinned_at_start_def min_def)
  then obtain r' where r': "writeRound r [0] = (Wrote 1, r')" "cr_tail r' = cr_tail r + 1" "cr_readers r' = cr_readers r"
    "cr_chunkSize r' = cr_chunkSize r" "cr_maxBytes r' = cr_maxBytes r" "cr_closed r' = cr_closed r" by blast
  have "ring_step (r, w) (r', w @ [0])" using write_some [OF r'(1), of w] by simp
  with assms(1) r' show ?thesis by (auto simp: pinned_at_start_def intro: ring_more)
qed

lemma pinned_read:
  fixes r :: "'e chunkRing"
  assumes "pinned_at_start S M r w rd" and "rr_pos rd < cr_tail r"
  shows "\<exists>(r' :: 'e chunkRing) rd'. pinned_at_start S M r' w rd' \<and> cr_tail r' = cr_tail r \<and> rr_pos rd < rr_pos rd'"
proof -
  note h = pinned_head [OF assms(1)]
  have rd: "(0, rd) \<in> set (cr_readers r)" and e: "rr_endLimit rd < 0" using assms(1) by (simp_all add: pinned_at_start_def)
  from Read_stream [OF h(2) rd assms(2), of 1] e obtain n where
    n: "nat (rr_pos rd) + n \<le> length w" "0 < n"
      "snd (Read r 0 rd 1) = evictLocked (setReader r 0 (rd\<lparr>rr_pos := rr_pos rd + int n\<rparr>))" by auto
  let ?rd = "rd\<lparr>rr_pos := rr_pos rd + int n\<rparr>"
  define q where "q = snd (Read r 0 rd 1)"
  have "ring_reachable (q, w)"
    unfolding q_def using assms(1) read_some [OF rd] by (auto simp: pinned_at_start_def intro: ring_more)
  moreover have "rr_pos rd + int n \<le> cr_tail r"
    using n(1) h reader_bounds(3) [OF h(2) rd] by auto
  moreover have q: "q = evictLocked (setReader r 0 ?rd)" using n(3) by (simp add: q_def)
  ultimately have "pinned_at_start S M q w ?rd"
    using assms(1) by (auto simp: pinned_at_start_def evictLocked_def setReader_def)
  moreover have "cr_tail q = cr_tail r" by (simp add: q evictLocked_def setReader_def)
  ultimately show ?thesis using n(2) by (intro exI [of _ q] exI [of _ ?rd]) simp
qed

lemma pinned_fill:
  fixes r :: "'e chunkRing"
  assumes "pinned_at_start S M r w rd" and "cr_tail r \<le> M"
  shows "\<exists>(r' :: 'e chunkRing) w' rd'. pinned_at_start S M r' w' rd' \<and> cr_tail r' = M \<and> rr_pos rd' = M"
  using assms
proof (induction "nat (M - cr_tail r) + nat (M - rr_pos rd)" arbitrary: r w rd rule: less_induct)
  case less
  have pos: "rr_pos rd \<le> cr_tail r" using less.prems(1) by (simp add: pinned_at_start_def)
  consider "cr_tail r < M" | "cr_tail r = M" "rr_pos rd < M" | "cr_tail r = M" "rr_pos rd = M"
    using less.prems(2) pos by linarith
  then show ?case
  proof cases
    case 1
    from pinned_write [OF less.prems(1) 1] obtain r' :: "'e chunkRing" where
      r': "pinned_at_start S M r' (w @ [0]) rd" "cr_tail r' = cr_tail r + 1" by blast
    show ?thesis by (rule less.hyps [OF _ r'(1)]) (use 1 r'(2) in auto)
  next
    case 2
    from pinned_read [OF less.prems(1)] 2 obtain r' :: "'e chunkRing" and rd' where
      r': "pinned_at_start S M r' w rd'" "cr_tail r' = cr_tail r" "rr_pos rd < rr_pos rd'" by auto
    show ?thesis by (rule less.hyps [OF _ r'(1)]) (use 2 r'(2,3) in auto)
  next
    case 3
    with less.prems show ?thesis by blast
  qed
qed

lemma pinned_example:
  "\<exists>(r :: unit chunkRing) rd. pinned_at_start 2 4 r [0] rd \<and> cr_tail r = 1 \<and> rr_pos rd = 0"
  "\<exists>(r :: unit chunkRing) rd. pinned_at_start 2 4 r [] rd \<and> cr_tail r = 0 \<and> rr_pos rd = 0"
proof -
  from pinned_start [of 2 4] obtain r :: "unit chunkRing" and rd where p: "pinned_at_start 2 4 r [] rd" by auto
  note h = pinned_head [OF p]
  have t: "cr_tail r = 0" using h by auto
  moreover have "rr_pos rd = 0"
    using reader_bounds(3) [OF h(2), of 0 rd] h(1) p t by (simp add: pinned_at_start_def)
  ultimately show "\<exists>(r :: unit chunkRing) rd. pinned_at_start 2 4 r [] rd \<and> cr_tail r = 0 \<and> rr_pos rd = 0"
    and "\<exists>(r :: unit chunkRing) rd. pinned_at_start 2 4 r [0] rd \<and> cr_tail r = 1 \<and> rr_pos rd = 0"
    using p pinned_write [OF p] by auto
qed

section \<open>Properties\<close>

text \<open>
  C8. However the producer and the readers interleave, the ring holds at most \<open>maxBytes\<close> bytes,
  its buffers in use and in the pool together stay below \<open>maxBytes + chunkSize\<close>, it holds exactly
  the written bytes from \<open>head\<close> on, and no registered reader's pin is ever below \<open>head\<close>.
\<close>

theorem chunkRing_invariant:
  assumes "ring_reachable (r, w)"
  shows "cr_tail r - cr_head r \<le> cr_maxBytes r \<and>
    (int (length (cr_chunks r)) + cr_freeBufs r) * cr_chunkSize r < cr_maxBytes r + cr_chunkSize r \<and>
    cr_tail r = int (length w) \<and>
    concat (map ce_data (cr_chunks r)) = drop (nat (cr_head r)) w \<and>
    (\<forall>(i, rd) \<in> set (cr_readers r). cr_head r \<le> effectivePin rd \<and> cr_head r \<le> rr_pos rd)"
  using ring_reachable_inv [OF assms] reader_bounds [OF ring_reachable_inv [OF assms]] by auto

theorem chunkRing_invariant_witness:
  "\<exists>r :: unit chunkRing. ring_reachable (r, [0]) \<and> cr_tail r - cr_head r \<le> cr_maxBytes r \<and> cr_tail r = int (length [0 :: byte])"
proof -
  from pinned_example(1) obtain r :: "unit chunkRing" and rd where "pinned_at_start 2 4 r [0] rd" by blast
  then have "ring_reachable (r, [0])" by (simp add: pinned_at_start_def)
  with chunkRing_invariant [OF this] show ?thesis by blast
qed

text \<open>
  C9. A registered reader is never told its bytes were evicted, and while bytes remain before its
  end limit a read gives a non-empty piece of the written stream from its position, advances by
  as much and never runs past the limit.
\<close>

theorem chunkRingReader_reads_stream:
  assumes "ring_reachable (r, w)" and "(i, rd) \<in> set (cr_readers r)"
  shows "fst (Read r i rd k) \<noteq> Evicted \<and>
    (rr_pos rd < cr_tail r \<and> (rr_endLimit rd < 0 \<or> rr_pos rd < rr_endLimit rd) \<longrightarrow>
     (\<exists>n. fst (Read r i rd k) = GotBytes (take n (drop (nat (rr_pos rd)) w)) \<and>
        nat (rr_pos rd) + n \<le> length w \<and> (0 < k \<longrightarrow> 0 < n) \<and> n \<le> k \<and>
        (0 \<le> rr_endLimit rd \<longrightarrow> rr_pos rd + int n \<le> rr_endLimit rd) \<and>
        (\<exists>rd'. (i, rd') \<in> set (cr_readers (snd (Read r i rd k))) \<and> rr_pos rd' = rr_pos rd + int n)))"
proof (intro conjI impI)
  note inv = ring_reachable_inv [OF assms(1)]
  show "fst (Read r i rd k) \<noteq> Evicted"
    using reader_bounds(3) [OF inv assms(2)]
    by (auto simp: Read_def Let_def split: option.splits)
  assume "rr_pos rd < cr_tail r \<and> (rr_endLimit rd < 0 \<or> rr_pos rd < rr_endLimit rd)"
  with Read_stream [OF inv assms(2)] obtain n where
    n: "fst (Read r i rd k) = GotBytes (take n (drop (nat (rr_pos rd)) w))" "nat (rr_pos rd) + n \<le> length w"
      "0 < k \<longrightarrow> 0 < n" "n \<le> k" "0 \<le> rr_endLimit rd \<longrightarrow> rr_pos rd + int n \<le> rr_endLimit rd"
      "snd (Read r i rd k) = evictLocked (setReader r i (rd\<lparr>rr_pos := rr_pos rd + int n\<rparr>))" by blast
  have "(i, rd\<lparr>rr_pos := rr_pos rd + int n\<rparr>) \<in> set (cr_readers (snd (Read r i rd k)))"
    using assms(2) by (force simp: n(6) evictLocked_def setReader_def)
  with n show "\<exists>n. fst (Read r i rd k) = GotBytes (take n (drop (nat (rr_pos rd)) w)) \<and>
      nat (rr_pos rd) + n \<le> length w \<and> (0 < k \<longrightarrow> 0 < n) \<and> n \<le> k \<and>
      (0 \<le> rr_endLimit rd \<longrightarrow> rr_pos rd + int n \<le> rr_endLimit rd) \<and>
      (\<exists>rd'. (i, rd') \<in> set (cr_readers (snd (Read r i rd k))) \<and> rr_pos rd' = rr_pos rd + int n)" by force
qed

theorem chunkRingReader_reads_stream_witness:
  "\<exists>(r :: unit chunkRing) rd. ring_reachable (r, [0]) \<and> (0, rd) \<in> set (cr_readers r) \<and> fst (Read r 0 rd 8) = GotBytes [0]"
proof -
  from pinned_example(1) obtain r :: "unit chunkRing" and rd where
    p: "pinned_at_start 2 4 r [0] rd" "cr_tail r = 1" "rr_pos rd = 0" by blast
  then have "ring_reachable (r, [0])" and rd: "(0, rd) \<in> set (cr_readers r)" "rr_endLimit rd < 0"
    by (simp_all add: pinned_at_start_def)
  from chunkRingReader_reads_stream [OF this(1,2), of 8] p(2,3) rd(2) obtain n where
    "fst (Read r 0 rd 8) = GotBytes (take n [0])" "n \<le> 1" "0 < n" by auto
  moreover from this have "n = 1" by simp
  ultimately show ?thesis using p(1) rd(1) by (auto simp: pinned_at_start_def)
qed

text \<open>
  The end of the stream: a reader that has caught up with a closed ring gets the producer's
  error if there was one and EOF otherwise; on an open ring it waits.
\<close>

theorem chunkRingReader_end:
  assumes "ring_reachable (r, w)" and "(i, rd) \<in> set (cr_readers r)" and "rr_pos rd = cr_tail r" and "rr_endLimit rd < 0"
  shows "Read r i rd k =
    (if cr_closed r then (case cr_err r of Some e \<Rightarrow> GotError e | None \<Rightarrow> GotEOF, r) else (ReadBlocked, r))"
proof -
  note inv = ring_reachable_inv [OF assms(1)]
  then have "findChunkLocked r (rr_pos rd) = None"
    using chunk_run_find_None [of "cr_chunkSize r" "cr_head r" "cr_chunks r" "cr_tail r" "rr_pos rd"] assms(3)
    by (simp add: findChunkLocked_def)
  then show ?thesis
    using reader_bounds(3) [OF inv assms(2)] assms(3,4) by (auto simp: Read_def split: option.splits)
qed

theorem chunkRingReader_end_witness:
  "\<exists>(r :: unit chunkRing) rd. ring_reachable (r, []) \<and> Read r 0 rd 8 = (ReadBlocked, r)"
proof -
  from pinned_example(2) obtain r :: "unit chunkRing" and rd where
    p: "pinned_at_start 2 4 r [] rd" "cr_tail r = 0" "rr_pos rd = 0" by blast
  then have "ring_reachable (r, [])" "(0, rd) \<in> set (cr_readers r)" "rr_endLimit rd < 0" "\<not> cr_closed r"
    by (simp_all add: pinned_at_start_def)
  with chunkRingReader_end [OF this(1,2), of 8] p show ?thesis by auto
qed

text \<open>
  C10. A ring of any size can deadlock: a reader with a manual pin that needs more than \<open>maxBytes\<close>
  bytes before it commits (one large item) ends up waiting for the producer while the producer
  waits for it.
\<close>

theorem chunkRing_deadlock:
  assumes "0 < S" and "S \<le> M"
  shows "\<exists>(r :: 'e chunkRing) w rd. ring_reachable (r, w) \<and> cr_maxBytes r = M \<and> cr_readers r = [(0, rd)] \<and> rr_manual rd \<and>
    rr_pin rd = 0 \<and> length w = nat M \<and> (\<forall>p. p \<noteq> [] \<longrightarrow> writeRound r p = (WriteBlocked, r)) \<and>
    (\<forall>k. Read r 0 rd k = (ReadBlocked, r))"
proof -
  from pinned_start [OF assms] obtain r0 :: "'e chunkRing" and rd0 where p0: "pinned_at_start S M r0 [] rd0" by blast
  have "cr_tail r0 \<le> M" using pinned_head [OF p0] assms by simp
  from pinned_fill [OF p0 this] obtain r :: "'e chunkRing" and w rd where
    p: "pinned_at_start S M r w rd" "cr_tail r = M" "rr_pos rd = M" by blast
  note h = pinned_head [OF p(1)]
  have "findChunkLocked r M = None"
    using chunk_run_find_None [of S "cr_head r" "cr_chunks r" M M] h(2) p by (simp add: findChunkLocked_def pinned_at_start_def)
  then have "Read r 0 rd k = (ReadBlocked, r)" for k
    using p h assms by (simp add: Read_def pinned_at_start_def)
  moreover have "writeRound r q = (WriteBlocked, r)" if "q \<noteq> []" for q
    using p h that by (simp add: writeRound_def pinned_at_start_def)
  moreover have "length w = nat M" using h(2) p(2) by auto
  ultimately show ?thesis using p(1) by (intro exI [of _ r] exI [of _ w] exI [of _ rd]) (simp add: pinned_at_start_def)
qed

theorem chunkRing_deadlock_witness:
  "\<exists>(r :: unit chunkRing) w rd. ring_reachable (r, w) \<and> cr_maxBytes r = 4 \<and> cr_readers r = [(0, rd)] \<and> length w = 4 \<and>
    writeRound r [1] = (WriteBlocked, r) \<and> Read r 0 rd 9 = (ReadBlocked, r)"
  using chunkRing_deadlock [of 2 4, where 'e = unit] by fastforce

end
