(* ===== verification/ChunkSched.thy ===== *)
theory ChunkSched
  imports Sha256 GoStrings
begin

text \<open>
  The chunk scheduler of \<open>internal/snapfetch/download.go\<close>: which peer is asked for which chunk,
  what happens to replies, timeouts and disconnects, and when the download is done.  What the
  scheduler learns from outside during one handler is the argument \<open>env\<close>; calls it makes on
  other components are recorded in \<open>sc_out\<close>.
\<close>

section \<open>Peers\<close>

type_synonym pid = bytes

record peerStat =
  ps_inflight :: int
  ps_failures :: int
  ps_banned :: bool
  ps_provisional :: bool
  ps_chunks :: int
  ps_wasGood :: bool
  ps_banReason :: string
  ps_declined :: "nat list"

definition newPeerStat :: peerStat where
  "newPeerStat = \<lparr>ps_inflight = 0, ps_failures = 0, ps_banned = False, ps_provisional = False, ps_chunks = 0,
     ps_wasGood = False, ps_banReason = [], ps_declined = []\<rparr>"

definition addInflight :: "peerStat \<Rightarrow> peerStat" where
  "addInflight st = st\<lparr>ps_inflight := ps_inflight st + 1\<rparr>"

definition removeInflight :: "peerStat \<Rightarrow> peerStat" where
  "removeInflight st = (if 0 < ps_inflight st then st\<lparr>ps_inflight := ps_inflight st - 1\<rparr> else st)"

definition clearInflight :: "peerStat \<Rightarrow> peerStat" where
  "clearInflight st = st\<lparr>ps_inflight := 0\<rparr>"

definition failureLimit :: "peerStat \<Rightarrow> int \<Rightarrow> int \<Rightarrow> int" where
  "failureLimit st proven provisional = (if ps_provisional st then provisional else proven)"

definition recordFailure :: "peerStat \<Rightarrow> int \<Rightarrow> bool \<times> peerStat" where
  "recordFailure st limit =
     (if ps_banned st then (False, st)
      else let st = st\<lparr>ps_failures := ps_failures st + 1\<rparr> in
        if limit \<le> ps_failures st then (True, st\<lparr>ps_banned := True\<rparr>) else (False, st))"

definition promote :: "peerStat \<Rightarrow> bool \<times> peerStat" where
  "promote st = (if ps_provisional st then (True, st\<lparr>ps_provisional := False\<rparr>) else (False, st))"

definition benchIfProvisional :: "peerStat \<Rightarrow> bool \<times> peerStat" where
  "benchIfProvisional st = (if ps_provisional st then (True, st\<lparr>ps_banned := True\<rparr>) else (False, st))"

section \<open>Scheduler\<close>

record inflightEntry =
  ie_peer :: pid
  ie_sent :: int

datatype action =
    Pin pid | MgrBan pid string | WatchBan pid string | RecordServed pid | ChunkReady nat | RequestChunk pid nat

text \<open>
  \<open>sc_dir\<close> is the snapshot directory, file name to contents.  Maps that Go iterates are maps here;
  an iteration whose order shows takes it from the environment.
\<close>

record 'e chunkScheduler =
  sc_height :: u64
  sc_format :: u32
  sc_chunks :: nat
  sc_chunkHashes :: "bytes list"
  sc_perPeer :: int
  sc_chunkTimeout :: int
  sc_peerFailLimit :: int
  sc_provisionalStrikes :: int
  sc_provisionalInflight :: int
  sc_maxDiskFails :: int
  sc_pending :: "bool list"
  sc_completed :: "bool list"
  sc_inflight :: "nat \<Rightarrow> inflightEntry option"
  sc_stats :: "pid \<Rightarrow> peerStat option"
  sc_bytesTotal :: u64
  sc_doneCount :: nat
  sc_hadEvent :: bool
  sc_diskFails :: int
  sc_firstDiskErr :: "'e option"
  sc_dir :: "bytes \<Rightarrow> bytes option"
  sc_out :: "action list"

text \<open>
  One handler's view of the world: the connected peers (\<open>en_peers\<close> lists them), which requests
  the send queues take, the manager's bans, the result of a chunk write, the clock, and the order
  in which \<open>pickPeer\<close> meets the peers when it looks for a given chunk.
\<close>

record 'e env =
  en_peers :: "pid list"
  en_accepts :: "pid \<Rightarrow> nat \<Rightarrow> bool"
  en_mgrBanned :: "pid \<Rightarrow> bool"
  en_writeErr :: "'e option"
  en_now :: int
  en_order :: "nat \<Rightarrow> pid list"

abbreviation connected :: "'e env \<Rightarrow> pid \<Rightarrow> bool" where
  "connected env p \<equiv> p \<in> set (en_peers env)"

definition emit :: "action list \<Rightarrow> 'e chunkScheduler \<Rightarrow> 'e chunkScheduler" where
  "emit acts s = s\<lparr>sc_out := sc_out s @ acts\<rparr>"

definition setStat :: "pid \<Rightarrow> peerStat \<Rightarrow> 'e chunkScheduler \<Rightarrow> 'e chunkScheduler" where
  "setStat p st s = s\<lparr>sc_stats := (sc_stats s)(p \<mapsto> st)\<rparr>"

definition setPending :: "nat \<Rightarrow> bool \<Rightarrow> 'e chunkScheduler \<Rightarrow> 'e chunkScheduler" where
  "setPending i b s = s\<lparr>sc_pending := (sc_pending s)[i := b]\<rparr>"

definition dropInflight :: "nat \<Rightarrow> 'e chunkScheduler \<Rightarrow> 'e chunkScheduler" where
  "dropInflight i s = s\<lparr>sc_inflight := (sc_inflight s)(i := None)\<rparr>"

subsection \<open>Dispatch\<close>

record pick =
  pk_bestProven :: "pid option"
  pk_bestProvis :: "pid option"
  pk_provenInflight :: int
  pk_provisInflight :: int

definition pickStep :: "'e env \<Rightarrow> 'e chunkScheduler \<Rightarrow> nat \<Rightarrow> pid list \<Rightarrow> pid \<Rightarrow> pick \<Rightarrow> pick" where
  "pickStep env s chunkIdx skip p b =
     (case sc_stats s p of
        None \<Rightarrow> b
      | Some st \<Rightarrow>
          if ps_banned st then b
          else if p \<in> set skip then b
          else if chunkIdx \<in> set (ps_declined st) then b
          else if \<not> connected env p then b
          else if ps_provisional st then
            (if ps_inflight st < pk_provisInflight b
             then b\<lparr>pk_provisInflight := ps_inflight st, pk_bestProvis := Some p\<rparr> else b)
          else if ps_inflight st < pk_provenInflight b
             then b\<lparr>pk_provenInflight := ps_inflight st, pk_bestProven := Some p\<rparr> else b)"

definition pickPeer :: "'e env \<Rightarrow> 'e chunkScheduler \<Rightarrow> nat \<Rightarrow> pid list \<Rightarrow> pid option" where
  "pickPeer env s chunkIdx skip =
     (let b = fold (pickStep env s chunkIdx skip) (en_order env chunkIdx)
        \<lparr>pk_bestProven = None, pk_bestProvis = None, pk_provenInflight = sc_perPeer s + 1,
         pk_provisInflight = sc_provisionalInflight s + 1\<rparr>
      in if pk_provenInflight b < sc_perPeer s then pk_bestProven b
         else if pk_provisInflight b \<le> sc_provisionalInflight s then pk_bestProvis b
         else None)"

fun dispatchFrom :: "'e env \<Rightarrow> nat list \<Rightarrow> pid list \<Rightarrow> 'e chunkScheduler \<Rightarrow> 'e chunkScheduler" where
  "dispatchFrom env [] skip s = s"
| "dispatchFrom env (i # is) skip s =
     (if \<not> sc_pending s ! i then dispatchFrom env is skip s
      else case pickPeer env s i skip of
          None \<Rightarrow> s
        | Some p \<Rightarrow>
            if \<not> connected env p then
              dispatchFrom env is skip (case sc_stats s p of
                  Some st \<Rightarrow> setStat p (st\<lparr>ps_banned := True\<rparr>) s | None \<Rightarrow> s)
            else if \<not> en_accepts env p i then dispatchFrom env is (p # skip) s
            else let s = setPending i False s;
                     s = s\<lparr>sc_inflight := (sc_inflight s)(i \<mapsto> \<lparr>ie_peer = p, ie_sent = en_now env\<rparr>)\<rparr>;
                     s = (case sc_stats s p of Some st \<Rightarrow> setStat p (addInflight st) s | None \<Rightarrow> s)
                 in dispatchFrom env is skip (emit [RequestChunk p i] s))"

definition dispatch :: "'e env \<Rightarrow> 'e chunkScheduler \<Rightarrow> 'e chunkScheduler" where
  "dispatch env s = dispatchFrom env [0..<sc_chunks s] [] s"

subsection \<open>Handlers\<close>

definition banAndDrop :: "'e env \<Rightarrow> pid \<Rightarrow> string \<Rightarrow> 'e chunkScheduler \<Rightarrow> 'e chunkScheduler" where
  "banAndDrop env p reason s =
     (let s = (case sc_stats s p of
                 Some st \<Rightarrow> if ps_banReason st = [] then setStat p (st\<lparr>ps_banReason := reason\<rparr>) s else s
               | None \<Rightarrow> s)
      in emit (MgrBan p reason # (if connected env p then [WatchBan p reason] else [])) s)"

definition addProvisional :: "pid \<Rightarrow> 'e chunkScheduler \<Rightarrow> 'e chunkScheduler" where
  "addProvisional p s =
     (if sc_stats s p \<noteq> None then s
      else emit [Pin p] (setStat p (newPeerStat\<lparr>ps_provisional := True\<rparr>) s))"

definition expireChunk :: "'e env \<Rightarrow> nat \<Rightarrow> 'e chunkScheduler \<Rightarrow> 'e chunkScheduler" where
  "expireChunk env i s =
     (case sc_inflight s i of
        None \<Rightarrow> s
      | Some info \<Rightarrow>
          if en_now env - ie_sent info \<le> sc_chunkTimeout s then s
          else let s = (case sc_stats s (ie_peer info) of
                 None \<Rightarrow> s
               | Some st \<Rightarrow>
                   let (benched, st) = benchIfProvisional (removeInflight st);
                       s = setStat (ie_peer info) st s
                   in if benched then banAndDrop env (ie_peer info) ''probe timeout'' s else s)
               in setPending i True (dropInflight i s))"

definition mirrorBans :: "'e env \<Rightarrow> 'e chunkScheduler \<Rightarrow> 'e chunkScheduler" where
  "mirrorBans env s =
     s\<lparr>sc_stats := (\<lambda>p. map_option (\<lambda>st. if \<not> ps_banned st \<and> en_mgrBanned env p
                                        then st\<lparr>ps_banned := True\<rparr> else st) (sc_stats s p))\<rparr>"

definition onTimeoutTick :: "'e env \<Rightarrow> 'e chunkScheduler \<Rightarrow> 'e chunkScheduler" where
  "onTimeoutTick env s =
     dispatch env (fold addProvisional (en_peers env) (mirrorBans env (fold (expireChunk env) [0..<sc_chunks s] s)))"

definition onConnect :: "'e env \<Rightarrow> pid \<Rightarrow> 'e chunkScheduler \<Rightarrow> 'e chunkScheduler" where
  "onConnect env p s = dispatch env (if connected env p then addProvisional p s else s)"

definition releaseChunk :: "pid \<Rightarrow> nat \<Rightarrow> 'e chunkScheduler \<Rightarrow> 'e chunkScheduler" where
  "releaseChunk p i s =
     (case sc_inflight s i of
        Some info \<Rightarrow> if ie_peer info = p then setPending i True (dropInflight i s) else s
      | None \<Rightarrow> s)"

definition onRemoved :: "'e env \<Rightarrow> pid \<Rightarrow> 'e chunkScheduler \<Rightarrow> 'e chunkScheduler" where
  "onRemoved env p s =
     (let s = fold (releaseChunk p) [0..<sc_chunks s] s;
          s = (case sc_stats s p of Some st \<Rightarrow> setStat p (clearInflight st) s | None \<Rightarrow> s)
      in dispatch env s)"

record ChunkInfo =
  ci_Height :: u64
  ci_Format :: u32
  ci_Index :: u32
  ci_Missing :: bool
  ci_Bytes :: bytes

definition chunkFile :: "nat \<Rightarrow> bytes" where
  "chunkFile i = go_string ''chunk_'' @ fmt_05d i @ go_string ''.bin''"

text \<open>A verified chunk: credit the peer, write the file, count it.\<close>

definition storeChunk :: "'e env \<Rightarrow> pid \<Rightarrow> peerStat \<Rightarrow> nat \<Rightarrow> bytes \<Rightarrow> 'e chunkScheduler \<Rightarrow> 'e chunkScheduler" where
  "storeChunk env p st i b s =
     (let st = snd (promote st);
          st = st\<lparr>ps_chunks := ps_chunks st + 1, ps_failures := 0\<rparr>;
          s = setStat p st s;
          s = (if connected env p then emit [RecordServed p] s else s)
      in case en_writeErr env of
          Some e \<Rightarrow>
            dispatch env (setPending i True
              (s\<lparr>sc_firstDiskErr := (if sc_firstDiskErr s = None then Some e else sc_firstDiskErr s),
                 sc_diskFails := sc_diskFails s + 1\<rparr>))
        | None \<Rightarrow>
            dispatch env (emit [ChunkReady i]
              (s\<lparr>sc_dir := (sc_dir s)(chunkFile i \<mapsto> b),
                 sc_completed := (sc_completed s)[i := True],
                 sc_doneCount := sc_doneCount s + 1,
                 sc_bytesTotal := sc_bytesTotal s + of_nat (length b)\<rparr>)))"

definition onChunk :: "'e env \<Rightarrow> pid \<Rightarrow> ChunkInfo \<Rightarrow> 'e chunkScheduler \<Rightarrow> (unit, 'e chunkScheduler) outcome" where
  "onChunk env p c s =
     (if ci_Height c \<noteq> sc_height s \<or> ci_Format c \<noteq> sc_format s then Ok s
      else let s = s\<lparr>sc_hadEvent := True\<rparr>;
               i = unat (ci_Index c);
               st = (case sc_stats s p of Some st \<Rightarrow> st | None \<Rightarrow> newPeerStat);
               s = (case sc_inflight s i of
                      Some info \<Rightarrow> if ie_peer info = p then dropInflight i s else s
                    | None \<Rightarrow> s);
               st = removeInflight st;
               s = setStat p st s
        in if length (sc_completed s) \<le> i then Panic
           else if sc_completed s ! i then Ok s
           else let limit = failureLimit st (sc_peerFailLimit s) (sc_provisionalStrikes s) in
             if ci_Missing c \<or> ci_Bytes c = [] then
               Ok (dispatch env (setPending i True (setStat p (st\<lparr>ps_declined := i # ps_declined st\<rparr>) s)))
             else if length (sc_chunkHashes s) \<le> i then Panic
             else if sha256 (ci_Bytes c) \<noteq> sc_chunkHashes s ! i then
               (if length (sc_chunkHashes s ! i) < 8 then Panic
                else let (tripped, st) = recordFailure st limit;
                         s = setStat p st s;
                         s = (if tripped then banAndDrop env p ''chunk hash mismatch'' s else s)
                  in Ok (dispatch env (setPending i True s)))
             else Ok (storeChunk env p st i (ci_Bytes c) s))"

section \<open>Start\<close>

definition seedGood :: "'e env \<Rightarrow> pid list \<Rightarrow> 'e chunkScheduler \<Rightarrow> 'e chunkScheduler" where
  "seedGood env good s =
     emit (map Pin (filter (connected env) good))
       (fold (\<lambda>p. setStat p (newPeerStat\<lparr>ps_wasGood := True\<rparr>)) good s)"

text \<open>A directory entry; \<open>de_read\<close> and \<open>de_remove\<close> say whether reading and removing it work.\<close>

record dirEntry =
  de_name :: bytes
  de_isDir :: bool
  de_read :: bool
  de_remove :: bool

definition removeEntry :: "dirEntry \<Rightarrow> 'e chunkScheduler \<Rightarrow> 'e chunkScheduler" where
  "removeEntry e s = (if de_remove e then s\<lparr>sc_dir := (sc_dir s)(de_name e := None)\<rparr> else s)"

definition resumeEntry :: "dirEntry \<Rightarrow> 'e chunkScheduler \<Rightarrow> 'e chunkScheduler" where
  "resumeEntry e s =
     (let name = de_name e in
      if de_isDir e then s
      else if (HasPrefix name (go_string ''.chunk_'') \<and> HasSuffix name (go_string ''.tmp'')) \<or>
              (HasPrefix name (go_string ''chunk_'') \<and> HasSuffix name (go_string ''.bin.tmp'')) then removeEntry e s
      else if \<not> HasPrefix name (go_string ''chunk_'') then s
      else if \<not> HasSuffix name (go_string ''.bin'') then s
      else case ParseUint 32 (TrimSuffix (TrimPrefix name (go_string ''chunk_'')) (go_string ''.bin'')) of
          None \<Rightarrow> s
        | Some i \<Rightarrow>
            if sc_chunks s \<le> i then removeEntry e s
            else if sc_completed s ! i then s
            else case (if de_read e then sc_dir s name else None) of
                None \<Rightarrow> s
              | Some b \<Rightarrow>
                  if sha256 b = sc_chunkHashes s ! i then
                    emit [ChunkReady i]
                      (s\<lparr>sc_completed := (sc_completed s)[i := True], sc_pending := (sc_pending s)[i := False],
                         sc_bytesTotal := sc_bytesTotal s + of_nat (length b), sc_doneCount := sc_doneCount s + 1\<rparr>)
                  else removeEntry e s)"

text \<open>\<open>os.ReadDir\<close> either fails or lists the entries.\<close>

definition resumeFromDisk :: "dirEntry list option \<Rightarrow> 'e chunkScheduler \<Rightarrow> 'e chunkScheduler" where
  "resumeFromDisk entries s = (case entries of None \<Rightarrow> s | Some es \<Rightarrow> fold resumeEntry es s)"

definition initScheduler :: "'e env \<Rightarrow> pid list \<Rightarrow> dirEntry list option \<Rightarrow> 'e chunkScheduler \<Rightarrow> 'e chunkScheduler" where
  "initScheduler env good entries s =
     dispatch env (resumeFromDisk entries (fold addProvisional (en_peers env) (seedGood env good s)))"

definition newScheduler :: "u64 \<Rightarrow> u32 \<Rightarrow> nat \<Rightarrow> bytes list \<Rightarrow> int \<Rightarrow> int \<Rightarrow> int \<Rightarrow> int \<Rightarrow> int \<Rightarrow> int \<Rightarrow>
    (bytes \<Rightarrow> bytes option) \<Rightarrow> 'e chunkScheduler" where
  "newScheduler height format n hashes perPeer timeout failLimit strikes provInflight maxDiskFails dir =
     \<lparr>sc_height = height, sc_format = format, sc_chunks = n, sc_chunkHashes = hashes, sc_perPeer = perPeer,
      sc_chunkTimeout = timeout, sc_peerFailLimit = failLimit, sc_provisionalStrikes = strikes,
      sc_provisionalInflight = provInflight, sc_maxDiskFails = maxDiskFails,
      sc_pending = replicate n True, sc_completed = replicate n False, sc_inflight = Map.empty, sc_stats = Map.empty,
      sc_bytesTotal = 0, sc_doneCount = 0, sc_hadEvent = False, sc_diskFails = 0, sc_firstDiskErr = None,
      sc_dir = dir, sc_out = []\<rparr>"

section \<open>The main loop\<close>

datatype event = Tick | Connected pid | Removed pid | Chunk pid ChunkInfo | Cancel

datatype 'e download_error = ErrDiskFailed "'e option" | AllPeersBanned | Cancelled

text \<open>The loop uses \<open>peerCounts\<close> only to see whether a tracked peer is left that is not banned.\<close>

definition somePeerAlive :: "'e chunkScheduler \<Rightarrow> bool" where
  "somePeerAlive s \<longleftrightarrow> (\<exists>p st. sc_stats s p = Some st \<and> \<not> ps_banned st)"

fun onEvent :: "'e env \<Rightarrow> event \<Rightarrow> 'e chunkScheduler \<Rightarrow> (unit, 'e chunkScheduler) outcome" where
  "onEvent env Tick s = Ok (onTimeoutTick env s)"
| "onEvent env (Connected p) s = Ok (onConnect env p s)"
| "onEvent env (Removed p) s = Ok (onRemoved env p s)"
| "onEvent env (Chunk p c) s = onChunk env p c s"
| "onEvent env Cancel s = Ok s"

text \<open>The run over the events that arrive; \<^term>\<open>None\<close> when it is still waiting for more.\<close>

fun runDownload :: "'e chunkScheduler \<Rightarrow> ('e env \<times> event) list \<Rightarrow>
    ('e download_error, u64) outcome option \<times> 'e chunkScheduler" where
  "runDownload s evs =
     (if sc_chunks s \<le> sc_doneCount s then (Some (Ok (sc_bytesTotal s)), s)
      else if 0 < sc_maxDiskFails s \<and> sc_maxDiskFails s \<le> sc_diskFails s then (Some (Fail (ErrDiskFailed (sc_firstDiskErr s))), s)
      else if \<not> somePeerAlive s then (Some (Fail AllPeersBanned), s)
      else case evs of
          [] \<Rightarrow> (None, s)
        | (env, Cancel) # evs \<Rightarrow> (Some (Fail Cancelled), s)
        | (env, ev) # evs \<Rightarrow>
            (case onEvent env ev s of
               Ok s' \<Rightarrow> runDownload s' evs
             | _ \<Rightarrow> (Some Panic, s)))"

declare runDownload.simps [simp del]

end
