(* ===== verification/ChunkSchedProps.thy ===== *)
theory ChunkSchedProps
  imports ChunkSched
begin

text \<open>
  Correctness of the chunk scheduler: no chunk is lost, counts are right, only verified bytes are
  counted as done, peers are chosen as documented, and the places where the code falls short of
  its comments.
\<close>

section \<open>Choosing a peer\<close>

definition eligible :: "'e env \<Rightarrow> 'e chunkScheduler \<Rightarrow> nat \<Rightarrow> pid list \<Rightarrow> pid \<Rightarrow> bool \<Rightarrow> int \<Rightarrow> bool" where
  "eligible env s i skip p prov n \<longleftrightarrow>
     (\<exists>st. sc_stats s p = Some st \<and> \<not> ps_banned st \<and> p \<notin> set skip \<and> i \<notin> set (ps_declined st) \<and> connected env p \<and>
        ps_provisional st = prov \<and> ps_inflight st = n)"

definition pick_ok :: "'e env \<Rightarrow> 'e chunkScheduler \<Rightarrow> nat \<Rightarrow> pid list \<Rightarrow> pid list \<Rightarrow> bool \<Rightarrow> int \<Rightarrow> pid option \<Rightarrow> int \<Rightarrow> bool" where
  "pick_ok env s i skip xs prov lim best n \<longleftrightarrow>
     (case best of None \<Rightarrow> n = lim | Some p \<Rightarrow> p \<in> set xs \<and> eligible env s i skip p prov n \<and> n < lim) \<and>
     (\<forall>q m. q \<in> set xs \<and> eligible env s i skip q prov m \<longrightarrow> n \<le> m \<or> lim \<le> m)"

lemma eligible_unique:
  "eligible env s i skip p prov n \<Longrightarrow> eligible env s i skip p prov' m \<Longrightarrow> prov' = prov \<and> m = n"
  by (auto simp: eligible_def)

lemma pick_ok_skip:
  assumes "pick_ok env s i skip xs prov lim best n" and "\<And>m. \<not> eligible env s i skip p prov m"
  shows "pick_ok env s i skip (xs @ [p]) prov lim best n"
  using assms by (cases best) (auto simp: pick_ok_def)

lemma pick_ok_take:
  assumes ok: "pick_ok env s i skip xs prov lim best n" and e: "eligible env s i skip p prov m"
  shows "pick_ok env s i skip (xs @ [p]) prov lim (if m < n then Some p else best) (if m < n then m else n)"
proof -
  have n: "n \<le> lim" using ok by (cases best) (auto simp: pick_ok_def)
  have "(if m < n then m else n) \<le> m' \<or> lim \<le> m'" if "q \<in> set (xs @ [p])" "eligible env s i skip q prov m'" for q m'
  proof (cases "q = p")
    case True
    then have "m' = m" using eligible_unique [OF e] that(2) by blast
    then show ?thesis by simp
  next
    case False
    then have "n \<le> m' \<or> lim \<le> m'" using ok that by (auto simp: pick_ok_def)
    then show ?thesis by auto
  qed
  moreover have "case (if m < n then Some p else best) of None \<Rightarrow> (if m < n then m else n) = lim
      | Some q \<Rightarrow> q \<in> set (xs @ [p]) \<and> eligible env s i skip q prov (if m < n then m else n) \<and> (if m < n then m else n) < lim"
    using ok e n by (cases best) (auto simp: pick_ok_def)
  ultimately show ?thesis unfolding pick_ok_def by blast
qed

lemma pickStep_ok:
  fixes p :: pid
  assumes "pick_ok env s i skip xs False a (pk_bestProven b) (pk_provenInflight b)"
    and "pick_ok env s i skip xs True c (pk_bestProvis b) (pk_provisInflight b)"
  defines "b' \<equiv> pickStep env s i skip p b"
  shows "pick_ok env s i skip (xs @ [p]) False a (pk_bestProven b') (pk_provenInflight b') \<and>
    pick_ok env s i skip (xs @ [p]) True c (pk_bestProvis b') (pk_provisInflight b')"
proof (cases "\<exists>prov n. eligible env s i skip p prov n")
  case False
  then have "b' = b" by (auto simp: b'_def pickStep_def eligible_def split: option.splits)
  with False assms(1,2) show ?thesis by (simp add: pick_ok_skip)
next
  case True
  then obtain prov n where e: "eligible env s i skip p prov n" by blast
  have b': "b' = (if prov then (if n < pk_provisInflight b then b\<lparr>pk_provisInflight := n, pk_bestProvis := Some p\<rparr> else b)
      else if n < pk_provenInflight b then b\<lparr>pk_provenInflight := n, pk_bestProven := Some p\<rparr> else b)"
    using e by (auto simp: b'_def pickStep_def eligible_def)
  have other: "\<not> eligible env s i skip p (\<not> prov) m" for m using eligible_unique [OF e] by blast
  show ?thesis
  proof (cases prov)
    case True
    with pick_ok_take [OF assms(2), of p n] pick_ok_skip [OF assms(1), of p] e other show ?thesis by (auto simp: b')
  next
    case False
    with pick_ok_take [OF assms(1), of p n] pick_ok_skip [OF assms(2), of p] e other show ?thesis by (auto simp: b')
  qed
qed

lemma pickFold_ok:
  "pick_ok env s i skip xs False (sc_perPeer s + 1)
      (pk_bestProven (fold (pickStep env s i skip) xs
         \<lparr>pk_bestProven = None, pk_bestProvis = None, pk_provenInflight = sc_perPeer s + 1,
          pk_provisInflight = sc_provisionalInflight s + 1\<rparr>))
      (pk_provenInflight (fold (pickStep env s i skip) xs
         \<lparr>pk_bestProven = None, pk_bestProvis = None, pk_provenInflight = sc_perPeer s + 1,
          pk_provisInflight = sc_provisionalInflight s + 1\<rparr>)) \<and>
    pick_ok env s i skip xs True (sc_provisionalInflight s + 1)
      (pk_bestProvis (fold (pickStep env s i skip) xs
         \<lparr>pk_bestProven = None, pk_bestProvis = None, pk_provenInflight = sc_perPeer s + 1,
          pk_provisInflight = sc_provisionalInflight s + 1\<rparr>))
      (pk_provisInflight (fold (pickStep env s i skip) xs
         \<lparr>pk_bestProven = None, pk_bestProvis = None, pk_provenInflight = sc_perPeer s + 1,
          pk_provisInflight = sc_provisionalInflight s + 1\<rparr>))"
proof (induction xs rule: rev_induct)
  case Nil
  then show ?case by (simp add: pick_ok_def)
next
  case (snoc p xs)
  note pickStep_ok [OF conjunct1 [OF snoc.IH] conjunct2 [OF snoc.IH], of p]
  then show ?case by simp
qed

lemma pickPeer_cases:
  obtains bp bv np nv where "pick_ok env s i skip (en_order env i) False (sc_perPeer s + 1) bp np"
    and "pick_ok env s i skip (en_order env i) True (sc_provisionalInflight s + 1) bv nv"
    and "pickPeer env s i skip =
      (if np < sc_perPeer s then bp else if nv \<le> sc_provisionalInflight s then bv else None)"
  by (rule that [OF conjunct1 [OF pickFold_ok] conjunct2 [OF pickFold_ok]]) (simp add: pickPeer_def Let_def)

lemma pick_ok_Some:
  "pick_ok env s i skip xs prov lim (Some p) n \<Longrightarrow>
     p \<in> set xs \<and> eligible env s i skip p prov n \<and> n < lim \<and>
     (\<forall>q m. q \<in> set xs \<and> eligible env s i skip q prov m \<longrightarrow> n \<le> m)"
  by (fastforce simp: pick_ok_def)

lemma pick_ok_least:
  "pick_ok env s i skip xs prov lim best n \<Longrightarrow> q \<in> set xs \<Longrightarrow> eligible env s i skip q prov m \<Longrightarrow> n \<le> m \<or> lim \<le> m"
  unfolding pick_ok_def by blast

lemma pickPeer_Some:
  assumes "pickPeer env s i skip = Some p"
  shows "p \<in> set (en_order env i) \<and>
    ((\<exists>n < sc_perPeer s. eligible env s i skip p False n \<and>
        (\<forall>q m. q \<in> set (en_order env i) \<and> eligible env s i skip q False m \<longrightarrow> n \<le> m)) \<or>
     (\<exists>n \<le> sc_provisionalInflight s. eligible env s i skip p True n \<and>
        (\<forall>q m. q \<in> set (en_order env i) \<and> eligible env s i skip q True m \<longrightarrow> n \<le> m) \<and>
        (\<forall>q m. q \<in> set (en_order env i) \<and> eligible env s i skip q False m \<longrightarrow> sc_perPeer s \<le> m)))"
proof (rule pickPeer_cases [of env s i skip])
  fix bp bv np nv
  assume p: "pick_ok env s i skip (en_order env i) False (sc_perPeer s + 1) bp np"
    and v: "pick_ok env s i skip (en_order env i) True (sc_provisionalInflight s + 1) bv nv"
    and eq: "pickPeer env s i skip =
      (if np < sc_perPeer s then bp else if nv \<le> sc_provisionalInflight s then bv else None)"
  show ?thesis
  proof (cases "np < sc_perPeer s")
    case True
    with eq assms have "bp = Some p" by simp
    with True pick_ok_Some p show ?thesis by blast
  next
    case False
    with eq assms have b: "bv = Some p" and "nv \<le> sc_provisionalInflight s" by (auto split: if_splits)
    moreover have "sc_perPeer s \<le> m" if "q \<in> set (en_order env i)" "eligible env s i skip q False m" for q m
    proof -
      have "np \<le> m \<or> sc_perPeer s + 1 \<le> m" using p that unfolding pick_ok_def by blast
      with False show ?thesis by linarith
    qed
    ultimately show ?thesis using pick_ok_Some [OF v [unfolded b]] by blast
  qed
qed

lemma pickPeer_None:
  assumes "pickPeer env s i skip = None" and "q \<in> set (en_order env i)" and "eligible env s i skip q prov m"
  shows "(if prov then sc_provisionalInflight s + 1 else sc_perPeer s) \<le> m"
proof (rule pickPeer_cases [of env s i skip])
  fix bp bv np nv
  assume p: "pick_ok env s i skip (en_order env i) False (sc_perPeer s + 1) bp np"
    and v: "pick_ok env s i skip (en_order env i) True (sc_provisionalInflight s + 1) bv nv"
    and eq: "pickPeer env s i skip =
      (if np < sc_perPeer s then bp else if nv \<le> sc_provisionalInflight s then bv else None)"
  have "\<not> np < sc_perPeer s" using p eq assms(1) by (auto simp: pick_ok_def)
  moreover have "\<not> nv \<le> sc_provisionalInflight s" using v eq assms(1) calculation by (auto simp: pick_ok_def)
  moreover have "np \<le> m \<or> sc_perPeer s + 1 \<le> m" if "\<not> prov"
    using pick_ok_least [OF p assms(2)] assms(3) that by simp
  moreover have "nv \<le> m \<or> sc_provisionalInflight s + 1 \<le> m" if prov
    using pick_ok_least [OF v assms(2)] assms(3) that by simp
  ultimately show ?thesis by (cases prov) auto
qed

section \<open>What the small updates leave alone\<close>

text \<open>The part of the state only the verification of a chunk may change.\<close>

definition sc_core :: "'e chunkScheduler \<Rightarrow> _" where
  "sc_core s = ((sc_chunks s, sc_chunkHashes s, sc_completed s, sc_doneCount s, sc_dir s, sc_bytesTotal s),
     (sc_perPeer s, sc_provisionalInflight s, sc_height s, sc_format s, length (sc_pending s), sc_diskFails s))"

lemma sc_core_simps [simp, frame_simps]:
  "sc_core (emit a s) = sc_core s" "sc_core (setStat p st s) = sc_core s" "sc_core (setPending i b s) = sc_core s"
  "sc_core (dropInflight i s) = sc_core s" "sc_core (s\<lparr>sc_inflight := f\<rparr>) = sc_core s"
  "sc_core (s\<lparr>sc_hadEvent := h\<rparr>) = sc_core s" "sc_core (s\<lparr>sc_stats := m\<rparr>) = sc_core s"
  by (simp_all add: sc_core_def emit_def setStat_def setPending_def dropInflight_def)

text \<open>A chunk is covered when it is pending or asked for.\<close>

definition covered :: "'e chunkScheduler \<Rightarrow> nat \<Rightarrow> bool" where
  "covered s i \<longleftrightarrow> sc_pending s ! i \<or> sc_inflight s i \<noteq> None"

definition sane :: "'e chunkScheduler \<Rightarrow> bool" where
  "sane s \<longleftrightarrow> length (sc_pending s) = sc_chunks s \<and> (\<forall>i. sc_inflight s i \<noteq> None \<longrightarrow> i < sc_chunks s)"

definition stats_ok :: "int \<Rightarrow> 'e chunkScheduler \<Rightarrow> bool" where
  "stats_ok lim s \<longleftrightarrow> (\<forall>p st. sc_stats s p = Some st \<longrightarrow> 0 \<le> ps_inflight st \<and> ps_inflight st \<le> lim)"

lemmas upd_defs = emit_def setStat_def setPending_def dropInflight_def

text \<open>A step between handlers: the core stays, sanity stays, no covered chunk is uncovered.\<close>

definition quiet :: "int \<Rightarrow> 'e chunkScheduler \<Rightarrow> 'e chunkScheduler \<Rightarrow> bool" where
  "quiet lim s s' \<longleftrightarrow>
     sc_core s' = sc_core s \<and> (sane s \<longrightarrow> sane s' \<and> (\<forall>i < sc_chunks s. covered s i \<longrightarrow> covered s' i)) \<and>
     (stats_ok lim s \<longrightarrow> stats_ok lim s')"

lemma quiet_refl [simp]: "quiet lim s s"
  by (simp add: quiet_def)

lemma quiet_trans [trans]: "quiet lim s t \<Longrightarrow> quiet lim t u \<Longrightarrow> quiet lim s u"
  by (auto simp: quiet_def sc_core_def)

lemma quiet_fold: "(\<And>x s. quiet lim s (f x s)) \<Longrightarrow> quiet lim s (fold f xs s)"
  by (induction xs arbitrary: s) (auto intro: quiet_trans)

lemma quiet_emit [simp]: "quiet lim s (emit a s)"
  by (simp add: quiet_def) (auto simp: emit_def sane_def covered_def stats_ok_def)

lemma quiet_setStat: "(stats_ok lim s \<Longrightarrow> 0 \<le> ps_inflight st \<and> ps_inflight st \<le> lim) \<Longrightarrow> quiet lim s (setStat p st s)"
  by (simp add: quiet_def) (auto simp: setStat_def sane_def covered_def stats_ok_def)

lemma nth_update_True: "xs ! j \<Longrightarrow> xs[i := True] ! j"
  by (cases "i = j"; cases "j < length xs") (simp_all add: list_update_beyond)

lemma quiet_retry: "quiet lim s (setPending i True (dropInflight i s))"
  by (simp add: quiet_def)
    (auto simp: upd_defs sane_def covered_def stats_ok_def nth_update_True split: if_splits)

lemma quiet_setPending: "quiet lim s (setPending i True s)"
  by (simp add: quiet_def) (auto simp: upd_defs sane_def covered_def stats_ok_def nth_update_True)

lemma removeInflight_bounds:
  "0 \<le> ps_inflight st \<Longrightarrow> ps_inflight st \<le> lim \<Longrightarrow> 0 \<le> ps_inflight (removeInflight st) \<and> ps_inflight (removeInflight st) \<le> lim"
  by (simp add: removeInflight_def)

lemma quiet_banAndDrop: "quiet lim s (banAndDrop env p r s)"
  unfolding banAndDrop_def Let_def
  by (rule quiet_trans [OF _ quiet_emit])
    (auto intro!: quiet_setStat simp: stats_ok_def split: option.splits)

lemma quiet_addProvisional: "0 \<le> lim \<Longrightarrow> quiet lim s (addProvisional p s)"
  unfolding addProvisional_def
  by (auto intro!: quiet_trans [OF _ quiet_emit] quiet_setStat simp: newPeerStat_def)

lemma quiet_mirrorBans: "quiet lim s (mirrorBans env s)"
  by (auto simp: quiet_def mirrorBans_def sane_def covered_def stats_ok_def)

lemma quiet_expireChunk: "quiet lim s (expireChunk env i s)"
proof (cases "sc_inflight s i")
  case (Some info)
  show ?thesis
  proof (cases "sc_stats s (ie_peer info)")
    case None
    with Some show ?thesis by (auto simp: expireChunk_def intro: quiet_retry)
  next
    case (Some st)
    let ?st = "snd (benchIfProvisional (removeInflight st))"
    have st: "quiet lim s (setStat (ie_peer info) ?st s)"
      using Some removeInflight_bounds [of st lim]
      by (intro quiet_setStat) (auto simp: stats_ok_def benchIfProvisional_def)
    with \<open>sc_inflight s i = Some info\<close> Some show ?thesis
      by (auto simp: expireChunk_def case_prod_beta Let_def
          intro: quiet_trans [OF st quiet_retry] quiet_trans [OF st quiet_trans [OF quiet_banAndDrop quiet_retry]])
  qed
qed (simp add: expireChunk_def)

lemma quiet_releaseChunk: "quiet lim s (releaseChunk p i s)"
  by (auto simp: releaseChunk_def split: option.splits intro: quiet_retry)

lemma quiet_request:
  assumes "sc_stats s p = Some st" and "ps_inflight st + 1 \<le> lim" and "i < sc_chunks s"
  shows "quiet lim s (setStat p (addInflight st) ((setPending i False s)\<lparr>sc_inflight := (sc_inflight s)(i \<mapsto> e)\<rparr>))"
proof -
  have "sc_core (setStat p (addInflight st) ((setPending i False s)\<lparr>sc_inflight := (sc_inflight s)(i \<mapsto> e)\<rparr>)) = sc_core s"
    by simp
  with assms show ?thesis unfolding quiet_def
    by (auto simp: upd_defs sane_def covered_def stats_ok_def addInflight_def nth_list_update split: if_splits)
qed

lemma quiet_dispatchFrom:
  assumes "sc_perPeer s \<le> lim" and "sc_provisionalInflight s + 1 \<le> lim" and "\<forall>i \<in> set is. i < sc_chunks s"
  shows "quiet lim s (dispatchFrom env is skip s)"
  using assms
proof (induction env "is" skip s rule: dispatchFrom.induct)
  case (2 env i "is" skip s)
  show ?case
  proof (cases "sc_pending s ! i")
    case False
    with "2.IH"(1) "2.prems" show ?thesis by simp
  next
    case pend: True
    show ?thesis
    proof (cases "pickPeer env s i skip")
      case None
      with pend show ?thesis by simp
    next
      case (Some p)
      from pickPeer_Some [OF Some] obtain st where st: "sc_stats s p = Some st" "connected env p"
        "ps_inflight st < sc_perPeer s \<or> ps_inflight st \<le> sc_provisionalInflight s"
        by (auto simp: eligible_def)
      show ?thesis
      proof (cases "en_accepts env p i")
        case False
        with "2.IH"(3) [OF _ Some] "2.prems" pend Some st show ?thesis by simp
      next
        case True
        let ?e = "\<lparr>ie_peer = p, ie_sent = en_now env\<rparr>"
        let ?s1 = "(setPending i False s)\<lparr>sc_inflight := (sc_inflight (setPending i False s))(i \<mapsto> ?e)\<rparr>"
        let ?s2 = "setStat p (addInflight st) ?s1"
        have "quiet lim s ?s2"
          using quiet_request [OF st(1), of lim i ?e] st(3) "2.prems" by (auto simp: setPending_def)
        then have q: "quiet lim s (emit [RequestChunk p i] ?s2)" by (rule quiet_trans) simp
        have st1: "sc_stats ?s1 p = Some st" using st(1) by (simp add: setPending_def)
        have "sc_core (emit [RequestChunk p i] ?s2) = sc_core s" using q by (simp add: quiet_def)
        then have c: "sc_perPeer (emit [RequestChunk p i] ?s2) = sc_perPeer s"
          "sc_provisionalInflight (emit [RequestChunk p i] ?s2) = sc_provisionalInflight s"
          "sc_chunks (emit [RequestChunk p i] ?s2) = sc_chunks s" by (simp_all add: sc_core_def)
        have eq: "dispatchFrom env (i # is) skip s = dispatchFrom env is skip (emit [RequestChunk p i] ?s2)"
          using pend Some st(2) True st1 by (simp add: Let_def)
        have "quiet lim (emit [RequestChunk p i] ?s2) (dispatchFrom env is skip (emit [RequestChunk p i] ?s2))"
          using "2.IH"(4) [OF _ Some _ _ refl refl] pend st(2) True st1 c "2.prems" by simp
        with q show ?thesis unfolding eq by (rule quiet_trans)
      qed
    qed
  qed
qed simp

lemma quiet_dispatch:
  "sc_perPeer s \<le> lim \<Longrightarrow> sc_provisionalInflight s + 1 \<le> lim \<Longrightarrow> quiet lim s (dispatch env s)"
  unfolding dispatch_def by (rule quiet_dispatchFrom) auto

section \<open>The invariant\<close>

text \<open>The index a file name stands for, as \<open>resumeFromDisk\<close> reads names.\<close>

definition chunkIndex :: "bytes \<Rightarrow> nat option" where
  "chunkIndex name =
     (if HasPrefix name (go_string ''chunk_'') \<and> HasSuffix name (go_string ''.bin'')
      then ParseUint 32 (TrimSuffix (TrimPrefix name (go_string ''chunk_'')) (go_string ''.bin'')) else None)"

lemma HasSuffix_chunkFile: "HasSuffix (a @ b @ go_string ''.bin'') (go_string ''.bin'')"
  using HasSuffix_append [of "a @ b" "go_string ''.bin''"] by simp

lemma chunkIndex_chunkFile [simp]: "i < 2 ^ 32 \<Longrightarrow> chunkIndex (chunkFile i) = Some i"
  by (simp add: chunkIndex_def chunkFile_def HasSuffix_chunkFile ParseUint_fmt_05d)

definition verified :: "'e chunkScheduler \<Rightarrow> nat \<Rightarrow> bool" where
  "verified s i \<longleftrightarrow>
     (\<exists>name b. chunkIndex name = Some i \<and> sc_dir s name = Some b \<and> sha256 b = sc_chunkHashes s ! i)"

definition sched_limit :: "'e chunkScheduler \<Rightarrow> int" where
  "sched_limit s = max 0 (max (sc_perPeer s) (sc_provisionalInflight s + 1))"

definition sched_inv :: "'e chunkScheduler \<Rightarrow> bool" where
  "sched_inv s \<longleftrightarrow>
     sane s \<and> stats_ok (sched_limit s) s \<and> sc_chunks s < 2 ^ 32 \<and>
     length (sc_completed s) = sc_chunks s \<and> length (sc_chunkHashes s) = sc_chunks s \<and>
     sc_doneCount s = length (filter id (sc_completed s)) \<and>
     (\<forall>i < sc_chunks s. sc_completed s ! i \<or> covered s i) \<and>
     (\<forall>i < sc_chunks s. sc_completed s ! i \<longrightarrow> verified s i)"

lemma sched_inv_quiet:
  assumes "sched_inv s" and "quiet (sched_limit s) s s'"
  shows "sched_inv s'"
proof -
  have core: "sc_core s' = sc_core s" using assms(2) by (simp add: quiet_def)
  then have eq: "sc_chunks s' = sc_chunks s" "sc_chunkHashes s' = sc_chunkHashes s" "sc_completed s' = sc_completed s"
    "sc_doneCount s' = sc_doneCount s" "sc_dir s' = sc_dir s" "sched_limit s' = sched_limit s"
    by (simp_all add: sc_core_def sched_limit_def)
  then have "verified s' = verified s" by (simp add: verified_def fun_eq_iff)
  with assms eq show ?thesis by (auto simp: sched_inv_def quiet_def)
qed

lemma quiet_dispatch_limit [simp]: "quiet (sched_limit s) s (dispatch env s)"
  by (rule quiet_dispatch) (simp_all add: sched_limit_def)

lemma dispatch_inv: "sched_inv s \<Longrightarrow> sched_inv (dispatch env s)"
  using sched_inv_quiet [OF _ quiet_dispatch_limit] .

lemma onTimeoutTick_inv: "sched_inv s \<Longrightarrow> sched_inv (onTimeoutTick env s)"
  unfolding onTimeoutTick_def
  by (intro dispatch_inv)
    (auto intro!: sched_inv_quiet [OF _ quiet_fold] sched_inv_quiet [OF _ quiet_mirrorBans]
      quiet_addProvisional quiet_expireChunk simp: sched_limit_def)

lemma onConnect_inv: "sched_inv s \<Longrightarrow> sched_inv (onConnect env p s)"
  unfolding onConnect_def
  by (intro dispatch_inv) (auto intro!: sched_inv_quiet [OF _ quiet_addProvisional] simp: sched_limit_def)

lemma onRemoved_inv:
  assumes "sched_inv s"
  shows "sched_inv (onRemoved env p s)"
proof -
  let ?s = "fold (releaseChunk p) [0..<sc_chunks s] s"
  have "sched_inv ?s" using assms by (rule sched_inv_quiet) (intro quiet_fold quiet_releaseChunk)
  moreover have "quiet (sched_limit ?s) ?s (setStat p (clearInflight st) ?s)" for st
    by (rule quiet_setStat) (simp add: clearInflight_def sched_limit_def)
  ultimately show ?thesis
    by (auto simp: onRemoved_def Let_def intro!: dispatch_inv split: option.split intro: sched_inv_quiet)
qed

lemma complete_inv:
  assumes inv: "sched_inv s" and "i < sc_chunks s" and "\<not> sc_completed s ! i"
    and "chunkIndex name = Some i" and "d name = Some b" and "sha256 b = sc_chunkHashes s ! i"
    and keep: "\<And>n. chunkIndex n \<noteq> Some i \<Longrightarrow> d n = sc_dir s n"
  shows "sched_inv (s\<lparr>sc_dir := d, sc_completed := (sc_completed s)[i := True], sc_doneCount := sc_doneCount s + 1,
    sc_bytesTotal := t\<rparr>)" (is "sched_inv ?t")
proof -
  have i: "i < length (sc_completed s)" using assms(2) inv by (simp add: sched_inv_def)
  have "verified ?t j" if "j < sc_chunks s" "sc_completed ?t ! j" for j
  proof (cases "j = i")
    case True
    then show ?thesis using assms(4-6) by (auto simp: verified_def)
  next
    case False
    then have "verified s j" using that inv by (simp add: sched_inv_def)
    then obtain n b' where "chunkIndex n = Some j" "sc_dir s n = Some b'" "sha256 b' = sc_chunkHashes s ! j"
      by (auto simp: verified_def)
    with keep [of n] False show ?thesis by (auto simp: verified_def)
  qed
  moreover have "length (filter id (sc_completed ?t)) = sc_doneCount ?t"
    using inv i assms(3) count_True_update by (simp add: sched_inv_def)
  moreover have "sc_completed ?t ! j \<or> covered ?t j" if "j < sc_chunks s" for j
    using inv that by (auto simp: sched_inv_def covered_def intro: nth_update_True)
  ultimately show ?thesis using inv by (simp add: sched_inv_def sane_def stats_ok_def sched_limit_def)
qed

lemma setPending_commute:
  "setPending i b (setStat p st s) = setStat p st (setPending i b s)"
  "setPending i b (emit a s) = emit a (setPending i b s)"
  by (simp_all add: upd_defs)

lemma setPending_stats [simp]: "sc_stats (setPending i b s) = sc_stats s"
  by (simp add: setPending_def)

lemma setPending_banAndDrop: "setPending i b (banAndDrop env p r s) = banAndDrop env p r (setPending i b s)"
  by (auto simp: banAndDrop_def Let_def setPending_commute split: option.split)

text \<open>A completed chunk needs no cover.\<close>

lemma sched_inv_unpend:
  assumes "sched_inv (setPending i True s)" and "sc_completed s ! i"
  shows "sched_inv s"
proof -
  have c: "sc_completed s ! j \<or> covered s j" if "j < sc_chunks s" for j
    using assms that by (cases "j = i") (auto simp: sched_inv_def covered_def setPending_def)
  have v: "verified (setPending i True s) = verified s" by (simp add: verified_def setPending_def fun_eq_iff)
  show ?thesis using assms(1) c unfolding sched_inv_def v
    by (simp add: sane_def stats_ok_def setPending_def sched_limit_def)
qed

lemma storeChunk_inv:
  assumes "sched_inv (setPending i True s)" and "i < sc_chunks s" and "\<not> sc_completed s ! i"
    and "sha256 b = sc_chunkHashes s ! i" and "sc_stats s p = Some st"
  shows "sched_inv (storeChunk env p st i b s)"
proof -
  define st' where "st' = (snd (promote st))\<lparr>ps_chunks := ps_chunks (snd (promote st)) + 1, ps_failures := 0\<rparr>"
  define s' where "s' = (if connected env p then emit [RecordServed p] (setStat p st' s) else setStat p st' s)"
  have "quiet (sched_limit (setPending i True s)) (setPending i True s) (setStat p st' (setPending i True s))"
    using assms(5) by (intro quiet_setStat) (auto simp: stats_ok_def promote_def st'_def setPending_def)
  then have "quiet (sched_limit (setPending i True s)) (setPending i True s) (setPending i True s')"
    using quiet_trans [OF _ quiet_emit] by (auto simp: s'_def setPending_commute)
  note inv = sched_inv_quiet [OF assms(1) this]
  have core: "sc_core s' = sc_core s" by (simp add: s'_def)
  show ?thesis
  proof (cases "en_writeErr env")
    case (Some e)
    let ?t = "s'\<lparr>sc_firstDiskErr := (if sc_firstDiskErr s' = None then Some e else sc_firstDiskErr s'),
      sc_diskFails := sc_diskFails s' + 1\<rparr>"
    have "sched_inv (setPending i True ?t)" using inv
      by (simp add: sched_inv_def sane_def stats_ok_def covered_def verified_def sched_limit_def setPending_def)
    then show ?thesis
      using Some unfolding storeChunk_def Let_def s'_def [symmetric] st'_def [symmetric] by (simp add: dispatch_inv)
  next
    case None
    let ?s = "setPending i True s'"
    let ?t = "s'\<lparr>sc_dir := (sc_dir s')(chunkFile i \<mapsto> b), sc_completed := (sc_completed s')[i := True],
      sc_doneCount := sc_doneCount s' + 1, sc_bytesTotal := sc_bytesTotal s' + of_nat (length b)\<rparr>"
    have "i < sc_chunks ?s" "\<not> sc_completed ?s ! i" "sha256 b = sc_chunkHashes ?s ! i" "i < 2 ^ 32"
      "i < length (sc_completed s')"
      using assms(2-4) core inv by (auto simp: sc_core_def sched_inv_def setPending_def)
    note i = this
    have "setPending i True ?t = ?s\<lparr>sc_dir := (sc_dir s')(chunkFile i \<mapsto> b), sc_completed := (sc_completed ?s)[i := True],
      sc_doneCount := sc_doneCount ?s + 1, sc_bytesTotal := sc_bytesTotal s' + of_nat (length b)\<rparr>"
      by (simp add: setPending_def)
    also have "sched_inv \<dots>" using i by (intro complete_inv [OF inv, of i "chunkFile i" _ b]) (auto simp: setPending_def)
    finally have "sched_inv ?t" by (rule sched_inv_unpend) (use i in simp)
    then have "sched_inv (emit [ChunkReady i] ?t)" by (rule sched_inv_quiet) simp
    then show ?thesis
      using None unfolding storeChunk_def Let_def s'_def [symmetric] st'_def [symmetric] by (simp add: dispatch_inv)
  qed
qed

lemma onChunk_inv:
  assumes "sched_inv s" and "onChunk env p c s = Ok s'"
  shows "sched_inv s'"
proof (cases "ci_Height c \<noteq> sc_height s \<or> ci_Format c \<noteq> sc_format s")
  case True
  with assms show ?thesis by (simp add: onChunk_def)
next
  case False
  let ?i = "unat (ci_Index c)"
  define s1 where "s1 = s\<lparr>sc_hadEvent := True\<rparr>"
  define st where "st = removeInflight (case sc_stats s1 p of Some st \<Rightarrow> st | None \<Rightarrow> newPeerStat)"
  define s2 where "s2 = (case sc_inflight s1 ?i of
      Some info \<Rightarrow> if ie_peer info = p then dropInflight ?i s1 else s1 | None \<Rightarrow> s1)"
  define s3 where "s3 = setStat p st s2"
  have inv1: "sched_inv s1" using assms(1)
    by (simp add: s1_def sched_inv_def sane_def stats_ok_def covered_def verified_def sched_limit_def)
  have st: "stats_ok (sched_limit s) s \<Longrightarrow> 0 \<le> ps_inflight st \<and> ps_inflight st \<le> sched_limit s"
    using removeInflight_bounds [of _ "sched_limit s"]
    by (auto simp: st_def s1_def stats_ok_def newPeerStat_def sched_limit_def removeInflight_def split: option.splits)
  have core: "sc_core s3 = sc_core s" by (simp add: s3_def s2_def s1_def split: option.splits)
  then have f: "sc_chunks s3 = sc_chunks s" "sc_completed s3 = sc_completed s" "sc_chunkHashes s3 = sc_chunkHashes s"
    "sched_limit s3 = sched_limit s" "sc_doneCount s3 = sc_doneCount s" "verified s3 = verified s"
    by (auto simp: sc_core_def sched_limit_def verified_def)
  have p3: "sc_pending s3 = sc_pending s" "\<And>j. j \<noteq> ?i \<Longrightarrow> sc_inflight s3 j = sc_inflight s j"
    "sc_inflight s3 ?i = None \<or> sc_inflight s3 ?i = sc_inflight s ?i" "sc_stats s3 = (sc_stats s)(p \<mapsto> st)"
    by (auto simp: s3_def s2_def s1_def upd_defs split: option.splits)
  text \<open>Only the chunk at hand may have lost its cover.\<close>
  have inv3: "sched_inv (setPending ?i True s3)"
  proof -
    have "sane (setPending ?i True s3)"
      using assms(1) p3 f(1) by (auto simp: sched_inv_def sane_def setPending_def) (metis option.distinct(1))+
    moreover have "stats_ok (sched_limit s) (setPending ?i True s3)"
      using assms(1) st p3(4) by (auto simp: sched_inv_def stats_ok_def setPending_def)
    moreover have "sc_completed s ! j \<or> covered (setPending ?i True s3) j" if "j < sc_chunks s" for j
      using assms(1) that p3(1,2) by (cases "j = ?i") (auto simp: sched_inv_def sane_def covered_def setPending_def)
    moreover have "verified (setPending ?i True s3) = verified s" using f by (simp add: verified_def setPending_def fun_eq_iff)
    moreover have "sched_limit (setPending ?i True s3) = sched_limit s" using f by (simp add: sched_limit_def setPending_def)
    ultimately show ?thesis using assms(1) f by (simp add: sched_inv_def) (simp add: setPending_def)
  qed
  have s3st: "sc_stats s3 p = Some st" using p3(4) by simp
  have other: "sched_inv (setPending ?i True (setStat p x s3))" if "ps_inflight x = ps_inflight st" for x
  proof -
    have "quiet (sched_limit (setPending ?i True s3)) (setPending ?i True s3) (setStat p x (setPending ?i True s3))"
      using that s3st by (intro quiet_setStat) (auto simp: stats_ok_def setPending_def)
    from sched_inv_quiet [OF inv3 this] show ?thesis by (simp add: setPending_commute)
  qed
  have rec: "ps_inflight (snd (recordFailure st l)) = ps_inflight st" for l
    by (simp add: recordFailure_def Let_def)
  have ban: "sched_inv (setPending ?i True (banAndDrop env p r t))" if "sched_inv (setPending ?i True t)" for r t
    using sched_inv_quiet [OF that quiet_banAndDrop] by (simp add: setPending_banAndDrop)
  have len: "length (sc_completed s3) = sc_chunks s" "length (sc_chunkHashes s3) = sc_chunks s"
    using assms(1) f by (simp_all add: sched_inv_def)
  from assms(2) False show ?thesis
    unfolding onChunk_def Let_def s1_def [symmetric] st_def [symmetric] s2_def [symmetric] s3_def [symmetric]
    using len f sched_inv_unpend [OF inv3] storeChunk_inv [OF inv3 _ _ _ s3st] other [of "st\<lparr>ps_declined := ?i # ps_declined st\<rparr>"]
      other [OF rec] ban
    by (auto simp: case_prod_beta intro!: dispatch_inv split: if_splits)
qed

section \<open>Starting and running\<close>

lemma sched_inv_setPending:
  assumes "sched_inv s" and "sc_completed s ! i"
  shows "sched_inv (setPending i False s)"
proof -
  have c: "sc_completed s ! j \<or> covered (setPending i False s) j" if "j < sc_chunks s" for j
    using assms that by (cases "j = i") (auto simp: sched_inv_def covered_def setPending_def)
  have v: "verified (setPending i False s) = verified s" by (simp add: verified_def setPending_def fun_eq_iff)
  show ?thesis using assms(1) c unfolding sched_inv_def v
    by (simp add: sane_def stats_ok_def setPending_def sched_limit_def)
qed

lemma removeEntry_inv:
  assumes "sched_inv s" and "\<And>i. chunkIndex (de_name e) = Some i \<Longrightarrow> i < sc_chunks s \<Longrightarrow> \<not> sc_completed s ! i"
  shows "sched_inv (removeEntry e s)"
proof (cases "de_remove e")
  case True
  have "verified (removeEntry e s) i" if "i < sc_chunks s" "sc_completed s ! i" for i
  proof -
    have "verified s i" using assms(1) that by (simp add: sched_inv_def)
    then obtain n b where n: "chunkIndex n = Some i" "sc_dir s n = Some b" "sha256 b = sc_chunkHashes s ! i"
      by (auto simp: verified_def)
    moreover have "n \<noteq> de_name e" using n(1) assms(2) that by blast
    ultimately show ?thesis using True by (auto simp: verified_def removeEntry_def)
  qed
  with assms(1) True show ?thesis
    by (simp add: sched_inv_def removeEntry_def sane_def stats_ok_def covered_def sched_limit_def)
qed (use assms in \<open>simp add: removeEntry_def\<close>)

lemma HasSuffix_tmp: "HasSuffix n (go_string ''.tmp'') \<Longrightarrow> \<not> HasSuffix n (go_string ''.bin'')"
  by (auto simp: HasSuffix_def go_string_def)

lemma HasSuffix_bin_tmp: "HasSuffix n (go_string ''.bin.tmp'') \<Longrightarrow> HasSuffix n (go_string ''.tmp'')"
proof -
  have "go_string ''.bin.tmp'' = go_string ''.bin'' @ go_string ''.tmp''" by (simp add: go_string_def)
  then show "HasSuffix n (go_string ''.bin.tmp'') \<Longrightarrow> HasSuffix n (go_string ''.tmp'')"
    by (auto simp: HasSuffix_iff)
qed

lemma resumeEntry_inv:
  assumes "sched_inv s"
  shows "sched_inv (resumeEntry e s)"
proof -
  let ?n = "de_name e"
  have tmp: "chunkIndex ?n = None" if "HasSuffix ?n (go_string ''.tmp'')"
    using that HasSuffix_tmp by (simp add: chunkIndex_def)
  have complete: "sched_inv (emit [ChunkReady i] (s\<lparr>sc_completed := (sc_completed s)[i := True],
      sc_pending := (sc_pending s)[i := False], sc_bytesTotal := t, sc_doneCount := sc_doneCount s + 1\<rparr>))"
    if "chunkIndex ?n = Some i" "i < sc_chunks s" "\<not> sc_completed s ! i" "sc_dir s ?n = Some b" "sha256 b = sc_chunkHashes s ! i"
    for i b t
  proof -
    let ?t = "s\<lparr>sc_dir := sc_dir s, sc_completed := (sc_completed s)[i := True], sc_doneCount := sc_doneCount s + 1,
      sc_bytesTotal := t\<rparr>"
    have "sched_inv ?t" using that by (intro complete_inv [OF assms, of i ?n _ b]) auto
    moreover have "sc_completed ?t ! i" using that(2) assms by (simp add: sched_inv_def)
    ultimately have "sched_inv (setPending i False ?t)" by (rule sched_inv_setPending)
    then have "sched_inv (emit [ChunkReady i] (setPending i False ?t))" by (rule sched_inv_quiet) simp
    also have "setPending i False ?t = s\<lparr>sc_completed := (sc_completed s)[i := True],
        sc_pending := (sc_pending s)[i := False], sc_bytesTotal := t, sc_doneCount := sc_doneCount s + 1\<rparr>"
      by (simp add: setPending_def)
    finally show ?thesis .
  qed
  show ?thesis
    using assms removeEntry_inv [OF assms, of e] tmp HasSuffix_bin_tmp complete
    unfolding resumeEntry_def Let_def
    by (auto simp: chunkIndex_def split: option.split if_split_asm)
qed

lemma newScheduler_inv:
  "n = length hashes \<Longrightarrow> n < 2 ^ 32 \<Longrightarrow> sched_inv (newScheduler h f n hashes pp t fl ps pi md dir)"
  by (simp add: sched_inv_def newScheduler_def sane_def stats_ok_def covered_def)

lemma initScheduler_inv:
  assumes "sched_inv s"
  shows "sched_inv (initScheduler env good entries s)"
proof -
  have "quiet (sched_limit s) s (seedGood env good s)"
    unfolding seedGood_def
    by (intro quiet_trans [OF _ quiet_emit] quiet_fold quiet_setStat) (simp add: newPeerStat_def sched_limit_def)
  from sched_inv_quiet [OF assms this] have "sched_inv (fold addProvisional (en_peers env) (seedGood env good s))"
    by (rule sched_inv_quiet) (intro quiet_fold quiet_addProvisional, simp add: sched_limit_def)
  moreover have "sched_inv (fold resumeEntry es t)" if "sched_inv t" for es t
    using that by (induction es arbitrary: t) (auto intro: resumeEntry_inv)
  ultimately show ?thesis unfolding initScheduler_def resumeFromDisk_def
    by (intro dispatch_inv) (auto split: option.split)
qed

lemma onEvent_inv: "sched_inv s \<Longrightarrow> onEvent env ev s = Ok s' \<Longrightarrow> sched_inv s'"
  by (cases ev) (auto intro: onTimeoutTick_inv onConnect_inv onRemoved_inv onChunk_inv)

text \<open>The job itself never changes.\<close>

definition sc_job :: "'e chunkScheduler \<Rightarrow> nat \<times> bytes list" where
  "sc_job s = (sc_chunks s, sc_chunkHashes s)"

lemma quiet_job: "quiet lim s s' \<Longrightarrow> sc_job s' = sc_job s"
  by (auto simp: quiet_def sc_core_def sc_job_def)

lemma dispatch_job [simp]: "sc_job (dispatch env s) = sc_job s"
  by (rule quiet_job [OF quiet_dispatch_limit])

lemma sc_job_simps [simp]:
  "sc_job (emit a s) = sc_job s" "sc_job (setStat p st s) = sc_job s" "sc_job (setPending i b s) = sc_job s"
  "sc_job (dropInflight i s) = sc_job s" "sc_job (s\<lparr>sc_hadEvent := h\<rparr>) = sc_job s"
  by (simp_all add: sc_job_def upd_defs)

lemma fold_job [simp]:
  "sc_job (banAndDrop env p r s) = sc_job s"
  "sc_job (fold (releaseChunk p) xs s) = sc_job s"
  "sc_job (fold (expireChunk env) xs s) = sc_job s"
  "sc_job (fold addProvisional ps s) = sc_job s"
  "sc_job (addProvisional p s) = sc_job s"
  "sc_job (mirrorBans env s) = sc_job s"
  by (rule quiet_job [OF quiet_banAndDrop] quiet_job [OF quiet_fold [OF quiet_releaseChunk]]
      quiet_job [OF quiet_fold [OF quiet_expireChunk]] quiet_job [OF quiet_fold [OF quiet_addProvisional [OF order_refl]]]
      quiet_job [OF quiet_addProvisional [OF order_refl]] quiet_job [OF quiet_mirrorBans])+

lemma storeChunk_job [simp]: "sc_job (storeChunk env p st i b s) = sc_job s"
proof -
  have "sc_job (t\<lparr>sc_dir := d, sc_completed := c, sc_doneCount := n, sc_bytesTotal := m\<rparr>) = sc_job t"
    "sc_job (t\<lparr>sc_firstDiskErr := e, sc_diskFails := k\<rparr>) = sc_job t" for t :: "'a chunkScheduler" and d c n m e k
    by (simp_all add: sc_job_def)
  then show ?thesis by (simp add: storeChunk_def Let_def split: option.split)
qed

lemma onEvent_job: "onEvent env ev s = Ok s' \<Longrightarrow> sc_job s' = sc_job s"
proof (cases ev)
  case Tick
  assume "onEvent env ev s = Ok s'"
  with Tick show ?thesis by (auto simp: onTimeoutTick_def)
next
  case (Connected p)
  assume "onEvent env ev s = Ok s'"
  with Connected show ?thesis by (auto simp: onConnect_def)
next
  case (Removed p)
  assume "onEvent env ev s = Ok s'"
  with Removed show ?thesis by (auto simp: onRemoved_def Let_def split: option.splits)
next
  case (Chunk p c)
  assume "onEvent env ev s = Ok s'"
  with Chunk show ?thesis
    by (auto simp: onChunk_def Let_def case_prod_beta split: if_splits option.splits)
qed simp

lemma initScheduler_job: "sc_job (initScheduler env good entries s) = sc_job s"
proof -
  have "sc_job (resumeEntry e t) = sc_job t" for e and t :: "'a chunkScheduler"
    by (auto simp: resumeEntry_def removeEntry_def Let_def split: option.splits) (simp_all add: sc_job_def)
  then have "sc_job (fold resumeEntry es t) = sc_job t" for es and t :: "'a chunkScheduler"
    by (induction es arbitrary: t) auto
  moreover have "sc_job (fold (\<lambda>p. setStat p st) ps t) = sc_job t" for ps st and t :: "'a chunkScheduler"
    by (induction ps arbitrary: t) auto
  ultimately show ?thesis
    by (simp add: initScheduler_def resumeFromDisk_def seedGood_def split: option.split)
qed

lemma runDownload_inv:
  "sched_inv s \<Longrightarrow> sched_inv (snd (runDownload s evs)) \<and> sc_job (snd (runDownload s evs)) = sc_job s \<and>
     (\<forall>t. fst (runDownload s evs) = Some (Ok t) \<longrightarrow>
        sc_chunks (snd (runDownload s evs)) \<le> sc_doneCount (snd (runDownload s evs)))"
proof (induction s evs rule: runDownload.induct)
  case (1 s evs)
  show ?case
  proof (cases "sc_chunks s \<le> sc_doneCount s \<or> (0 < sc_maxDiskFails s \<and> sc_maxDiskFails s \<le> sc_diskFails s) \<or> \<not> somePeerAlive s")
    case True
    with "1.prems" show ?thesis by (auto simp: runDownload.simps [of s])
  next
    case False
    show ?thesis
    proof (cases evs)
      case Nil
      with False "1.prems" show ?thesis by (simp add: runDownload.simps [of s])
    next
      case (Cons x xs)
      obtain env ev where x: "x = (env, ev)" by (cases x)
      show ?thesis
      proof (cases "ev = Cancel \<or> (\<nexists>s'. onEvent env ev s = Ok s')")
        case True
        with False Cons x "1.prems" show ?thesis
          by (cases ev) (auto simp: runDownload.simps [of s] split: outcome.splits)
      next
        case go: False
        then obtain s' where s': "onEvent env ev s = Ok s'" by blast
        have eq: "runDownload s evs = runDownload s' xs"
          using False go Cons x s' by (cases ev) (auto simp: runDownload.simps [of s])
        have inv: "sched_inv s'" and job: "sc_job s' = sc_job s"
          using onEvent_inv [OF "1.prems" s'] onEvent_job [OF s'] by auto
        have ih: "sched_inv (snd (runDownload s' xs)) \<and> sc_job (snd (runDownload s' xs)) = sc_job s' \<and>
          (\<forall>t. fst (runDownload s' xs) = Some (Ok t) \<longrightarrow>
            sc_chunks (snd (runDownload s' xs)) \<le> sc_doneCount (snd (runDownload s' xs)))"
          using "1.IH" False go Cons x s' inv by (cases ev) auto
        then show ?thesis by (simp add: eq job)
      qed
    qed
  qed
qed

section \<open>Examples\<close>

definition ex_env :: "unit env" where
  "ex_env = \<lparr>en_peers = [[1]], en_accepts = (\<lambda>p i. True), en_mgrBanned = (\<lambda>p. False), en_writeErr = None,
     en_now = 0, en_order = (\<lambda>i. [[1]])\<rparr>"

text \<open>One peer, one chunk: the peer is asked, answers, and the download is done.\<close>

abbreviation ex_start :: "unit chunkScheduler" where
  "ex_start \<equiv> initScheduler ex_env [] None (newScheduler 9 1 (length [sha256 [7]]) [sha256 [7]] 2 10 3 1 1 5 Map.empty)"

abbreviation ex_chunk :: ChunkInfo where
  "ex_chunk \<equiv> \<lparr>ci_Height = 9, ci_Format = 1, ci_Index = 0, ci_Missing = False, ci_Bytes = [7]\<rparr>"

lemmas sched_defs = initScheduler_def newScheduler_def seedGood_def resumeFromDisk_def addProvisional_def dispatch_def
  pickPeer_def pickStep_def newPeerStat_def addInflight_def ex_env_def upd_defs Let_def

lemma ex_start_eq: "ex_start =
  \<lparr>sc_height = 9, sc_format = 1, sc_chunks = 1, sc_chunkHashes = [sha256 [7]], sc_perPeer = 2, sc_chunkTimeout = 10,
   sc_peerFailLimit = 3, sc_provisionalStrikes = 1, sc_provisionalInflight = 1, sc_maxDiskFails = 5,
   sc_pending = [False], sc_completed = [False], sc_inflight = [0 \<mapsto> \<lparr>ie_peer = [1], ie_sent = 0\<rparr>],
   sc_stats = [[1] \<mapsto> newPeerStat\<lparr>ps_provisional := True, ps_inflight := 1\<rparr>], sc_bytesTotal = 0, sc_doneCount = 0,
   sc_hadEvent = False, sc_diskFails = 0, sc_firstDiskErr = None, sc_dir = Map.empty, sc_out = [Pin [1], RequestChunk [1] 0]\<rparr>"
  by (simp add: sched_defs)

lemma ex_run: "runDownload ex_start [(ex_env, Chunk [1] ex_chunk)] =
  (Some (Ok 1), the (case onChunk ex_env [1] ex_chunk ex_start of Ok s \<Rightarrow> Some s | _ \<Rightarrow> None))"
  unfolding ex_start_eq
  by (simp add: runDownload.simps somePeerAlive_def onChunk_def storeChunk_def removeInflight_def promote_def sched_defs)

section \<open>Properties\<close>

text \<open>
  C14. A download that returns without error has, for every chunk of the snapshot, a file whose
  name denotes that chunk and whose bytes have the hash the snapshot metadata gives, whatever the
  peers sent, whatever was found on disk at the start, and whichever writes failed on the way.
\<close>

theorem download_complete_verified:
  assumes "length hashes < 2 ^ 32"
    and "runDownload (initScheduler env good entries
      (newScheduler h f (length hashes) hashes perPeer timeout failLimit strikes provInflight maxDisk dir)) evs = (Some (Ok nbytes), s)"
    and "i < length hashes"
  shows "\<exists>name b. chunkIndex name = Some i \<and> sc_dir s name = Some b \<and> sha256 b = hashes ! i"
proof -
  let ?s = "initScheduler env good entries
    (newScheduler h f (length hashes) hashes perPeer timeout failLimit strikes provInflight maxDisk dir)"
  have inv0: "sched_inv ?s" using assms(1) by (intro initScheduler_inv newScheduler_inv) auto
  have job0: "sc_job ?s = (length hashes, hashes)"
    by (simp add: initScheduler_job) (simp add: sc_job_def newScheduler_def)
  from runDownload_inv [OF inv0, of evs] assms(2) job0 have
    inv: "sched_inv s" and job: "sc_job s = (length hashes, hashes)" and fin: "sc_chunks s \<le> sc_doneCount s"
    by auto
  have "length (filter id (sc_completed s)) = length (sc_completed s)"
    using inv fin length_filter_le [of id "sc_completed s"] by (simp add: sched_inv_def)
  then have "sc_completed s ! i" using count_True_all [of "sc_completed s"] inv job assms(3)
    by (simp add: sched_inv_def sc_job_def)
  then have "verified s i" using inv job assms(3) by (simp add: sched_inv_def sc_job_def)
  then show ?thesis using job by (simp add: verified_def sc_job_def)
qed

theorem download_complete_verified_witness:
  "\<exists>name b. chunkIndex name = Some 0 \<and>
     sc_dir (the (case onChunk ex_env [1] ex_chunk ex_start of Ok s \<Rightarrow> Some s | _ \<Rightarrow> None)) name = Some b \<and>
     sha256 b = [sha256 [7]] ! 0"
  by (rule download_complete_verified [OF _ ex_run]) simp_all

text \<open>
  C18. At every point of a run: the counter of finished chunks is exact, every chunk is finished,
  pending or asked for, so none is forgotten, only existing chunks are asked for, and no peer's
  in-flight counter leaves the range from 0 to the larger of \<open>perPeer\<close> and one more than
  \<open>provisionalInflight\<close>.
\<close>

theorem download_keeps_track:
  assumes "length hashes < 2 ^ 32"
    and "runDownload (initScheduler env good entries
      (newScheduler h f (length hashes) hashes perPeer timeout failLimit strikes provInflight maxDisk dir)) evs = (result, s)"
  shows "sc_doneCount s = length (filter id (sc_completed s)) \<and>
    (\<forall>i < length hashes. sc_completed s ! i \<or> sc_pending s ! i \<or> sc_inflight s i \<noteq> None) \<and>
    (\<forall>i. sc_inflight s i \<noteq> None \<longrightarrow> i < length hashes) \<and>
    (\<forall>p st. sc_stats s p = Some st \<longrightarrow>
       0 \<le> ps_inflight st \<and> ps_inflight st \<le> max 0 (max (sc_perPeer s) (sc_provisionalInflight s + 1)))"
proof -
  let ?s = "initScheduler env good entries
    (newScheduler h f (length hashes) hashes perPeer timeout failLimit strikes provInflight maxDisk dir)"
  have inv0: "sched_inv ?s" using assms(1) by (intro initScheduler_inv newScheduler_inv) auto
  have job0: "sc_job ?s = (length hashes, hashes)"
    by (simp add: initScheduler_job) (simp add: sc_job_def newScheduler_def)
  from runDownload_inv [OF inv0, of evs] job0 assms(2) have "sched_inv s" and "sc_chunks s = length hashes"
    by (auto simp: sc_job_def)
  then show ?thesis by (auto simp: sched_inv_def sane_def stats_ok_def covered_def sched_limit_def)
qed

theorem download_keeps_track_witness:
  "sc_doneCount (snd (runDownload ex_start [])) = length (filter id (sc_completed (snd (runDownload ex_start []))))"
  using download_keeps_track [of "[sha256 [7]]" ex_env "[]" None 9 1 2 10 3 1 1 5 Map.empty "[]"
    "fst (runDownload ex_start [])" "snd (runDownload ex_start [])"] by simp

text \<open>
  C19. \<open>pickPeer\<close> returns a connected, not banned peer that has not declined the chunk: a proven
  one with the least load below \<open>perPeer\<close> if there is one, else a provisional one with the least
  load within its probe budget; it returns none only when no such peer is met.
\<close>

theorem pickPeer_spec:
  "(case pickPeer env s i skip of
      Some p \<Rightarrow> p \<in> set (en_order env i) \<and>
        ((\<exists>n < sc_perPeer s. eligible env s i skip p False n \<and>
            (\<forall>q m. q \<in> set (en_order env i) \<and> eligible env s i skip q False m \<longrightarrow> n \<le> m)) \<or>
         (\<exists>n \<le> sc_provisionalInflight s. eligible env s i skip p True n \<and>
            (\<forall>q m. q \<in> set (en_order env i) \<and> eligible env s i skip q True m \<longrightarrow> n \<le> m) \<and>
            (\<forall>q m. q \<in> set (en_order env i) \<and> eligible env s i skip q False m \<longrightarrow> sc_perPeer s \<le> m)))
    | None \<Rightarrow> \<forall>q prov m. q \<in> set (en_order env i) \<and> eligible env s i skip q prov m \<longrightarrow>
        (if prov then sc_provisionalInflight s < m else sc_perPeer s \<le> m))"
proof (cases "pickPeer env s i skip")
  case None
  have "if prov then sc_provisionalInflight s < m else sc_perPeer s \<le> m"
    if "q \<in> set (en_order env i)" "eligible env s i skip q prov m" for q prov m
    using pickPeer_None [OF None that] by (cases prov) auto
  then show ?thesis unfolding None option.case by blast
next
  case (Some p)
  with pickPeer_Some [OF Some] show ?thesis by simp
qed

theorem pickPeer_spec_witness:
  "pickPeer ex_env ex_start 0 [] = Some [1] \<and> eligible ex_env ex_start 0 [] [1] True 1"
proof -
  have p: "pickPeer ex_env ex_start 0 [] = Some [1]" unfolding ex_start_eq by (simp add: sched_defs)
  have "\<not> eligible ex_env ex_start 0 [] [1] False n" for n
    unfolding ex_start_eq by (simp add: eligible_def newPeerStat_def)
  with pickPeer_spec [where env = ex_env and s = ex_start and i = 0 and skip = "[]"] p obtain n where e: "eligible ex_env ex_start 0 [] [1] True n" by auto
  then have "n = 1" unfolding ex_start_eq by (simp add: eligible_def newPeerStat_def)
  with p e show ?thesis by simp
qed

text \<open>The scan of \<open>dispatch\<close> passes over chunks that are not pending and reaches each chunk once.\<close>

lemma dispatch_first_pending:
  assumes "k < sc_chunks s" and "\<forall>j < k. \<not> sc_pending s ! j"
  shows "dispatch env s = dispatchFrom env (k # [Suc k..<sc_chunks s]) [] s"
proof -
  have skip: "dispatchFrom env (js @ is) sk s = dispatchFrom env is sk s" if "\<forall>j \<in> set js. \<not> sc_pending s ! j" for js "is" sk
    using that by (induction js) auto
  have "[0..<sc_chunks s] = [0..<k] @ k # [Suc k..<sc_chunks s]"
    using assms(1) by (metis le_add1 less_imp_add_positive upt_add_eq_append upt_conv_Cons add.left_neutral zero_le)
  then show ?thesis unfolding dispatch_def using skip [of "[0..<k]"] assms(2) by simp
qed

lemma dispatchFrom_other:
  assumes "k \<notin> set is"
  shows "sc_inflight (dispatchFrom env is skip s) k = sc_inflight s k \<and>
    sc_pending (dispatchFrom env is skip s) ! k = sc_pending s ! k"
  using assms
proof (induction env "is" skip s rule: dispatchFrom.induct)
  case (2 env i "is" skip s)
  then show ?case by (auto simp: Let_def upd_defs split: option.splits)
qed simp

lemma free_slot_picked:
  assumes "p \<in> set (en_order env k)" and "eligible env s k skip p prov n"
    and "if prov then n \<le> sc_provisionalInflight s else n < sc_perPeer s"
  shows "pickPeer env s k skip \<noteq> None"
proof
  assume "pickPeer env s k skip = None"
  from pickPeer_None [OF this assms(1,2)] assms(3) show False by (cases prov) auto
qed

text \<open>
  C20. What \<open>dispatch\<close> does with the first pending chunk.  One peer is picked for it, and one is
  whenever some peer has a free slot for it.  If the send queue of the picked peer takes the
  request, the chunk is in flight at that peer, stamped with the current time, and no longer
  pending.  If it does not, the chunk stays pending and no request for it goes out in this call,
  even where another peer would have taken it.  If no peer is picked, nothing is requested at all.
\<close>

theorem dispatch_serves_first_pending:
  assumes "k < sc_chunks s" and "k < length (sc_pending s)" and "sc_pending s ! k" and "\<forall>j < k. \<not> sc_pending s ! j"
  shows "(\<forall>p prov n. p \<in> set (en_order env k) \<and> eligible env s k [] p prov n \<and>
       (if prov then n \<le> sc_provisionalInflight s else n < sc_perPeer s) \<longrightarrow> pickPeer env s k [] \<noteq> None) \<and>
    (case pickPeer env s k [] of
       None \<Rightarrow> dispatch env s = s
     | Some q \<Rightarrow> connected env q \<and>
         (if en_accepts env q k
          then sc_inflight (dispatch env s) k = Some \<lparr>ie_peer = q, ie_sent = en_now env\<rparr> \<and> \<not> sc_pending (dispatch env s) ! k
          else sc_inflight (dispatch env s) k = sc_inflight s k \<and> sc_pending (dispatch env s) ! k))"
proof -
  have slot: "\<forall>p prov n. p \<in> set (en_order env k) \<and> eligible env s k [] p prov n \<and>
       (if prov then n \<le> sc_provisionalInflight s else n < sc_perPeer s) \<longrightarrow> pickPeer env s k [] \<noteq> None"
    using free_slot_picked by blast
  note d = dispatch_first_pending [OF assms(1,4), of env]
  show ?thesis
  proof (cases "pickPeer env s k []")
    case None
    with d assms(3) slot show ?thesis by simp
  next
    case (Some q)
    have "connected env q" using pickPeer_Some [OF Some] by (auto simp: eligible_def)
    moreover have "k \<notin> set [Suc k..<sc_chunks s]" by simp
    ultimately show ?thesis
      using Some d assms(2,3) dispatchFrom_other [of k "[Suc k..<sc_chunks s]" env] slot
      by (auto simp: Let_def upd_defs split: option.splits)
  qed
qed

text \<open>The same chunk with a peer that takes the request and with one whose send queue is full.\<close>

theorem dispatch_serves_first_pending_witness:
  "sc_inflight (dispatch ex_env (setPending 0 True ex_start)) 0 = Some \<lparr>ie_peer = [1], ie_sent = en_now ex_env\<rparr> \<and>
   sc_pending (dispatch (ex_env\<lparr>en_accepts := \<lambda>_ _. False\<rparr>) (setPending 0 True ex_start)) ! 0"
proof -
  let ?s = "setPending 0 True ex_start" and ?env = "ex_env\<lparr>en_accepts := \<lambda>_ _. False\<rparr>"
  have s: "0 < sc_chunks ?s" "0 < length (sc_pending ?s)" "sc_pending ?s ! 0"
    unfolding ex_start_eq by (simp_all add: setPending_def)
  have p: "pickPeer ex_env ?s 0 [] = Some [1]" "pickPeer ?env ?s 0 [] = Some [1]"
    unfolding ex_start_eq by (simp_all add: sched_defs setPending_def)
  have a: "en_accepts ex_env [1] 0" by (simp add: ex_env_def)
  show ?thesis
    using dispatch_serves_first_pending [OF s, of ex_env] dispatch_serves_first_pending [OF s, of ?env] p a by simp
qed

text \<open>
  Only the first pending chunk decides whether \<open>dispatch\<close> goes on: once every usable peer has
  declined it, nothing at all is requested, however many other chunks are pending and however
  many slots are open.
\<close>

theorem dispatch_head_of_line:
  assumes "k < sc_chunks s" and "sc_pending s ! k" and "\<forall>j < k. \<not> sc_pending s ! j"
    and "\<forall>p st. sc_stats s p = Some st \<longrightarrow> ps_banned st \<or> \<not> connected env p \<or> k \<in> set (ps_declined st)"
  shows "dispatch env s = s"
proof -
  have "\<not> eligible env s k [] p prov n" for p prov n using assms(4) by (auto simp: eligible_def)
  then have "pickPeer env s k [] = None" using pickPeer_Some [of env s k "[]"] by (cases "pickPeer env s k []") auto
  then show ?thesis using dispatch_first_pending [OF assms(1,3), of env] assms(2) by simp
qed

text \<open>Two chunks, a connected peer with free slots that lacks only the first.\<close>

definition ex_partial :: "unit chunkScheduler" where
  "ex_partial = (newScheduler 9 1 2 [sha256 [7], sha256 [8]] 2 10 3 1 1 5 Map.empty)
     \<lparr>sc_stats := [[1] \<mapsto> newPeerStat\<lparr>ps_declined := [0]\<rparr>]\<rparr>"

theorem dispatch_head_of_line_witness:
  "dispatch ex_env ex_partial = ex_partial \<and> sc_pending ex_partial ! 1 \<and> pickPeer ex_env ex_partial 1 [] = Some [1]"
proof -
  have "dispatch ex_env ex_partial = ex_partial"
    by (rule dispatch_head_of_line [of 0]) (auto simp: ex_partial_def newScheduler_def newPeerStat_def split: if_splits)
  then show ?thesis by (simp add: ex_partial_def newScheduler_def pickPeer_def pickStep_def newPeerStat_def ex_env_def)
qed

text \<open>
  C21. The index of a chunk reply is not checked: a reply for the right snapshot with an index
  past the last chunk makes \<open>onChunk\<close> panic, whoever sent it.
\<close>

theorem onChunk_index_panics:
  assumes "sched_inv s" and "ci_Height c = sc_height s" and "ci_Format c = sc_format s" and "sc_chunks s \<le> unat (ci_Index c)"
  shows "onChunk env p c s = Panic"
proof -
  have "length (sc_completed s) \<le> unat (ci_Index c)" using assms(1,4) by (simp add: sched_inv_def)
  then show ?thesis using assms(2,3) by (auto simp: onChunk_def Let_def upd_defs split: option.split)
qed

theorem onChunk_index_panics_witness:
  "onChunk ex_env [5] \<lparr>ci_Height = 9, ci_Format = 1, ci_Index = 1, ci_Missing = True, ci_Bytes = []\<rparr> ex_start = Panic"
proof (rule onChunk_index_panics)
  show "sched_inv ex_start" by (intro initScheduler_inv newScheduler_inv) simp_all
qed (unfold ex_start_eq, simp_all)

text \<open>
  A verified chunk that arrives while it is marked pending (its request had timed out) is
  counted as done and still left pending or in flight: it will be, or already is, requested again.
\<close>

theorem onChunk_late_reply_refetched:
  assumes "sched_inv s" and "ci_Height c = sc_height s" and "ci_Format c = sc_format s"
    and "i = unat (ci_Index c)" and "i < sc_chunks s" and "sc_pending s ! i" and "\<not> sc_completed s ! i"
    and "\<not> ci_Missing c" and "ci_Bytes c \<noteq> []" and "sha256 (ci_Bytes c) = sc_chunkHashes s ! i" and "en_writeErr env = None"
  shows "\<exists>s'. onChunk env p c s = Ok s' \<and> sc_completed s' ! i \<and> (sc_pending s' ! i \<or> sc_inflight s' i \<noteq> None)"
proof -
  have len: "length (sc_completed s) = sc_chunks s" "length (sc_chunkHashes s) = sc_chunks s" "sane s"
    using assms(1) by (simp_all add: sched_inv_def)
  obtain st s3 where s3: "onChunk env p c s = Ok (storeChunk env p st i (ci_Bytes c) s3)"
    and f: "sc_pending s3 = sc_pending s" "sc_completed s3 = sc_completed s" "sc_chunks s3 = sc_chunks s" "sane s3"
  proof (rule that)
    let ?s1 = "s\<lparr>sc_hadEvent := True\<rparr>"
    let ?s2 = "case sc_inflight ?s1 i of Some info \<Rightarrow> if ie_peer info = p then dropInflight i ?s1 else ?s1 | None \<Rightarrow> ?s1"
    let ?st = "removeInflight (case sc_stats ?s1 p of Some st \<Rightarrow> st | None \<Rightarrow> newPeerStat)"
    have e: "sc_pending ?s2 = sc_pending s" "sc_completed ?s2 = sc_completed s" "sc_chunks ?s2 = sc_chunks s"
      "sc_chunkHashes ?s2 = sc_chunkHashes s" "sane ?s2"
      using len(3) by (auto simp: dropInflight_def sane_def split: option.splits if_splits)
    show "onChunk env p c s = Ok (storeChunk env p ?st i (ci_Bytes c) (setStat p ?st ?s2))"
      using assms(2,3,5-) len e unfolding onChunk_def Let_def assms(4) by (simp add: setStat_def)
    show "sc_pending (setStat p ?st ?s2) = sc_pending s" "sc_completed (setStat p ?st ?s2) = sc_completed s"
      "sc_chunks (setStat p ?st ?s2) = sc_chunks s" "sane (setStat p ?st ?s2)"
      using e by (simp_all add: setStat_def sane_def)
  qed
  define st' where "st' = (snd (promote st))\<lparr>ps_chunks := ps_chunks (snd (promote st)) + 1, ps_failures := 0\<rparr>"
  define s4 where "s4 = (if connected env p then emit [RecordServed p] (setStat p st' s3) else setStat p st' s3)"
  define t where "t = emit [ChunkReady i] (s4\<lparr>sc_dir := (sc_dir s4)(chunkFile i \<mapsto> ci_Bytes c),
    sc_completed := (sc_completed s4)[i := True], sc_doneCount := sc_doneCount s4 + 1,
    sc_bytesTotal := sc_bytesTotal s4 + of_nat (length (ci_Bytes c))\<rparr>)"
  have store: "storeChunk env p st i (ci_Bytes c) s3 = dispatch env t"
    using assms(11) unfolding storeChunk_def Let_def st'_def [symmetric] s4_def [symmetric] t_def by simp
  have t: "sane t" "sc_chunks t = sc_chunks s" "covered t i" "sc_completed t ! i"
    using f len assms(5,6) by (simp_all add: t_def s4_def emit_def setStat_def sane_def covered_def)
  have q: "quiet (sched_limit t) t (dispatch env t)" by simp
  then have "covered (dispatch env t) i" and "sc_completed (dispatch env t) = sc_completed t"
    using t assms(5) by (auto simp: quiet_def sc_core_def)
  then show ?thesis using s3 store t(4) by (auto simp: covered_def)
qed

theorem onChunk_late_reply_refetched_witness:
  "\<exists>s'. onChunk ex_env [1] ex_chunk (setPending 0 True ex_start) = Ok s' \<and> sc_completed s' ! 0 \<and>
    (sc_pending s' ! 0 \<or> sc_inflight s' 0 \<noteq> None)"
proof (rule onChunk_late_reply_refetched)
  show "sched_inv (setPending 0 True ex_start)"
    by (rule sched_inv_quiet [OF _ quiet_setPending]) (intro initScheduler_inv newScheduler_inv, simp_all)
qed (unfold ex_start_eq, simp_all add: setPending_def ex_env_def)

end
