(* ===== verification/IndexScan.thy ===== *)
theory IndexScan
  imports SnapProto
begin

unbundle bit_operations_syntax

text \<open>
  The index pass of \<open>internal/snapshotimport/index.go\<close>: the buffered scanner with its byte
  offset, \<open>BuildIndex\<close>, and \<open>buildIndexFromReader\<close> of \<open>parallel.go\<close>, which also reports each
  store to its caller as soon as its start and its end are known.

  The underlying \<open>io.Reader\<close> is the list of results its \<open>Read\<close> calls give, in order, each with
  the bytes read and an error if any; past the end of the list \<open>Read\<close> gives \<open>0, io.EOF\<close>.
\<close>

section \<open>The scanner\<close>

datatype 'x io_error = IoEOF | IoUnexpectedEOF | IoErr 'x

type_synonym 'x io_reader = "(bytes \<times> 'x io_error option) list"

text \<open>\<open>ix_buf\<close> is the unread window \<open>buf[r0:w0]\<close>.\<close>

record 'x indexScanner =
  ix_r :: "'x io_reader"
  ix_buf :: bytes
  ix_pos :: int

definition newIndexScanner :: "'x io_reader \<Rightarrow> 'x indexScanner" where
  "newIndexScanner r = \<lparr>ix_r = r, ix_buf = [], ix_pos = 0\<rparr>"

fun fill_loop :: "nat \<Rightarrow> bytes \<Rightarrow> 'x io_reader \<Rightarrow> 'x io_error + bytes \<times> 'x io_reader" where
  "fill_loop n buf r =
     (if n \<le> length buf then Inr (buf, r)
      else case r of
          [] \<Rightarrow> Inl IoEOF
        | (d, None) # r' \<Rightarrow> fill_loop n (buf @ d) r'
        | (d, Some e) # r' \<Rightarrow>
            if e = IoEOF \<and> n \<le> length (buf @ d) then Inr (buf @ d, r') else Inl e)"

declare fill_loop.simps [simp del]

definition fill :: "'x indexScanner \<Rightarrow> nat \<Rightarrow> 'x io_error + 'x indexScanner" where
  "fill s n =
     (case fill_loop n (ix_buf s) (ix_r s) of
        Inl e \<Rightarrow> Inl e
      | Inr (buf, r) \<Rightarrow> Inr (s\<lparr>ix_buf := buf, ix_r := r\<rparr>))"

definition peekByte :: "'x indexScanner \<Rightarrow> 'x io_error + byte \<times> 'x indexScanner" where
  "peekByte s = (case fill s 1 of Inl e \<Rightarrow> Inl e | Inr s \<Rightarrow> Inr (hd (ix_buf s), s))"

definition readByte :: "'x indexScanner \<Rightarrow> 'x io_error + byte \<times> 'x indexScanner" where
  "readByte s =
     (case fill s 1 of
        Inl e \<Rightarrow> Inl e
      | Inr s \<Rightarrow> Inr (hd (ix_buf s), s\<lparr>ix_buf := tl (ix_buf s), ix_pos := ix_pos s + 1\<rparr>))"

datatype 'x uvarint_error = UvRead "'x io_error" | UvOverflow

text \<open>\<open>None\<close> in the value is the clean end of the stream, Go's \<open>ok == false\<close>.\<close>

function readUvarint_loop :: "nat \<Rightarrow> u64 \<Rightarrow> nat \<Rightarrow> 'x indexScanner \<Rightarrow>
    'x uvarint_error + u64 option \<times> 'x indexScanner" where
  "readUvarint_loop i v shift s =
     (if 10 \<le> i then Inl UvOverflow
      else case readByte s of
          Inl e \<Rightarrow> if e = IoEOF \<and> i = 0 then Inr (None, s) else Inl (UvRead e)
        | Inr (b, s) \<Rightarrow>
            if b < 128 then Inr (Some (v OR push_bit shift (ucast b)), s)
            else readUvarint_loop (Suc i) (v OR push_bit shift (ucast (b AND 127))) (shift + 7) s)"
  by pat_completeness auto
termination by (relation "measure (\<lambda>(i, _). 10 - i)") auto

declare readUvarint_loop.simps [simp del]

definition readUvarint :: "'x indexScanner \<Rightarrow> 'x uvarint_error + u64 option \<times> 'x indexScanner" where
  "readUvarint s = readUvarint_loop 0 0 0 s"

fun discard_loop :: "int \<Rightarrow> bytes \<Rightarrow> int \<Rightarrow> 'x io_reader \<Rightarrow> 'x io_error + 'x indexScanner" where
  "discard_loop n buf pos r =
     (if n \<le> 0 then Inr \<lparr>ix_r = r, ix_buf = buf, ix_pos = pos\<rparr>
      else if n \<le> int (length buf)
        then Inr \<lparr>ix_r = r, ix_buf = drop (nat n) buf, ix_pos = pos + n\<rparr>
      else let pos = pos + int (length buf); n = n - int (length buf) in
        case r of
          [] \<Rightarrow> Inl IoUnexpectedEOF
        | (d, None) # r' \<Rightarrow> discard_loop n d pos r'
        | (d, Some e) # r' \<Rightarrow>
            if e = IoEOF \<and> d = [] then Inl IoUnexpectedEOF
            else if e = IoEOF then discard_loop n d pos r'
            else Inl e)"

declare discard_loop.simps [simp del]

definition discard :: "'x indexScanner \<Rightarrow> int \<Rightarrow> 'x io_error + 'x indexScanner" where
  "discard s n = discard_loop n (ix_buf s) (ix_pos s) (ix_r s)"

lemma fill_loop_length: "fill_loop n buf r = Inr (buf', r') \<Longrightarrow> n \<le> length buf'"
  by (induction n buf r rule: fill_loop.induct)
    (auto simp: fill_loop.simps split: if_splits list.splits option.splits)

lemma fill_length: "fill s n = Inr s' \<Longrightarrow> n \<le> length (ix_buf s')"
  by (auto simp: fill_def dest: fill_loop_length split: sum.splits)

function readExact :: "nat \<Rightarrow> 'x indexScanner \<Rightarrow> 'x io_error + bytes \<times> 'x indexScanner" where
  "readExact n s =
     (if n = 0 then Inr ([], s)
      else case fill s 1 of
          Inl e \<Rightarrow> Inl e
        | Inr s \<Rightarrow>
            let got = take n (ix_buf s);
                s = s\<lparr>ix_buf := drop (length got) (ix_buf s), ix_pos := ix_pos s + int (length got)\<rparr>
            in case readExact (n - length got) s of
                Inl e \<Rightarrow> Inl e
              | Inr (p, s) \<Rightarrow> Inr (got @ p, s))"
  by pat_completeness auto
termination by (relation "measure fst") (auto dest: fill_length)

declare readExact.simps [simp del]

datatype 'x name_error =
    NameRead "'x io_error"
  | BadStoreTag byte
  | ReadInnerLength "'x uvarint_error option"
  | ReadNameLength "'x uvarint_error option"
  | NameTooLarge
  | NameOverrun

text \<open>An error of the source becomes the error \<open>f e\<close> of the caller.\<close>

fun try_as :: "('e \<Rightarrow> 'f) \<Rightarrow> 'e + 'a \<Rightarrow> ('a \<Rightarrow> 'f + 'b) \<Rightarrow> 'f + 'b" where
  "try_as f (Inl e) k = Inl (f e)"
| "try_as f (Inr x) k = k x"

definition skipTo :: "int \<Rightarrow> 'x indexScanner \<Rightarrow> 'x name_error + 'x indexScanner" where
  "skipTo end s = try_as NameRead (discard s (wrap64 (end - ix_pos s))) Inr"

definition readStoreName :: "'x indexScanner \<Rightarrow> u64 \<Rightarrow> 'x name_error + bytes \<times> 'x indexScanner" where
  "readStoreName s envLen =
     (let envEnd = wrap64 (ix_pos s + sint envLen) in
      try_as NameRead (readByte s) (\<lambda>(tag, s).
      if tag \<noteq> 0x0A then Inl (BadStoreTag tag)
      else case readUvarint s of
          Inl e \<Rightarrow> Inl (ReadInnerLength (Some e))
        | Inr (None, s) \<Rightarrow> Inl (ReadInnerLength None)
        | Inr (Some innerLen, s) \<Rightarrow>
            let innerEnd = wrap64 (ix_pos s + sint innerLen) in
            if innerLen = 0 then try_as id (skipTo envEnd s) (\<lambda>s. Inr ([], s))
            else try_as NameRead (readByte s) (\<lambda>(nameTag, s).
              if nameTag \<noteq> 0x0A then try_as id (skipTo envEnd s) (\<lambda>s. Inr ([], s))
              else case readUvarint s of
                  Inl e \<Rightarrow> Inl (ReadNameLength (Some e))
                | Inr (None, s) \<Rightarrow> Inl (ReadNameLength None)
                | Inr (Some nameLen, s) \<Rightarrow>
                    if maxEnvelopeBytes < nameLen then Inl NameTooLarge
                    else if wrap64 (envEnd - ix_pos s) < sint nameLen then Inl NameOverrun
                    else try_as NameRead (readExact (unat nameLen) s) (\<lambda>(name, s).
                      try_as id (if ix_pos s < innerEnd then skipTo innerEnd s else Inr s) (\<lambda>s.
                      try_as id (if ix_pos s < envEnd then skipTo envEnd s else Inr s) (\<lambda>s.
                      Inr (name, s)))))))"

section \<open>The index\<close>

record StoreEntry =
  se_Name :: bytes
  se_DecompressedStart :: int
  se_DecompressedEnd :: int
  se_ItemCount :: u64
  se_IAVLBytes :: int

record SnapshotIndex =
  sx_Stores :: "StoreEntry list"
  sx_ExtStart :: int
  sx_TotalItems :: u64
  sx_TotalBytes :: int

definition newIndex :: SnapshotIndex where
  "newIndex = \<lparr>sx_Stores = [], sx_ExtStart = 0, sx_TotalItems = 0, sx_TotalBytes = 0\<rparr>"

definition newEntry :: "bytes \<Rightarrow> int \<Rightarrow> StoreEntry" where
  "newEntry name start =
     \<lparr>se_Name = name, se_DecompressedStart = start, se_DecompressedEnd = 0, se_ItemCount = 1, se_IAVLBytes = 0\<rparr>"

text \<open>
  \<open>curStore\<close> is nil or points at the last element of \<open>idx.Stores\<close>, so a flag says which, and a
  write through it updates that element.
\<close>

definition updLast :: "('a \<Rightarrow> 'a) \<Rightarrow> 'a list \<Rightarrow> 'a list" where
  "updLast f xs = (if xs = [] then [] else butlast xs @ [f (last xs)])"

definition updCur :: "bool \<Rightarrow> (StoreEntry \<Rightarrow> StoreEntry) \<Rightarrow> SnapshotIndex \<Rightarrow> SnapshotIndex" where
  "updCur cur f idx = (if cur then idx\<lparr>sx_Stores := updLast f (sx_Stores idx)\<rparr> else idx)"

text \<open>\<open>sort.SliceStable\<close> by size, largest first.\<close>

definition sortStores :: "SnapshotIndex \<Rightarrow> SnapshotIndex" where
  "sortStores idx = idx\<lparr>sx_Stores := sort_key (\<lambda>e. - se_IAVLBytes e) (sx_Stores idx)\<rparr>"

datatype ('x, 'y) index_error =
    ReadEnvelopeLength "'x uvarint_error"
  | ZeroEnvelope int
  | EnvelopeOverCap u64
  | PeekTag "'x io_error"
  | StoreName "'x name_error"
  | DiscardBody "'x io_error"
  | UnknownField byte
  | Callback 'y

definition addItem :: "SnapshotIndex \<Rightarrow> SnapshotIndex" where
  "addItem idx = idx\<lparr>sx_TotalItems := sx_TotalItems idx + 1\<rparr>"

definition countIAVL :: "u64 \<Rightarrow> StoreEntry \<Rightarrow> StoreEntry" where
  "countIAVL envLen e =
     e\<lparr>se_IAVLBytes := wrap64 (se_IAVLBytes e + sint envLen), se_ItemCount := se_ItemCount e + 1\<rparr>"

section \<open>Every operation consumes\<close>

text \<open>What is still to be read, buffered or not; it bounds every loop over the scanner.\<close>

definition todo :: "'x indexScanner \<Rightarrow> nat" where
  "todo s = length (ix_buf s) + length (concat (map fst (ix_r s)))"

lemma fill_loop_todo:
  "fill_loop n buf r = Inr (buf', r') \<Longrightarrow>
   length buf' + length (concat (map fst r')) = length buf + length (concat (map fst r))"
  by (induction n buf r rule: fill_loop.induct)
    (force simp: fill_loop.simps split: if_splits list.splits option.splits)

lemma fill_todo: "fill s n = Inr s' \<Longrightarrow> todo s' = todo s"
  by (auto simp: fill_def todo_def dest: fill_loop_todo split: sum.splits)

lemma readByte_todo: "readByte s = Inr (b, s') \<Longrightarrow> Suc (todo s') = todo s"
proof -
  assume "readByte s = Inr (b, s')"
  then obtain s1 where f: "fill s 1 = Inr s1" and s': "s' = s1\<lparr>ix_buf := tl (ix_buf s1), ix_pos := ix_pos s1 + 1\<rparr>"
    by (auto simp: readByte_def split: sum.splits)
  from fill_length [OF f] fill_todo [OF f] show ?thesis by (simp add: s' todo_def)
qed

lemma peekByte_todo: "peekByte s = Inr (b, s') \<Longrightarrow> todo s' = todo s"
  by (auto simp: peekByte_def dest!: fill_todo split: sum.splits)

lemma readUvarint_loop_todo: "readUvarint_loop i v sh s = Inr (Some x, s') \<Longrightarrow> todo s' < todo s"
proof (induction i v sh s rule: readUvarint_loop.induct)
  case (1 i v shift s)
  from "1.prems" obtain b s1 where r: "readByte s = Inr (b, s1)" and i: "\<not> 10 \<le> i"
    by (auto simp: readUvarint_loop.simps [of i] split: if_splits sum.splits)
  note t = readByte_todo [OF r]
  show ?case
  proof (cases "b < 128")
    case True
    then show ?thesis using "1.prems" r i t by (auto simp: readUvarint_loop.simps [of i])
  next
    case False
    with "1.IH" [OF i r refl False] "1.prems" r i t show ?thesis
      by (simp add: readUvarint_loop.simps [of i])
  qed
qed

lemma readUvarint_todo: "readUvarint s = Inr (Some x, s') \<Longrightarrow> todo s' < todo s"
  unfolding readUvarint_def by (rule readUvarint_loop_todo)

lemma discard_loop_todo:
  "discard_loop n buf pos r = Inr s' \<Longrightarrow> todo s' \<le> length buf + length (concat (map fst r))"
proof (induction r arbitrary: n buf pos)
  case Nil
  then show ?case by (auto simp: discard_loop.simps todo_def Let_def split: if_splits)
next
  case (Cons a r)
  obtain d e where a: "a = (d, e)" by fastforce
  have step: "discard_loop n d pos r = Inr s' \<Longrightarrow> todo s' \<le> length d + length (concat (map fst r))" for n pos
    using Cons.IH by blast
  from Cons.prems a show ?case
    by (auto simp: discard_loop.simps [of n buf pos] todo_def Let_def split: if_splits option.splits dest: step)
qed

lemma discard_todo: "discard s n = Inr s' \<Longrightarrow> todo s' \<le> todo s"
  using discard_loop_todo [of n "ix_buf s" "ix_pos s" "ix_r s" s'] by (simp add: discard_def todo_def)

lemma readExact_todo: "readExact n s = Inr (p, s') \<Longrightarrow> todo s' \<le> todo s"
proof (induction n s arbitrary: p s' rule: readExact.induct)
  case (1 n s)
  show ?case
  proof (cases "n = 0")
    case True
    then show ?thesis using "1.prems" by (simp add: readExact.simps)
  next
    case False
    then obtain s1 where f: "fill s 1 = Inr s1" using "1.prems"
      by (auto simp: readExact.simps [of n] split: sum.splits)
    from "1.IH" [OF False f refl refl] "1.prems" f False fill_todo [OF f] show ?thesis
      by (fastforce simp: readExact.simps [of n] todo_def Let_def split: sum.splits)
  qed
qed

lemma try_as_Inr: "try_as f m k = Inr y \<longleftrightarrow> (\<exists>x. m = Inr x \<and> k x = Inr y)"
  by (cases m) auto

lemma skipTo_todo: "skipTo end s = Inr s' \<Longrightarrow> todo s' \<le> todo s"
  by (auto simp: skipTo_def try_as_Inr dest: discard_todo)

lemma readStoreName_todo: "readStoreName s envLen = Inr (name, s') \<Longrightarrow> todo s' \<le> todo s"
  by (auto simp: readStoreName_def try_as_Inr Let_def split: if_splits sum.splits option.splits
      dest!: readByte_todo readUvarint_todo skipTo_todo readExact_todo)

section \<open>The passes\<close>

text \<open>One pass of \<open>BuildIndex\<close>'s loop after the envelope length is known and its tag peeked.\<close>

definition indexItem :: "'x indexScanner \<Rightarrow> int \<Rightarrow> u64 \<Rightarrow> byte \<Rightarrow> bool \<Rightarrow> SnapshotIndex \<Rightarrow>
    ('x, unit) index_error + 'x indexScanner \<times> bool \<times> SnapshotIndex" where
  "indexItem s envStart envLen tag cur idx =
     (let field = drop_bit 3 tag in
      if field = 1 then
        try_as StoreName (readStoreName s envLen) (\<lambda>(name, s).
        let idx = updCur cur (\<lambda>e. e\<lparr>se_DecompressedEnd := envStart\<rparr>) idx
        in Inr (s, True, addItem (idx\<lparr>sx_Stores := sx_Stores idx @ [newEntry name envStart]\<rparr>)))
      else
        try_as DiscardBody (discard s (sint envLen)) (\<lambda>s.
        Inr (s, cur, addItem (updCur cur (if field = 2 then countIAVL envLen
                                          else (\<lambda>e. e\<lparr>se_ItemCount := se_ItemCount e + 1\<rparr>)) idx))))"

lemma indexItem_todo: "indexItem s st envLen tag cur idx = Inr (s', cur', idx') \<Longrightarrow> todo s' \<le> todo s"
  by (auto simp: indexItem_def try_as_Inr Let_def split: if_splits dest!: readStoreName_todo discard_todo)

function BuildIndex_loop :: "'x indexScanner \<Rightarrow> bool \<Rightarrow> SnapshotIndex \<Rightarrow> ('x, unit) index_error + SnapshotIndex" where
  "BuildIndex_loop s cur idx =
     (let envStart = ix_pos s in
      case readUvarint s of
        Inl e \<Rightarrow> Inl (ReadEnvelopeLength e)
      | Inr (None, s) \<Rightarrow>
          Inr ((updCur cur (\<lambda>e. e\<lparr>se_DecompressedEnd := envStart\<rparr>) idx)\<lparr>sx_TotalBytes := envStart\<rparr>)
      | Inr (Some envLen, s) \<Rightarrow>
          if envLen = 0 then Inl (ZeroEnvelope envStart)
          else if maxEnvelopeBytes < envLen then Inl (EnvelopeOverCap envLen)
          else case peekByte s of
              Inl e \<Rightarrow> Inl (PeekTag e)
            | Inr (tag, s) \<Rightarrow>
                (case indexItem s envStart envLen tag cur idx of
                   Inl e \<Rightarrow> Inl e
                 | Inr (s, cur, idx) \<Rightarrow> BuildIndex_loop s cur idx))"
  by pat_completeness auto
termination
  by (relation "measure (\<lambda>(s, _). todo s)") (auto dest!: readUvarint_todo peekByte_todo indexItem_todo)

declare BuildIndex_loop.simps [simp del]

definition BuildIndex :: "'x io_reader \<Rightarrow> ('x, unit) index_error + SnapshotIndex" where
  "BuildIndex r = try_as id (BuildIndex_loop (newIndexScanner r) False newIndex) (\<lambda>idx. Inr (sortStores idx))"

text \<open>
  The callbacks of \<open>buildIndexFromReader\<close> act on a state \<open>c\<close> of the caller's and may fail;
  either may be nil.
\<close>

record ('c, 'y) indexCallbacks =
  onOpen :: "('c \<Rightarrow> StoreEntry \<Rightarrow> 'y + 'c) option"
  onClose :: "('c \<Rightarrow> bytes \<Rightarrow> int \<Rightarrow> 'y + 'c) option"

definition closeCur :: "('c, 'y) indexCallbacks \<Rightarrow> int \<Rightarrow> bool \<Rightarrow> SnapshotIndex \<Rightarrow> 'c \<Rightarrow>
    ('x, 'y) index_error + SnapshotIndex \<times> 'c" where
  "closeCur cb end cur idx c =
     (if \<not> cur then Inr (idx, c)
      else let idx' = updCur True (\<lambda>e. e\<lparr>se_DecompressedEnd := end\<rparr>) idx in
        case onClose cb of
          None \<Rightarrow> Inr (idx', c)
        | Some f \<Rightarrow> try_as Callback (f c (se_Name (last (sx_Stores idx))) end) (\<lambda>c. Inr (idx', c)))"

definition indexItemFrom :: "('c, 'y) indexCallbacks \<Rightarrow> 'x indexScanner \<Rightarrow> int \<Rightarrow> u64 \<Rightarrow> byte \<Rightarrow> bool \<Rightarrow>
    SnapshotIndex \<Rightarrow> 'c \<Rightarrow> ('x, 'y) index_error + 'x indexScanner \<times> bool \<times> SnapshotIndex \<times> 'c" where
  "indexItemFrom cb s envStart envLen tag cur idx c =
     (let field = drop_bit 3 tag in
      if field = 1 then
        try_as StoreName (readStoreName s envLen) (\<lambda>(name, s).
        try_as id (closeCur cb envStart cur idx c) (\<lambda>(idx, c).
        let e = newEntry name envStart; idx = idx\<lparr>sx_Stores := sx_Stores idx @ [e]\<rparr> in
        case onOpen cb of
          None \<Rightarrow> Inr (s, True, addItem idx, c)
        | Some f \<Rightarrow> try_as Callback (f c e) (\<lambda>c. Inr (s, True, addItem idx, c))))
      else if field = 2 then
        try_as DiscardBody (discard s (sint envLen)) (\<lambda>s.
        Inr (s, cur, addItem (updCur cur (countIAVL envLen) idx), c))
      else if field = 3 \<or> field = 4 then
        try_as id (closeCur cb envStart cur idx c) (\<lambda>(idx, c).
        let idx = (if sx_ExtStart idx = 0 then idx\<lparr>sx_ExtStart := envStart\<rparr> else idx) in
        try_as DiscardBody (discard s (sint envLen)) (\<lambda>s. Inr (s, False, addItem idx, c)))
      else Inl (UnknownField field))"

lemma indexItemFrom_todo:
  "indexItemFrom cb s st envLen tag cur idx c = Inr (s', cur', idx', c') \<Longrightarrow> todo s' \<le> todo s"
  by (auto simp: indexItemFrom_def try_as_Inr Let_def split: if_splits option.splits
      dest!: readStoreName_todo discard_todo)

function indexFrom_loop :: "('c, 'y) indexCallbacks \<Rightarrow> 'x indexScanner \<Rightarrow> bool \<Rightarrow> SnapshotIndex \<Rightarrow> 'c \<Rightarrow>
    ('x, 'y) index_error + SnapshotIndex \<times> 'c" where
  "indexFrom_loop cb s cur idx c =
     (let envStart = ix_pos s in
      case readUvarint s of
        Inl e \<Rightarrow> Inl (ReadEnvelopeLength e)
      | Inr (None, s) \<Rightarrow>
          try_as id (closeCur cb envStart cur idx c) (\<lambda>(idx, c). Inr (idx\<lparr>sx_TotalBytes := envStart\<rparr>, c))
      | Inr (Some envLen, s) \<Rightarrow>
          if envLen = 0 then Inl (ZeroEnvelope envStart)
          else case peekByte s of
              Inl e \<Rightarrow> Inl (PeekTag e)
            | Inr (tag, s) \<Rightarrow>
                (case indexItemFrom cb s envStart envLen tag cur idx c of
                   Inl e \<Rightarrow> Inl e
                 | Inr (s, cur, idx, c) \<Rightarrow> indexFrom_loop cb s cur idx c))"
  by pat_completeness auto
termination
  by (relation "measure (\<lambda>(_, s, _). todo s)") (auto dest!: readUvarint_todo peekByte_todo indexItemFrom_todo)

declare indexFrom_loop.simps [simp del]

definition buildIndexFromReader :: "'x io_reader \<Rightarrow> ('c, 'y) indexCallbacks \<Rightarrow> 'c \<Rightarrow>
    ('x, 'y) index_error + SnapshotIndex \<times> 'c" where
  "buildIndexFromReader r cb c =
     try_as id (indexFrom_loop cb (newIndexScanner r) False newIndex c) (\<lambda>(idx, c). Inr (sortStores idx, c))"

end
