(* ===== verification/IndexProps.thy ===== *)
theory IndexProps
  imports IndexScan
begin

text \<open>
  What the index pass computes: over every reader that delivers the wire form of some stores and
  extensions, however its reads are split, each entry delimits exactly the bytes of its store.
\<close>

section \<open>Readers and scanners as byte streams\<close>

text \<open>The bytes a reader gives before a clean end; \<^term>\<open>None\<close> when it fails.\<close>

fun delivered :: "'x io_reader \<Rightarrow> bytes option" where
  "delivered [] = Some []"
| "delivered ((d, None) # r) = map_option (append d) (delivered r)"
| "delivered ((d, Some e) # r) = (if e = IoEOF \<and> delivered r = Some [] then Some d else None)"

text \<open>The scanner stands at offset \<open>p\<close> with \<open>bs\<close> still to come.\<close>

definition scans :: "'x indexScanner \<Rightarrow> int \<Rightarrow> bytes \<Rightarrow> bool" where
  "scans s p bs \<longleftrightarrow> ix_pos s = p \<and> (\<exists>ds. delivered (ix_r s) = Some ds \<and> bs = ix_buf s @ ds)"

lemma scans_new: "delivered r = Some bs \<Longrightarrow> scans (newIndexScanner r) 0 bs"
  by (simp add: scans_def newIndexScanner_def)

lemma scans_pos: "scans s p bs \<Longrightarrow> ix_pos s = p"
  by (simp add: scans_def)

lemma fill_loop_one:
  "delivered r = Some ds \<Longrightarrow> buf @ ds \<noteq> [] \<Longrightarrow>
   \<exists>buf' r' ds'. fill_loop 1 buf r = Inr (buf', r') \<and> delivered r' = Some ds' \<and> buf' @ ds' = buf @ ds \<and> buf' \<noteq> []"
proof (induction r arbitrary: buf ds)
  case Nil
  then show ?case by (auto simp: fill_loop.simps Suc_le_eq)
next
  case (Cons a r)
  obtain d e where a: "a = (d, e)" by fastforce
  show ?case
  proof (cases "buf = []")
    case False
    then show ?thesis using Cons.prems by (auto simp: fill_loop.simps Suc_le_eq)
  next
    case True
    show ?thesis
    proof (cases e)
      case None
      with Cons.prems a obtain ds' where "delivered r = Some ds'" "ds = d @ ds'" by auto
      with Cons.IH [of ds' d] Cons.prems a None True show ?thesis
        by (auto simp: fill_loop.simps [of "Suc 0" "[]"])
    next
      case (Some x)
      with Cons.prems a True have "x = IoEOF" "ds = d" "delivered r = Some []" "d \<noteq> []"
        by (auto split: if_splits)
      then show ?thesis using True a Some by (auto simp: fill_loop.simps [of "Suc 0" "[]"] Suc_le_eq)
    qed
  qed
qed

lemma fill_loop_end: "delivered r = Some [] \<Longrightarrow> fill_loop 1 [] r = Inl IoEOF"
proof (induction r)
  case (Cons a r)
  obtain d e where a: "a = (d, e)" by fastforce
  with Cons show ?case by (cases e) (auto simp: fill_loop.simps [of "Suc 0" "[]"] split: if_splits)
qed (simp add: fill_loop.simps)

lemma fill_scans:
  assumes "scans s p bs" and "bs \<noteq> []"
  shows "\<exists>s'. fill s 1 = Inr s' \<and> scans s' p bs \<and> ix_buf s' \<noteq> []"
proof -
  from assms obtain ds where ds: "delivered (ix_r s) = Some ds" "bs = ix_buf s @ ds" "ix_pos s = p"
    by (auto simp: scans_def)
  with fill_loop_one [OF ds(1), of "ix_buf s"] assms(2) show ?thesis by (fastforce simp: fill_def scans_def)
qed

lemma fill_scans_end: "scans s p [] \<Longrightarrow> fill s 1 = Inl IoEOF"
  by (auto simp: scans_def fill_def fill_loop_end [unfolded One_nat_def])

lemma readByte_scans:
  assumes "scans s p (b # bs)"
  shows "\<exists>s'. readByte s = Inr (b, s') \<and> scans s' (p + 1) bs"
proof -
  from fill_scans [OF assms] obtain s1 where s1: "fill s 1 = Inr s1" "scans s1 p (b # bs)" "ix_buf s1 \<noteq> []"
    by auto
  then show ?thesis by (cases "ix_buf s1") (auto simp: readByte_def scans_def)
qed

lemma readByte_scans_end: "scans s p [] \<Longrightarrow> readByte s = Inl IoEOF"
  by (simp only: readByte_def fill_scans_end sum.case)

lemma peekByte_scans:
  assumes "scans s p (b # bs)"
  shows "\<exists>s'. peekByte s = Inr (b, s') \<and> scans s' p (b # bs)"
proof -
  from fill_scans [OF assms] obtain s1 where s1: "fill s 1 = Inr s1" "scans s1 p (b # bs)" "ix_buf s1 \<noteq> []"
    by auto
  then show ?thesis by (cases "ix_buf s1") (auto simp: peekByte_def scans_def)
qed

lemma readUvarint_loop_scans:
  "\<lbrakk>ReadUvarint_loop i x sh bs = Inr (v, rest); scans s p bs\<rbrakk> \<Longrightarrow>
   \<exists>s'. readUvarint_loop i x sh s = Inr (Some v, s') \<and> scans s' (p + int (length bs) - int (length rest)) rest"
proof (induction i x sh bs arbitrary: s p rule: ReadUvarint_loop.induct)
  case (1 i x sh bs)
  from "1.prems"(1) obtain b bs' where bs: "bs = b # bs'" and i: "\<not> 10 \<le> i"
    by (cases bs) (auto simp: ReadUvarint_loop.simps [of i] split: if_splits)
  from readByte_scans "1.prems"(2) bs obtain s1 where s1: "readByte s = Inr (b, s1)" "scans s1 (p + 1) bs'"
    by blast
  show ?case
  proof (cases "b < 128")
    case True
    then show ?thesis using "1.prems"(1) bs i s1
      by (auto simp: ReadUvarint_loop.simps [of i] readUvarint_loop.simps [of i] split: if_splits)
  next
    case False
    with "1.IH" [OF i bs False _ s1(2)] "1.prems"(1) bs i s1(1) show ?thesis
      by (simp add: ReadUvarint_loop.simps [of i] readUvarint_loop.simps [of i] algebra_simps)
  qed
qed

lemma readUvarint_scans:
  "scans s p (PutUvarint v @ rest) \<Longrightarrow>
   \<exists>s'. readUvarint s = Inr (Some v, s') \<and> scans s' (p + int (length (PutUvarint v))) rest"
  using readUvarint_loop_scans [of 0 0 0 "PutUvarint v @ rest" v rest s p] ReadUvarint_PutUvarint [of v rest]
  by (simp add: readUvarint_def ReadUvarint_def)

lemma readUvarint_scans_end: "scans s p [] \<Longrightarrow> readUvarint s = Inr (None, s)"
  by (simp add: readUvarint_def readUvarint_loop.simps readByte_scans_end)

lemma discard_loop_scans:
  "\<lbrakk>delivered r = Some ds; buf @ ds = xs @ rest\<rbrakk> \<Longrightarrow>
   \<exists>s'. discard_loop (int (length xs)) buf pos r = Inr s' \<and> scans s' (pos + int (length xs)) rest"
proof (induction r arbitrary: buf ds xs pos)
  case Nil
  then have "buf = xs @ rest" by simp
  then show ?case by (auto simp: discard_loop.simps scans_def)
next
  case (Cons a r)
  obtain d e where a: "a = (d, e)" by fastforce
  show ?case
  proof (cases "length xs \<le> length buf")
    case True
    with Cons.prems have "drop (length xs) buf @ ds = rest"
      by (metis append_eq_conv_conj drop_append drop_eq_Nil2 append_Nil diff_is_0_eq' drop_0)
    with True Cons.prems show ?thesis by (auto simp: discard_loop.simps [of _ buf] scans_def)
  next
    case False
    then obtain ys where ys: "xs = buf @ ys" "ds = ys @ rest" "ys \<noteq> []"
      using Cons.prems(2) by (auto simp: append_eq_append_conv2)
    have n: "int (length xs) - int (length buf) = int (length ys)" "\<not> int (length buf) + int (length ys) \<le> 0"
      using ys by (simp_all add: not_le flip: length_greater_0_conv)
    show ?thesis
    proof (cases e)
      case None
      with Cons.prems a obtain ds' where "delivered r = Some ds'" "ds = d @ ds'" by auto
      with Cons.IH [of ds' d ys "pos + int (length buf)"] ys n a None False show ?thesis
        by (simp add: discard_loop.simps [of _ buf] Let_def algebra_simps)
    next
      case (Some x)
      with Cons.prems a have x: "x = IoEOF" "ds = d" "delivered r = Some []" by (auto split: if_splits)
      with Cons.IH [of "[]" d ys "pos + int (length buf)"] ys n a Some False show ?thesis
        by (simp add: discard_loop.simps [of _ buf] Let_def algebra_simps)
    qed
  qed
qed

lemma discard_scans:
  assumes "scans s p (xs @ rest)" and "n = int (length xs)"
  shows "\<exists>s'. discard s n = Inr s' \<and> scans s' (p + n) rest"
proof -
  from assms obtain ds where "delivered (ix_r s) = Some ds" "ix_buf s @ ds = xs @ rest" "ix_pos s = p"
    by (auto simp: scans_def)
  with discard_loop_scans [of "ix_r s" ds "ix_buf s" xs rest "ix_pos s"] assms(2) show ?thesis
    by (simp add: discard_def)
qed

lemma readExact_scans:
  "scans s p (xs @ rest) \<Longrightarrow>
   \<exists>s'. readExact (length xs) s = Inr (xs, s') \<and> scans s' (p + int (length xs)) rest"
proof (induction "length xs" s arbitrary: xs p rule: readExact.induct)
  case (1 s)
  show ?case
  proof (cases "xs = []")
    case True
    then show ?thesis using "1.prems" by (simp add: readExact.simps)
  next
    case False
    from fill_scans [OF "1.prems"] False obtain s1
      where s1: "fill s 1 = Inr s1" "scans s1 p (xs @ rest)" "ix_buf s1 \<noteq> []" by auto
    let ?got = "take (length xs) (ix_buf s1)"
    let ?s2 = "s1\<lparr>ix_buf := drop (length ?got) (ix_buf s1), ix_pos := ix_pos s1 + int (length ?got)\<rparr>"
    define ys where "ys = drop (length ?got) xs"
    from s1(2) obtain ds where ds: "delivered (ix_r s1) = Some ds" "xs @ rest = ix_buf s1 @ ds" "ix_pos s1 = p"
      by (auto simp: scans_def)
    have got: "xs = ?got @ ys" and tail: "ys @ rest = drop (length ?got) (ix_buf s1) @ ds"
      using arg_cong [OF ds(2), of "take (length ?got)"] arg_cong [OF ds(2), of "drop (length ?got)"]
      unfolding ys_def by (auto simp: min_def split: if_splits) (metis append_take_drop_id)+
    have ly: "length ys = length xs - length ?got" unfolding ys_def by simp
    have "scans ?s2 (p + int (length ?got)) (ys @ rest)" using ds tail by (auto simp: scans_def)
    from "1.hyps" [OF _ s1(1) refl refl ly [symmetric] this] False obtain s3
      where "readExact (length ys) ?s2 = Inr (ys, s3)" "scans s3 (p + int (length ?got) + int (length ys)) rest"
      by auto
    then show ?thesis using False s1(1) got ly
      by (simp add: readExact.simps [of "length xs"] Let_def)
  qed
qed

section \<open>Items\<close>

fun is_iavl :: "snapItem \<Rightarrow> bool" where
  "is_iavl (IAVLItem _ _ _ _) = True"
| "is_iavl _ = False"

fun is_ext :: "snapItem \<Rightarrow> bool" where
  "is_ext (ExtMeta _ _) = True"
| "is_ext (ExtPayload _) = True"
| "is_ext _ = False"

lemma ext_not_iavl: "is_ext it \<Longrightarrow> \<not> is_iavl it"
  by (cases it) auto

definition items_wire :: "snapItem list \<Rightarrow> bytes" where
  "items_wire its = concat (map item_wire its)"

lemma items_wire_simps [simp]:
  "items_wire [] = []" "items_wire (it # its) = item_wire it @ items_wire its"
  "items_wire (xs @ ys) = items_wire xs @ items_wire ys"
  by (simp_all add: items_wire_def)

text \<open>The envelope length of a small item and its signed reading.\<close>

lemma small_len:
  assumes "item_small it"
  shows "sint (of_nat (length (item_body it)) :: u64) = int (length (item_body it))"
    and "(of_nat (length (item_body it)) :: u64) \<noteq> 0"
    and "\<not> maxEnvelopeBytes < of_nat (length (item_body it))"
proof -
  let ?n = "of_nat (length (item_body it)) :: u64"
  have un: "unat ?n = length (item_body it)"
    using assms by (intro unat_u64_of_nat) (simp add: item_small_def)
  show "sint ?n = int (length (item_body it))" using assms by (intro sint_of_nat_u64) (simp add: item_small_def)
  show "?n \<noteq> 0" and "\<not> maxEnvelopeBytes < ?n"
    using un length_item_body assms
    by (auto simp: item_small_def maxEnvelopeBytes_def word_less_nat_alt simp flip: unat_eq_0)
qed

lemma hd_item_body: "\<exists>bs. item_body it = (field_tag (item_type it) OR 2) # bs"
  by (simp add: item_body_def appendBytesField_def)

lemma item_body_field: "item_body it = tag # bs \<Longrightarrow> drop_bit 3 tag = of_nat (item_type it)"
  using hd_item_body [of it] item_type_less(2) [of it] by (metis drop_bit_field_tag list.inject)

text \<open>Reading the envelope length and peeking at the tag, at the start of an item.\<close>

lemma item_prefix:
  assumes "scans s p (item_wire it @ rest)"
  shows "\<exists>s1 s2 tag. readUvarint s = Inr (Some (of_nat (length (item_body it))), s1) \<and>
    peekByte s1 = Inr (tag, s2) \<and> drop_bit 3 tag = of_nat (item_type it) \<and>
    scans s2 (p + int (length (PutUvarint (of_nat (length (item_body it)))))) (item_body it @ rest)"
proof -
  from readUvarint_scans [of s p] assms obtain s1 where s1:
    "readUvarint s = Inr (Some (of_nat (length (item_body it))), s1)"
    "scans s1 (p + int (length (PutUvarint (of_nat (length (item_body it)))))) (item_body it @ rest)"
    by (auto simp: item_wire_def)
  from hd_item_body obtain tag bs where b: "item_body it = tag # bs" by blast
  with peekByte_scans [of s1 _ tag "bs @ rest"] s1 item_body_field [OF b] show ?thesis by fastforce
qed

lemma discard_item:
  assumes "scans s p (item_body it @ rest)" and "item_small it"
  shows "\<exists>s'. discard s (sint (of_nat (length (item_body it)) :: u64)) = Inr s' \<and>
    scans s' (p + int (length (item_body it))) rest"
  using discard_scans [OF assms(1) small_len(1) [OF assms(2)]] small_len(1) [OF assms(2)] by simp

lemma skipTo_here: "scans s p bs \<Longrightarrow> \<exists>s'. skipTo p s = Inr s' \<and> scans s' p bs"
  using discard_scans [of s p "[]" bs 0] by (auto simp: skipTo_def wrap64_def dest: scans_pos)

lemma readStoreName_item:
  assumes "scans s p (item_body (StoreItem name) @ rest)" and "item_small (StoreItem name)"
    and "0 \<le> p" and "p + int (length (item_body (StoreItem name))) < 2 ^ 63"
  shows "\<exists>s'. readStoreName s (of_nat (length (item_body (StoreItem name)))) = Inr (name, s') \<and>
    scans s' (p + int (length (item_body (StoreItem name)))) rest"
proof -
  let ?b = "item_body (StoreItem name)"
  have tag1: "field_tag 1 OR 2 = (0x0A :: byte)" by (simp add: field_tag_def)
  have envEnd: "wrap64 (ix_pos s + sint (of_nat (length ?b) :: u64)) = p + int (length ?b)"
    using assms small_len(1) [OF assms(2)] by (simp add: wrap64_id scans_pos)
  show ?thesis
  proof (cases "name = []")
    case True
    then have b: "?b = [0x0A] @ PutUvarint 0" using tag1
      by (simp add: item_body_def appendBytesField_def enc_fields_def opt_defs)
    from assms(1) b readByte_scans obtain s1 where
      s1: "readByte s = Inr (0x0A, s1)" "scans s1 (p + 1) (PutUvarint 0 @ rest)" by fastforce
    from readUvarint_scans [OF s1(2)] obtain s2 where
      s2: "readUvarint s1 = Inr (Some 0, s2)" "scans s2 (p + int (length ?b)) rest"
      by (auto simp: b add.assoc)
    from skipTo_here [OF s2(2)] obtain s3 where s3: "skipTo (p + int (length ?b)) s2 = Inr s3"
      "scans s3 (p + int (length ?b)) rest" by auto
    show ?thesis using s1(1) s2(1) s3 envEnd True by (simp add: readStoreName_def Let_def)
  next
    case False
    let ?n = "of_nat (length name) :: u64"
    let ?in = "[0x0A] @ PutUvarint ?n @ name"
    let ?m = "of_nat (length ?in) :: u64"
    have b: "?b = [0x0A] @ PutUvarint ?m @ ?in" using False tag1
      by (simp add: item_body_def appendBytesField_def enc_fields_def opt_defs)
    have lb: "length name < length ?in" "length ?in < length ?b" "length ?b \<le> 64000000"
      using b assms(2) by (simp_all add: item_small_def)
    have m: "sint ?m = int (length ?in)" "?m \<noteq> 0"
      using lb by (auto simp: sint_of_nat_u64 unat_u64_of_nat simp del: of_nat_Suc simp flip: unat_eq_0)
    have n: "sint ?n = int (length name)" "unat ?n = length name" "\<not> maxEnvelopeBytes < ?n"
      using lb by (auto simp: sint_of_nat_u64 unat_u64_of_nat maxEnvelopeBytes_def word_less_nat_alt)
    from assms(1) b readByte_scans obtain s1 where
      s1: "readByte s = Inr (0x0A, s1)" "scans s1 (p + 1) (PutUvarint ?m @ ?in @ rest)" by fastforce
    from readUvarint_scans [OF s1(2)] obtain s2 where
      s2: "readUvarint s1 = Inr (Some ?m, s2)"
        "scans s2 (p + 1 + int (length (PutUvarint ?m))) (?in @ rest)" by auto
    from s2(2) readByte_scans obtain s3 where
      s3: "readByte s2 = Inr (0x0A, s3)"
        "scans s3 (p + 1 + int (length (PutUvarint ?m)) + 1) (PutUvarint ?n @ name @ rest)" by fastforce
    from readUvarint_scans [OF s3(2)] obtain s4 where
      s4: "readUvarint s3 = Inr (Some ?n, s4)"
        "scans s4 (p + 1 + int (length (PutUvarint ?m)) + 1 + int (length (PutUvarint ?n))) (name @ rest)" by auto
    from readExact_scans [OF s4(2)] b obtain s5 where
      s5: "readExact (length name) s4 = Inr (name, s5)" "scans s5 (p + int (length ?b)) rest"
      by (auto simp: algebra_simps)
    have innerEnd: "wrap64 (ix_pos s2 + sint ?m) = p + int (length ?b)"
      using m s2(2) b assms(3,4) by (subst wrap64_id) (auto simp: scans_pos)
    have room: "\<not> wrap64 (p + int (length ?b) - ix_pos s4) < sint ?n"
      using n s4(2) b lb by (subst wrap64_id) (auto simp: scans_pos)
    show ?thesis using s1(1) s2(1) s3(1) s4(1) s5 envEnd innerEnd room m n scans_pos [OF s5(2)]
      by (simp add: readStoreName_def Let_def)
  qed
qed

section \<open>The index of a stream\<close>

text \<open>A section is a store's name and the nodes that follow it.\<close>

type_synonym section_ = "bytes \<times> snapItem list"

definition section_items :: "section_ \<Rightarrow> snapItem list" where
  "section_items x = StoreItem (fst x) # snd x"

abbreviation section_wire :: "section_ \<Rightarrow> bytes" where
  "section_wire x \<equiv> items_wire (section_items x)"

definition section_ok :: "section_ \<Rightarrow> bool" where
  "section_ok x \<longleftrightarrow> list_all item_small (section_items x) \<and> list_all is_iavl (snd x)"

definition entry_of :: "int \<Rightarrow> section_ \<Rightarrow> StoreEntry" where
  "entry_of p x =
     \<lparr>se_Name = fst x, se_DecompressedStart = p, se_DecompressedEnd = p + int (length (section_wire x)),
      se_ItemCount = of_nat (Suc (length (snd x))),
      se_IAVLBytes = int (sum_list (map (length \<circ> item_body) (snd x)))\<rparr>"

fun entries_of :: "int \<Rightarrow> section_ list \<Rightarrow> StoreEntry list" where
  "entries_of p [] = []"
| "entries_of p (x # xs) = entry_of p x # entries_of (p + int (length (section_wire x))) xs"

text \<open>The calls a pass makes, and their combined effect.\<close>

datatype index_event = Opened StoreEntry | Closed bytes int

fun run_events :: "('c, 'y) indexCallbacks \<Rightarrow> index_event list \<Rightarrow> 'c \<Rightarrow> 'y + 'c" where
  "run_events cb [] c = Inr c"
| "run_events cb (Opened e # evs) c =
     (case onOpen cb of None \<Rightarrow> run_events cb evs c | Some f \<Rightarrow> try_as id (f c e) (run_events cb evs))"
| "run_events cb (Closed n p # evs) c =
     (case onClose cb of None \<Rightarrow> run_events cb evs c | Some f \<Rightarrow> try_as id (f c n p) (run_events cb evs))"

definition entry_events :: "StoreEntry \<Rightarrow> index_event list" where
  "entry_events e = [Opened (newEntry (se_Name e) (se_DecompressedStart e)), Closed (se_Name e) (se_DecompressedEnd e)]"

lemma try_as_split:
  "P (try_as f m k) \<longleftrightarrow> (\<forall>e. m = Inl e \<longrightarrow> P (Inl (f e))) \<and> (\<forall>x. m = Inr x \<longrightarrow> P (k x))"
  by (cases m) auto

lemma run_events_append: "run_events cb (xs @ ys) c = try_as id (run_events cb xs c) (run_events cb ys)"
  by (induction cb xs c rule: run_events.induct) (simp_all split: option.splits try_as_split)

subsection \<open>Nodes of the current store\<close>

definition grow :: "snapItem list \<Rightarrow> StoreEntry \<Rightarrow> StoreEntry" where
  "grow its e = e\<lparr>se_IAVLBytes := se_IAVLBytes e + int (sum_list (map (length \<circ> item_body) its)),
     se_ItemCount := se_ItemCount e + of_nat (length its)\<rparr>"

definition addItems :: "nat \<Rightarrow> SnapshotIndex \<Rightarrow> SnapshotIndex" where
  "addItems n idx = idx\<lparr>sx_TotalItems := sx_TotalItems idx + of_nat n\<rparr>"

lemma indexFrom_iavl_item:
  assumes "scans s p (item_wire it @ rest)" and "item_small it" and "is_iavl it"
  shows "\<exists>s'. scans s' (p + int (length (item_wire it))) rest \<and>
    (\<forall>c. indexFrom_loop cb s cur idx c = indexFrom_loop cb s' cur
      (addItem (updCur cur (countIAVL (of_nat (length (item_body it)))) idx)) c)"
proof -
  let ?n = "of_nat (length (item_body it)) :: u64"
  from item_prefix [OF assms(1)] obtain s1 s2 tag where a:
    "readUvarint s = Inr (Some ?n, s1)" "peekByte s1 = Inr (tag, s2)" "drop_bit 3 tag = of_nat (item_type it)"
    "scans s2 (p + int (length (PutUvarint ?n))) (item_body it @ rest)" by blast
  from discard_item [OF a(4) assms(2)] obtain s3 where s3:
    "discard s2 (sint ?n) = Inr s3" "scans s3 (p + int (length (item_wire it))) rest"
    by (auto simp: item_wire_def add.assoc)
  from assms(3) have "item_type it = 2" by (cases it) auto
  with a s3 small_len(2) [OF assms(2)] show ?thesis
    by (intro exI [of _ s3]) (simp add: indexFrom_loop.simps [of cb s] indexItemFrom_def)
qed

lemma indexFrom_iavls:
  "\<lbrakk>scans s p (items_wire its @ rest); list_all item_small its; list_all is_iavl its;
    sx_Stores idx = es @ [e]; 0 \<le> se_IAVLBytes e; se_IAVLBytes e + int (length (items_wire its)) < 2 ^ 63\<rbrakk> \<Longrightarrow>
   \<exists>s'. scans s' (p + int (length (items_wire its))) rest \<and>
     (\<forall>c. indexFrom_loop cb s True idx c =
       indexFrom_loop cb s' True (addItems (length its) (idx\<lparr>sx_Stores := es @ [grow its e]\<rparr>)) c)"
proof (induction its arbitrary: s p idx e)
  case Nil
  then have "addItems 0 (idx\<lparr>sx_Stores := es @ [grow [] e]\<rparr>) = idx" by (simp add: addItems_def grow_def)
  with Nil show ?case by auto
next
  case (Cons it its)
  have lw: "length (item_body it) < length (item_wire it)" using length_PutUvarint(1) by (simp add: item_wire_def)
  from Cons.prems indexFrom_iavl_item [of s p it "items_wire its @ rest" cb True idx] obtain s1 where s1:
    "scans s1 (p + int (length (item_wire it))) (items_wire its @ rest)"
    "\<forall>c. indexFrom_loop cb s True idx c = indexFrom_loop cb s1 True
      (addItem (updCur True (countIAVL (of_nat (length (item_body it)))) idx)) c" by auto
  let ?e = "grow [it] e" and ?idx = "addItem (updCur True (countIAVL (of_nat (length (item_body it)))) idx)"
  have e: "countIAVL (of_nat (length (item_body it))) e = ?e"
    using Cons.prems lw small_len(1) by (simp add: countIAVL_def grow_def wrap64_id)
  then have "sx_Stores ?idx = es @ [?e]" using Cons.prems(4) by (simp add: addItem_def updCur_def updLast_def)
  from Cons.IH [OF s1(1) _ _ this] Cons.prems lw obtain s2 where s2:
    "scans s2 (p + int (length (item_wire it)) + int (length (items_wire its))) rest"
    "\<forall>c. indexFrom_loop cb s1 True ?idx c =
       indexFrom_loop cb s2 True (addItems (length its) (?idx\<lparr>sx_Stores := es @ [grow its ?e]\<rparr>)) c"
    by (auto simp: grow_def)
  have "addItems (length its) (?idx\<lparr>sx_Stores := es @ [grow its ?e]\<rparr>) =
      addItems (length (it # its)) (idx\<lparr>sx_Stores := es @ [grow (it # its) e]\<rparr>)"
    by (simp add: addItems_def addItem_def updCur_def grow_def algebra_simps)
  with s1(2) s2 show ?case by (auto simp: algebra_simps)
qed

subsection \<open>Sections\<close>

text \<open>At a store, an extension item or the end of the stream the pass first closes the current store.\<close>

definition section_start :: "bytes \<Rightarrow> bool" where
  "section_start bs \<longleftrightarrow> bs = [] \<or> (\<exists>it rest. bs = item_wire it @ rest \<and> item_small it \<and> \<not> is_iavl it)"

lemma indexFrom_close_first:
  assumes "scans s p bs" and "section_start bs" and "0 \<le> p" and "p + int (length bs) < 2 ^ 63"
  shows "indexFrom_loop cb s cur idx c =
    try_as id (closeCur cb p cur idx c) (\<lambda>(idx, c). indexFrom_loop cb s False idx c)"
proof (cases "bs = []")
  case True
  then show ?thesis using assms(1)
    by (simp add: indexFrom_loop.simps [of cb s] readUvarint_scans_end scans_pos closeCur_def [of cb p False]
        split: try_as_split)
next
  case False
  with assms(2) obtain it rest where bs: "bs = item_wire it @ rest" "item_small it" "\<not> is_iavl it"
    by (auto simp: section_start_def)
  let ?n = "of_nat (length (item_body it)) :: u64"
  from item_prefix [of s p it rest] assms(1) bs(1) obtain s1 s2 tag where a:
    "readUvarint s = Inr (Some ?n, s1)" "peekByte s1 = Inr (tag, s2)" "drop_bit 3 tag = of_nat (item_type it)"
    "scans s2 (p + int (length (PutUvarint ?n))) (item_body it @ rest)" by blast
  have "indexItemFrom cb s2 p ?n tag cur idx c =
      try_as id (closeCur cb p cur idx c) (\<lambda>(idx, c). indexItemFrom cb s2 p ?n tag False idx c)"
  proof (cases it)
    case (StoreItem name)
    with readStoreName_item [of s2 "p + int (length (PutUvarint ?n))" name rest] a(4) bs assms(3,4)
    obtain s3 where "readStoreName s2 ?n = Inr (name, s3)" by (auto simp: item_wire_def)
    with StoreItem a(3) show ?thesis
      by (simp add: indexItemFrom_def closeCur_def [of cb p False] split: try_as_split)
  qed (use a(3) bs(3) in \<open>simp_all add: indexItemFrom_def closeCur_def [of cb p False] split: try_as_split\<close>)
  with a small_len(2) [OF bs(2)] assms(1) show ?thesis
    by (simp add: indexFrom_loop.simps [of cb s] scans_pos split: try_as_split)
qed

lemma indexFrom_store_item:
  assumes "scans s p (item_wire (StoreItem name) @ rest)" and "item_small (StoreItem name)"
    and "0 \<le> p" and "p + int (length (item_wire (StoreItem name))) < 2 ^ 63"
  shows "\<exists>s'. scans s' (p + int (length (item_wire (StoreItem name)))) rest \<and>
    (\<forall>c. indexFrom_loop cb s False idx c = try_as Callback (run_events cb [Opened (newEntry name p)] c)
      (indexFrom_loop cb s' True (addItem (idx\<lparr>sx_Stores := sx_Stores idx @ [newEntry name p]\<rparr>))))"
proof -
  let ?it = "StoreItem name"
  let ?n = "of_nat (length (item_body ?it)) :: u64"
  from item_prefix [OF assms(1)] obtain s1 s2 tag where a:
    "readUvarint s = Inr (Some ?n, s1)" "peekByte s1 = Inr (tag, s2)" "drop_bit 3 tag = of_nat (item_type ?it)"
    "scans s2 (p + int (length (PutUvarint ?n))) (item_body ?it @ rest)" by blast
  from readStoreName_item [OF a(4) assms(2)] assms(3,4) obtain s3 where
    s3: "readStoreName s2 ?n = Inr (name, s3)" "scans s3 (p + int (length (item_wire ?it))) rest"
    by (auto simp: item_wire_def add.assoc)
  with a small_len(2) [OF assms(2)] assms(1) show ?thesis
    by (intro exI [of _ s3])
      (simp add: indexFrom_loop.simps [of cb s] scans_pos indexItemFrom_def closeCur_def split: option.splits try_as_split)
qed

lemma section_start_section: "section_ok x \<Longrightarrow> section_start (section_wire x @ rest)"
  unfolding section_start_def
  by (rule disjI2, rule exI [of _ "StoreItem (fst x)"]) (auto simp: section_ok_def section_items_def)

lemma indexFrom_section:
  fixes s :: "'x indexScanner" and cb :: "('c, 'y) indexCallbacks"
  assumes "scans s p (section_wire x @ rest)" and "section_ok x" and "section_start rest"
    and "0 \<le> p" and "p + int (length (section_wire x @ rest)) < 2 ^ 63"
  shows "\<exists>s'. scans s' (p + int (length (section_wire x))) rest \<and>
    (\<forall>c. indexFrom_loop cb s False idx c = try_as Callback (run_events cb (entry_events (entry_of p x)) c)
      (indexFrom_loop cb s' False (addItems (Suc (length (snd x))) (idx\<lparr>sx_Stores := sx_Stores idx @ [entry_of p x]\<rparr>))))"
proof -
  obtain name its where x: "x = (name, its)" by fastforce
  have w: "section_wire x = item_wire (StoreItem name) @ items_wire its" by (simp add: x section_items_def)
  from indexFrom_store_item [of s p name "items_wire its @ rest" cb idx] assms w x obtain s1 where
    s1: "scans s1 (p + int (length (item_wire (StoreItem name)))) (items_wire its @ rest)"
      "\<forall>c. indexFrom_loop cb s False idx c = try_as Callback (run_events cb [Opened (newEntry name p)] c)
        (indexFrom_loop cb s1 True (addItem (idx\<lparr>sx_Stores := sx_Stores idx @ [newEntry name p]\<rparr>)))"
    by (auto simp: section_ok_def section_items_def)
  let ?idx = "addItem (idx\<lparr>sx_Stores := sx_Stores idx @ [newEntry name p]\<rparr>)"
  let ?idx' = "addItems (length its) (?idx\<lparr>sx_Stores := sx_Stores idx @ [grow its (newEntry name p)]\<rparr>)"
  let ?q = "p + int (length (section_wire x))"
  have "sx_Stores ?idx = sx_Stores idx @ [newEntry name p]" by (simp add: addItem_def)
  from indexFrom_iavls [OF s1(1) _ _ this, of cb] assms(2,4,5) w obtain s2 where
    s2: "scans s2 ?q rest" "\<forall>c. indexFrom_loop cb s1 True ?idx c = indexFrom_loop cb s2 True ?idx' c"
    by (auto simp: section_ok_def section_items_def x newEntry_def add.assoc)
  let ?e = "grow its (newEntry name p)"
  have e: "?e\<lparr>se_DecompressedEnd := ?q\<rparr> = entry_of p x"
    by (simp add: entry_of_def x grow_def newEntry_def)
  have idx: "updCur True (\<lambda>e. e\<lparr>se_DecompressedEnd := ?q\<rparr>) ?idx' =
      addItems (Suc (length (snd x))) (idx\<lparr>sx_Stores := sx_Stores idx @ [entry_of p x]\<rparr>)"
    unfolding e [symmetric] by (simp add: updCur_def updLast_def addItems_def addItem_def x)
  have last: "se_Name (last (sx_Stores ?idx')) = name"
    by (simp add: addItems_def grow_def newEntry_def)
  have close: "closeCur cb ?q True ?idx' c = (try_as Callback (run_events cb [Closed name ?q] c)
      (\<lambda>c. Inr (addItems (Suc (length (snd x))) (idx\<lparr>sx_Stores := sx_Stores idx @ [entry_of p x]\<rparr>), c))
      :: ('x, 'y) index_error + _)" for c
    using idx last by (simp add: closeCur_def Let_def split: option.splits try_as_split)
  have ev: "entry_events (entry_of p x) = [Opened (newEntry name p)] @ [Closed name ?q]"
    by (simp add: entry_events_def entry_of_def x)
  have "indexFrom_loop cb s2 True ?idx' c = try_as id (closeCur cb ?q True ?idx' c)
      (\<lambda>(idx, c). indexFrom_loop cb s2 False idx c)" for c
    using assms(3-5) w by (intro indexFrom_close_first [OF s2(1)]) (auto simp: x)
  then show ?thesis using s1(2) s2 close
    unfolding ev run_events_append
    by (intro exI [of _ s2]) (simp split: try_as_split)
qed

definition sections_wire :: "section_ list \<Rightarrow> bytes" where
  "sections_wire xs = concat (map (\<lambda>x. items_wire (section_items x)) xs)"

lemma indexFrom_sections:
  "\<lbrakk>scans s p (sections_wire xs @ rest); list_all section_ok xs; section_start rest; 0 \<le> p;
    p + int (length (sections_wire xs @ rest)) < 2 ^ 63\<rbrakk> \<Longrightarrow>
   \<exists>s'. scans s' (p + int (length (sections_wire xs))) rest \<and>
     (\<forall>c. indexFrom_loop cb s False idx c =
        try_as Callback (run_events cb (concat (map entry_events (entries_of p xs))) c)
          (indexFrom_loop cb s' False
            (addItems (sum_list (map (\<lambda>x. Suc (length (snd x))) xs))
              (idx\<lparr>sx_Stores := sx_Stores idx @ entries_of p xs\<rparr>))))"
proof (induction xs arbitrary: s p idx)
  case Nil
  then have "addItems 0 (idx\<lparr>sx_Stores := sx_Stores idx @ entries_of p []\<rparr>) = idx" by (simp add: addItems_def)
  with Nil show ?case by (auto simp: sections_wire_def)
next
  case (Cons x xs)
  have w: "sections_wire (x # xs) = section_wire x @ sections_wire xs" by (simp add: sections_wire_def)
  have start: "section_start (sections_wire xs @ rest)"
    using Cons.prems(2,3) section_start_section by (cases xs) (auto simp: sections_wire_def)
  let ?idx = "addItems (Suc (length (snd x))) (idx\<lparr>sx_Stores := sx_Stores idx @ [entry_of p x]\<rparr>)"
  from indexFrom_section [of s p x "sections_wire xs @ rest" cb idx] Cons.prems w start obtain s1 where s1:
    "scans s1 (p + int (length (section_wire x))) (sections_wire xs @ rest)"
    "\<forall>c. indexFrom_loop cb s False idx c = try_as Callback (run_events cb (entry_events (entry_of p x)) c)
       (indexFrom_loop cb s1 False ?idx)" by auto
  from Cons.IH [OF s1(1), of ?idx] Cons.prems w obtain s2 where s2:
    "scans s2 (p + int (length (section_wire x)) + int (length (sections_wire xs))) rest"
    "\<forall>c. indexFrom_loop cb s1 False ?idx c =
        try_as Callback (run_events cb (concat (map entry_events (entries_of (p + int (length (section_wire x))) xs))) c)
          (indexFrom_loop cb s2 False
            (addItems (sum_list (map (\<lambda>x. Suc (length (snd x))) xs))
              (?idx\<lparr>sx_Stores := sx_Stores ?idx @ entries_of (p + int (length (section_wire x))) xs\<rparr>)))"
    by auto
  have "addItems (sum_list (map (\<lambda>x. Suc (length (snd x))) xs))
        (?idx\<lparr>sx_Stores := sx_Stores ?idx @ entries_of (p + int (length (section_wire x))) xs\<rparr>) =
      addItems (sum_list (map (\<lambda>x. Suc (length (snd x))) (x # xs)))
        (idx\<lparr>sx_Stores := sx_Stores idx @ entries_of p (x # xs)\<rparr>)"
    by (simp add: addItems_def algebra_simps)
  with s1(2) s2 show ?case
    by (intro exI [of _ s2]) (simp add: w run_events_append add.assoc split: try_as_split)
qed

subsection \<open>Extensions\<close>

lemma indexFrom_ext_item:
  assumes "scans s p (item_wire it @ rest)" and "item_small it" and "is_ext it"
  shows "\<exists>s'. scans s' (p + int (length (item_wire it))) rest \<and>
    (\<forall>c. indexFrom_loop cb s False idx c = indexFrom_loop cb s' False
      (addItem (if sx_ExtStart idx = 0 then idx\<lparr>sx_ExtStart := p\<rparr> else idx)) c)"
proof -
  let ?n = "of_nat (length (item_body it)) :: u64"
  from item_prefix [OF assms(1)] obtain s1 s2 tag where a:
    "readUvarint s = Inr (Some ?n, s1)" "peekByte s1 = Inr (tag, s2)" "drop_bit 3 tag = of_nat (item_type it)"
    "scans s2 (p + int (length (PutUvarint ?n))) (item_body it @ rest)" by blast
  from discard_item [OF a(4) assms(2)] obtain s3 where s3:
    "discard s2 (sint ?n) = Inr s3" "scans s3 (p + int (length (item_wire it))) rest"
    by (auto simp: item_wire_def add.assoc)
  from assms(3) have "item_type it = 3 \<or> item_type it = 4" by (cases it) auto
  with a s3 small_len(2) [OF assms(2)] scans_pos [OF assms(1)] show ?thesis
    by (intro exI [of _ s3]) (auto simp: indexFrom_loop.simps [of cb s] indexItemFrom_def closeCur_def Let_def)
qed

lemma indexFrom_exts:
  "\<lbrakk>scans s p (items_wire its); list_all item_small its; list_all is_ext its; 0 < p\<rbrakk> \<Longrightarrow>
   indexFrom_loop cb s False idx c =
     Inr ((addItems (length its) (if sx_ExtStart idx = 0 \<and> its \<noteq> [] then idx\<lparr>sx_ExtStart := p\<rparr> else idx))
            \<lparr>sx_TotalBytes := p + int (length (items_wire its))\<rparr>, c)"
proof (induction its arbitrary: s p idx)
  case Nil
  then show ?case
    by (simp add: indexFrom_loop.simps readUvarint_scans_end scans_pos closeCur_def addItems_def)
next
  case (Cons it its)
  let ?idx = "addItem (if sx_ExtStart idx = 0 then idx\<lparr>sx_ExtStart := p\<rparr> else idx)"
  from indexFrom_ext_item [of s p it "items_wire its" cb idx] Cons.prems obtain s1 where s1:
    "scans s1 (p + int (length (item_wire it))) (items_wire its)"
    "indexFrom_loop cb s False idx c = indexFrom_loop cb s1 False ?idx c" by auto
  from Cons.IH [OF s1(1), of ?idx] Cons.prems s1(2) show ?case
    by (simp add: addItems_def addItem_def add.assoc)
qed

section \<open>Properties\<close>

definition slice :: "bytes \<Rightarrow> StoreEntry \<Rightarrow> bytes" where
  "slice bs e = take (nat (se_DecompressedEnd e - se_DecompressedStart e)) (drop (nat (se_DecompressedStart e)) bs)"

lemma entries_slice:
  "list_all2 (\<lambda>e x. slice (pre @ sections_wire xs @ rest) e = section_wire x) (entries_of (int (length pre)) xs) xs"
proof (induction xs arbitrary: pre)
  case (Cons x xs)
  have "list_all2 (\<lambda>e y. slice ((pre @ section_wire x) @ sections_wire xs @ rest) e = section_wire y)
      (entries_of (int (length (pre @ section_wire x))) xs) xs" by (rule Cons.IH)
  then show ?case by (simp add: sections_wire_def slice_def entry_of_def)
qed simp

lemma readItems_wire:
  "list_all item_ok its \<Longrightarrow> list_all item_small its \<Longrightarrow>
   readItems (newSnapReader (items_wire its) b) = Some (its, NextEOF)"
proof -
  assume a: "list_all item_ok its" "list_all item_small its"
  have "stream_wire (map Some its) = items_wire its" by (induction its) (auto simp: items_wire_def)
  moreover have "stream_items (map Some its) = its" by (induction its) auto
  ultimately show ?thesis
    using readItems_stream [of "map Some its" b] a by (auto simp: list_all_iff)
qed

lemma indexFrom_stream:
  assumes "delivered r = Some (sections_wire xs @ items_wire exts)"
    and "list_all section_ok xs" and "list_all item_small exts" and "list_all is_ext exts"
    and "xs \<noteq> [] \<or> exts = []" and "int (length (sections_wire xs @ items_wire exts)) < 2 ^ 63"
  shows "indexFrom_loop cb (newIndexScanner r) False newIndex c =
    try_as Callback (run_events cb (concat (map entry_events (entries_of 0 xs))) c) (\<lambda>c. Inr
      (\<lparr>sx_Stores = entries_of 0 xs,
        sx_ExtStart = (if exts = [] then 0 else int (length (sections_wire xs))),
        sx_TotalItems = of_nat (sum_list (map (\<lambda>x. Suc (length (snd x))) xs) + length exts),
        sx_TotalBytes = int (length (sections_wire xs @ items_wire exts))\<rparr>, c))"
proof -
  have start: "section_start (items_wire exts)"
    using assms(3,4) ext_not_iavl by (cases exts) (fastforce simp: section_start_def)+
  from indexFrom_sections [OF scans_new [OF assms(1)] assms(2) start] assms(6) obtain s1 where s1:
    "scans s1 (int (length (sections_wire xs))) (items_wire exts)"
    "\<forall>c. indexFrom_loop cb (newIndexScanner r) False newIndex c =
        try_as Callback (run_events cb (concat (map entry_events (entries_of 0 xs))) c)
          (indexFrom_loop cb s1 False (addItems (sum_list (map (\<lambda>x. Suc (length (snd x))) xs))
              (newIndex\<lparr>sx_Stores := sx_Stores newIndex @ entries_of 0 xs\<rparr>)))"
    by fastforce
  have "0 < length (sections_wire xs) \<or> exts = []"
    using assms(5) length_PutUvarint(1) by (cases xs) (auto simp: sections_wire_def section_items_def item_wire_def)
  then have "indexFrom_loop cb s1 False (addItems (sum_list (map (\<lambda>x. Suc (length (snd x))) xs))
              (newIndex\<lparr>sx_Stores := sx_Stores newIndex @ entries_of 0 xs\<rparr>)) c =
      Inr (\<lparr>sx_Stores = entries_of 0 xs,
        sx_ExtStart = (if exts = [] then 0 else int (length (sections_wire xs))),
        sx_TotalItems = of_nat (sum_list (map (\<lambda>x. Suc (length (snd x))) xs) + length exts),
        sx_TotalBytes = int (length (sections_wire xs @ items_wire exts))\<rparr>, c)" for c
  proof
    assume "0 < length (sections_wire xs)"
    then have "0 < int (length (sections_wire xs))" by simp
    then show ?thesis by (subst indexFrom_exts [OF s1(1) assms(3,4)]) (simp_all add: addItems_def newIndex_def)
  next
    assume "exts = []"
    with s1(1) show ?thesis
      by (simp add: indexFrom_loop.simps readUvarint_scans_end scans_pos closeCur_def addItems_def newIndex_def)
  qed
  with s1(2) show ?thesis by (simp only: split: try_as_split) simp
qed

text \<open>
  C6. However the underlying reads are split, a pass over the wire form of stores and extensions
  reports every store exactly once and in stream order, opening it at its first byte and closing it
  at its end, and stops at the first callback that fails.  The index it returns holds the stores
  sorted by size, largest first and stable, and each store's offsets delimit exactly the bytes of
  that store: a reader over that slice returns the store's items and no other.
\<close>

theorem index_delimits_stores:
  assumes "delivered r = Some bs" and "bs = sections_wire xs @ items_wire exts"
    and "list_all section_ok xs" and "list_all (list_all item_ok \<circ> section_items) xs"
    and "list_all item_small exts" and "list_all is_ext exts"
    and "xs \<noteq> [] \<or> exts = []" and "int (length bs) < 2 ^ 63"
  shows "buildIndexFromReader r cb c =
      try_as Callback (run_events cb (concat (map entry_events (entries_of 0 xs))) c) (\<lambda>c. Inr
        (\<lparr>sx_Stores = sort_key (\<lambda>e. - se_IAVLBytes e) (entries_of 0 xs),
          sx_ExtStart = (if exts = [] then 0 else int (length (sections_wire xs))),
          sx_TotalItems = of_nat (sum_list (map (\<lambda>x. Suc (length (snd x))) xs) + length exts),
          sx_TotalBytes = int (length bs)\<rparr>, c)) \<and>
    list_all2 (\<lambda>e x. readItems (newSnapReader (slice bs e) pinner) = Some (section_items x, NextEOF))
      (entries_of 0 xs) xs"
proof
  show "buildIndexFromReader r cb c =
      try_as Callback (run_events cb (concat (map entry_events (entries_of 0 xs))) c) (\<lambda>c. Inr
        (\<lparr>sx_Stores = sort_key (\<lambda>e. - se_IAVLBytes e) (entries_of 0 xs),
          sx_ExtStart = (if exts = [] then 0 else int (length (sections_wire xs))),
          sx_TotalItems = of_nat (sum_list (map (\<lambda>x. Suc (length (snd x))) xs) + length exts),
          sx_TotalBytes = int (length bs)\<rparr>, c))"
    using assms indexFrom_stream [of r xs exts cb c]
    by (simp add: buildIndexFromReader_def sortStores_def split: try_as_split)
  have "list_all2 (\<lambda>e x. slice bs e = section_wire x) (entries_of 0 xs) xs"
    using entries_slice [of "[]" xs "items_wire exts"] assms(2) by simp
  then have "list_all2 (\<lambda>e x. slice bs e = section_wire x \<and> x \<in> set xs) (entries_of 0 xs) xs"
    by (simp add: list_all2_conv_all_nth)
  then show "list_all2 (\<lambda>e x. readItems (newSnapReader (slice bs e) pinner) = Some (section_items x, NextEOF))
      (entries_of 0 xs) xs"
    by (rule list_all2_mono) (use assms(3,4) in \<open>auto simp: list_all_iff section_ok_def intro!: readItems_wire\<close>)
qed

definition ex_sections :: "section_ list" where
  "ex_sections = [([0x61], [IAVLItem (Some [1]) (Some [9]) 5 0]), ([0x62], [])]"

definition ex_exts :: "snapItem list" where
  "ex_exts = [ExtMeta [0x77] 1]"

definition recorder :: "(index_event list, unit) indexCallbacks" where
  "recorder = \<lparr>onOpen = Some (\<lambda>c e. Inr (c @ [Opened e])), onClose = Some (\<lambda>c n p. Inr (c @ [Closed n p]))\<rparr>"

lemma ex_wire:
  "sections_wire ex_sections = [5, 10, 3, 10, 1, 97, 10, 18, 8, 10, 1, 1, 18, 1, 9, 24, 5, 5, 10, 3, 10, 1, 98]"
  "items_wire ex_exts = [7, 26, 5, 10, 1, 119, 16, 1]"
  by (simp_all add: sections_wire_def ex_sections_def ex_exts_def section_items_def item_wire_def item_body_def
      appendBytesField_def appendUvarintField_def enc_fields_def opt_defs field_tag_def PutUvarint.simps)

theorem index_delimits_stores_witness:
  "\<exists>idx. buildIndexFromReader [([5, 10, 3, 10, 1, 97, 10, 18, 8, 10, 1, 1, 18, 1], None),
       ([9, 24, 5, 5, 10, 3, 10, 1, 98], None), ([7, 26, 5, 10, 1, 119, 16, 1], Some IoEOF)] recorder [] =
     (Inr (idx, [Opened (newEntry [0x61] 0), Closed [0x61] 17, Opened (newEntry [0x62] 17), Closed [0x62] 23])
       :: (unit, unit) index_error + _) \<and> sx_ExtStart idx = 23"
  using index_delimits_stores [of "[([5, 10, 3, 10, 1, 97, 10, 18, 8, 10, 1, 1, 18, 1], None),
       ([9, 24, 5, 5, 10, 3, 10, 1, 98], None), ([7, 26, 5, 10, 1, 119, 16, 1], Some (IoEOF :: unit io_error))]"
       _ ex_sections ex_exts recorder "[]" True, OF _ refl]
  unfolding ex_wire
  by (simp add: ex_sections_def ex_exts_def section_ok_def section_items_def item_small_def item_wire_def item_body_def
      appendBytesField_def appendUvarintField_def enc_fields_def opt_defs field_tag_def PutUvarint.simps
      entry_events_def entry_of_def recorder_def)

section \<open>The two passes agree\<close>

lemma fill_pos: "fill s n = Inr s' \<Longrightarrow> ix_pos s' = ix_pos s"
  by (auto simp: fill_def split: sum.splits)

lemma readByte_pos: "readByte s = Inr (b, s') \<Longrightarrow> ix_pos s' = ix_pos s + 1"
  by (auto simp: readByte_def dest: fill_pos split: sum.splits)

lemma peekByte_pos: "peekByte s = Inr (b, s') \<Longrightarrow> ix_pos s' = ix_pos s"
  by (auto simp: peekByte_def dest: fill_pos split: sum.splits)

lemma readUvarint_loop_pos: "readUvarint_loop i v sh s = Inr (Some x, s') \<Longrightarrow> ix_pos s < ix_pos s'"
proof (induction i v sh s rule: readUvarint_loop.induct)
  case (1 i v shift s)
  from "1.prems" obtain b s1 where r: "readByte s = Inr (b, s1)" and i: "\<not> 10 \<le> i"
    by (auto simp: readUvarint_loop.simps [of i] split: if_splits sum.splits)
  note t = readByte_pos [OF r]
  show ?case
  proof (cases "b < 128")
    case True
    then show ?thesis using "1.prems" r i t by (auto simp: readUvarint_loop.simps [of i])
  next
    case False
    with "1.IH" [OF i r refl False] "1.prems" r i t show ?thesis
      by (simp add: readUvarint_loop.simps [of i])
  qed
qed

lemma readUvarint_pos: "readUvarint s = Inr (Some x, s') \<Longrightarrow> ix_pos s < ix_pos s'"
  unfolding readUvarint_def by (rule readUvarint_loop_pos)

lemma discard_loop_pos: "discard_loop n buf pos r = Inr s' \<Longrightarrow> pos \<le> ix_pos s'"
proof (induction r arbitrary: n buf pos)
  case (Cons a r)
  obtain d e where a: "a = (d, e)" by fastforce
  have step: "discard_loop n d (pos + int (length buf)) r = Inr s' \<Longrightarrow> pos \<le> ix_pos s'" for n
    using Cons.IH [of n d "pos + int (length buf)"] by simp
  from Cons.prems a show ?case
    by (auto simp: discard_loop.simps [of n buf pos] Let_def split: if_splits option.splits dest: step)
qed (auto simp: discard_loop.simps Let_def split: if_splits)

lemma discard_pos: "discard s n = Inr s' \<Longrightarrow> ix_pos s \<le> ix_pos s'"
  using discard_loop_pos [of n "ix_buf s" "ix_pos s" "ix_r s" s'] by (simp add: discard_def)

lemma readExact_pos: "readExact n s = Inr (p, s') \<Longrightarrow> ix_pos s \<le> ix_pos s'"
proof (induction n s arbitrary: p s' rule: readExact.induct)
  case (1 n s)
  show ?case
  proof (cases "n = 0")
    case True
    then show ?thesis using "1.prems" by (simp add: readExact.simps)
  next
    case False
    then obtain s1 where f: "fill s 1 = Inr s1" using "1.prems"
      by (auto simp: readExact.simps [of n] split: sum.splits)
    from "1.IH" [OF False f refl refl] "1.prems" f False fill_pos [OF f] show ?thesis
      by (fastforce simp: readExact.simps [of n] Let_def split: sum.splits)
  qed
qed

lemma skipTo_pos: "skipTo end s = Inr s' \<Longrightarrow> ix_pos s \<le> ix_pos s'"
  by (auto simp: skipTo_def try_as_Inr dest: discard_pos)

lemma readStoreName_pos: "readStoreName s envLen = Inr (name, s') \<Longrightarrow> ix_pos s \<le> ix_pos s'"
  by (auto simp: readStoreName_def try_as_Inr Let_def split: if_splits sum.splits option.splits
      dest!: readByte_pos readUvarint_pos skipTo_pos readExact_pos)

definition no_callbacks :: "(unit, unit) indexCallbacks" where
  "no_callbacks = \<lparr>onOpen = None, onClose = None\<rparr>"

lemma indexItemFrom_ExtStart:
  "indexItemFrom cb s p envLen tag cur idx c = Inr (s', cur', idx', c') \<Longrightarrow> sx_ExtStart idx \<noteq> 0 \<Longrightarrow>
   sx_ExtStart idx' = sx_ExtStart idx"
  by (auto simp: indexItemFrom_def closeCur_def updCur_def addItem_def try_as_Inr Let_def split: if_splits option.splits)

lemma indexFrom_loop_ExtStart:
  "indexFrom_loop cb s cur idx c = Inr (idx', c') \<Longrightarrow> sx_ExtStart idx \<noteq> 0 \<Longrightarrow> sx_ExtStart idx' = sx_ExtStart idx"
proof (induction cb s cur idx c rule: indexFrom_loop.induct)
  case (1 cb s cur idx c)
  show ?case
  proof (cases "\<exists>envLen s1. readUvarint s = Inr (Some envLen, s1)")
    case False
    with "1.prems" show ?thesis
      by (auto simp: indexFrom_loop.simps [of cb s] closeCur_def updCur_def try_as_Inr Let_def
          split: if_splits sum.splits option.splits)
  next
    case True
    then obtain envLen s1 where s1: "readUvarint s = Inr (Some envLen, s1)" by blast
    with "1.prems"(1) obtain tag s2 s3 cur' idx1 c1 where s2: "envLen \<noteq> 0" "peekByte s1 = Inr (tag, s2)"
      and s3: "indexItemFrom cb s2 (ix_pos s) envLen tag cur idx c = Inr (s3, cur', idx1, c1)"
      and l: "indexFrom_loop cb s3 cur' idx1 c1 = Inr (idx', c')"
      by (auto simp: indexFrom_loop.simps [of cb s] Let_def split: if_splits sum.splits option.splits)
    from indexItemFrom_ExtStart [OF s3 "1.prems"(2)]
      "1.IH" [OF refl s1 refl refl s2(1) s2(2) refl s3 refl refl refl l] "1.prems"(2) show ?thesis by simp
  qed
qed

lemma indexItem_agrees:
  assumes "indexItemFrom no_callbacks s p envLen tag cur idx () = Inr (s', cur', idx', ())"
    and "cur \<Longrightarrow> 0 < p" and "sx_ExtStart idx' = 0" and "cur \<longleftrightarrow> sx_Stores idx \<noteq> []" and "sx_ExtStart idx = 0"
  shows "indexItem s p envLen tag cur idx = Inr (s', cur', idx') \<and> (cur' \<longleftrightarrow> sx_Stores idx' \<noteq> []) \<and>
    ix_pos s \<le> ix_pos s'"
  using assms
  by (auto simp: indexItemFrom_def indexItem_def closeCur_def no_callbacks_def addItem_def updCur_def updLast_def
      try_as_Inr Let_def split: if_splits dest: readStoreName_pos discard_pos)

lemma BuildIndex_loop_agrees:
  "\<lbrakk>indexFrom_loop no_callbacks s cur idx () = Inr (idx', ()); sx_ExtStart idx' = 0; sx_ExtStart idx = 0;
    cur \<longleftrightarrow> sx_Stores idx \<noteq> []; cur \<Longrightarrow> 0 < ix_pos s; 0 \<le> ix_pos s\<rbrakk> \<Longrightarrow>
   BuildIndex_loop s cur idx = Inr idx' \<or> (\<exists>n. BuildIndex_loop s cur idx = Inl (EnvelopeOverCap n))"
proof (induction s cur idx rule: BuildIndex_loop.induct)
  case (1 s cur idx)
  show ?case
  proof (cases "\<exists>envLen s1. readUvarint s = Inr (Some envLen, s1)")
    case False
    with "1.prems"(1) show ?thesis
      by (auto simp: indexFrom_loop.simps [of _ s] BuildIndex_loop.simps [of s] closeCur_def no_callbacks_def
          updCur_def try_as_Inr Let_def split: if_splits sum.splits option.splits)
  next
    case True
    then obtain envLen s1 where s1: "readUvarint s = Inr (Some envLen, s1)" by blast
    with "1.prems"(1) obtain tag s2 s3 cur' idx1 where s2: "envLen \<noteq> 0" "peekByte s1 = Inr (tag, s2)"
      and s3: "indexItemFrom no_callbacks s2 (ix_pos s) envLen tag cur idx () = Inr (s3, cur', idx1, ())"
      and l: "indexFrom_loop no_callbacks s3 cur' idx1 () = Inr (idx', ())"
      by (auto simp: indexFrom_loop.simps [of _ s] Let_def split: if_splits sum.splits option.splits)
    have e: "sx_ExtStart idx1 = 0" using indexFrom_loop_ExtStart [OF l] "1.prems"(2) by auto
    from indexItem_agrees [OF s3 "1.prems"(5) e "1.prems"(4,3)] have
      i: "indexItem s2 (ix_pos s) envLen tag cur idx = Inr (s3, cur', idx1)"
        "cur' \<longleftrightarrow> sx_Stores idx1 \<noteq> []" "ix_pos s2 \<le> ix_pos s3" by auto
    have p: "0 < ix_pos s3" using readUvarint_pos [OF s1] peekByte_pos [OF s2(2)] i(3) "1.prems"(6) by simp
    show ?thesis
    proof (cases "maxEnvelopeBytes < envLen")
      case True
      then show ?thesis using s1 s2(1) by (simp add: BuildIndex_loop.simps [of s])
    next
      case False
      from "1.IH" [OF refl s1 refl refl s2(1) False s2(2) refl i(1) refl refl l "1.prems"(2) e i(2)] p
      show ?thesis using s1 s2 i(1) False by (simp add: BuildIndex_loop.simps [of s])
    qed
  qed
qed

lemma indexItem_over_cap: "indexItem s p envLen tag cur idx \<noteq> Inl (EnvelopeOverCap n)"
  by (auto simp: indexItem_def Let_def split: try_as_split)

lemma BuildIndex_loop_over_cap: "BuildIndex_loop s cur idx = Inl (EnvelopeOverCap n) \<Longrightarrow> maxEnvelopeBytes < n"
proof (induction s cur idx rule: BuildIndex_loop.induct)
  case (1 s cur idx)
  from "1.prems" obtain envLen s1 where s1: "readUvarint s = Inr (Some envLen, s1)" "envLen \<noteq> 0"
    by (auto simp: BuildIndex_loop.simps [of s] Let_def split: if_splits sum.splits option.splits)
  show ?case
  proof (cases "maxEnvelopeBytes < envLen")
    case True
    then show ?thesis using "1.prems" s1 by (auto simp: BuildIndex_loop.simps [of s])
  next
    case False
    with "1.prems" s1 obtain tag s2 s3 cur' idx' where s2: "peekByte s1 = Inr (tag, s2)"
      and s3: "indexItem s2 (ix_pos s) envLen tag cur idx = Inr (s3, cur', idx')"
      and l: "BuildIndex_loop s3 cur' idx' = Inl (EnvelopeOverCap n)"
      by (auto simp: BuildIndex_loop.simps [of s] Let_def indexItem_over_cap split: sum.splits)
    show ?thesis by (rule "1.IH" [OF refl s1(1) refl refl s1(2) False s2 refl s3 refl refl l])
  qed
qed

text \<open>
  Item by item the two passes read the same bytes and fail alike, whatever index they have
  built, but for the fields only the reader with callbacks refuses.
\<close>

lemma indexItem_reads:
  "case indexItemFrom no_callbacks s p envLen tag cur2 idx2 () of
     Inl e \<Rightarrow> (\<exists>f. f \<notin> {1, 2, 3, 4} \<and> e = UnknownField f) \<or> indexItem s p envLen tag cur idx = Inl e
   | Inr (s', _) \<Rightarrow> \<exists>cur' idx'. indexItem s p envLen tag cur idx = Inr (s', cur', idx')"
  by (cases "readStoreName s envLen"; cases "discard s (sint envLen)")
    (auto simp: indexItemFrom_def indexItem_def closeCur_def no_callbacks_def Let_def)

lemma closeCur_none:
  "closeCur no_callbacks end cur idx c = Inr (if cur then updCur True (\<lambda>e. e\<lparr>se_DecompressedEnd := end\<rparr>) idx else idx, c)"
  by (simp add: closeCur_def no_callbacks_def Let_def)

lemma BuildIndex_loop_reads:
  "(\<exists>n. BuildIndex_loop s cur idx = Inl (EnvelopeOverCap n)) \<or>
   (\<exists>f. f \<notin> {1, 2, 3, 4} \<and> indexFrom_loop no_callbacks s cur2 idx2 () = Inl (UnknownField f)) \<or>
   (case indexFrom_loop no_callbacks s cur2 idx2 () of
      Inl e \<Rightarrow> BuildIndex_loop s cur idx = Inl e
    | Inr _ \<Rightarrow> \<exists>idx'. BuildIndex_loop s cur idx = Inr idx')"
proof (induction s cur idx arbitrary: cur2 idx2 rule: BuildIndex_loop.induct)
  case (1 s cur idx)
  note unf = indexFrom_loop.simps [of no_callbacks s cur2 idx2] BuildIndex_loop.simps [of s cur idx]
  show ?case
  proof (cases "\<exists>envLen s1 tag s2. readUvarint s = Inr (Some envLen, s1) \<and> envLen \<noteq> 0 \<and>
      \<not> maxEnvelopeBytes < envLen \<and> peekByte s1 = Inr (tag, s2)")
    case False
    then show ?thesis
      by (auto simp: unf closeCur_none Let_def split: sum.split option.split)
  next
    case True
    then obtain envLen s1 tag s2 where
      s: "readUvarint s = Inr (Some envLen, s1)" "envLen \<noteq> 0" "\<not> maxEnvelopeBytes < envLen" "peekByte s1 = Inr (tag, s2)"
      by blast
    let ?f = "indexItemFrom no_callbacks s2 (ix_pos s) envLen tag cur2 idx2 ()"
    let ?i = "indexItem s2 (ix_pos s) envLen tag cur idx"
    note item = indexItem_reads [where s = s2 and p = "ix_pos s" and envLen = envLen and tag = tag and cur = cur and idx = idx
        and ?cur2.0 = cur2 and ?idx2.0 = idx2]
    show ?thesis
    proof (cases ?f)
      case (Inl e)
      with s item show ?thesis by (auto simp: unf)
    next
      case (Inr a)
      obtain s3 cur2' idx2' where a: "a = (s3, cur2', idx2', ())" by (cases a) auto
      with Inr item obtain cur' idx' where i: "?i = Inr (s3, cur', idx')" by auto
      have "BuildIndex_loop s cur idx = BuildIndex_loop s3 cur' idx'"
        and "indexFrom_loop no_callbacks s cur2 idx2 () = indexFrom_loop no_callbacks s3 cur2' idx2' ()"
        using s Inr a i by (simp_all add: unf)
      then show ?thesis
        using "1.IH" [OF refl s(1) refl refl s(2,3,4) refl i refl refl, of cur2' idx2'] by (simp only:)
    qed
  qed
qed

text \<open>
  C7. The two index passes agree on every reader, whatever bytes and errors it delivers.  Two
  checks are made by one of them only: \<open>BuildIndex\<close> stops at an envelope above its size cap, and
  \<open>buildIndexFromReader\<close> (here without callbacks) at an item of an unknown field, which \<open>BuildIndex\<close>
  skips.  Apart from these the passes fail with the same error or both succeed; and then the
  indexes are equal where \<open>buildIndexFromReader\<close> finds no extension tail.
\<close>

theorem BuildIndex_agrees:
  "(\<exists>n > maxEnvelopeBytes. BuildIndex r = Inl (EnvelopeOverCap n)) \<or>
   (\<exists>f. f \<notin> {1, 2, 3, 4} \<and> buildIndexFromReader r no_callbacks () = Inl (UnknownField f)) \<or>
   (case buildIndexFromReader r no_callbacks () of
      Inl e \<Rightarrow> BuildIndex r = Inl e
    | Inr (idx, _) \<Rightarrow> \<exists>idx'. BuildIndex r = Inr idx' \<and> (sx_ExtStart idx = 0 \<longrightarrow> idx' = idx))"
proof -
  let ?s = "newIndexScanner r"
  let ?b = "BuildIndex_loop ?s False newIndex" and ?f = "indexFrom_loop no_callbacks ?s False newIndex ()"
  have same: "?b = Inr idx \<or> (\<exists>n. ?b = Inl (EnvelopeOverCap n))" if "?f = Inr (idx, ())" "sx_ExtStart idx = 0" for idx
    using BuildIndex_loop_agrees [OF that] by (auto simp: newIndex_def newIndexScanner_def)
  have ext: "sx_ExtStart (sortStores idx) = sx_ExtStart idx" for idx by (simp add: sortStores_def)
  show ?thesis
    using BuildIndex_loop_reads [of ?s False newIndex False newIndex] BuildIndex_loop_over_cap [of ?s False newIndex] same
    by (cases ?f; cases ?b) (fastforce simp: BuildIndex_def buildIndexFromReader_def ext)+
qed

lemma run_events_none: "run_events no_callbacks evs c = Inr c"
  by (induction "no_callbacks" evs c rule: run_events.induct) (simp_all add: no_callbacks_def)

theorem BuildIndex_agrees_witness:
  "\<exists>idx. sx_Stores idx \<noteq> [] \<and> (BuildIndex [(sections_wire ex_sections, None :: unit io_error option)] = Inr idx \<or>
     (\<exists>n > maxEnvelopeBytes. BuildIndex [(sections_wire ex_sections, None :: unit io_error option)] = Inl (EnvelopeOverCap n)))"
proof -
  have "list_all section_ok ex_sections"
    by (simp add: ex_sections_def section_ok_def section_items_def item_small_def item_body_def
      appendBytesField_def appendUvarintField_def enc_fields_def opt_defs field_tag_def PutUvarint.simps)
  with indexFrom_stream [of "[(sections_wire ex_sections, None :: unit io_error option)]" ex_sections "[]" no_callbacks "()"]
  obtain idx where idx: "indexFrom_loop no_callbacks (newIndexScanner [(sections_wire ex_sections, None :: unit io_error option)]) False newIndex () = Inr (idx, ())"
    "sx_ExtStart idx = 0" "sx_Stores idx = entries_of 0 ex_sections"
    by (simp add: ex_wire run_events_none)
  then have "buildIndexFromReader [(sections_wire ex_sections, None :: unit io_error option)] no_callbacks () = Inr (sortStores idx, ())"
    by (simp add: buildIndexFromReader_def)
  with BuildIndex_agrees [of "[(sections_wire ex_sections, None :: unit io_error option)]"] idx show ?thesis
    by (intro exI [of _ "sortStores idx"])
      (auto simp: sortStores_def ex_sections_def dest: arg_cong [of _ _ length])
qed

text \<open>
  The index pass rejects an empty envelope, which the item reader skips: a stream that starts
  with one is imported by the sequential driver but not by the parallel one.
\<close>

theorem index_rejects_empty_envelope:
  assumes "delivered r = Some (0 # items_wire its)" and "list_all item_ok its" and "list_all item_small its"
  shows "buildIndexFromReader r cb c = Inl (ZeroEnvelope 0) \<and> BuildIndex r = Inl (ZeroEnvelope 0) \<and>
    readItems (newSnapReader (0 # items_wire its) pinner) = Some (its, NextEOF)"
proof -
  have z: "PutUvarint 0 = [0]" by (simp add: PutUvarint.simps)
  from readUvarint_scans [of "newIndexScanner r" 0 0 "items_wire its"] scans_new [OF assms(1)] z obtain s' where
    "readUvarint (newIndexScanner r) = Inr (Some 0, s')" by auto
  moreover have "stream_wire (None # map Some its) = 0 # items_wire its"
    by (induction its) (auto simp: items_wire_def z)
  moreover have "stream_items (None # map Some its) = its" by (induction its) auto
  ultimately show ?thesis
    using readItems_stream [of "None # map Some its" pinner] assms(2,3)
    by (simp add: buildIndexFromReader_def BuildIndex_def indexFrom_loop.simps BuildIndex_loop.simps Let_def
        newIndexScanner_def list_all_iff)
qed

theorem index_rejects_empty_envelope_witness:
  "buildIndexFromReader [(0 # items_wire [StoreItem [97]], None :: unit io_error option)] no_callbacks () = Inl (ZeroEnvelope 0)"
  using index_rejects_empty_envelope [of "[(0 # items_wire [StoreItem [97]], None :: unit io_error option)]" "[StoreItem [97]]" no_callbacks "()" True]
  by (simp add: item_small_def item_body_def appendBytesField_def enc_fields_def opt_defs PutUvarint.simps)

text \<open>
  Offset 0 doubles as the mark for a snapshot without extensions: when the stream starts with
  an extension item, the extension tail of the index starts at the second one, so the first, which
  names the extension, is never read; with one item only the index says there is none.
\<close>

theorem index_loses_leading_extension:
  assumes "delivered r = Some (items_wire (it # its))" and "list_all item_small (it # its)" and "list_all is_ext (it # its)"
  shows "\<exists>idx. buildIndexFromReader r cb c = Inr (idx, c) \<and>
    sx_ExtStart idx = (if its = [] then 0 else int (length (item_wire it)))"
proof -
  from indexFrom_ext_item [of "newIndexScanner r" 0 it "items_wire its" cb newIndex] scans_new [OF assms(1)] assms(2,3)
  obtain s1 where s1: "scans s1 (int (length (item_wire it))) (items_wire its)"
    "\<forall>c. indexFrom_loop cb (newIndexScanner r) False newIndex c = indexFrom_loop cb s1 False (addItem newIndex) c"
    by (auto simp: newIndex_def)
  have "0 < length (item_wire it)" using length_item_body [of it] by (simp add: item_wire_def)
  then have "0 < int (length (item_wire it))" by simp
  with indexFrom_exts [OF s1(1), of cb "addItem newIndex" c] assms(2,3) s1(2) show ?thesis
    by (simp add: buildIndexFromReader_def sortStores_def newIndex_def addItem_def addItems_def)
qed

theorem index_loses_leading_extension_witness:
  "\<exists>idx. buildIndexFromReader [(items_wire [ExtMeta [0x77] 1, ExtPayload (Some [5])], None :: unit io_error option)] no_callbacks () =
     Inr (idx, ()) \<and> sx_ExtStart idx = 8"
  using index_loses_leading_extension [of "[(items_wire [ExtMeta [0x77] 1, ExtPayload (Some [5])], None :: unit io_error option)]"
    "ExtMeta [0x77] 1" "[ExtPayload (Some [5])]" no_callbacks "()"]
  by (simp add: item_small_def item_wire_def item_body_def appendBytesField_def appendUvarintField_def enc_fields_def
      opt_defs field_tag_def PutUvarint.simps)

end
