(* ===== verification/WavePar.thy ===== *)
theory WavePar
  imports ImportTree
begin

text \<open>
  The wave-parallel importer of \<open>internal/snapshotimport/importer_par.go\<close>: hashing is deferred to
  a pool of workers, and a parent becomes ready when both children have been hashed and linked.

  The goroutines are a main thread, a dispatcher and the hash workers.  Each has a program counter
  that stands before its next access to shared state: an atomic operation, the queue under its
  mutex, a channel, the wait group, or another goroutine's frame.  What a goroutine does between
  two such accesses touches only memory it owns and is merged into one step.  Memory is
  sequentially consistent.  Frames are shared by pointer, so they live in a heap, a list indexed by
  allocation order.  The receiver of \<open>writeQ\<close> keeps receiving until the channel is closed, as the
  writer in \<open>parallel.go\<close> does also after an error, so a send is a step that is always enabled.
\<close>

section \<open>State\<close>

record parFrame =
  pf_hash :: bytes
  pf_encoded :: bytes
  pf_pending :: int
  pf_events :: int
  pf_built :: bool
  pf_submitted :: bool
  pf_height :: i8
  pf_size :: i64
  pf_version :: i64
  pf_nonce :: u32
  pf_parent :: "nat option"
  pf_leafKey :: bytes
  pf_leafValue :: bytes
  pf_innerKey :: bytes
  pf_leftChild :: "nat option"
  pf_rightChild :: "nat option"

type_synonym writeEnt = "bytes \<times> bytes"

text \<open>The main thread: in \<open>addInnerPar\<close>, in \<open>submitParFrame\<close>, or in \<open>finishStreaming\<close>.\<close>

datatype mainPC =
    MNext
  | MBump nat "nat list"
  | MDec nat "nat list"
  | MBuilt nat
  | MCheck nat
  | MSubmit nat
  | MEnqueue nat
  | MWait
  | MJoin
  | MDone

datatype dispatcherPC = DIdle | DHold nat | DExit

text \<open>A worker: in \<open>processParFrame\<close> for a frame, or promoting its parent.\<close>

datatype workerPC =
    WIdle
  | WHash nat
  | WPush nat
  | WBump nat
  | WDec nat
  | WBuilt nat
  | WSubmit nat
  | WEnqueue nat
  | WDone
  | WExit

text \<open>
  \<open>wv_input\<close> holds the nodes the caller will still add; \<open>wv_writeQ\<close> all entries sent on \<open>writeQ\<close> so
  far, in order; \<open>wv_fast\<close> the state behind \<open>setFast\<close>; \<open>wv_err\<close> the error \<open>addNode\<close> returned.
\<close>

record ('f, 'e) parState =
  wv_si :: storeImporter
  wv_input :: "export_node list"
  wv_heap :: "parFrame list"
  wv_parStack :: "nat list"
  wv_pending :: "nat list"
  wv_pendingCap :: nat
  wv_closed :: bool
  wv_ready :: "nat list"
  wv_readyCap :: nat
  wv_hashWg :: int
  wv_rootEncoded :: "bytes option"
  wv_writeQ :: "writeEnt list"
  wv_fast :: 'f
  wv_err :: "'e import_error option"
  wv_main :: mainPC
  wv_disp :: dispatcherPC
  wv_workers :: "workerPC list"

text \<open>The state with the pool started.  With no workers the code starts nothing and stays sequential.\<close>

definition enableWaveParallel :: "bytes \<Rightarrow> i64 \<Rightarrow> nat \<Rightarrow> 'f \<Rightarrow> export_node list \<Rightarrow> ('f, 'e) parState" where
  "enableWaveParallel name height workers fast input =
     \<lparr>wv_si = newStoreImporter name height, wv_input = input, wv_heap = [], wv_parStack = [],
      wv_pending = [], wv_pendingCap = 8192, wv_closed = False, wv_ready = [], wv_readyCap = workers * 4,
      wv_hashWg = 0, wv_rootEncoded = None, wv_writeQ = [], wv_fast = fast, wv_err = None,
      wv_main = MNext, wv_disp = DIdle, wv_workers = replicate workers WIdle\<rparr>"

definition modFrame :: "nat \<Rightarrow> (parFrame \<Rightarrow> parFrame) \<Rightarrow> ('f, 'e) parState \<Rightarrow> ('f, 'e) parState" where
  "modFrame a f s = s\<lparr>wv_heap := (wv_heap s)[a := f (wv_heap s ! a)]\<rparr>"

definition newParFrame :: "i8 \<Rightarrow> i64 \<Rightarrow> i64 \<Rightarrow> u32 \<Rightarrow> parFrame" where
  "newParFrame height sz version nonce =
     \<lparr>pf_hash = replicate 32 0, pf_encoded = [], pf_pending = 0, pf_events = 0, pf_built = False,
      pf_submitted = False, pf_height = height, pf_size = sz, pf_version = version, pf_nonce = nonce,
      pf_parent = None, pf_leafKey = [], pf_leafValue = [], pf_innerKey = [], pf_leftChild = None,
      pf_rightChild = None\<rparr>"

section \<open>The main thread\<close>

text \<open>Only the main thread uses the stack, so a new inner node is pushed when it is made.\<close>

definition addLeafPar :: "('f, 'e) setter \<Rightarrow> i64 \<Rightarrow> bytes \<Rightarrow> bytes \<Rightarrow> ('f, 'e) parState \<Rightarrow> 'e import_error + ('f, 'e) parState" where
  "addLeafPar putFast version key v s =
     (let (nonce, si) = nextNonce (wv_si s) version;
          f = (newParFrame 0 1 version nonce)\<lparr>pf_leafKey := key, pf_leafValue := v\<rparr>;
          a = length (wv_heap s)
      in wrap_err SetFast
           (putFast (wv_fast s) (fastDBKeyInto [] (st_storePrefix si) key) (encodeFastNodeInto [] version v)) (\<lambda>fast.
         Inr (s\<lparr>wv_si := si\<lparr>st_leafCount := st_leafCount si + 1\<rparr>, wv_fast := fast,
                wv_heap := wv_heap s @ [f], wv_parStack := a # wv_parStack s, wv_main := MSubmit a\<rparr>)))"

definition closesPairPar :: "('f, 'e) parState \<Rightarrow> i8 \<Rightarrow> bool" where
  "closesPairPar s height =
     (case wv_parStack s of
        r # l # _ \<Rightarrow> pf_height (wv_heap s ! r) <s height \<and> pf_height (wv_heap s ! l) <s height
      | _ \<Rightarrow> False)"

definition addInnerPar :: "i64 \<Rightarrow> i8 \<Rightarrow> bytes \<Rightarrow> ('f, 'e) parState \<Rightarrow> 'e import_error + ('f, 'e) parState" where
  "addInnerPar version height key s =
     (if \<not> closesPairPar s height then Inl NotSiblingPair
      else case wv_parStack s of
        right # left # rest \<Rightarrow>
          let sz = pf_size (wv_heap s ! left) + pf_size (wv_heap s ! right);
              (nonce, si) = nextNonce (wv_si s) version;
              a = length (wv_heap s);
              inner = (newParFrame height sz version nonce)\<lparr>pf_innerKey := key, pf_leftChild := Some left,
                         pf_rightChild := Some right, pf_pending := 2\<rparr>;
              s = s\<lparr>wv_si := si\<lparr>st_innerCount := st_innerCount si + 1\<rparr>, wv_heap := wv_heap s @ [inner],
                    wv_parStack := a # rest\<rparr>;
              s = modFrame left (\<lambda>f. f\<lparr>pf_parent := Some a\<rparr>) s;
              s = modFrame right (\<lambda>f. f\<lparr>pf_parent := Some a\<rparr>) s
          in Inr (s\<lparr>wv_main := MBump a [left, right]\<rparr>)
      | _ \<Rightarrow> Inl NotSiblingPair)"

text \<open>
  \<open>addNode\<close> in this mode, called for each node in turn.  When there are no more nodes, or one was
  refused, the caller goes to \<open>finishStreaming\<close>.
\<close>

definition addNodePar :: "('f, 'e) setter \<Rightarrow> ('f, 'e) parState \<Rightarrow> ('f, 'e) parState" where
  "addNodePar putFast s =
     (case wv_input s of
        [] \<Rightarrow> s\<lparr>wv_main := MWait\<rparr>
      | (h, v, k, x) # ns \<Rightarrow>
          let s = s\<lparr>wv_input := ns, wv_si := (wv_si s)\<lparr>st_itemCount := st_itemCount (wv_si s) + 1\<rparr>\<rparr> in
          case (if h = 0 then addLeafPar putFast v k x s else addInnerPar v h k s) of
            Inl e \<Rightarrow> s\<lparr>wv_err := Some e, wv_main := MWait\<rparr>
          | Inr s \<Rightarrow> s)"

text \<open>
  \<open>submitParFrame\<close>: the compare-and-swap with the wait-group increment, then the append under the
  mutex, which only the main thread delays while the queue is full.
\<close>

definition casSubmitted :: "nat \<Rightarrow> ('f, 'e) parState \<Rightarrow> bool \<times> ('f, 'e) parState" where
  "casSubmitted a s =
     (if pf_submitted (wv_heap s ! a) then (False, s)
      else (True, (modFrame a (\<lambda>f. f\<lparr>pf_submitted := True\<rparr>) s)\<lparr>wv_hashWg := wv_hashWg s + 1\<rparr>))"

definition enqueueFrame :: "nat \<Rightarrow> ('f, 'e) parState \<Rightarrow> ('f, 'e) parState" where
  "enqueueFrame a s = s\<lparr>wv_pending := wv_pending s @ [a]\<rparr>"

text \<open>\<open>events.Add(1) == 2\<close> on a frame.\<close>

definition addEvent :: "nat \<Rightarrow> ('f, 'e) parState \<Rightarrow> bool \<times> ('f, 'e) parState" where
  "addEvent a s =
     (pf_events (wv_heap s ! a) + 1 = 2, modFrame a (\<lambda>f. f\<lparr>pf_events := pf_events f + 1\<rparr>) s)"

definition decPending :: "nat \<Rightarrow> ('f, 'e) parState \<Rightarrow> ('f, 'e) parState" where
  "decPending a s = modFrame a (\<lambda>f. f\<lparr>pf_pending := pf_pending f - 1\<rparr>) s"

text \<open>Waiting for the frames on their way, then closing the queue, then waiting for the goroutines.\<close>

definition finishStreaming :: "('f, 'e) parState \<Rightarrow> ('f, 'e) parState option" where
  "finishStreaming s =
     (case wv_main s of
        MWait \<Rightarrow> if wv_hashWg s = 0 then Some (s\<lparr>wv_closed := True, wv_main := MJoin\<rparr>) else None
      | MJoin \<Rightarrow>
          if wv_disp s = DExit \<and> (\<forall>w \<in> set (wv_workers s). w = WExit) then Some (s\<lparr>wv_main := MDone\<rparr>) else None
      | _ \<Rightarrow> None)"

text \<open>One step of the main thread; \<^term>\<open>None\<close> when it waits.\<close>

definition mainStep :: "('f, 'e) setter \<Rightarrow> ('f, 'e) parState \<Rightarrow> ('f, 'e) parState option" where
  "mainStep putFast s =
     (case wv_main s of
        MNext \<Rightarrow> Some (addNodePar putFast s)
      | MBump i [] \<Rightarrow> Some (s\<lparr>wv_main := MBuilt i\<rparr>)
      | MBump i (c # cs) \<Rightarrow>
          let (second, s) = addEvent c s
          in Some (s\<lparr>wv_main := (if second then MDec i cs else MBump i cs)\<rparr>)
      | MDec i cs \<Rightarrow> Some ((decPending i s)\<lparr>wv_main := MBump i cs\<rparr>)
      | MBuilt i \<Rightarrow> Some ((modFrame i (\<lambda>f. f\<lparr>pf_built := True\<rparr>) s)\<lparr>wv_main := MCheck i\<rparr>)
      | MCheck i \<Rightarrow> Some (s\<lparr>wv_main := (if pf_pending (wv_heap s ! i) = 0 then MSubmit i else MNext)\<rparr>)
      | MSubmit a \<Rightarrow>
          let (won, s) = casSubmitted a s in Some (s\<lparr>wv_main := (if won then MEnqueue a else MNext)\<rparr>)
      | MEnqueue a \<Rightarrow>
          if wv_pendingCap s \<le> length (wv_pending s) \<and> \<not> wv_closed s then None
          else Some ((enqueueFrame a s)\<lparr>wv_main := MNext\<rparr>)
      | _ \<Rightarrow> finishStreaming s)"

section \<open>The dispatcher\<close>

definition parDispatcher :: "('f, 'e) parState \<Rightarrow> ('f, 'e) parState option" where
  "parDispatcher s =
     (case wv_disp s of
        DIdle \<Rightarrow>
          (case wv_pending s of
             [] \<Rightarrow> if wv_closed s then Some (s\<lparr>wv_disp := DExit\<rparr>) else None
           | a # as \<Rightarrow> Some (s\<lparr>wv_pending := as, wv_disp := DHold a\<rparr>))
      | DHold a \<Rightarrow>
          if length (wv_ready s) < wv_readyCap s
          then Some (s\<lparr>wv_ready := wv_ready s @ [a], wv_disp := DIdle\<rparr>) else None
      | DExit \<Rightarrow> None)"

section \<open>Workers\<close>

text \<open>Hashing and encoding one frame, with the payload and the child pointers dropped.\<close>

definition hashFrame :: "parFrame list \<Rightarrow> parFrame \<Rightarrow> parFrame" where
  "hashFrame heap f =
     (if pf_height f = 0 then
        f\<lparr>pf_hash := hashLeaf (pf_version f) (pf_leafKey f) (pf_leafValue f),
          pf_encoded := encodeLeafNodeInto [] (pf_leafKey f) (pf_leafValue f),
          pf_leafKey := [], pf_leafValue := []\<rparr>
      else
        let l = heap ! the (pf_leftChild f); r = heap ! the (pf_rightChild f);
            h = hashInner (pf_version f) (pf_height f) (pf_size f) (pf_hash l) (pf_hash r)
        in f\<lparr>pf_hash := h,
             pf_encoded := encodeInnerNodeInto [] (pf_height f) (pf_size f) (pf_innerKey f) h
               (pf_version l) (pf_nonce l) (pf_version r) (pf_nonce r),
             pf_innerKey := [], pf_leftChild := None, pf_rightChild := None\<rparr>)"

text \<open>
  One step of \<open>processParFrame\<close>, with the loop of \<open>parWorker\<close> around it.  The parent pointer is
  read when the frame has been hashed, again after the send, and after the second event.
\<close>

definition workerNext :: "workerPC \<Rightarrow> ('f, 'e) parState \<Rightarrow> (workerPC \<times> ('f, 'e) parState) option" where
  "workerNext w s =
     (case w of
        WIdle \<Rightarrow>
          (case wv_ready s of
             [] \<Rightarrow> if wv_disp s = DExit then Some (WExit, s) else None
           | a # as \<Rightarrow> Some (WHash a, s\<lparr>wv_ready := as\<rparr>))
      | WHash a \<Rightarrow>
          let s = modFrame a (hashFrame (wv_heap s)) s; f = wv_heap s ! a
          in Some (WPush a, if pf_parent f = None then s\<lparr>wv_rootEncoded := Some (pf_encoded f)\<rparr> else s)
      | WPush a \<Rightarrow>
          let f = wv_heap s ! a;
              key = nodeDBKey (st_storePrefix (wv_si s)) (pf_version f) (pf_nonce f);
              s = s\<lparr>wv_writeQ := wv_writeQ s @ [(key, pf_encoded f)]\<rparr>
          in Some (WBump a, if pf_parent f \<noteq> None then modFrame a (\<lambda>f. f\<lparr>pf_encoded := []\<rparr>) s else s)
      | WBump a \<Rightarrow>
          let (second, s) = addEvent a s in
          if \<not> second then Some (WDone, s)
          else let parent = pf_parent (wv_heap s ! a); s = modFrame a (\<lambda>f. f\<lparr>pf_parent := None\<rparr>) s
            in (case parent of None \<Rightarrow> Some (WDone, s) | Some p \<Rightarrow> Some (WDec p, s))
      | WDec p \<Rightarrow>
          let s = decPending p s in Some (if pf_pending (wv_heap s ! p) = 0 then WBuilt p else WDone, s)
      | WBuilt p \<Rightarrow> Some (if pf_built (wv_heap s ! p) then WSubmit p else WDone, s)
      | WSubmit p \<Rightarrow> let (won, s) = casSubmitted p s in Some (if won then WEnqueue p else WDone, s)
      | WEnqueue p \<Rightarrow> Some (WDone, enqueueFrame p s)
      | WDone \<Rightarrow> Some (WIdle, s\<lparr>wv_hashWg := wv_hashWg s - 1\<rparr>)
      | WExit \<Rightarrow> None)"

definition parWorker :: "nat \<Rightarrow> ('f, 'e) parState \<Rightarrow> ('f, 'e) parState option" where
  "parWorker i s =
     map_option (\<lambda>(w, s). s\<lparr>wv_workers := (wv_workers s)[i := w]\<rparr>) (workerNext (wv_workers s ! i) s)"

section \<open>Interleaving\<close>

inductive wave_step :: "('f, 'e) setter \<Rightarrow> ('f, 'e) parState \<Rightarrow> ('f, 'e) parState \<Rightarrow> bool" for putFast where
  main: "mainStep putFast s = Some s' \<Longrightarrow> wave_step putFast s s'"
| dispatcher: "parDispatcher s = Some s' \<Longrightarrow> wave_step putFast s s'"
| worker: "i < length (wv_workers s) \<Longrightarrow> parWorker i s = Some s' \<Longrightarrow> wave_step putFast s s'"

text \<open>The states a store's import can reach, under every scheduling of its goroutines.\<close>

inductive wave_reach :: "('f, 'e) setter \<Rightarrow> ('f, 'e) parState \<Rightarrow> ('f, 'e) parState \<Rightarrow> bool" for putFast s0 where
  start: "wave_reach putFast s0 s0"
| step: "wave_reach putFast s0 s \<Longrightarrow> wave_step putFast s s' \<Longrightarrow> wave_reach putFast s0 s'"

section \<open>Closing the store\<close>

datatype 'e par_error = ParError "'e import_error" | RootMissing

definition finalizePar :: "('db, 'e) setter \<Rightarrow> ('f, 'e) parState \<Rightarrow> 'db \<Rightarrow> 'e par_error + bytes \<times> 'db" where
  "finalizePar put s db =
     (let si = wv_si s in
      case wv_parStack s of
        [] \<Rightarrow>
          wrap_err (ParError \<circ> SetEmptyRoot) (put db (nodeDBKeyInto [] (st_storePrefix si) (st_height si) 1) []) (\<lambda>db.
          wrap_err ParError (writeStorageVersionMarker put si db) (\<lambda>db. Inr (emptyIAVLTreeHash, db)))
      | [a] \<Rightarrow>
          let root = wv_heap s ! a in
          (case wv_rootEncoded s of
             None \<Rightarrow> Inl RootMissing
           | Some enc \<Rightarrow>
               wrap_err (ParError \<circ> SetRoot)
                 (put db (nodeDBKeyInto [] (st_storePrefix si) (pf_version root) 1) enc) (\<lambda>db.
               wrap_err (ParError \<circ> SetRedirect)
                 (if pf_version root \<noteq> st_height si
                  then put db (nodeDBKeyInto [] (st_storePrefix si) (st_height si) 1) (redirectVal (pf_version root))
                  else Inr db) (\<lambda>db.
               wrap_err ParError (writeStorageVersionMarker put si db) (\<lambda>db. Inr (pf_hash root, db)))))
      | as \<Rightarrow> Inl (ParError (ManyRoots (length as))))"

end
