(* ===== verification/WaveInv.thy ===== *)
theory WaveInv
  imports WavePar "HOL-Library.Multiset"
begin

text \<open>
  The invariant of the wave-parallel importer.  Beside the state it speaks of the tree each frame
  stands for (\<open>g\<close>), the frame's parent and children (\<open>par\<close>, \<open>kl\<close>, \<open>kr\<close>), and how far it has come
  (\<open>stg\<close>: 0 built, 1 submitted, 2 hashed, 3 sent to the writer, 4 counted by its worker).
\<close>

section \<open>Sums over the workers\<close>

definition wsum :: "(workerPC \<Rightarrow> int) \<Rightarrow> workerPC list \<Rightarrow> int" where
  "wsum \<phi> ws = sum_list (map \<phi> ws)"

lemma wsum_update [simp]:
  "i < length ws \<Longrightarrow> wsum \<phi> (ws[i := w]) = wsum \<phi> ws + \<phi> w - \<phi> (ws ! i)"
proof (induction ws arbitrary: i)
  case (Cons x ws)
  then show ?case by (cases i) (auto simp: wsum_def)
qed simp

lemma wsum_ge: "(\<And>w. 0 \<le> \<phi> w) \<Longrightarrow> i < length ws \<Longrightarrow> \<phi> (ws ! i) \<le> wsum \<phi> ws"
proof (induction ws arbitrary: i)
  case (Cons x ws)
  have "0 \<le> wsum \<phi> ws" using Cons.prems(1) by (induction ws) (auto simp: wsum_def)
  with Cons.IH Cons.prems(1) [of x] Cons.prems show ?case
    by (cases i) (auto simp: wsum_def add_increasing)
qed simp

lemma wsum_nonneg: "(\<And>w. 0 \<le> \<phi> w) \<Longrightarrow> 0 \<le> wsum \<phi> ws"
  by (induction ws) (auto simp: wsum_def)

lemma wsum_replicate: "\<phi> w = 0 \<Longrightarrow> wsum \<phi> (replicate n w) = 0"
  by (induction n) (auto simp: wsum_def)

lemma wsum_pos: "0 < wsum \<phi> ws \<Longrightarrow> \<exists>w \<in> set ws. 0 < \<phi> w"
  by (induction ws) (force simp: wsum_def)+

definition isW :: "workerPC \<Rightarrow> workerPC \<Rightarrow> int" where
  "isW x w = (if w = x then 1 else 0)"

definition busy :: "workerPC \<Rightarrow> int" where
  "busy w = (if w = WIdle \<or> w = WExit then 0 else 1)"

definition enqueuing :: "workerPC \<Rightarrow> int" where
  "enqueuing w = (case w of WEnqueue _ \<Rightarrow> 1 | _ \<Rightarrow> 0)"

abbreviation nworkers :: "workerPC \<Rightarrow> workerPC list \<Rightarrow> int" where
  "nworkers x ws \<equiv> wsum (isW x) ws"

lemma nworkers_nonneg: "0 \<le> nworkers x ws"
  by (rule wsum_nonneg) (simp add: isW_def)

lemma nworkers_ge: "i < length ws \<Longrightarrow> ws ! i = x \<Longrightarrow> 1 \<le> nworkers x ws"
  using wsum_ge [of "isW x" i ws] by (simp add: isW_def split: if_splits)

section \<open>The invariant\<close>

fun to_bump :: "mainPC \<Rightarrow> nat list" where
  "to_bump (MBump i cs) = cs"
| "to_bump (MDec i cs) = cs"
| "to_bump _ = []"

definition is_inner :: "ltree \<Rightarrow> bool" where
  "is_inner t = (case t of LLeaf _ _ _ _ \<Rightarrow> False | LNode _ _ _ _ _ _ \<Rightarrow> True)"

lemma is_inner_simps [simp]: "\<not> is_inner (LLeaf v n k x)" "is_inner (LNode v n h k l r)"
  by (simp_all add: is_inner_def)

abbreviation heapsize :: "('f, 'e) parState \<Rightarrow> nat" where
  "heapsize s \<equiv> length (wv_heap s)"

definition shape_ok :: "(nat \<Rightarrow> ltree) \<Rightarrow> (nat \<Rightarrow> nat option) \<Rightarrow> (nat \<Rightarrow> nat) \<Rightarrow> (nat \<Rightarrow> nat) \<Rightarrow> nat \<Rightarrow> nat list \<Rightarrow> bool" where
  "shape_ok g par kl kr n stack \<longleftrightarrow>
     distinct stack \<and> set stack \<subseteq> {..<n} \<and> (\<forall>a < n. par a = None \<longleftrightarrow> a \<in> set stack) \<and>
     (\<forall>a p. a < n \<longrightarrow> par a = Some p \<longrightarrow> a < p \<and> p < n \<and> is_inner (g p) \<and> (a = kl p \<or> a = kr p)) \<and>
     (\<forall>a < n. is_inner (g a) \<longrightarrow> kl a < a \<and> kr a < a \<and> kl a \<noteq> kr a \<and> par (kl a) = Some a \<and> par (kr a) = Some a \<and>
        (\<exists>v m h k. h \<noteq> 0 \<and> g a = LNode v m h k (g (kl a)) (g (kr a))))"

definition frame_ok :: "(nat \<Rightarrow> ltree) \<Rightarrow> (nat \<Rightarrow> nat) \<Rightarrow> (nat \<Rightarrow> nat option) \<Rightarrow> (nat \<Rightarrow> nat) \<Rightarrow> (nat \<Rightarrow> nat) \<Rightarrow>
    nat list \<Rightarrow> nat \<Rightarrow> parFrame \<Rightarrow> bool" where
  "frame_ok g stg par kl kr bump a f \<longleftrightarrow>
     pf_height f = t_height (erase (g a)) \<and> pf_size f = of_nat (t_leaves (erase (g a))) \<and>
     pf_version f = l_version (g a) \<and> pf_nonce f = l_nonce (g a) \<and>
     (stg a \<le> 1 \<longrightarrow> (case g a of
         LLeaf v n k x \<Rightarrow> pf_leafKey f = k \<and> pf_leafValue f = x
       | LNode v n h k l r \<Rightarrow> pf_innerKey f = k \<and> pf_leftChild f = Some (kl a) \<and> pf_rightChild f = Some (kr a))) \<and>
     (2 \<le> stg a \<longrightarrow> pf_hash f = t_hash (erase (g a))) \<and>
     (stg a = 2 \<longrightarrow> pf_encoded f = node_bytes (g a)) \<and>
     (stg a \<le> 3 \<longrightarrow> pf_parent f = par a) \<and>
     (pf_submitted f \<longleftrightarrow> 1 \<le> stg a) \<and> stg a \<le> 4 \<and>
     pf_events f = (if par a \<noteq> None \<and> a \<notin> set bump then 1 else 0) + (if stg a = 4 then 1 else 0)"

definition frames_ok where
  "frames_ok g stg par kl kr s \<longleftrightarrow>
     (\<forall>a < heapsize s. frame_ok g stg par kl kr (to_bump (wv_main s)) a (wv_heap s ! a))"

text \<open>Where a frame is: a submitted frame is in exactly one place until its worker has counted it.\<close>

definition waiting :: "('f, 'e) parState \<Rightarrow> nat \<Rightarrow> int" where
  "waiting s a =
     (if wv_main s = MEnqueue a then 1 else 0) + int (count_list (wv_pending s) a) +
     (if wv_disp s = DHold a then 1 else 0) + int (count_list (wv_ready s) a) +
     nworkers (WHash a) (wv_workers s) + nworkers (WEnqueue a) (wv_workers s)"

definition located where
  "located stg s \<longleftrightarrow> (\<forall>a.
     waiting s a = (if a < heapsize s \<and> stg a = 1 then 1 else 0) \<and>
     nworkers (WPush a) (wv_workers s) = (if a < heapsize s \<and> stg a = (2 :: nat) then 1 else 0) \<and>
     nworkers (WBump a) (wv_workers s) = (if a < heapsize s \<and> stg a = 3 then 1 else 0))"

text \<open>Decrements of \<open>b\<close>'s counter that are still to be done.\<close>

definition owed :: "('f, 'e) parState \<Rightarrow> nat \<Rightarrow> int" where
  "owed s b = (if \<exists>cs. wv_main s = MDec b cs then 1 else 0) + nworkers (WDec b) (wv_workers s)"

definition building :: "mainPC \<Rightarrow> nat \<Rightarrow> bool" where
  "building m b \<longleftrightarrow> (\<exists>cs. m = MBump b cs) \<or> (\<exists>cs. m = MDec b cs) \<or> m = MBuilt b"

definition twice :: "parFrame \<Rightarrow> int" where
  "twice f = (if pf_events f = 2 then 1 else 0)"

definition inner_ok where
  "inner_ok kl kr s b \<longleftrightarrow>
     pf_pending (wv_heap s ! b) =
       2 - twice (wv_heap s ! kl b) - twice (wv_heap s ! kr b) + owed s b \<and>
     (pf_submitted (wv_heap s ! b) \<longrightarrow> pf_pending (wv_heap s ! b) = 0) \<and>
     (pf_built (wv_heap s ! b) \<longleftrightarrow> \<not> building (wv_main s) b) \<and>
     (pf_built (wv_heap s ! b) \<and> pf_pending (wv_heap s ! b) = 0 \<and> \<not> pf_submitted (wv_heap s ! b) \<longrightarrow>
        wv_main s = MCheck b \<or> wv_main s = MSubmit b \<or>
        0 < nworkers (WBuilt b) (wv_workers s) + nworkers (WSubmit b) (wv_workers s))"

definition links_ok where
  "links_ok g kl kr s \<longleftrightarrow> (\<forall>a < heapsize s.
     if is_inner (g a) then inner_ok kl kr s a
     else \<not> pf_submitted (wv_heap s ! a) \<longrightarrow> wv_main s = MSubmit a)"

fun main_ok where
  "main_ok g kl kr s (MBump i cs) = (i < heapsize s \<and> is_inner (g i) \<and> (cs = [] \<or> cs = [kr i] \<or> cs = [kl i, kr i]))"
| "main_ok g kl kr s (MDec i cs) = (i < heapsize s \<and> is_inner (g i) \<and> (cs = [] \<or> cs = [kr i]))"
| "main_ok g kl kr s (MBuilt i) = (i < heapsize s \<and> is_inner (g i))"
| "main_ok g kl kr s (MCheck i) = (i < heapsize s \<and> is_inner (g i))"
| "main_ok g kl kr s (MSubmit a) = (a < heapsize s \<and> (is_inner (g a) \<longrightarrow> pf_pending (wv_heap s ! a) = 0))"
| "main_ok g kl kr s _ = True"

fun worker_ok where
  "worker_ok g s (WDec p) = (p < heapsize s \<and> is_inner (g p))"
| "worker_ok g s (WBuilt p) = (p < heapsize s \<and> is_inner (g p) \<and> pf_pending (wv_heap s ! p) = 0)"
| "worker_ok g s (WSubmit p) = (p < heapsize s \<and> is_inner (g p) \<and> pf_pending (wv_heap s ! p) = 0)"
| "worker_ok g s _ = True"

definition workers_ok where
  "workers_ok g s \<longleftrightarrow> (\<forall>w \<in> set (wv_workers s). worker_ok g s w)"

definition root_ok where
  "root_ok g stg par s \<longleftrightarrow> (\<forall>a < heapsize s.
     2 \<le> (stg a :: nat) \<and> (\<forall>b < heapsize s. (par b = None) = (b = a)) \<longrightarrow> wv_rootEncoded s = Some (node_bytes (g a)))"

definition entry :: "bytes \<Rightarrow> ltree \<Rightarrow> writeEnt" where
  "entry p t = (nodeDBKeyInto [] p (l_version t) (l_nonce t), node_bytes t)"

definition sent_ok where
  "sent_ok g stg s \<longleftrightarrow>
     mset (wv_writeQ s) =
       image_mset (\<lambda>a. entry (st_storePrefix (wv_si s)) (g a)) (mset_set {a. a < heapsize s \<and> 3 \<le> (stg a :: nat)})"

definition wg_ok :: "('f, 'e) parState \<Rightarrow> bool" where
  "wg_ok s \<longleftrightarrow> wv_hashWg s =
     (if \<exists>a. wv_main s = MEnqueue a then 1 else 0) + wsum enqueuing (wv_workers s) + int (length (wv_pending s)) +
     (if \<exists>a. wv_disp s = DHold a then 1 else 0) + int (length (wv_ready s)) + wsum busy (wv_workers s)"

definition wave_inv where
  "wave_inv g stg par kl kr s \<longleftrightarrow>
     shape_ok g par kl kr (heapsize s) (wv_parStack s) \<and> frames_ok g stg par kl kr s \<and> located stg s \<and>
     links_ok g kl kr s \<and> main_ok g kl kr s (wv_main s) \<and> workers_ok g s \<and> root_ok g stg par s \<and>
     sent_ok g stg s \<and> wg_ok s"

lemma wave_inv_start: "wave_inv g stg par kl kr (enableWaveParallel name height n fast input)"
  by (simp add: wave_inv_def enableWaveParallel_def shape_ok_def frames_ok_def located_def waiting_def links_ok_def
      workers_ok_def root_ok_def sent_ok_def wg_ok_def wsum_replicate isW_def busy_def enqueuing_def)

section \<open>Frame rules\<close>

lemma modFrame_simps [simp, frame_simps]:
  "wv_heap (modFrame a f s) = (wv_heap s)[a := f (wv_heap s ! a)]"
  "wv_si (modFrame a f s) = wv_si s" "wv_input (modFrame a f s) = wv_input s"
  "wv_parStack (modFrame a f s) = wv_parStack s" "wv_pending (modFrame a f s) = wv_pending s"
  "wv_closed (modFrame a f s) = wv_closed s" "wv_ready (modFrame a f s) = wv_ready s"
  "wv_hashWg (modFrame a f s) = wv_hashWg s" "wv_rootEncoded (modFrame a f s) = wv_rootEncoded s"
  "wv_writeQ (modFrame a f s) = wv_writeQ s" "wv_fast (modFrame a f s) = wv_fast s"
  "wv_err (modFrame a f s) = wv_err s" "wv_main (modFrame a f s) = wv_main s"
  "wv_disp (modFrame a f s) = wv_disp s" "wv_workers (modFrame a f s) = wv_workers s"
  by (simp_all add: modFrame_def)

lemmas pc_counts = isW_def busy_def enqueuing_def

lemma located_waiting:
  assumes "located stg s" and "0 < waiting s a"
  shows "a < heapsize s" and "stg a = 1"
  using assms by (auto simp: located_def split: if_splits)

lemma waiting_worker:
  assumes "i < length (wv_workers s)" and "wv_workers s ! i = WHash a \<or> wv_workers s ! i = WEnqueue a"
  shows "0 < waiting s a"
  using assms nworkers_ge [of i "wv_workers s" "WHash a"] nworkers_ge [of i "wv_workers s" "WEnqueue a"]
    nworkers_nonneg [of "WHash a" "wv_workers s"] nworkers_nonneg [of "WEnqueue a" "wv_workers s"]
  by (auto simp: waiting_def)

lemma located_push:
  assumes "located stg s" and "i < length (wv_workers s)"
  shows "wv_workers s ! i = WPush a \<Longrightarrow> a < heapsize s \<and> stg a = 2"
    and "wv_workers s ! i = WBump a \<Longrightarrow> a < heapsize s \<and> stg a = 3"
  using assms nworkers_ge [of i "wv_workers s"] by (fastforce simp: located_def split: if_splits)+

text \<open>A step that leaves the heap alone has to account for the places, the counters and the pcs.\<close>

lemma wave_inv_same_heap:
  assumes "wave_inv g stg par kl kr s"
    and "wv_heap s' = wv_heap s" "wv_parStack s' = wv_parStack s" "wv_rootEncoded s' = wv_rootEncoded s"
    and "wv_writeQ s' = wv_writeQ s" "st_storePrefix (wv_si s') = st_storePrefix (wv_si s)"
      "to_bump (wv_main s') = to_bump (wv_main s)"
    and "located stg s'" and "links_ok g kl kr s'" and "main_ok g kl kr s' (wv_main s')" and "workers_ok g s'" and "wg_ok s'"
  shows "wave_inv g stg par kl kr s'"
  using assms by (simp add: wave_inv_def frames_ok_def root_ok_def sent_ok_def)

lemma worker_ok_heap: "wv_heap s' = wv_heap s \<Longrightarrow> worker_ok g s' w = worker_ok g s w"
  by (cases w) auto

lemma main_ok_heap: "wv_heap s' = wv_heap s \<Longrightarrow> main_ok g kl kr s' m = main_ok g kl kr s m"
  by (cases m) auto

lemma inner_ok_cong:
  assumes "wv_heap s' = wv_heap s" and "wv_main s' = wv_main s"
    and "\<And>b. nworkers (WDec b) (wv_workers s') = nworkers (WDec b) (wv_workers s)"
    and "\<And>b. nworkers (WBuilt b) (wv_workers s') = nworkers (WBuilt b) (wv_workers s)"
    and "\<And>b. nworkers (WSubmit b) (wv_workers s') = nworkers (WSubmit b) (wv_workers s)"
  shows "inner_ok kl kr s' = inner_ok kl kr s"
  by (rule ext) (simp only: inner_ok_def owed_def assms)

lemma located_cong:
  assumes "located stg s" and "heapsize s' = heapsize s" and "\<And>a. waiting s' a = waiting s a"
    and "\<And>a. nworkers (WPush a) (wv_workers s') = nworkers (WPush a) (wv_workers s)"
    and "\<And>a. nworkers (WBump a) (wv_workers s') = nworkers (WBump a) (wv_workers s)"
  shows "located stg s'"
  using assms(1) by (simp add: located_def assms(2-5))

lemma links_ok_cong:
  "wv_heap s' = wv_heap s \<Longrightarrow> wv_main s' = wv_main s \<Longrightarrow> inner_ok kl kr s' = inner_ok kl kr s \<Longrightarrow>
   links_ok g kl kr s' = links_ok g kl kr s"
  by (simp only: links_ok_def)

lemma workers_ok_update:
  assumes "workers_ok g s" and "wv_workers s' = (wv_workers s)[i := w]" and "worker_ok g s' w"
    and "\<And>w. worker_ok g s w \<Longrightarrow> worker_ok g s' w"
  shows "workers_ok g s'"
  using assms unfolding workers_ok_def by (metis in_set_conv_nth length_list_update nth_list_update_eq nth_list_update_neq)

lemma wave_invD:
  assumes "wave_inv g stg par kl kr s"
  shows "shape_ok g par kl kr (heapsize s) (wv_parStack s)" "frames_ok g stg par kl kr s" "located stg s"
    "links_ok g kl kr s" "main_ok g kl kr s (wv_main s)" "workers_ok g s" "root_ok g stg par s" "sent_ok g stg s" "wg_ok s"
  using assms by (simp_all add: wave_inv_def)

subsection \<open>What the invariant says of one frame\<close>

lemma shape_inner:
  assumes "shape_ok g par kl kr n stack" and "a < n" and "is_inner (g a)"
  shows "kl a < a" "kr a < a" "kl a < n" "kr a < n" "kl a \<noteq> kr a" "par (kl a) = Some a" "par (kr a) = Some a"
    "\<exists>v m h k. h \<noteq> 0 \<and> g a = LNode v m h k (g (kl a)) (g (kr a))"
  using assms unfolding shape_ok_def by (meson less_trans)+

lemma shape_par:
  assumes "shape_ok g par kl kr n stack" and "a < n" and "par a = Some p"
  shows "a < p" "p < n" "is_inner (g p)" "a = kl p \<or> a = kr p"
  using assms unfolding shape_ok_def by blast+

lemma frame_okD:
  assumes "frames_ok g stg par kl kr s" and "a < heapsize s"
  shows "pf_height (wv_heap s ! a) = t_height (erase (g a))" "pf_size (wv_heap s ! a) = of_nat (t_leaves (erase (g a)))"
    "pf_version (wv_heap s ! a) = l_version (g a)" "pf_nonce (wv_heap s ! a) = l_nonce (g a)"
    and "2 \<le> stg a \<Longrightarrow> pf_hash (wv_heap s ! a) = t_hash (erase (g a))"
    and "stg a = 2 \<Longrightarrow> pf_encoded (wv_heap s ! a) = node_bytes (g a)"
    and "stg a \<le> 3 \<Longrightarrow> pf_parent (wv_heap s ! a) = par a"
    and "pf_submitted (wv_heap s ! a) \<longleftrightarrow> 1 \<le> stg a" "stg a \<le> 4"
    and "pf_events (wv_heap s ! a) =
      (if par a \<noteq> None \<and> a \<notin> set (to_bump (wv_main s)) then 1 else 0) + (if stg a = 4 then 1 else 0)"
    and "stg a \<le> 1 \<Longrightarrow> g a = LLeaf v n k x \<Longrightarrow> pf_leafKey (wv_heap s ! a) = k \<and> pf_leafValue (wv_heap s ! a) = x"
    and "stg a \<le> 1 \<Longrightarrow> g a = LNode v n h k l r \<Longrightarrow>
      pf_innerKey (wv_heap s ! a) = k \<and> pf_leftChild (wv_heap s ! a) = Some (kl a) \<and> pf_rightChild (wv_heap s ! a) = Some (kr a)"
proof -
  have f: "frame_ok g stg par kl kr (to_bump (wv_main s)) a (wv_heap s ! a)"
    using assms by (simp only: frames_ok_def)
  note f' = f [unfolded frame_ok_def]
  from f' show "pf_height (wv_heap s ! a) = t_height (erase (g a))" "pf_size (wv_heap s ! a) = of_nat (t_leaves (erase (g a)))"
    "pf_version (wv_heap s ! a) = l_version (g a)" "pf_nonce (wv_heap s ! a) = l_nonce (g a)" by blast+
  from f' show "2 \<le> stg a \<Longrightarrow> pf_hash (wv_heap s ! a) = t_hash (erase (g a))"
    and "stg a = 2 \<Longrightarrow> pf_encoded (wv_heap s ! a) = node_bytes (g a)"
    and "stg a \<le> 3 \<Longrightarrow> pf_parent (wv_heap s ! a) = par a"
    and "pf_submitted (wv_heap s ! a) \<longleftrightarrow> 1 \<le> stg a" "stg a \<le> 4" by blast+
  from f' show "pf_events (wv_heap s ! a) =
      (if par a \<noteq> None \<and> a \<notin> set (to_bump (wv_main s)) then 1 else 0) + (if stg a = 4 then 1 else 0)" by blast
  from f' show "stg a \<le> 1 \<Longrightarrow> g a = LLeaf v n k x \<Longrightarrow> pf_leafKey (wv_heap s ! a) = k \<and> pf_leafValue (wv_heap s ! a) = x"
    by simp
  from f' show "stg a \<le> 1 \<Longrightarrow> g a = LNode v n h k l r \<Longrightarrow>
      pf_innerKey (wv_heap s ! a) = k \<and> pf_leftChild (wv_heap s ! a) = Some (kl a) \<and> pf_rightChild (wv_heap s ! a) = Some (kr a)"
    by simp
qed

lemma frame_ok_update [simp]:
  "frame_ok g stg par kl kr bump a (f\<lparr>pf_pending := x\<rparr>) = frame_ok g stg par kl kr bump a f"
  "frame_ok g stg par kl kr bump a (f\<lparr>pf_built := y\<rparr>) = frame_ok g stg par kl kr bump a f"
  by (cases "g a"; simp add: frame_ok_def)+

lemma frame_ok_submit:
  "frame_ok g stg par kl kr bump a f \<Longrightarrow> stg a = 0 \<Longrightarrow>
   frame_ok g (stg(a := 1)) par kl kr bump a (f\<lparr>pf_submitted := True\<rparr>)"
  by (cases "g a"; simp add: frame_ok_def)

lemma owed_nonneg: "0 \<le> owed s b"
  using nworkers_nonneg [of "WDec b" "wv_workers s"] by (simp add: owed_def)

lemma twice_bounds: "0 \<le> twice f" "twice f \<le> 1" "twice f = 1 \<longleftrightarrow> pf_events f = 2"
  by (simp_all add: twice_def)

lemma inner_okI:
  assumes "pf_pending (wv_heap s ! b) = 2 - twice (wv_heap s ! kl b) - twice (wv_heap s ! kr b) + owed s b"
    and "pf_submitted (wv_heap s ! b) \<Longrightarrow> pf_pending (wv_heap s ! b) = 0"
    and "pf_built (wv_heap s ! b) \<longleftrightarrow> \<not> building (wv_main s) b"
    and "pf_built (wv_heap s ! b) \<Longrightarrow> pf_pending (wv_heap s ! b) = 0 \<Longrightarrow> \<not> pf_submitted (wv_heap s ! b) \<Longrightarrow>
        wv_main s = MCheck b \<or> wv_main s = MSubmit b \<or>
        0 < nworkers (WBuilt b) (wv_workers s) + nworkers (WSubmit b) (wv_workers s)"
  shows "inner_ok kl kr s b"
  unfolding inner_ok_def using assms by blast

lemma inner_okD:
  assumes "inner_ok kl kr s b"
  shows "pf_pending (wv_heap s ! b) = 2 - twice (wv_heap s ! kl b) - twice (wv_heap s ! kr b) + owed s b"
    and "pf_submitted (wv_heap s ! b) \<Longrightarrow> pf_pending (wv_heap s ! b) = 0"
    and "pf_built (wv_heap s ! b) \<longleftrightarrow> \<not> building (wv_main s) b"
    and "pf_built (wv_heap s ! b) \<Longrightarrow> pf_pending (wv_heap s ! b) = 0 \<Longrightarrow> \<not> pf_submitted (wv_heap s ! b) \<Longrightarrow>
        wv_main s = MCheck b \<or> wv_main s = MSubmit b \<or>
        0 < nworkers (WBuilt b) (wv_workers s) + nworkers (WSubmit b) (wv_workers s)"
  using assms unfolding inner_ok_def by blast+

lemma links_inner: "links_ok g kl kr s \<Longrightarrow> a < heapsize s \<Longrightarrow> is_inner (g a) \<Longrightarrow> inner_ok kl kr s a"
  by (simp only: links_ok_def if_True)

lemma inner_ready:
  assumes "inner_ok kl kr s a" and "pf_pending (wv_heap s ! a) = 0"
  shows "pf_events (wv_heap s ! kl a) = 2" "pf_events (wv_heap s ! kr a) = 2" "owed s a = 0"
  using assms(1) [unfolded inner_ok_def, THEN conjunct1] assms(2) owed_nonneg [of s a]
    twice_bounds(1,2) [of "wv_heap s ! kl a"] twice_bounds(1,2) [of "wv_heap s ! kr a"]
  by (simp_all add: twice_bounds(3) [symmetric])

section \<open>The dispatcher\<close>

lemma dispatcher_inv:
  assumes "wave_inv g stg par kl kr s" and "parDispatcher s = Some s'"
  shows "wave_inv g stg par kl kr s'"
proof -
  note d = wave_invD [OF assms(1)]
  have eq: "wv_heap s' = wv_heap s" "wv_parStack s' = wv_parStack s" "wv_main s' = wv_main s"
    "wv_workers s' = wv_workers s" "wv_rootEncoded s' = wv_rootEncoded s" "wv_writeQ s' = wv_writeQ s"
    "wv_si s' = wv_si s"
    using assms(2) by (auto simp: parDispatcher_def split: dispatcherPC.splits list.splits if_splits)
  have w: "waiting s' = waiting s" and wg: "wg_ok s' = wg_ok s"
    using assms(2) by (auto simp: parDispatcher_def waiting_def wg_ok_def fun_eq_iff
        split: dispatcherPC.splits list.splits if_splits)
  show ?thesis
  proof (rule wave_inv_same_heap [OF assms(1) eq(1,2,5,6)])
    show "located stg s'" using d(3) w eq by (simp add: located_def)
    show "links_ok g kl kr s'" using d(4) links_ok_cong [OF eq(1,3) inner_ok_cong] eq by simp
    show "main_ok g kl kr s' (wv_main s')" using d(5) main_ok_heap [OF eq(1)] eq by simp
    show "workers_ok g s'" using d(6) worker_ok_heap [OF eq(1)] eq by (simp add: workers_ok_def)
  qed (use eq wg d(9) in simp_all)
qed

section \<open>Workers\<close>

text \<open>Steps of a worker that neither touch the heap nor concern the promotion of a parent.\<close>

definition promoting :: "workerPC \<Rightarrow> bool" where
  "promoting w = (case w of WDec _ \<Rightarrow> True | WBuilt _ \<Rightarrow> True | WSubmit _ \<Rightarrow> True | WPush _ \<Rightarrow> True | WBump _ \<Rightarrow> True | _ \<Rightarrow> False)"

lemma worker_quiet_inv:
  assumes inv: "wave_inv g stg par kl kr s" and i: "i < length (wv_workers s)"
    and quiet: "\<not> promoting (wv_workers s ! i)" "\<not> promoting w"
    and s': "wv_workers s' = (wv_workers s)[i := w]" "wv_heap s' = wv_heap s" "wv_parStack s' = wv_parStack s"
      "wv_main s' = wv_main s" "wv_rootEncoded s' = wv_rootEncoded s" "wv_writeQ s' = wv_writeQ s" "wv_si s' = wv_si s"
    and w: "waiting s' = waiting s" and wg: "wg_ok s' = wg_ok s"
  shows "wave_inv g stg par kl kr s'"
proof -
  note d = wave_invD [OF inv]
  have n: "nworkers x (wv_workers s') = nworkers x (wv_workers s)" if "promoting x" for x
    using i quiet s'(1) that by (auto simp: isW_def)
  have n5: "nworkers (WDec b) (wv_workers s') = nworkers (WDec b) (wv_workers s)"
    "nworkers (WBuilt b) (wv_workers s') = nworkers (WBuilt b) (wv_workers s)"
    "nworkers (WSubmit b) (wv_workers s') = nworkers (WSubmit b) (wv_workers s)"
    "nworkers (WPush b) (wv_workers s') = nworkers (WPush b) (wv_workers s)"
    "nworkers (WBump b) (wv_workers s') = nworkers (WBump b) (wv_workers s)" for b
    by (rule n; simp add: promoting_def)+
  show ?thesis
  proof (rule wave_inv_same_heap [OF inv s'(2,3,5,6)])
    show "located stg s'" using d(3) w n5(4,5) s'(2) by (simp add: located_def)
    show "links_ok g kl kr s'" using d(4) links_ok_cong [OF s'(2,4) inner_ok_cong [OF s'(2,4) n5(1-3)]] by simp
    show "main_ok g kl kr s' (wv_main s')" using d(5) main_ok_heap [OF s'(2)] s'(4) by simp
    show "workers_ok g s'"
    proof (rule workers_ok_update [OF d(6) s'(1)])
      show "worker_ok g s' w" using quiet(2) by (cases w) (auto simp: promoting_def)
    qed (simp add: worker_ok_heap [OF s'(2)])
  qed (use s' wg d(9) in simp_all)
qed

text \<open>A worker gives up the promotion of \<open>p\<close>, or goes from seeing it built to submitting it.\<close>

lemma worker_promote_inv:
  assumes inv: "wave_inv g stg par kl kr s" and i: "i < length (wv_workers s)"
    and step: "wv_workers s ! i = WBuilt p \<and> w = (if pf_built (wv_heap s ! p) then WSubmit p else WDone) \<or>
      wv_workers s ! i = WSubmit p \<and> w = WDone \<and> pf_submitted (wv_heap s ! p)"
  shows "wave_inv g stg par kl kr (s\<lparr>wv_workers := (wv_workers s)[i := w]\<rparr>)" (is "wave_inv _ _ _ _ _ ?s")
proof -
  note d = wave_invD [OF inv]
  have p: "worker_ok g s (wv_workers s ! i)" using d(6) i by (simp add: workers_ok_def)
  show ?thesis
  proof (rule wave_inv_same_heap [OF inv])
    show "located stg ?s"
      by (rule located_cong [OF d(3)]) (use i step in \<open>auto simp: waiting_def isW_def split: if_splits\<close>)
    show "links_ok g kl kr ?s"
    proof -
      have o: "owed ?s b = owed s b" for b using i step by (auto simp: owed_def isW_def split: if_splits)
      have np: "nworkers (WBuilt b) (wv_workers ?s) + nworkers (WSubmit b) (wv_workers ?s) =
          nworkers (WBuilt b) (wv_workers s) + nworkers (WSubmit b) (wv_workers s)" if "b \<noteq> p \<or> w = WSubmit p" for b
        using i step that by (auto simp: isW_def split: if_splits)
      have "inner_ok kl kr ?s b" if "inner_ok kl kr s b" for b
      proof (rule inner_okI)
        show "pf_pending (wv_heap ?s ! b) = 2 - twice (wv_heap ?s ! kl b) - twice (wv_heap ?s ! kr b) + owed ?s b"
          using inner_okD(1) [OF that] o by simp
        assume "pf_built (wv_heap ?s ! b)" "pf_pending (wv_heap ?s ! b) = 0" "\<not> pf_submitted (wv_heap ?s ! b)"
        moreover from this have "b \<noteq> p \<or> w = WSubmit p" using step by auto
        ultimately show "wv_main ?s = MCheck b \<or> wv_main ?s = MSubmit b \<or>
            0 < nworkers (WBuilt b) (wv_workers ?s) + nworkers (WSubmit b) (wv_workers ?s)"
          using inner_okD(4) [OF that] np [of b] by simp
      qed (use inner_okD(2,3) [OF that] in simp_all)
      with d(4) show ?thesis by (simp add: links_ok_def)
    qed
    show "workers_ok g ?s"
    proof (rule workers_ok_update [OF d(6)])
      show "worker_ok g ?s w" using p step by auto
      show "worker_ok g s x \<Longrightarrow> worker_ok g ?s x" for x by (cases x) auto
    qed simp
    show "main_ok g kl kr ?s (wv_main ?s)" using d(5) main_ok_heap [of ?s s] by simp
    have "busy w = busy (wv_workers s ! i)" "enqueuing w = enqueuing (wv_workers s ! i)"
      using step by (auto simp: pc_counts split: if_splits)
    then show "wg_ok ?s" using d(9) i by (simp add: wg_ok_def)
  qed simp_all
qed

subsection \<open>Steps on one frame\<close>

text \<open>
  A step changes one frame \<open>a\<close> to \<open>f'\<close> and moves it to stage \<open>k\<close>; \<open>p\<close> and the counters of the other
  frames stay.
\<close>

lemma frames_ok_update:
  assumes "frames_ok g stg par kl kr s" and "a < heapsize s" and "wv_heap s' = (wv_heap s)[a := f']"
    and "to_bump (wv_main s') = to_bump (wv_main s)"
    and "frame_ok g (stg(a := k)) par kl kr (to_bump (wv_main s)) a f'"
  shows "frames_ok g (stg(a := k)) par kl kr s'"
  unfolding frames_ok_def
proof (intro allI impI)
  fix b assume b: "b < heapsize s'"
  show "frame_ok g (stg(a := k)) par kl kr (to_bump (wv_main s')) b (wv_heap s' ! b)"
  proof (cases "b = a")
    case False
    then have "frame_ok g stg par kl kr (to_bump (wv_main s)) b (wv_heap s ! b)"
      using assms(1,3) b by (simp add: frames_ok_def)
    with False assms(3,4) b show ?thesis by (simp add: frame_ok_def)
  qed (use assms in simp)
qed

lemma located_move:
  assumes "located stg s" and "a < heapsize s" and "heapsize s' = heapsize s"
    and "\<And>b. waiting s' b = waiting s b + (if b = a then (if k = 1 then 1 else 0) - (if stg a = 1 then 1 else 0) else 0)"
    and "\<And>b. nworkers (WPush b) (wv_workers s') = nworkers (WPush b) (wv_workers s) +
      (if b = a then (if k = 2 then 1 else 0) - (if stg a = 2 then 1 else 0) else 0)"
    and "\<And>b. nworkers (WBump b) (wv_workers s') = nworkers (WBump b) (wv_workers s) +
      (if b = a then (if k = 3 then 1 else 0) - (if stg a = 3 then 1 else 0) else 0)"
  shows "located (stg(a := k)) s'"
  using assms(1,2) by (simp add: located_def assms(3-6))

text \<open>The promotion of parents sees of a frame only these fields.\<close>

definition same_links :: "parFrame list \<Rightarrow> parFrame list \<Rightarrow> bool" where
  "same_links h h' \<longleftrightarrow> length h' = length h \<and> (\<forall>a < length h. pf_submitted (h' ! a) = pf_submitted (h ! a) \<and>
     pf_pending (h' ! a) = pf_pending (h ! a) \<and> pf_built (h' ! a) = pf_built (h ! a) \<and> pf_events (h' ! a) = pf_events (h ! a))"

lemma same_links_update:
  assumes "a < length h" and "pf_submitted f = pf_submitted (h ! a)" "pf_pending f = pf_pending (h ! a)"
    "pf_built f = pf_built (h ! a)" "pf_events f = pf_events (h ! a)"
  shows "same_links h (h[a := f])"
  using assms by (simp add: same_links_def nth_list_update)

lemma links_ok_same:
  assumes "links_ok g kl kr s" and "same_links (wv_heap s) (wv_heap s')" and "shape_ok g par kl kr (heapsize s) stack"
    and "wv_main s' = wv_main s"
    and "\<And>b. nworkers (WDec b) (wv_workers s') = nworkers (WDec b) (wv_workers s)"
    and "\<And>b. nworkers (WBuilt b) (wv_workers s') = nworkers (WBuilt b) (wv_workers s)"
    and "\<And>b. nworkers (WSubmit b) (wv_workers s') = nworkers (WSubmit b) (wv_workers s)"
  shows "links_ok g kl kr s'"
  unfolding links_ok_def
proof (intro allI impI)
  fix a assume "a < heapsize s'"
  then have a: "a < heapsize s" using assms(2) by (simp add: same_links_def)
  then have f: "pf_submitted (wv_heap s' ! a) = pf_submitted (wv_heap s ! a)"
     "pf_pending (wv_heap s' ! a) = pf_pending (wv_heap s ! a)" "pf_built (wv_heap s' ! a) = pf_built (wv_heap s ! a)"
    using assms(2) by (simp_all add: same_links_def)
  show "if is_inner (g a) then inner_ok kl kr s' a else \<not> pf_submitted (wv_heap s' ! a) \<longrightarrow> wv_main s' = MSubmit a"
  proof (cases "is_inner (g a)")
    case True
    note k = shape_inner [OF assms(3) a True]
    have tw: "twice (wv_heap s' ! kl a) = twice (wv_heap s ! kl a)" "twice (wv_heap s' ! kr a) = twice (wv_heap s ! kr a)"
      using assms(2) k(3,4) by (simp_all add: same_links_def twice_def)
    have o: "owed s' a = owed s a" by (simp only: owed_def assms(4,5))
    have "inner_ok kl kr s' a = inner_ok kl kr s a" by (simp only: inner_ok_def f tw o assms(4,6,7))
    with links_inner [OF assms(1) a True] have "inner_ok kl kr s' a" by simp
    with True show ?thesis by simp
  next
    case False
    with assms(1,4) a f(1) show ?thesis by (simp add: links_ok_def)
  qed
qed

lemma pcs_ok_same:
  assumes "same_links (wv_heap s) (wv_heap s')"
  shows "worker_ok g s w \<Longrightarrow> worker_ok g s' w" and "main_ok g kl kr s m \<Longrightarrow> main_ok g kl kr s' m"
proof -
  show "worker_ok g s w \<Longrightarrow> worker_ok g s' w" using assms by (cases w) (auto simp: same_links_def)
  show "main_ok g kl kr s m \<Longrightarrow> main_ok g kl kr s' m" using assms by (cases m) (auto simp: same_links_def)
qed

lemma mset_set_stage:
  assumes "a < (n :: nat)" and "3 \<le> (k :: nat)" and "stg a < 3"
  shows "mset_set {b. b < n \<and> 3 \<le> (stg(a := k)) b} = add_mset a (mset_set {b. b < n \<and> 3 \<le> stg b})"
proof -
  have "{b. b < n \<and> 3 \<le> (stg(a := k)) b} = insert a {b. b < n \<and> 3 \<le> stg b}" using assms by auto
  moreover have "a \<notin> {b. b < n \<and> 3 \<le> stg b}" using assms by simp
  moreover have "finite {b. b < n \<and> 3 \<le> stg b}" by (rule finite_subset [of _ "{..<n}"]) auto
  ultimately show ?thesis by (simp only: mset_set.insert not_False_eq_True)
qed

lemma sent_set_cong:
  assumes "(3 \<le> (k :: nat)) = (3 \<le> stg a)"
  shows "{b. b < n \<and> 3 \<le> (stg(a := k)) b} = {b. b < n \<and> 3 \<le> stg b}"
  using assms by auto

text \<open>When a frame has been submitted, everything below it has been counted.\<close>

lemma submitted_children:
  assumes inv: "wave_inv g stg par kl kr s" and a: "a < heapsize s" "is_inner (g a)" "1 \<le> stg a"
  shows "stg (kl a) = 4" and "stg (kr a) = 4"
proof -
  note d = wave_invD [OF inv]
  note k = shape_inner [OF d(1) a(1,2)]
  have i: "inner_ok kl kr s a" by (rule links_inner [OF d(4) a(1,2)])
  have "pf_submitted (wv_heap s ! a)" using frame_okD(8) [OF d(2) a(1)] a(3) by simp
  then have "pf_pending (wv_heap s ! a) = 0" using i by (simp add: inner_ok_def)
  from inner_ready [OF i this] frame_okD(10) [OF d(2) k(3)] frame_okD(10) [OF d(2) k(4)]
  show "stg (kl a) = 4" and "stg (kr a) = 4" by (simp_all split: if_splits)
qed

lemma submitted_below:
  assumes inv: "wave_inv g stg par kl kr s" and a: "a < heapsize s" "1 \<le> stg a"
    and only: "\<forall>b < heapsize s. (par b = None) = (b = a)"
  shows "b < heapsize s \<Longrightarrow> b \<noteq> a \<Longrightarrow> stg b = 4"
proof (induction "heapsize s - b" arbitrary: b rule: less_induct)
  case less
  with only obtain p where p: "par b = Some p" by blast
  note b = shape_par [OF wave_invD(1) [OF inv] less.prems(1) p]
  have "1 \<le> stg p"
  proof (cases "p = a")
    case False
    with less.hyps [of p] b less.prems have "stg p = 4" by simp
    then show ?thesis by simp
  qed (use a in simp)
  with submitted_children [OF inv b(2,3)] b(4) show ?case by auto
qed

lemma worker_hash_inv:
  assumes inv: "wave_inv g stg par kl kr s" and i: "i < length (wv_workers s)" "wv_workers s ! i = WHash a"
    and s': "wv_workers s' = (wv_workers s)[i := WPush a]"
      "wv_heap s' = (wv_heap s)[a := hashFrame (wv_heap s) (wv_heap s ! a)]"
      "wv_parStack s' = wv_parStack s" "wv_main s' = wv_main s" "wv_writeQ s' = wv_writeQ s" "wv_si s' = wv_si s"
      "wv_pending s' = wv_pending s" "wv_disp s' = wv_disp s" "wv_ready s' = wv_ready s" "wv_hashWg s' = wv_hashWg s"
      "wv_rootEncoded s' = (if pf_parent (wv_heap s' ! a) = None then Some (pf_encoded (wv_heap s' ! a)) else wv_rootEncoded s)"
  shows "wave_inv g (stg(a := 2)) par kl kr s'"
proof -
  note d = wave_invD [OF inv]
  have a: "a < heapsize s" "stg a = 1" using located_waiting [OF d(3) waiting_worker [OF i(1)]] i(2) by auto
  have n: "heapsize s' = heapsize s" using s'(2) by simp
  let ?f = "wv_heap s ! a" and ?f' = "hashFrame (wv_heap s) (wv_heap s ! a)"
  have hash: "pf_hash ?f' = t_hash (erase (g a)) \<and> pf_encoded ?f' = node_bytes (g a)"
  proof (cases "g a")
    case (LLeaf v m k x)
    with frame_okD(1,3) [OF d(2) a(1)] frame_okD(11) [OF d(2) a(1) _ LLeaf] a(2) show ?thesis
      by (simp add: hashFrame_def)
  next
    case (LNode v m h k l r)
    then have inner: "is_inner (g a)" by simp
    note k = shape_inner [OF d(1) a(1) inner]
    from k(8) LNode have g: "l = g (kl a)" "r = g (kr a)" "h \<noteq> 0" by auto
    from submitted_children [OF inv a(1) inner] a(2) have "stg (kl a) = 4" "stg (kr a) = 4" by simp_all
    with frame_okD(1-5) [OF d(2) k(3)] frame_okD(1-5) [OF d(2) k(4)] frame_okD(1-4) [OF d(2) a(1)]
      frame_okD(12) [OF d(2) a(1) _ LNode] a(2) LNode g show ?thesis
      by (simp add: hashFrame_def Let_def)
  qed
  have keep: "pf_height ?f' = pf_height ?f" "pf_size ?f' = pf_size ?f" "pf_version ?f' = pf_version ?f"
    "pf_nonce ?f' = pf_nonce ?f" "pf_parent ?f' = pf_parent ?f" "pf_submitted ?f' = pf_submitted ?f"
    "pf_events ?f' = pf_events ?f" "pf_pending ?f' = pf_pending ?f" "pf_built ?f' = pf_built ?f"
    by (simp_all add: hashFrame_def Let_def)
  have same: "same_links (wv_heap s) (wv_heap s')" unfolding s'(2) by (rule same_links_update) (use a keep in simp_all)
  have pr: "nworkers x (wv_workers s') = nworkers x (wv_workers s)" if "x \<noteq> WHash a" "x \<noteq> WPush a" for x
    using i that by (simp add: s'(1) isW_def)
  show ?thesis unfolding wave_inv_def
  proof (intro conjI)
    show "shape_ok g par kl kr (heapsize s') (wv_parStack s')" using d(1) n s'(3) by simp
    show "frames_ok g (stg(a := 2)) par kl kr s'"
      by (rule frames_ok_update [OF d(2) a(1) s'(2)]) (use s'(4) frame_okD(1-4,7-10) [OF d(2) a(1)] a(2) hash keep in \<open>simp_all add: frame_ok_def\<close>)
    show "located (stg(a := 2)) s'"
      by (rule located_move [OF d(3) a(1) n]) (use i a(2) s' in \<open>simp_all add: waiting_def isW_def\<close>)
    show "links_ok g kl kr s'" by (rule links_ok_same [OF d(4) same d(1) s'(4)]) (simp_all add: pr)
    show "main_ok g kl kr s' (wv_main s')" using pcs_ok_same(2) [OF same d(5)] s'(4) by simp
    show "workers_ok g s'" by (rule workers_ok_update [OF d(6) s'(1)]) (simp_all add: pcs_ok_same(1) [OF same])
    show "root_ok g (stg(a := 2)) par s'" unfolding root_ok_def n
    proof (intro allI impI)
      fix c assume c: "c < heapsize s" "2 \<le> (stg(a := 2)) c \<and> (\<forall>b < heapsize s. (par b = None) = (b = c))"
      show "wv_rootEncoded s' = Some (node_bytes (g c))"
      proof (cases "c = a")
        case True
        then have "par a = None" using c a(1) by blast
        then have "pf_parent ?f' = None" using keep(5) frame_okD(7) [OF d(2) a(1)] a(2) by simp
        then show ?thesis using True hash s'(2,11) a(1) by simp
      next
        case False
        with c(2) have "1 \<le> stg c" and only: "\<forall>b < heapsize s. (par b = None) = (b = c)" by auto
        from submitted_below [OF inv c(1) this a(1)] False a(2) show ?thesis by simp
      qed
    qed
    show "sent_ok g (stg(a := 2)) s'"
      using d(8) a(2) sent_set_cong [of 2 stg a "heapsize s"] by (simp only: sent_ok_def n s'(5,6)) simp
    show "wg_ok s'" using d(9) i by (simp add: wg_ok_def s' pc_counts)
  qed
qed

lemma worker_push_inv:
  assumes inv: "wave_inv g stg par kl kr s" and i: "i < length (wv_workers s)" "wv_workers s ! i = WPush a"
    and f': "f' = wv_heap s ! a \<or> f' = (wv_heap s ! a)\<lparr>pf_encoded := []\<rparr>"
    and s': "wv_workers s' = (wv_workers s)[i := WBump a]" "wv_heap s' = (wv_heap s)[a := f']"
      "wv_parStack s' = wv_parStack s" "wv_main s' = wv_main s" "wv_rootEncoded s' = wv_rootEncoded s" "wv_si s' = wv_si s"
      "wv_pending s' = wv_pending s" "wv_disp s' = wv_disp s" "wv_ready s' = wv_ready s" "wv_hashWg s' = wv_hashWg s"
      "wv_writeQ s' = wv_writeQ s @ [(nodeDBKey (st_storePrefix (wv_si s)) (pf_version (wv_heap s ! a)) (pf_nonce (wv_heap s ! a)),
         pf_encoded (wv_heap s ! a))]"
  shows "wave_inv g (stg(a := 3)) par kl kr s'"
proof -
  note d = wave_invD [OF inv]
  have a: "a < heapsize s" "stg a = 2" using located_push(1) [OF d(3) i] by auto
  have n: "heapsize s' = heapsize s" using s'(2) by simp
  let ?f = "wv_heap s ! a"
  have keep: "pf_height f' = pf_height ?f" "pf_size f' = pf_size ?f" "pf_version f' = pf_version ?f"
    "pf_nonce f' = pf_nonce ?f" "pf_parent f' = pf_parent ?f" "pf_submitted f' = pf_submitted ?f"
    "pf_events f' = pf_events ?f" "pf_pending f' = pf_pending ?f" "pf_built f' = pf_built ?f" "pf_hash f' = pf_hash ?f"
    using f' by auto
  have same: "same_links (wv_heap s) (wv_heap s')" unfolding s'(2) by (rule same_links_update) (use a keep in simp_all)
  have pr: "nworkers x (wv_workers s') = nworkers x (wv_workers s)" if "x \<noteq> WBump a" "x \<noteq> WPush a" for x
    using i that by (simp add: s'(1) isW_def)
  show ?thesis unfolding wave_inv_def
  proof (intro conjI)
    show "shape_ok g par kl kr (heapsize s') (wv_parStack s')" using d(1) n s'(3) by simp
    show "frames_ok g (stg(a := 3)) par kl kr s'"
      by (rule frames_ok_update [OF d(2) a(1) s'(2)])
        (use s'(4) frame_okD(1-5,7-10) [OF d(2) a(1)] a(2) keep in \<open>simp_all add: frame_ok_def\<close>)
    show "located (stg(a := 3)) s'"
      by (rule located_move [OF d(3) a(1) n]) (use i a(2) s' in \<open>simp_all add: waiting_def isW_def\<close>)
    show "links_ok g kl kr s'" by (rule links_ok_same [OF d(4) same d(1) s'(4)]) (simp_all add: pr)
    show "main_ok g kl kr s' (wv_main s')" using pcs_ok_same(2) [OF same d(5)] s'(4) by simp
    show "workers_ok g s'" by (rule workers_ok_update [OF d(6) s'(1)]) (simp_all add: pcs_ok_same(1) [OF same])
    show "root_ok g (stg(a := 3)) par s'" using d(7) a(2) by (simp add: root_ok_def n s'(5))
    have "(nodeDBKey (st_storePrefix (wv_si s)) (pf_version ?f) (pf_nonce ?f), pf_encoded ?f) =
        entry (st_storePrefix (wv_si s)) (g a)"
      using frame_okD(3,4,6) [OF d(2) a(1)] a(2) by (simp add: entry_def nodeDBKey_def)
    then show "sent_ok g (stg(a := 3)) s'"
      using d(8) mset_set_stage [OF a(1), of 3 stg] a(2) unfolding sent_ok_def n s'(6,11) by simp
    show "wg_ok s'" using d(9) i by (simp add: wg_ok_def s' pc_counts)
  qed
qed

subsection \<open>Steps on the links\<close>

text \<open>
  A step on one frame that concerns the promotion of parents: the links of every inner node have
  to be re-established.
\<close>

lemma wave_inv_links:
  assumes inv: "wave_inv g stg par kl kr s" and a: "a < heapsize s"
    and s': "wv_heap s' = (wv_heap s)[a := f']" "wv_parStack s' = wv_parStack s" "wv_rootEncoded s' = wv_rootEncoded s"
      "wv_writeQ s' = wv_writeQ s" "wv_si s' = wv_si s"
    and frames: "frames_ok g (stg(a := k)) par kl kr s'"
    and stage: "k = stg a \<or> (stg a = 0 \<and> k = 1) \<or> (stg a = 3 \<and> k = 4)"
    and rest: "located (stg(a := k)) s'" "links_ok g kl kr s'" "main_ok g kl kr s' (wv_main s')" "workers_ok g s'" "wg_ok s'"
  shows "wave_inv g (stg(a := k)) par kl kr s'"
proof -
  note d = wave_invD [OF inv]
  have n: "heapsize s' = heapsize s" using s'(1) by simp
  have "(3 \<le> k) = (3 \<le> stg a)" using stage by auto
  then have sent: "sent_ok g (stg(a := k)) s'"
    using d(8) sent_set_cong [of k stg a "heapsize s"] by (simp only: sent_ok_def n s'(4,5))
  have "root_ok g (stg(a := k)) par s'"
    unfolding root_ok_def n s'(3)
  proof (intro allI impI)
    fix c assume c: "c < heapsize s" "2 \<le> (stg(a := k)) c \<and> (\<forall>b < heapsize s. (par b = None) = (b = c))"
    then have "2 \<le> stg c" using stage by (cases "c = a") auto
    with d(7) c show "wv_rootEncoded s = Some (node_bytes (g c))" unfolding root_ok_def by blast
  qed
  with d(1) n s'(2) frames rest sent show ?thesis by (simp add: wave_inv_def)
qed

lemma links_okI:
  assumes "\<And>a. a < heapsize s \<Longrightarrow> is_inner (g a) \<Longrightarrow> inner_ok kl kr s a"
    and "\<And>a. a < heapsize s \<Longrightarrow> \<not> is_inner (g a) \<Longrightarrow> \<not> pf_submitted (wv_heap s ! a) \<Longrightarrow> wv_main s = MSubmit a"
  shows "links_ok g kl kr s"
  unfolding links_ok_def using assms by simp

lemma links_leaf:
  "links_ok g kl kr s \<Longrightarrow> a < heapsize s \<Longrightarrow> \<not> is_inner (g a) \<Longrightarrow> \<not> pf_submitted (wv_heap s ! a) \<Longrightarrow> wv_main s = MSubmit a"
  by (simp add: links_ok_def)

text \<open>The worker's event: the second one of the two owes the parent a decrement.\<close>

lemma worker_bump_inv:
  assumes inv: "wave_inv g stg par kl kr s" and i: "i < length (wv_workers s)" "wv_workers s ! i = WBump a"
    and s': "wv_workers s' = (wv_workers s)[i := w]" "wv_heap s' = (wv_heap s)[a := f']"
      "wv_parStack s' = wv_parStack s" "wv_main s' = wv_main s" "wv_rootEncoded s' = wv_rootEncoded s" "wv_si s' = wv_si s"
      "wv_pending s' = wv_pending s" "wv_disp s' = wv_disp s" "wv_ready s' = wv_ready s" "wv_hashWg s' = wv_hashWg s"
      "wv_writeQ s' = wv_writeQ s"
    and once: "pf_events (wv_heap s ! a) + 1 \<noteq> 2 \<Longrightarrow>
      w = WDone \<and> f' = (wv_heap s ! a)\<lparr>pf_events := pf_events (wv_heap s ! a) + 1\<rparr>"
    and second: "pf_events (wv_heap s ! a) + 1 = 2 \<Longrightarrow>
      w = (case pf_parent (wv_heap s ! a) of None \<Rightarrow> WDone | Some p \<Rightarrow> WDec p) \<and>
      f' = (wv_heap s ! a)\<lparr>pf_events := pf_events (wv_heap s ! a) + 1, pf_parent := None\<rparr>"
  shows "wave_inv g (stg(a := 4)) par kl kr s'"
proof -
  note d = wave_invD [OF inv]
  have a: "a < heapsize s" "stg a = 3" using located_push(2) [OF d(3) i] by auto
  have n: "heapsize s' = heapsize s" using s'(2) by simp
  let ?f = "wv_heap s ! a" and ?two = "par a \<noteq> None \<and> a \<notin> set (to_bump (wv_main s))"
  have ev: "pf_events ?f = (if ?two then 1 else 0)" using frame_okD(10) [OF d(2) a(1)] a(2) by simp
  have parent: "pf_parent ?f = par a" using frame_okD(7) [OF d(2) a(1)] a(2) by simp
  have w: "w = (if ?two then WDec (the (par a)) else WDone)" using once second ev parent by (auto split: if_splits)
  have f': "pf_events f' = (if ?two then 2 else 1)" "pf_submitted f' = pf_submitted ?f" "pf_pending f' = pf_pending ?f"
    "pf_built f' = pf_built ?f" "pf_hash f' = pf_hash ?f" "pf_height f' = pf_height ?f" "pf_size f' = pf_size ?f"
    "pf_version f' = pf_version ?f" "pf_nonce f' = pf_nonce ?f"
    using once second ev by (auto split: if_splits)
  have pr: "nworkers x (wv_workers s') = nworkers x (wv_workers s)" if "x \<noteq> WBump a" "\<And>p. x \<noteq> WDec p" "x \<noteq> WDone" for x
    using i that w by (auto simp: s'(1) isW_def)
  have dec: "nworkers (WDec b) (wv_workers s') = nworkers (WDec b) (wv_workers s) + (if ?two \<and> par a = Some b then 1 else 0)" for b
    using i w by (auto simp: s'(1) isW_def)
  have proj: "pf_submitted (wv_heap s' ! b) = pf_submitted (wv_heap s ! b)" "pf_pending (wv_heap s' ! b) = pf_pending (wv_heap s ! b)"
    "pf_built (wv_heap s' ! b) = pf_built (wv_heap s ! b)" for b
    using a(1) f' s'(2) by (cases "b = a"; simp)+
  have tw: "twice (wv_heap s' ! b) = twice (wv_heap s ! b) + (if b = a \<and> ?two then 1 else 0)" for b
    using a(1) f'(1) ev s'(2) by (cases "b = a") (auto simp: twice_def)
  have inner: "inner_ok kl kr s' b" if b: "b < heapsize s" "is_inner (g b)" for b
  proof (rule inner_okI)
    note ok = links_inner [OF d(4) b] and k = shape_inner [OF d(1) b]
    have "par a = Some b \<longleftrightarrow> a = kl b \<or> a = kr b" using k(6,7) shape_par(4) [OF d(1) a(1)] by auto
    with inner_okD(1) [OF ok] k(5) show "pf_pending (wv_heap s' ! b) =
        2 - twice (wv_heap s' ! kl b) - twice (wv_heap s' ! kr b) + owed s' b"
      by (auto simp: proj tw owed_def dec s'(4))
    show "pf_submitted (wv_heap s' ! b) \<Longrightarrow> pf_pending (wv_heap s' ! b) = 0"
      and "pf_built (wv_heap s' ! b) \<longleftrightarrow> \<not> building (wv_main s') b"
      using inner_okD(2,3) [OF ok] by (simp_all add: proj s'(4))
    show "pf_built (wv_heap s' ! b) \<Longrightarrow> pf_pending (wv_heap s' ! b) = 0 \<Longrightarrow> \<not> pf_submitted (wv_heap s' ! b) \<Longrightarrow>
        wv_main s' = MCheck b \<or> wv_main s' = MSubmit b \<or>
        0 < nworkers (WBuilt b) (wv_workers s') + nworkers (WSubmit b) (wv_workers s')"
      using inner_okD(4) [OF ok] by (simp add: proj s'(4) pr)
  qed
  show ?thesis
  proof (rule wave_inv_links [OF inv a(1) s'(2,3,5,11,6)])
    show "frames_ok g (stg(a := 4)) par kl kr s'"
      by (rule frames_ok_update [OF d(2) a(1) s'(2)])
        (use s'(4) frame_okD(1-5,7-10) [OF d(2) a(1)] a(2) f' in \<open>simp_all add: frame_ok_def\<close>)
    show "located (stg(a := 4)) s'"
      by (rule located_move [OF d(3) a(1) n]) (use i a(2) w s' in \<open>auto simp: waiting_def isW_def\<close>)
    show "links_ok g kl kr s'"
      by (rule links_okI) (use inner n links_leaf [OF d(4)] proj s'(4) in simp_all)
    show "main_ok g kl kr s' (wv_main s')"
      using d(5) n proj by (cases "wv_main s") (auto simp: s'(4))
    show "workers_ok g s'"
    proof (rule workers_ok_update [OF d(6) s'(1)])
      show "worker_ok g s' w" using w shape_par(2,3) [OF d(1) a(1)] n by auto
      show "worker_ok g s x \<Longrightarrow> worker_ok g s' x" for x using n proj by (cases x) auto
    qed
    show "wg_ok s'" using d(9) i w by (auto simp: wg_ok_def s' pc_counts)
  qed (use a(2) in simp)
qed

text \<open>The decrement of the parent's counter; the one that reaches 0 looks whether it is built.\<close>

lemma worker_dec_inv:
  assumes inv: "wave_inv g stg par kl kr s" and i: "i < length (wv_workers s)" "wv_workers s ! i = WDec p"
    and f': "f' = (wv_heap s ! p)\<lparr>pf_pending := pf_pending (wv_heap s ! p) - 1\<rparr>"
    and s': "s' = s\<lparr>wv_heap := (wv_heap s)[p := f'], wv_workers := (wv_workers s)[i := w]\<rparr>"
    and w: "w = (if pf_pending f' = 0 then WBuilt p else WDone)"
  shows "wave_inv g stg par kl kr s'"
proof -
  note d = wave_invD [OF inv]
  have "worker_ok g s (WDec p)" using d(6) i unfolding workers_ok_def by (metis nth_mem)
  then have p: "p < heapsize s" "is_inner (g p)" by auto
  have n: "heapsize s' = heapsize s" by (simp add: s')
  have "1 \<le> owed s p" using nworkers_ge [OF i] by (simp add: owed_def)
  then have live: "pf_pending (wv_heap s ! p) \<noteq> 0" using inner_ready(3) [OF links_inner [OF d(4) p]] by auto
  have proj: "pf_submitted (wv_heap s' ! b) = pf_submitted (wv_heap s ! b)" "pf_built (wv_heap s' ! b) = pf_built (wv_heap s ! b)"
    "twice (wv_heap s' ! b) = twice (wv_heap s ! b)"
    "pf_pending (wv_heap s' ! b) = pf_pending (wv_heap s ! b) - (if b = p then 1 else 0)" for b
    using p(1) by (cases "b = p"; simp add: s' f' twice_def)+
  have pr: "nworkers x (wv_workers s') = nworkers x (wv_workers s)" if "x \<noteq> WDec p" "x \<noteq> WBuilt p" "x \<noteq> WDone" for x
    using i that w by (auto simp: s' isW_def)
  have owed: "owed s' b = owed s b - (if b = p then 1 else 0)" for b
    using i w by (auto simp: owed_def s' isW_def)
  have inner: "inner_ok kl kr s' b" if b: "b < heapsize s" "is_inner (g b)" for b
  proof (rule inner_okI)
    note ok = links_inner [OF d(4) b]
    show "pf_pending (wv_heap s' ! b) = 2 - twice (wv_heap s' ! kl b) - twice (wv_heap s' ! kr b) + owed s' b"
      using inner_okD(1) [OF ok] by (simp add: proj owed)
    show "pf_submitted (wv_heap s' ! b) \<Longrightarrow> pf_pending (wv_heap s' ! b) = 0"
      using inner_okD(2) [OF ok] live by (auto simp: proj)
    show "pf_built (wv_heap s' ! b) \<longleftrightarrow> \<not> building (wv_main s') b"
      using inner_okD(3) [OF ok] by (simp add: proj) (simp add: s')
    assume x: "pf_built (wv_heap s' ! b)" "pf_pending (wv_heap s' ! b) = 0" "\<not> pf_submitted (wv_heap s' ! b)"
    show "wv_main s' = MCheck b \<or> wv_main s' = MSubmit b \<or>
        0 < nworkers (WBuilt b) (wv_workers s') + nworkers (WSubmit b) (wv_workers s')"
    proof (cases "b = p")
      case True
      with x(2) p(1) have "w = WBuilt p" using w by (simp add: s')
      with i True show ?thesis
        using nworkers_nonneg [of "WBuilt p" "wv_workers s"] nworkers_nonneg [of "WSubmit p" "wv_workers s"]
        by (simp add: s') (simp add: isW_def)
    next
      case False
      with inner_okD(4) [OF ok] x show ?thesis by (simp add: proj pr) (simp add: s')
    qed
  qed
  have "wave_inv g (stg(p := stg p)) par kl kr s'"
  proof (rule wave_inv_links [OF inv p(1)])
    show "wv_heap s' = (wv_heap s)[p := f']" "wv_parStack s' = wv_parStack s" "wv_rootEncoded s' = wv_rootEncoded s"
      "wv_writeQ s' = wv_writeQ s" "wv_si s' = wv_si s" by (simp_all add: s')
    have "frame_ok g stg par kl kr (to_bump (wv_main s)) p (wv_heap s ! p)" using d(2) p(1) by (simp only: frames_ok_def)
    then show "frames_ok g (stg(p := stg p)) par kl kr s'"
      by (intro frames_ok_update [OF d(2) p(1), where f' = f']) (simp_all add: s' f')
    show "located (stg(p := stg p)) s'"
      unfolding fun_upd_triv by (rule located_cong [OF d(3)]) (use i w in \<open>auto simp: s' waiting_def isW_def\<close>)
    show "links_ok g kl kr s'"
      by (rule links_okI) (use inner n links_leaf [OF d(4)] proj in \<open>simp_all add: s'\<close>)
    show "main_ok g kl kr s' (wv_main s')"
      using d(5) n proj(4) live by (cases "wv_main s") (auto simp: s')
    show "workers_ok g s'"
    proof (rule workers_ok_update [OF d(6)])
      show "wv_workers s' = (wv_workers s)[i := w]" by (simp add: s')
      show "worker_ok g s' w" using w p n by (simp add: s')
      show "worker_ok g s x \<Longrightarrow> worker_ok g s' x" for x using n proj(4) live by (cases x) auto
    qed
    show "wg_ok s'" using d(9) i w by (auto simp: wg_ok_def s' pc_counts)
  qed simp
  then show ?thesis by simp
qed

text \<open>Submission of a frame by whoever wins the compare-and-swap.\<close>

definition promoted :: "('f, 'e) parState \<Rightarrow> nat \<Rightarrow> bool" where
  "promoted s b \<longleftrightarrow> wv_main s = MCheck b \<or> wv_main s = MSubmit b \<or>
     0 < nworkers (WBuilt b) (wv_workers s) + nworkers (WSubmit b) (wv_workers s)"

lemma submit_inv:
  assumes inv: "wave_inv g stg par kl kr s" and a: "a < heapsize s" "\<not> pf_submitted (wv_heap s ! a)"
      "is_inner (g a) \<Longrightarrow> pf_pending (wv_heap s ! a) = 0"
    and s': "wv_heap s' = (wv_heap s)[a := (wv_heap s ! a)\<lparr>pf_submitted := True\<rparr>]"
      "wv_parStack s' = wv_parStack s" "wv_rootEncoded s' = wv_rootEncoded s" "wv_writeQ s' = wv_writeQ s" "wv_si s' = wv_si s"
    and main: "to_bump (wv_main s') = to_bump (wv_main s)" "building (wv_main s') = building (wv_main s)"
    and counts: "\<And>b. owed s' b = owed s b" "\<And>b. waiting s' b = waiting s b + (if b = a then 1 else 0)"
      "\<And>b. nworkers (WPush b) (wv_workers s') = nworkers (WPush b) (wv_workers s)"
      "\<And>b. nworkers (WBump b) (wv_workers s') = nworkers (WBump b) (wv_workers s)"
    and others: "\<And>b. b \<noteq> a \<Longrightarrow> promoted s b \<Longrightarrow> promoted s' b" "\<And>b. b \<noteq> a \<Longrightarrow> wv_main s = MSubmit b \<Longrightarrow> wv_main s' = MSubmit b"
    and rest: "main_ok g kl kr s' (wv_main s')" "workers_ok g s'" "wg_ok s'"
  shows "wave_inv g (stg(a := 1)) par kl kr s'"
proof -
  note d = wave_invD [OF inv]
  have n: "heapsize s' = heapsize s" by (simp add: s')
  have stg: "stg a = 0" using frame_okD(8) [OF d(2) a(1)] a(2) by simp
  have proj: "pf_built (wv_heap s' ! b) = pf_built (wv_heap s ! b)" "twice (wv_heap s' ! b) = twice (wv_heap s ! b)"
    "pf_pending (wv_heap s' ! b) = pf_pending (wv_heap s ! b)" "pf_submitted (wv_heap s' ! b) = (b = a \<or> pf_submitted (wv_heap s ! b))" for b
    using a(1) by (cases "b = a"; simp add: s'(1) twice_def)+
  have inner: "inner_ok kl kr s' b" if b: "b < heapsize s" "is_inner (g b)" for b
  proof (rule inner_okI)
    note ok = links_inner [OF d(4) b]
    show "pf_pending (wv_heap s' ! b) = 2 - twice (wv_heap s' ! kl b) - twice (wv_heap s' ! kr b) + owed s' b"
      using inner_okD(1) [OF ok] by (simp add: proj counts)
    show "pf_submitted (wv_heap s' ! b) \<Longrightarrow> pf_pending (wv_heap s' ! b) = 0"
      using inner_okD(2) [OF ok] a(3) b(2) by (auto simp: proj)
    show "pf_built (wv_heap s' ! b) \<longleftrightarrow> \<not> building (wv_main s') b"
      using inner_okD(3) [OF ok] by (simp add: proj main)
    assume x: "pf_built (wv_heap s' ! b)" "pf_pending (wv_heap s' ! b) = 0" "\<not> pf_submitted (wv_heap s' ! b)"
    with inner_okD(4) [OF ok] have "b \<noteq> a" "promoted s b" by (simp_all add: proj promoted_def)
    from others(1) [OF this] show "wv_main s' = MCheck b \<or> wv_main s' = MSubmit b \<or>
        0 < nworkers (WBuilt b) (wv_workers s') + nworkers (WSubmit b) (wv_workers s')" by (simp add: promoted_def)
  qed
  show ?thesis
  proof (rule wave_inv_links [OF inv a(1) s'])
    have "frame_ok g stg par kl kr (to_bump (wv_main s)) a (wv_heap s ! a)" using d(2) a(1) by (simp only: frames_ok_def)
    then show "frames_ok g (stg(a := 1)) par kl kr s'"
      by (intro frames_ok_update [OF d(2) a(1) s'(1) main(1)] frame_ok_submit) (simp_all add: stg)
    show "located (stg(a := 1)) s'"
      by (rule located_move [OF d(3) a(1) n]) (simp_all add: counts stg)
    show "links_ok g kl kr s'"
      by (rule links_okI) (use inner n links_leaf [OF d(4)] others(2) in \<open>auto simp: proj\<close>)
  qed (use stg rest in simp_all)
qed

lemma worker_submit_inv:
  assumes inv: "wave_inv g stg par kl kr s" and i: "i < length (wv_workers s)" "wv_workers s ! i = WSubmit p"
    and free: "\<not> pf_submitted (wv_heap s ! p)"
    and s': "s' = s\<lparr>wv_heap := (wv_heap s)[p := (wv_heap s ! p)\<lparr>pf_submitted := True\<rparr>], wv_hashWg := wv_hashWg s + 1,
      wv_workers := (wv_workers s)[i := WEnqueue p]\<rparr>"
  shows "wave_inv g (stg(p := 1)) par kl kr s'"
proof -
  note d = wave_invD [OF inv]
  have "worker_ok g s (WSubmit p)" using d(6) i unfolding workers_ok_def by (metis nth_mem)
  then have p: "p < heapsize s" "is_inner (g p)" "pf_pending (wv_heap s ! p) = 0" by auto
  have pend: "pf_pending (wv_heap s' ! b) = pf_pending (wv_heap s ! b)" for b
    using p(1) by (cases "b = p") (simp_all add: s')
  show ?thesis
  proof (rule submit_inv [OF inv p(1) free])
    show "owed s' b = owed s b" for b using i by (simp add: owed_def s' isW_def)
    show "waiting s' b = waiting s b + (if b = p then 1 else 0)" for b using i by (simp add: waiting_def s' isW_def)
    show "promoted s b \<Longrightarrow> promoted s' b" if "b \<noteq> p" for b
      using i that by (simp add: promoted_def s' isW_def)
    show "main_ok g kl kr s' (wv_main s')" using d(5) pend by (cases "wv_main s") (auto simp: s')
    show "workers_ok g s'"
    proof (rule workers_ok_update [OF d(6)])
      show "wv_workers s' = (wv_workers s)[i := WEnqueue p]" by (simp add: s')
      show "worker_ok g s x \<Longrightarrow> worker_ok g s' x" for x using pend by (cases x) (auto simp: s')
    qed simp
    show "wg_ok s'" using d(9) i by (simp add: wg_ok_def s' pc_counts)
  qed (use i p in \<open>simp_all add: s' isW_def\<close>)
qed

text \<open>Every step of a worker keeps the invariant.\<close>

lemma worker_inv:
  assumes inv: "wave_inv g stg par kl kr s" and i: "i < length (wv_workers s)" and step: "parWorker i s = Some s'"
  shows "\<exists>stg'. wave_inv g stg' par kl kr s'"
proof (cases "wv_workers s ! i")
  case WIdle
  show ?thesis
  proof (cases "wv_ready s")
    case Nil
    with step WIdle have "s' = s\<lparr>wv_workers := (wv_workers s)[i := WExit]\<rparr>"
      by (auto simp: parWorker_def workerNext_def split: if_splits)
    then have "wave_inv g stg par kl kr s'"
      by (intro worker_quiet_inv [OF inv i, of WExit])
        (use WIdle i in \<open>simp_all add: promoting_def waiting_def wg_ok_def pc_counts fun_eq_iff\<close>)
    then show ?thesis by blast
  next
    case (Cons a as)
    with step WIdle have "s' = s\<lparr>wv_ready := as, wv_workers := (wv_workers s)[i := WHash a]\<rparr>"
      by (auto simp: parWorker_def workerNext_def)
    then have "wave_inv g stg par kl kr s'"
      by (intro worker_quiet_inv [OF inv i, of "WHash a"])
        (use WIdle i Cons in \<open>auto simp: promoting_def waiting_def wg_ok_def pc_counts fun_eq_iff\<close>)
    then show ?thesis by blast
  qed
next
  case (WHash a)
  have "wave_inv g (stg(a := 2)) par kl kr s'"
    by (rule worker_hash_inv [OF inv i WHash])
      (use step WHash in \<open>auto simp: parWorker_def workerNext_def Let_def\<close>)
  then show ?thesis by blast
next
  case (WPush a)
  let ?f = "if pf_parent (wv_heap s ! a) \<noteq> None then (wv_heap s ! a)\<lparr>pf_encoded := []\<rparr> else wv_heap s ! a"
  have "wave_inv g (stg(a := 3)) par kl kr s'"
    by (rule worker_push_inv [OF inv i WPush, of ?f])
      (use step WPush in \<open>auto simp: parWorker_def workerNext_def Let_def\<close>)
  then show ?thesis by blast
next
  case (WBump a)
  let ?e = "pf_events (wv_heap s ! a) + 1"
  let ?f = "if ?e = 2 then (wv_heap s ! a)\<lparr>pf_events := ?e, pf_parent := None\<rparr> else (wv_heap s ! a)\<lparr>pf_events := ?e\<rparr>"
  let ?w = "if ?e = 2 then (case pf_parent (wv_heap s ! a) of None \<Rightarrow> WDone | Some p \<Rightarrow> WDec p) else WDone"
  have a: "a < heapsize s" using located_push(2) [OF wave_invD(3) [OF inv] i WBump] by simp
  have "s' = s\<lparr>wv_heap := (wv_heap s)[a := ?f], wv_workers := (wv_workers s)[i := ?w]\<rparr>"
    using step WBump a
    by (cases "?e = 2")
      (auto simp: parWorker_def workerNext_def addEvent_def modFrame_def Let_def split: option.splits)
  then have "wave_inv g (stg(a := 4)) par kl kr s'"
    by (intro worker_bump_inv [OF inv i WBump, of _ ?w ?f]) simp_all
  then show ?thesis by blast
next
  case (WDec p)
  have "worker_ok g s (WDec p)" using wave_invD(6) [OF inv] i WDec unfolding workers_ok_def by (metis nth_mem)
  then have "wave_inv g stg par kl kr s'"
    by (intro worker_dec_inv [OF inv i WDec refl _ refl])
      (use step WDec in \<open>auto simp: parWorker_def workerNext_def decPending_def modFrame_def Let_def\<close>)
  then show ?thesis by blast
next
  case (WBuilt p)
  have "s' = s\<lparr>wv_workers := (wv_workers s)[i := (if pf_built (wv_heap s ! p) then WSubmit p else WDone)]\<rparr>"
    using step WBuilt by (auto simp: parWorker_def workerNext_def)
  then show ?thesis using worker_promote_inv [OF inv i, of p] WBuilt by blast
next
  case (WSubmit p)
  show ?thesis
  proof (cases "pf_submitted (wv_heap s ! p)")
    case True
    then have "s' = s\<lparr>wv_workers := (wv_workers s)[i := WDone]\<rparr>"
      using step WSubmit by (auto simp: parWorker_def workerNext_def casSubmitted_def)
    then show ?thesis using worker_promote_inv [OF inv i, of p] WSubmit True by blast
  next
    case False
    have "wave_inv g (stg(p := 1)) par kl kr s'"
      by (rule worker_submit_inv [OF inv i WSubmit False])
        (use step WSubmit False in \<open>auto simp: parWorker_def workerNext_def casSubmitted_def modFrame_def\<close>)
    then show ?thesis by blast
  qed
next
  case (WEnqueue p)
  then have "s' = s\<lparr>wv_pending := wv_pending s @ [p], wv_workers := (wv_workers s)[i := WDone]\<rparr>"
    using step by (auto simp: parWorker_def workerNext_def enqueueFrame_def)
  then have "wave_inv g stg par kl kr s'"
    by (intro worker_quiet_inv [OF inv i, of WDone])
      (use WEnqueue i in \<open>auto simp: promoting_def waiting_def wg_ok_def pc_counts fun_eq_iff\<close>)
  then show ?thesis by blast
next
  case WDone
  then have "s' = s\<lparr>wv_hashWg := wv_hashWg s - 1, wv_workers := (wv_workers s)[i := WIdle]\<rparr>"
    using step by (auto simp: parWorker_def workerNext_def)
  then have "wave_inv g stg par kl kr s'"
    by (intro worker_quiet_inv [OF inv i, of WIdle])
      (use WDone i in \<open>auto simp: promoting_def waiting_def wg_ok_def pc_counts fun_eq_iff\<close>)
  then show ?thesis by blast
next
  case WExit
  with step show ?thesis by (simp add: parWorker_def workerNext_def)
qed

section \<open>The main thread\<close>

text \<open>The main thread's event for one child of the new inner node.\<close>

lemma main_bump_inv:
  assumes inv: "wave_inv g stg par kl kr s" and main: "wv_main s = MBump i (c # cs)"
    and f': "f' = (wv_heap s ! c)\<lparr>pf_events := pf_events (wv_heap s ! c) + 1\<rparr>"
    and s': "s' = s\<lparr>wv_heap := (wv_heap s)[c := f'], wv_main := (if pf_events f' = 2 then MDec i cs else MBump i cs)\<rparr>"
  shows "wave_inv g stg par kl kr s'"
proof -
  note d = wave_invD [OF inv]
  from d(5) main have i: "i < heapsize s" "is_inner (g i)" and cs: "c # cs = [kr i] \<or> c # cs = [kl i, kr i]" by auto
  note k = shape_inner [OF d(1) i]
  have c: "c < heapsize s" "par c = Some i" "c \<notin> set cs" using cs k by auto
  have n: "heapsize s' = heapsize s" by (simp add: s')
  have ev: "pf_events (wv_heap s ! c) = (if stg c = 4 then 1 else 0)" using frame_okD(10) [OF d(2) c(1)] main by simp
  have two: "pf_events f' = 2 \<longleftrightarrow> stg c = 4" using ev f' by simp
  have bump: "to_bump (wv_main s') = cs" by (simp add: s')
  have proj: "pf_submitted (wv_heap s' ! b) = pf_submitted (wv_heap s ! b)" "pf_pending (wv_heap s' ! b) = pf_pending (wv_heap s ! b)"
    "pf_built (wv_heap s' ! b) = pf_built (wv_heap s ! b)" for b
    using c(1) by (cases "b = c"; simp add: s' f')+
  have tw: "twice (wv_heap s' ! b) = twice (wv_heap s ! b) + (if b = c \<and> stg c = 4 then 1 else 0)" for b
    using c(1) two ev by (cases "b = c") (simp_all add: twice_def s')
  have owed: "owed s' b = owed s b + (if b = i \<and> stg c = 4 then 1 else 0)" for b
    using two main by (simp add: owed_def s')
  have build: "building (wv_main s') b = building (wv_main s) b" for b using main by (simp add: building_def s')
  have inner: "inner_ok kl kr s' b" if b: "b < heapsize s" "is_inner (g b)" for b
  proof (rule inner_okI)
    note ok = links_inner [OF d(4) b] and kb = shape_inner [OF d(1) b]
    have "b = i \<longleftrightarrow> c = kl b \<or> c = kr b" using kb(6,7) c(2) shape_par(4) [OF d(1) c(1,2)] by (metis option.inject)
    with inner_okD(1) [OF ok] kb(5) show "pf_pending (wv_heap s' ! b) =
        2 - twice (wv_heap s' ! kl b) - twice (wv_heap s' ! kr b) + owed s' b"
      by (auto simp: proj tw owed)
    show "pf_submitted (wv_heap s' ! b) \<Longrightarrow> pf_pending (wv_heap s' ! b) = 0"
      and "pf_built (wv_heap s' ! b) \<longleftrightarrow> \<not> building (wv_main s') b"
      using inner_okD(2,3) [OF ok] by (simp_all add: proj build)
    show "pf_built (wv_heap s' ! b) \<Longrightarrow> pf_pending (wv_heap s' ! b) = 0 \<Longrightarrow> \<not> pf_submitted (wv_heap s' ! b) \<Longrightarrow>
        wv_main s' = MCheck b \<or> wv_main s' = MSubmit b \<or>
        0 < nworkers (WBuilt b) (wv_workers s') + nworkers (WSubmit b) (wv_workers s')"
      using inner_okD(4) [OF ok] main by (simp add: proj) (simp add: s')
  qed
  have frames: "frames_ok g (stg(c := stg c)) par kl kr s'"
    unfolding frames_ok_def fun_upd_triv bump
  proof (intro allI impI)
    fix b assume b: "b < heapsize s'"
    then have ok: "frame_ok g stg par kl kr (c # cs) b (wv_heap s ! b)" using d(2) main n by (simp add: frames_ok_def)
    show "frame_ok g stg par kl kr cs b (wv_heap s' ! b)"
    proof (cases "b = c")
      case True
      with ok c ev show ?thesis by (cases "g c") (simp_all add: frame_ok_def s' f')
    next
      case False
      with ok show ?thesis by (simp add: frame_ok_def s')
    qed
  qed
  have "wave_inv g (stg(c := stg c)) par kl kr s'"
  proof (rule wave_inv_links [OF inv c(1) _ _ _ _ _ frames])
    show "wv_heap s' = (wv_heap s)[c := f']" by (simp add: s')
    show "located (stg(c := stg c)) s'"
      unfolding fun_upd_triv by (rule located_cong [OF d(3)]) (use main in \<open>simp_all add: s' waiting_def\<close>)
    show "links_ok g kl kr s'"
    proof (rule links_okI)
      fix a assume "a < heapsize s'" "\<not> is_inner (g a)" "\<not> pf_submitted (wv_heap s' ! a)"
      with links_leaf [OF d(4), of a] main n proj(1) show "wv_main s' = MSubmit a" by simp
    qed (use inner n in simp)
    show "main_ok g kl kr s' (wv_main s')" using i cs by (auto simp: s')
    show "workers_ok g s'"
    proof -
      have "worker_ok g s x \<Longrightarrow> worker_ok g s' x" for x using n proj by (cases x) auto
      with d(6) show ?thesis by (simp add: workers_ok_def s')
    qed
    show "wg_ok s'" using d(9) main by (simp add: wg_ok_def s')
  qed (simp_all add: s')
  then show ?thesis by simp
qed

lemma main_dec_inv:
  assumes inv: "wave_inv g stg par kl kr s" and main: "wv_main s = MDec i cs"
    and s': "s' = s\<lparr>wv_heap := (wv_heap s)[i := (wv_heap s ! i)\<lparr>pf_pending := pf_pending (wv_heap s ! i) - 1\<rparr>], wv_main := MBump i cs\<rparr>"
  shows "wave_inv g stg par kl kr s'"
proof -
  note d = wave_invD [OF inv]
  from d(5) main have i: "i < heapsize s" "is_inner (g i)" and cs: "cs = [] \<or> cs = [kr i]" by auto
  have n: "heapsize s' = heapsize s" by (simp add: s')
  have "1 \<le> owed s i" using main nworkers_nonneg [of "WDec i" "wv_workers s"] by (simp add: owed_def)
  then have live: "pf_pending (wv_heap s ! i) \<noteq> 0" using inner_ready(3) [OF links_inner [OF d(4) i]] by auto
  have nb: "\<not> pf_built (wv_heap s ! i)" using inner_okD(3) [OF links_inner [OF d(4) i]] main by (simp add: building_def)
  have proj: "pf_submitted (wv_heap s' ! b) = pf_submitted (wv_heap s ! b)" "pf_built (wv_heap s' ! b) = pf_built (wv_heap s ! b)"
    "twice (wv_heap s' ! b) = twice (wv_heap s ! b)"
    "pf_pending (wv_heap s' ! b) = pf_pending (wv_heap s ! b) - (if b = i then 1 else 0)" for b
    using i(1) by (cases "b = i"; simp add: s' twice_def)+
  have owed: "owed s' b = owed s b - (if b = i then 1 else 0)" for b using main by (auto simp: owed_def s')
  have inner: "inner_ok kl kr s' b" if b: "b < heapsize s" "is_inner (g b)" for b
  proof (rule inner_okI)
    note ok = links_inner [OF d(4) b]
    show "pf_pending (wv_heap s' ! b) = 2 - twice (wv_heap s' ! kl b) - twice (wv_heap s' ! kr b) + owed s' b"
      using inner_okD(1) [OF ok] by (simp add: proj owed)
    show "pf_submitted (wv_heap s' ! b) \<Longrightarrow> pf_pending (wv_heap s' ! b) = 0"
      using inner_okD(2) [OF ok] live by (auto simp: proj)
    show "pf_built (wv_heap s' ! b) \<longleftrightarrow> \<not> building (wv_main s') b"
      using inner_okD(3) [OF ok] main by (simp add: proj) (simp add: s' building_def)
    assume "pf_built (wv_heap s' ! b)" "pf_pending (wv_heap s' ! b) = 0" "\<not> pf_submitted (wv_heap s' ! b)"
    moreover from this nb have "b \<noteq> i" by (auto simp: proj)
    ultimately show "wv_main s' = MCheck b \<or> wv_main s' = MSubmit b \<or>
        0 < nworkers (WBuilt b) (wv_workers s') + nworkers (WSubmit b) (wv_workers s')"
      using inner_okD(4) [OF ok] main by (simp add: proj) (simp add: s')
  qed
  have "wave_inv g (stg(i := stg i)) par kl kr s'"
  proof (rule wave_inv_links [OF inv i(1)])
    have "frame_ok g stg par kl kr (to_bump (wv_main s)) i (wv_heap s ! i)" using d(2) i(1) by (simp only: frames_ok_def)
    then show "frames_ok g (stg(i := stg i)) par kl kr s'"
      by (intro frames_ok_update [OF d(2) i(1), where f' = "(wv_heap s ! i)\<lparr>pf_pending := pf_pending (wv_heap s ! i) - 1\<rparr>"])
        (use main in \<open>simp_all add: s'\<close>)
    show "located (stg(i := stg i)) s'"
      unfolding fun_upd_triv by (rule located_cong [OF d(3)]) (use main in \<open>simp_all add: s' waiting_def\<close>)
    show "links_ok g kl kr s'"
    proof (rule links_okI)
      fix a assume "a < heapsize s'" "\<not> is_inner (g a)" "\<not> pf_submitted (wv_heap s' ! a)"
      with links_leaf [OF d(4), of a] main n proj(1) show "wv_main s' = MSubmit a" by simp
    qed (use inner n in simp)
    show "main_ok g kl kr s' (wv_main s')" using i cs by (auto simp: s')
    show "workers_ok g s'"
    proof -
      have "worker_ok g s x \<Longrightarrow> worker_ok g s' x" for x using n proj(4) live by (cases x) auto
      with d(6) show ?thesis by (simp add: workers_ok_def s')
    qed
    show "wg_ok s'" using d(9) main by (simp add: wg_ok_def s')
  qed (simp_all add: s')
  then show ?thesis by simp
qed

lemma main_built_inv:
  assumes inv: "wave_inv g stg par kl kr s" and main: "wv_main s = MBuilt i"
    and s': "s' = s\<lparr>wv_heap := (wv_heap s)[i := (wv_heap s ! i)\<lparr>pf_built := True\<rparr>], wv_main := MCheck i\<rparr>"
  shows "wave_inv g stg par kl kr s'"
proof -
  note d = wave_invD [OF inv]
  from d(5) main have i: "i < heapsize s" "is_inner (g i)" by auto
  have n: "heapsize s' = heapsize s" by (simp add: s')
  have proj: "pf_submitted (wv_heap s' ! b) = pf_submitted (wv_heap s ! b)" "pf_pending (wv_heap s' ! b) = pf_pending (wv_heap s ! b)"
    "twice (wv_heap s' ! b) = twice (wv_heap s ! b)" "pf_built (wv_heap s' ! b) = (b = i \<or> pf_built (wv_heap s ! b))" for b
    using i(1) by (cases "b = i"; simp add: s' twice_def)+
  have inner: "inner_ok kl kr s' b" if b: "b < heapsize s" "is_inner (g b)" for b
  proof (rule inner_okI)
    note ok = links_inner [OF d(4) b]
    show "pf_pending (wv_heap s' ! b) = 2 - twice (wv_heap s' ! kl b) - twice (wv_heap s' ! kr b) + owed s' b"
      using inner_okD(1) [OF ok] main by (simp add: proj) (simp add: owed_def s')
    show "pf_submitted (wv_heap s' ! b) \<Longrightarrow> pf_pending (wv_heap s' ! b) = 0"
      using inner_okD(2) [OF ok] by (simp add: proj)
    show "pf_built (wv_heap s' ! b) \<longleftrightarrow> \<not> building (wv_main s') b"
      using inner_okD(3) [OF ok] main by (auto simp: proj) (auto simp: s' building_def)
    assume "pf_built (wv_heap s' ! b)" "pf_pending (wv_heap s' ! b) = 0" "\<not> pf_submitted (wv_heap s' ! b)"
    then show "wv_main s' = MCheck b \<or> wv_main s' = MSubmit b \<or>
        0 < nworkers (WBuilt b) (wv_workers s') + nworkers (WSubmit b) (wv_workers s')"
      using inner_okD(4) [OF ok] main by (cases "b = i") (simp_all add: proj, simp_all add: s')
  qed
  have "wave_inv g (stg(i := stg i)) par kl kr s'"
  proof (rule wave_inv_links [OF inv i(1)])
    have "frame_ok g stg par kl kr (to_bump (wv_main s)) i (wv_heap s ! i)" using d(2) i(1) by (simp only: frames_ok_def)
    then show "frames_ok g (stg(i := stg i)) par kl kr s'"
      by (intro frames_ok_update [OF d(2) i(1), where f' = "(wv_heap s ! i)\<lparr>pf_built := True\<rparr>"])
        (use main in \<open>simp_all add: s'\<close>)
    show "located (stg(i := stg i)) s'"
      unfolding fun_upd_triv by (rule located_cong [OF d(3)]) (use main in \<open>simp_all add: s' waiting_def\<close>)
    show "links_ok g kl kr s'"
    proof (rule links_okI)
      fix a assume "a < heapsize s'" "\<not> is_inner (g a)" "\<not> pf_submitted (wv_heap s' ! a)"
      with links_leaf [OF d(4), of a] main n proj(1) show "wv_main s' = MSubmit a" by simp
    qed (use inner n in simp)
    show "workers_ok g s'"
    proof -
      have "worker_ok g s x \<Longrightarrow> worker_ok g s' x" for x using n proj by (cases x) auto
      with d(6) show ?thesis by (simp add: workers_ok_def s')
    qed
    show "wg_ok s'" using d(9) main by (simp add: wg_ok_def s')
  qed (use i in \<open>simp_all add: s'\<close>)
  then show ?thesis by simp
qed

text \<open>Steps of the main thread that only move its program counter.\<close>

lemma main_move_inv:
  assumes inv: "wave_inv g stg par kl kr s"
    and s': "wv_heap s' = wv_heap s" "wv_parStack s' = wv_parStack s" "wv_rootEncoded s' = wv_rootEncoded s"
      "wv_writeQ s' = wv_writeQ s" "st_storePrefix (wv_si s') = st_storePrefix (wv_si s)" "wv_workers s' = wv_workers s"
    and main: "to_bump (wv_main s') = to_bump (wv_main s)" "\<And>b. building (wv_main s') b = building (wv_main s) b"
      "\<And>b. owed s' b = owed s b" "\<And>b. waiting s' b = waiting s b" "wg_ok s'" "main_ok g kl kr s (wv_main s')"
    and keep: "\<And>b. b < heapsize s \<Longrightarrow> promoted s b \<Longrightarrow> promoted s' b \<or> pf_submitted (wv_heap s ! b) \<or>
        (is_inner (g b) \<and> pf_pending (wv_heap s ! b) \<noteq> 0)"
      "\<And>b. b < heapsize s \<Longrightarrow> wv_main s = MSubmit b \<Longrightarrow> \<not> pf_submitted (wv_heap s ! b) \<Longrightarrow> wv_main s' = MSubmit b"
  shows "wave_inv g stg par kl kr s'"
proof -
  note d = wave_invD [OF inv]
  show ?thesis
  proof (rule wave_inv_same_heap [OF inv s'(1-5) main(1)])
    show "located stg s'" by (rule located_cong [OF d(3)]) (simp_all add: s' main)
    show "links_ok g kl kr s'"
    proof (rule links_okI)
      fix b assume b: "b < heapsize s'" "is_inner (g b)"
      then have ok: "inner_ok kl kr s b" using links_inner [OF d(4)] s'(1) by simp
      show "inner_ok kl kr s' b"
      proof (rule inner_okI)
        assume "pf_built (wv_heap s' ! b)" "pf_pending (wv_heap s' ! b) = 0" "\<not> pf_submitted (wv_heap s' ! b)"
        moreover from this inner_okD(4) [OF ok] s'(1) have "promoted s b" by (simp add: promoted_def)
        ultimately show "wv_main s' = MCheck b \<or> wv_main s' = MSubmit b \<or>
            0 < nworkers (WBuilt b) (wv_workers s') + nworkers (WSubmit b) (wv_workers s')"
          using keep(1) [of b] b s'(1) by (simp add: promoted_def)
      qed (use inner_okD(1-3) [OF ok] s'(1) main in simp_all)
    next
      fix a assume "a < heapsize s'" "\<not> is_inner (g a)" "\<not> pf_submitted (wv_heap s' ! a)"
      then show "wv_main s' = MSubmit a" using links_leaf [OF d(4), of a] keep(2) [of a] s'(1) by simp
    qed
    show "main_ok g kl kr s' (wv_main s')" using main(6) main_ok_heap [OF s'(1)] by simp
    show "workers_ok g s'" using d(6) worker_ok_heap [OF s'(1)] by (simp add: workers_ok_def s')
  qed (rule main(5))
qed

text \<open>Every step of the main thread inside \<open>addInnerPar\<close>, \<open>submitParFrame\<close> and \<open>finishStreaming\<close> keeps the invariant.\<close>

lemma main_inv:
  assumes inv: "wave_inv g stg par kl kr s" and step: "mainStep putFast s = Some s'" and pc: "wv_main s \<noteq> MNext"
  shows "\<exists>stg'. wave_inv g stg' par kl kr s'"
proof (cases "wv_main s")
  case (MBump i cs)
  show ?thesis
  proof (cases cs)
    case Nil
    with MBump step have s': "s' = s\<lparr>wv_main := MBuilt i\<rparr>" by (auto simp: mainStep_def finishStreaming_def)
    have "wave_inv g stg par kl kr s'"
      by (rule main_move_inv [OF inv])
        (use MBump Nil wave_invD(5,9) [OF inv] in \<open>simp_all add: s' building_def owed_def waiting_def wg_ok_def promoted_def\<close>)
    then show ?thesis by blast
  next
    case (Cons c cs')
    have "wave_inv g stg par kl kr s'"
      by (rule main_bump_inv [OF inv MBump [unfolded Cons] refl])
        (use step MBump Cons wave_invD(5) [OF inv] shape_inner [OF wave_invD(1) [OF inv], of i] in
          \<open>auto simp: mainStep_def finishStreaming_def addEvent_def modFrame_def\<close>)
    then show ?thesis by blast
  qed
next
  case (MDec i cs)
  have "wave_inv g stg par kl kr s'"
    by (rule main_dec_inv [OF inv MDec]) (use step MDec in \<open>auto simp: mainStep_def finishStreaming_def decPending_def modFrame_def\<close>)
  then show ?thesis by blast
next
  case (MBuilt i)
  have "wave_inv g stg par kl kr s'"
    by (rule main_built_inv [OF inv MBuilt]) (use step MBuilt in \<open>auto simp: mainStep_def finishStreaming_def modFrame_def\<close>)
  then show ?thesis by blast
next
  case (MCheck i)
  with step have s': "s' = s\<lparr>wv_main := (if pf_pending (wv_heap s ! i) = 0 then MSubmit i else MNext)\<rparr>"
    by (auto simp: mainStep_def finishStreaming_def)
  have "wave_inv g stg par kl kr s'"
    by (rule main_move_inv [OF inv])
      (use MCheck wave_invD(5,9) [OF inv] in \<open>auto simp: s' building_def owed_def waiting_def wg_ok_def promoted_def\<close>)
  then show ?thesis by blast
next
  case (MSubmit a)
  then have a: "a < heapsize s" "is_inner (g a) \<longrightarrow> pf_pending (wv_heap s ! a) = 0" using wave_invD(5) [OF inv] by auto
  show ?thesis
  proof (cases "pf_submitted (wv_heap s ! a)")
    case True
    with step MSubmit have s': "s' = s\<lparr>wv_main := MNext\<rparr>" by (auto simp: mainStep_def finishStreaming_def casSubmitted_def)
    have "wave_inv g stg par kl kr s'"
      by (rule main_move_inv [OF inv])
        (use MSubmit True wave_invD(9) [OF inv] in \<open>auto simp: s' building_def owed_def waiting_def wg_ok_def promoted_def\<close>)
    then show ?thesis by blast
  next
    case False
    with step MSubmit have s': "s' = s\<lparr>wv_heap := (wv_heap s)[a := (wv_heap s ! a)\<lparr>pf_submitted := True\<rparr>],
        wv_hashWg := wv_hashWg s + 1, wv_main := MEnqueue a\<rparr>"
      by (auto simp: mainStep_def finishStreaming_def casSubmitted_def modFrame_def)
    have "workers_ok g s'"
    proof -
      have "pf_pending (wv_heap s' ! b) = pf_pending (wv_heap s ! b)" for b using a(1) by (cases "b = a") (simp_all add: s')
      then have "worker_ok g s x \<Longrightarrow> worker_ok g s' x" for x by (cases x) (auto simp: s')
      with wave_invD(6) [OF inv] show ?thesis by (simp add: workers_ok_def s')
    qed
    then have "wave_inv g (stg(a := 1)) par kl kr s'"
      by (intro submit_inv [OF inv a(1) False])
        (use MSubmit a wave_invD(9) [OF inv] in \<open>auto simp: s' building_def owed_def waiting_def wg_ok_def promoted_def\<close>)
    then show ?thesis by blast
  qed
next
  case (MEnqueue a)
  with step have s': "s' = s\<lparr>wv_pending := wv_pending s @ [a], wv_main := MNext\<rparr>"
    by (auto simp: mainStep_def finishStreaming_def enqueueFrame_def split: if_splits)
  have "wave_inv g stg par kl kr s'"
    by (rule main_move_inv [OF inv])
      (use MEnqueue wave_invD(9) [OF inv] in \<open>auto simp: s' building_def owed_def waiting_def wg_ok_def promoted_def\<close>)
  then show ?thesis by blast
next
  case MWait
  with step have s': "s' = s\<lparr>wv_closed := True, wv_main := MJoin\<rparr>" by (auto simp: mainStep_def finishStreaming_def split: if_splits)
  have "wave_inv g stg par kl kr s'"
    by (rule main_move_inv [OF inv])
      (use MWait wave_invD(9) [OF inv] in \<open>auto simp: s' building_def owed_def waiting_def wg_ok_def promoted_def\<close>)
  then show ?thesis by blast
next
  case MJoin
  with step have s': "s' = s\<lparr>wv_main := MDone\<rparr>" by (auto simp: mainStep_def finishStreaming_def split: if_splits)
  have "wave_inv g stg par kl kr s'"
    by (rule main_move_inv [OF inv])
      (use MJoin wave_invD(9) [OF inv] in \<open>auto simp: s' building_def owed_def waiting_def wg_ok_def promoted_def\<close>)
  then show ?thesis by blast
qed (use step pc in \<open>simp_all add: mainStep_def finishStreaming_def\<close>)

end
