(* ===== verification/WaveAdd.thy ===== *)
theory WaveAdd
  imports WaveInv
begin

text \<open>
  The invariant of the wave-parallel importer, continued: the steps in which the main thread adds
  a frame.
\<close>

section \<open>Adding a node keeps the invariant\<close>

lemma frame_ok_cong:
  assumes "frame_ok g stg par kl kr bump a f"
    and "g' a = g a" "stg' a = stg a" "par' a = par a" "kl' a = kl a" "kr' a = kr a" "a \<in> set bump' \<longleftrightarrow> a \<in> set bump"
  shows "frame_ok g' stg' par' kl' kr' bump' a f"
  using assms by (cases "g a") (simp_all add: frame_ok_def)

lemma fresh_counts:
  assumes "wave_inv g stg par kl kr s"
  shows "waiting s (heapsize s) = 0" "nworkers (WPush (heapsize s)) (wv_workers s) = 0"
    "nworkers (WBump (heapsize s)) (wv_workers s) = 0" "nworkers (WDec (heapsize s)) (wv_workers s) = 0"
proof -
  note d = wave_invD [OF assms]
  show "waiting s (heapsize s) = 0" "nworkers (WPush (heapsize s)) (wv_workers s) = 0"
    "nworkers (WBump (heapsize s)) (wv_workers s) = 0"
    using d(3) by (simp_all add: located_def)
  show "nworkers (WDec (heapsize s)) (wv_workers s) = 0"
  proof (rule ccontr)
    assume "nworkers (WDec (heapsize s)) (wv_workers s) \<noteq> 0"
    with nworkers_nonneg [of "WDec (heapsize s)" "wv_workers s"]
    have "0 < nworkers (WDec (heapsize s)) (wv_workers s)" by simp
    from wsum_pos [OF this] have "WDec (heapsize s) \<in> set (wv_workers s)" by (auto simp: isW_def split: if_splits)
    with d(6) show False by (auto simp: workers_ok_def)
  qed
qed

lemma shape_okI:
  assumes "distinct stack" and "set stack \<subseteq> {..<n}" and "\<And>a. a < n \<Longrightarrow> par a = None \<longleftrightarrow> a \<in> set stack"
    and "\<And>a p. a < n \<Longrightarrow> par a = Some p \<Longrightarrow> a < p \<and> p < n \<and> is_inner (g p) \<and> (a = kl p \<or> a = kr p)"
    and "\<And>a. a < n \<Longrightarrow> is_inner (g a) \<Longrightarrow> kl a < a \<and> kr a < a \<and> kl a \<noteq> kr a \<and> par (kl a) = Some a \<and> par (kr a) = Some a"
    and "\<And>a. a < n \<Longrightarrow> is_inner (g a) \<Longrightarrow> \<exists>v m h k. h \<noteq> 0 \<and> g a = LNode v m h k (g (kl a)) (g (kr a))"
  shows "shape_ok g par kl kr n stack"
  unfolding shape_ok_def using assms by blast

lemma shape_stack:
  assumes "shape_ok g par kl kr n stack"
  shows "distinct stack" "a \<in> set stack \<Longrightarrow> a < n" "a < n \<Longrightarrow> par a = None \<longleftrightarrow> a \<in> set stack"
  using assms unfolding shape_ok_def by blast+

lemma shape_leaf:
  assumes sh: "shape_ok g par kl kr n stack"
  shows "shape_ok (g(n := LLeaf v m k x)) (par(n := None)) kl kr (Suc n) (n # stack)"
proof (rule shape_okI)
  note st = shape_stack [OF sh]
  show "distinct (n # stack)" "set (n # stack) \<subseteq> {..<Suc n}" using st by (auto dest: less_SucI)
  show "(par(n := None)) a = None \<longleftrightarrow> a \<in> set (n # stack)" if "a < Suc n" for a
    using that st by (cases "a = n") auto
  fix a
  show "a < p \<and> p < Suc n \<and> is_inner ((g(n := LLeaf v m k x)) p) \<and> (a = kl p \<or> a = kr p)"
    if "a < Suc n" "(par(n := None)) a = Some p" for p
  proof -
    have a: "a < n" "par a = Some p" using that by (auto split: if_splits)
    note q = shape_par [OF sh a]
    from q(2) have "p \<noteq> n" by simp
    with q show ?thesis by simp
  qed
  assume a: "a < Suc n" "is_inner ((g(n := LLeaf v m k x)) a)"
  then have a': "a < n" "is_inner (g a)" by (auto split: if_splits)
  note k = shape_inner [OF sh a']
  have "kl a \<noteq> n" "kr a \<noteq> n" "a \<noteq> n" using k(3,4) a' by auto
  with k show "kl a < a \<and> kr a < a \<and> kl a \<noteq> kr a \<and> (par(n := None)) (kl a) = Some a \<and> (par(n := None)) (kr a) = Some a"
    and "\<exists>v' m' h' k'. h' \<noteq> 0 \<and> (g(n := LLeaf v m k x)) a =
      LNode v' m' h' k' ((g(n := LLeaf v m k x)) (kl a)) ((g(n := LLeaf v m k x)) (kr a))"
    by simp_all
qed

lemma shape_node:
  assumes sh: "shape_ok g par kl kr n (r # l # stack)" and h: "h \<noteq> 0"
  shows "shape_ok (g(n := LNode v m h k (g l) (g r))) (par(n := None, l := Some n, r := Some n)) (kl(n := l)) (kr(n := r))
    (Suc n) (n # stack)"
proof (rule shape_okI)
  note st = shape_stack [OF sh]
  let ?g = "g(n := LNode v m h k (g l) (g r))" and ?par = "par(n := None, l := Some n, r := Some n)"
    and ?kl = "kl(n := l)" and ?kr = "kr(n := r)"
  have lr: "l < n" "r < n" "l \<noteq> r" "l \<notin> set stack" "r \<notin> set stack" using st(1,2) by auto
  show "distinct (n # stack)" "set (n # stack) \<subseteq> {..<Suc n}" using st(1,2) by (auto dest: less_SucI)
  show "?par a = None \<longleftrightarrow> a \<in> set (n # stack)" if "a < Suc n" for a
    using that st(3) [of a] lr by (cases "a = n") (auto simp: less_Suc_eq)
  fix a
  show "a < p \<and> p < Suc n \<and> is_inner (?g p) \<and> (a = ?kl p \<or> a = ?kr p)" if "a < Suc n" "?par a = Some p" for p
  proof (cases "a = l \<or> a = r")
    case True
    with that(2) lr have "p = n" by (auto split: if_splits)
    with True lr show ?thesis by auto
  next
    case False
    with that have a: "a < n" "par a = Some p" by (auto split: if_splits)
    note q = shape_par [OF sh a]
    from q(2) have "p \<noteq> n" by simp
    with q show ?thesis by simp
  qed
  assume a: "a < Suc n" "is_inner (?g a)"
  have "(?kl a < a \<and> ?kr a < a \<and> ?kl a \<noteq> ?kr a \<and> ?par (?kl a) = Some a \<and> ?par (?kr a) = Some a) \<and>
    (\<exists>v' m' h' k'. h' \<noteq> 0 \<and> ?g a = LNode v' m' h' k' (?g (?kl a)) (?g (?kr a)))"
  proof (cases "a = n")
    case False
    with a have a': "a < n" "is_inner (g a)" by auto
    note k = shape_inner [OF sh a']
    have "par l = None" "par r = None" using st(3) [of l] st(3) [of r] lr by simp_all
    moreover have "kl a \<noteq> n" "kr a \<noteq> n" using k(3,4) by auto
    moreover from calculation have "kl a \<noteq> l" "kl a \<noteq> r" "kr a \<noteq> l" "kr a \<noteq> r" using k(6,7) by auto
    ultimately show ?thesis using k False by simp
  qed (use lr h in auto)
  then show "?kl a < a \<and> ?kr a < a \<and> ?kl a \<noteq> ?kr a \<and> ?par (?kl a) = Some a \<and> ?par (?kr a) = Some a"
    and "\<exists>v' m' h' k'. h' \<noteq> 0 \<and> ?g a = LNode v' m' h' k' (?g (?kl a)) (?g (?kr a))" by blast+
qed

text \<open>What every new frame has in common: it is not submitted, and nobody knows it yet.\<close>

lemma new_frame_inv:
  assumes inv: "wave_inv g stg par kl kr s" and main: "to_bump (wv_main s) = []" "\<And>b cs. wv_main s \<noteq> MDec b cs"
      "\<And>b. wv_main s \<noteq> MEnqueue b"
    and n: "n = heapsize s"
    and s': "heapsize s' = Suc n" "wv_workers s' = wv_workers s" "wv_pending s' = wv_pending s" "wv_disp s' = wv_disp s"
      "wv_ready s' = wv_ready s" "wv_hashWg s' = wv_hashWg s" "wv_writeQ s' = wv_writeQ s" "wv_rootEncoded s' = wv_rootEncoded s"
      "st_storePrefix (wv_si s') = st_storePrefix (wv_si s)"
    and main': "\<And>b. wv_main s' \<noteq> MEnqueue b"
    and old: "\<And>a. a < n \<Longrightarrow> pf_pending (wv_heap s' ! a) = pf_pending (wv_heap s ! a)"
    and g': "\<And>a. a < n \<Longrightarrow> g' a = g a" and stg': "stg' = stg(n := 0)" and par': "par' n = None"
    and shape: "shape_ok g' par' kl' kr' (Suc n) (wv_parStack s')"
    and frames: "frames_ok g' stg' par' kl' kr' s'" and links: "links_ok g' kl' kr' s'" and mok: "main_ok g' kl' kr' s' (wv_main s')"
  shows "wave_inv g' stg' par' kl' kr' s'"
proof -
  note d = wave_invD [OF inv] and z = fresh_counts [OF inv]
  have wt: "waiting s' a = waiting s a" for a using main main' by (simp add: waiting_def s')
  have loc: "located stg' s'" unfolding located_def s' wt
  proof (rule allI, cases)
    fix a assume "a = n"
    then show "waiting s a = (if a < Suc n \<and> stg' a = 1 then 1 else 0) \<and>
        nworkers (WPush a) (wv_workers s) = (if a < Suc n \<and> stg' a = 2 then 1 else 0) \<and>
        nworkers (WBump a) (wv_workers s) = (if a < Suc n \<and> stg' a = 3 then 1 else 0)"
      using z n by (simp add: stg')
  next
    fix a assume a: "a \<noteq> n"
    then have "a < Suc n \<longleftrightarrow> a < heapsize s" using n by auto
    then show "waiting s a = (if a < Suc n \<and> stg' a = 1 then 1 else 0) \<and>
        nworkers (WPush a) (wv_workers s) = (if a < Suc n \<and> stg' a = 2 then 1 else 0) \<and>
        nworkers (WBump a) (wv_workers s) = (if a < Suc n \<and> stg' a = 3 then 1 else 0)"
      using d(3) a by (simp add: located_def stg')
  qed
  have wok: "workers_ok g' s'"
  proof -
    have "worker_ok g s w \<Longrightarrow> worker_ok g' s' w" for w using g' old n s'(1) by (cases w) auto
    with d(6) show ?thesis by (simp add: workers_ok_def s')
  qed
  have root: "root_ok g' stg' par' s'" unfolding root_ok_def s'
  proof (intro allI impI)
    fix a assume a: "a < Suc n" "2 \<le> stg' a \<and> (\<forall>b < Suc n. (par' b = None) = (b = a))"
    then have "a = n" using par' by blast
    with a(2) show "wv_rootEncoded s = Some (node_bytes (g' a))" by (simp add: stg')
  qed
  have sets: "{a. a < Suc n \<and> 3 \<le> stg' a} = {a. a < n \<and> 3 \<le> stg a}" by (auto simp: stg' less_Suc_eq)
  have fin: "finite {a. a < n \<and> 3 \<le> stg a}" by (rule finite_subset [of _ "{..<n}"]) auto
  have im: "image_mset (\<lambda>a. entry p (g' a)) (mset_set {a. a < n \<and> 3 \<le> stg a}) =
      image_mset (\<lambda>a. entry p (g a)) (mset_set {a. a < n \<and> 3 \<le> stg a})" for p
    by (rule image_mset_cong) (use g' fin in auto)
  have sent: "sent_ok g' stg' s'"
    unfolding sent_ok_def s' sets im using d(8) [unfolded sent_ok_def, folded n] .
  have "wg_ok s'" using d(9) main main' by (simp add: wg_ok_def s')
  with shape frames loc links mok wok root sent show ?thesis by (simp add: wave_inv_def s')
qed

lemma old_inner_ok:
  assumes ok: "inner_ok kl kr s b" and main: "wv_main s = MNext"
    and h: "pf_submitted (wv_heap s' ! b) = pf_submitted (wv_heap s ! b)" "pf_pending (wv_heap s' ! b) = pf_pending (wv_heap s ! b)"
      "pf_built (wv_heap s' ! b) = pf_built (wv_heap s ! b)"
      "twice (wv_heap s' ! kl b) = twice (wv_heap s ! kl b)" "twice (wv_heap s' ! kr b) = twice (wv_heap s ! kr b)"
    and k: "kl' b = kl b" "kr' b = kr b" and w: "wv_workers s' = wv_workers s"
    and m: "\<And>cs. wv_main s' \<noteq> MDec b cs" "\<not> building (wv_main s') b"
  shows "inner_ok kl' kr' s' b"
proof (rule inner_okI)
  show "pf_pending (wv_heap s' ! b) = 2 - twice (wv_heap s' ! kl' b) - twice (wv_heap s' ! kr' b) + owed s' b"
    using inner_okD(1) [OF ok] main m(1) by (simp add: h k owed_def w)
  show "pf_submitted (wv_heap s' ! b) \<Longrightarrow> pf_pending (wv_heap s' ! b) = 0" using inner_okD(2) [OF ok] by (simp add: h)
  show "pf_built (wv_heap s' ! b) \<longleftrightarrow> \<not> building (wv_main s') b"
    using inner_okD(3) [OF ok] main m(2) by (simp add: h building_def)
  show "pf_built (wv_heap s' ! b) \<Longrightarrow> pf_pending (wv_heap s' ! b) = 0 \<Longrightarrow> \<not> pf_submitted (wv_heap s' ! b) \<Longrightarrow>
      wv_main s' = MCheck b \<or> wv_main s' = MSubmit b \<or>
      0 < nworkers (WBuilt b) (wv_workers s') + nworkers (WSubmit b) (wv_workers s')"
    using inner_okD(4) [OF ok] main by (simp add: h w)
qed

lemma leaf_inv:
  assumes inv: "wave_inv g stg par kl kr s" and main: "wv_main s = MNext" and n: "n = heapsize s"
    and f: "f = (newParFrame 0 1 v m)\<lparr>pf_leafKey := k, pf_leafValue := x\<rparr>"
    and s': "s' = s\<lparr>wv_si := si, wv_fast := fast, wv_input := input, wv_heap := wv_heap s @ [f],
      wv_parStack := n # wv_parStack s, wv_main := MSubmit n\<rparr>" "st_storePrefix si = st_storePrefix (wv_si s)"
  shows "wave_inv (g(n := LLeaf v m k x)) (stg(n := 0)) (par(n := None)) kl kr s'"
proof -
  note d = wave_invD [OF inv]
  have old: "wv_heap s' ! a = wv_heap s ! a" if "a < n" for a using that n by (simp add: s' nth_append)
  have new: "wv_heap s' ! n = f" using n by (simp add: s')
  show ?thesis
  proof (rule new_frame_inv [OF inv _ _ _ n])
    show "shape_ok (g(n := LLeaf v m k x)) (par(n := None)) kl kr (Suc n) (wv_parStack s')"
      using shape_leaf [OF d(1)] by (simp add: n s')
    show "frames_ok (g(n := LLeaf v m k x)) (stg(n := 0)) (par(n := None)) kl kr s'"
      unfolding frames_ok_def
    proof (intro allI impI)
      fix a assume a: "a < heapsize s'"
      show "frame_ok (g(n := LLeaf v m k x)) (stg(n := 0)) (par(n := None)) kl kr (to_bump (wv_main s')) a (wv_heap s' ! a)"
      proof (cases "a = n")
        case True
        then show ?thesis using new by (simp add: frame_ok_def f newParFrame_def)
      next
        case False
        with a have a': "a < n" using n by (simp add: s')
        then have "frame_ok g stg par kl kr [] a (wv_heap s' ! a)" using d(2) main n old by (simp add: frames_ok_def)
        then show ?thesis by (rule frame_ok_cong) (use False in \<open>simp_all add: s'\<close>)
      qed
    qed
    show "links_ok (g(n := LLeaf v m k x)) kl kr s'"
    proof (rule links_okI)
      fix b assume b: "b < heapsize s'" "is_inner ((g(n := LLeaf v m k x)) b)"
      then have b': "b < heapsize s" "is_inner (g b)" "b < n" using n by (auto simp: s' split: if_splits)
      note ok = links_inner [OF d(4) b'(1,2)] and k = shape_inner [OF d(1) b'(1,2)]
      have h: "wv_heap s' ! b = wv_heap s ! b" "wv_heap s' ! kl b = wv_heap s ! kl b" "wv_heap s' ! kr b = wv_heap s ! kr b"
        using old b'(3) k(3,4) n by simp_all
      show "inner_ok kl kr s' b"
        by (rule old_inner_ok [OF ok main]) (use b'(3) in \<open>simp_all add: h\<close>, simp_all add: s' building_def)
    next
      fix a assume "a < heapsize s'" "\<not> is_inner ((g(n := LLeaf v m k x)) a)" "\<not> pf_submitted (wv_heap s' ! a)"
      then show "wv_main s' = MSubmit a" using links_leaf [OF d(4), of a] main n old [of a]
        by (cases "a = n") (auto simp: s')
    qed
  qed (use main n old in \<open>simp_all add: s'\<close>)
qed

lemma node_inv:
  assumes inv: "wave_inv g stg par kl kr s" and main: "wv_main s = MNext" and n: "n = heapsize s"
    and stack: "wv_parStack s = r # l # rest" and hv: "h \<noteq> 0" "sz = pf_size (wv_heap s ! l) + pf_size (wv_heap s ! r)"
    and f: "f = (newParFrame h sz v m)\<lparr>pf_innerKey := k, pf_leftChild := Some l, pf_rightChild := Some r, pf_pending := 2\<rparr>"
    and s': "s' = s\<lparr>wv_si := si, wv_input := input,
      wv_heap := (wv_heap s @ [f])[l := (wv_heap s ! l)\<lparr>pf_parent := Some n\<rparr>, r := (wv_heap s ! r)\<lparr>pf_parent := Some n\<rparr>],
      wv_parStack := n # rest, wv_main := MBump n [l, r]\<rparr>" "st_storePrefix si = st_storePrefix (wv_si s)"
  shows "wave_inv (g(n := LNode v m h k (g l) (g r))) (stg(n := 0)) (par(n := None, l := Some n, r := Some n))
    (kl(n := l)) (kr(n := r)) s'" (is "wave_inv ?g ?stg ?par ?kl ?kr s'")
proof -
  note d = wave_invD [OF inv]
  have sh: "shape_ok g par kl kr n (r # l # rest)" using d(1) stack n by simp
  note st = shape_stack [OF sh]
  have lr: "l < n" "r < n" "l \<noteq> r" "par l = None" "par r = None" using st by (auto simp: st(3))
  have old: "wv_heap s' ! a = (if a = l \<or> a = r then (wv_heap s ! a)\<lparr>pf_parent := Some n\<rparr> else wv_heap s ! a)"
    if "a < n" for a using that n lr by (auto simp: s' nth_append nth_list_update)
  have new: "wv_heap s' ! n = f" using n lr by (simp add: s' nth_append)
  have proj: "pf_submitted (wv_heap s' ! a) = pf_submitted (wv_heap s ! a)" "pf_pending (wv_heap s' ! a) = pf_pending (wv_heap s ! a)"
    "pf_built (wv_heap s' ! a) = pf_built (wv_heap s ! a)" "twice (wv_heap s' ! a) = twice (wv_heap s ! a)" if "a < n" for a
    using old [OF that] by (simp_all add: twice_def)
  have fr: "frame_ok g stg par kl kr [] a (wv_heap s ! a)" if "a < n" for a
    using d(2) main n that by (simp add: frames_ok_def)
  show ?thesis
  proof (rule new_frame_inv [OF inv _ _ _ n])
    show "shape_ok ?g ?par ?kl ?kr (Suc n) (wv_parStack s')" using shape_node [OF sh hv(1)] by (simp add: s')
    show "frames_ok ?g ?stg ?par ?kl ?kr s'" unfolding frames_ok_def
    proof (intro allI impI)
      fix a assume a: "a < heapsize s'"
      consider "a = n" | "a < n" "a = l \<or> a = r" | "a < n" "a \<noteq> l" "a \<noteq> r" using a n by (auto simp: s' less_Suc_eq)
      then show "frame_ok ?g ?stg ?par ?kl ?kr (to_bump (wv_main s')) a (wv_heap s' ! a)"
      proof cases
        case 1
        then show ?thesis using new lr hv(2) frame_okD(2) [OF d(2), of l] frame_okD(2) [OF d(2), of r] n
          by (simp add: frame_ok_def f newParFrame_def)
      next
        case 2
        with fr [OF 2(1)] lr old [OF 2(1)] show ?thesis
          by (cases "g a") (auto simp: frame_ok_def s')
      next
        case 3
        with old [OF 3(1)] fr [OF 3(1)] have "frame_ok g stg par kl kr [] a (wv_heap s' ! a)" by simp
        then show ?thesis by (rule frame_ok_cong) (use 3 in \<open>simp_all add: s'\<close>)
      qed
    qed
    show "links_ok ?g ?kl ?kr s'"
    proof (rule links_okI)
      fix b assume b: "b < heapsize s'" "is_inner (?g b)"
      show "inner_ok ?kl ?kr s' b"
      proof (cases "b = n")
        case True
        have "twice (wv_heap s ! l) = 0" "twice (wv_heap s ! r) = 0"
          using frame_okD(10) [OF d(2), of l] frame_okD(10) [OF d(2), of r] lr n by (simp_all add: twice_def)
        moreover have "owed s' n = 0" using fresh_counts(4) [OF inv] n by (simp add: owed_def s')
        ultimately show ?thesis using True new lr proj
          by (intro inner_okI) (simp_all add: f newParFrame_def, simp_all add: s' building_def)
      next
        case False
        with b have b': "b < n" "is_inner (g b)" using n by (auto simp: s')
        note ok = links_inner [OF d(4) b'(1) [unfolded n] b'(2)] and k = shape_inner [OF d(1) b'(1) [unfolded n] b'(2)]
        show ?thesis
          by (rule old_inner_ok [OF ok main])
            (use proj [OF b'(1)] proj(4) [of "kl b"] proj(4) [of "kr b"] k(3,4) n False in simp_all, use False in \<open>simp_all add: s' building_def\<close>)
      qed
    next
      fix a assume a: "a < heapsize s'" "\<not> is_inner (?g a)" "\<not> pf_submitted (wv_heap s' ! a)"
      then have "a < n" using n by (cases "a = n") (auto simp: s')
      with links_leaf [OF d(4), of a] a main n proj(1) [of a] show "wv_main s' = MSubmit a" by simp
    qed
  qed (use main n lr proj in \<open>auto simp: s'\<close>)
qed

end
