(* ===== verification/WaveSim.thy ===== *)
theory WaveSim
  imports WaveAdd
begin

text \<open>
  The wave-parallel importer simulates the sequential one: what the main thread has numbered and
  stacked is what the sequential importer has after the same nodes, and the entries sent to the
  writer are, in some order, the ones it has put.
\<close>

section \<open>Databases as maps\<close>

definition map_put :: "(bytes \<rightharpoonup> bytes, 'e) setter" where
  "map_put m k x = Inr (m(k \<mapsto> x))"

definition writes :: "writeEnt list \<Rightarrow> (bytes \<rightharpoonup> bytes) \<Rightarrow> (bytes \<rightharpoonup> bytes)" where
  "writes es m = fold (\<lambda>(k, x) m. m(k \<mapsto> x)) es m"

lemma writes_simps [simp]:
  "writes [] m = m" "writes (e # es) m = writes es (m(fst e \<mapsto> snd e))" "writes (es @ es') m = writes es' (writes es m)"
  by (auto simp: writes_def split: prod.splits)

lemma writes_other: "k \<notin> fst ` set es \<Longrightarrow> writes es (m(k \<mapsto> x)) = (writes es m)(k \<mapsto> x)"
  by (induction es arbitrary: m) (auto simp: fun_upd_twist)

lemma writes_map_of: "distinct (map fst es) \<Longrightarrow> writes es m k = (case map_of es k of None \<Rightarrow> m k | Some x \<Rightarrow> Some x)"
proof (induction es arbitrary: m)
  case (Cons e es)
  then show ?case by (cases e) (auto simp: map_of_eq_None_iff [THEN iffD2] image_iff split: option.splits)
qed simp

text \<open>The order in which entries with different keys are written does not matter.\<close>

lemma writes_perm:
  assumes "mset xs = mset ys" and "distinct (map fst ys)"
  shows "writes xs m = writes ys m"
proof -
  have "distinct (map fst xs)" using assms by (metis mset_map mset_eq_imp_distinct_iff)
  moreover from this have "map_of xs = map_of ys"
    using map_of_inject_set [of xs ys] assms mset_eq_setD [of xs ys] by blast
  ultimately show ?thesis using writes_map_of [of xs m] writes_map_of [of ys m] assms(2) by (simp add: fun_eq_iff)
qed

section \<open>Simulation of the sequential importer\<close>

definition seq_run :: "bytes \<Rightarrow> i64 \<Rightarrow> (bytes \<rightharpoonup> bytes) \<Rightarrow> export_node list \<Rightarrow>
    'e import_error + storeImporter \<times> (bytes \<rightharpoonup> bytes)" where
  "seq_run name height m ns = addNodes map_put map_put (newStoreImporter name height) m ns"

lemma seq_run_snoc:
  "(seq_run name height m ns :: 'e import_error + _) = Inr (sq, m') \<Longrightarrow>
   (seq_run name height m (ns @ [(h, v, k, x)]) :: 'e import_error + _) = addNode map_put map_put sq m' h v k x"
  by (cases "addNode map_put map_put sq m' h v k x :: 'e import_error + _") (auto simp: seq_run_def addNodes_append)

lemma seq_run_error:
  "(seq_run name height m ns :: 'e import_error + _) = Inl e \<Longrightarrow> (seq_run name height m (ns @ ns') :: 'e import_error + _) = Inl e"
  by (simp add: seq_run_def addNodes_append)

definition finishing :: "mainPC \<Rightarrow> bool" where
  "finishing m \<longleftrightarrow> m = MWait \<or> m = MJoin \<or> m = MDone"

definition entries :: "(nat \<Rightarrow> ltree) \<Rightarrow> bytes \<Rightarrow> nat \<Rightarrow> writeEnt list" where
  "entries g p n = map (\<lambda>a. entry p (g a)) [0..<n]"

definition seq_of :: "(nat \<Rightarrow> ltree) \<Rightarrow> ('f, 'e) parState \<Rightarrow> storeImporter" where
  "seq_of g s = (wv_si s)\<lparr>st_stack := map (\<lambda>a. frame_of (g a)) (wv_parStack s),
     st_lastIavlBytes := (if heapsize s = 0 then [] else node_bytes (g (heapsize s - 1)))\<rparr>"

text \<open>Nodes of one version get different nonces.\<close>

definition numbered :: "(nat \<Rightarrow> ltree) \<Rightarrow> storeImporter \<Rightarrow> nat \<Rightarrow> bool" where
  "numbered g si n \<longleftrightarrow>
     live_cache si \<and> (\<forall>v. v \<noteq> 0 \<longrightarrow> unat (counter si v) \<le> Suc n) \<and>
     (\<forall>a < n. l_version (g a) \<noteq> 0 \<and> unat (l_nonce (g a)) \<le> unat (counter si (l_version (g a)))) \<and>
     inj_on (\<lambda>a. (l_version (g a), l_nonce (g a))) {..<n}"

definition sim :: "bytes \<Rightarrow> i64 \<Rightarrow> (bytes \<rightharpoonup> bytes) \<Rightarrow> export_node list \<Rightarrow> (nat \<Rightarrow> ltree) \<Rightarrow>
    (bytes \<rightharpoonup> bytes, 'e) parState \<Rightarrow> bool" where
  "sim name height m ns g s \<longleftrightarrow>
     (case wv_err s of
        Some e \<Rightarrow> (seq_run name height m ns :: 'e import_error + _) = Inl e \<and> finishing (wv_main s)
      | None \<Rightarrow>
          (\<exists>ready. ns = ready @ wv_input s \<and> heapsize s = length ready \<and> (finishing (wv_main s) \<longrightarrow> wv_input s = []) \<and>
             numbered g (wv_si s) (heapsize s) \<and> st_storePrefix (wv_si s) = storePrefix name \<and>
             (seq_run name height m ready :: 'e import_error + _) =
               Inr (seq_of g s, writes (entries g (storePrefix name) (heapsize s)) (wv_fast s))))"

lemma numbered_distinct: "numbered g si n \<Longrightarrow> distinct (map fst (entries g p n))"
  by (auto simp: entries_def numbered_def distinct_map inj_on_def entry_def o_def)

lemma nextNonce_seq:
  "nextNonce (s\<lparr>st_stack := x\<rparr>) v = (fst (nextNonce s v), (snd (nextNonce s v))\<lparr>st_stack := x\<rparr>)"
  "nextNonce (s\<lparr>st_lastIavlBytes := y\<rparr>) v = (fst (nextNonce s v), (snd (nextNonce s v))\<lparr>st_lastIavlBytes := y\<rparr>)"
  "nextNonce (s\<lparr>st_itemCount := z\<rparr>) v = (fst (nextNonce s v), (snd (nextNonce s v))\<lparr>st_itemCount := z\<rparr>)"
  by (simp_all add: nextNonce_def Let_def)

lemma numbered_step:
  assumes num: "numbered g si n" and v: "v \<noteq> 0" and n: "Suc n + 1 < 2 ^ 32"
    and si: "counter si' = counter (snd (nextNonce si v))" "live_cache si' = live_cache (snd (nextNonce si v))"
    and g': "\<And>a. a < n \<Longrightarrow> g' a = g a" "l_version (g' n) = v" "l_nonce (g' n) = fst (nextNonce si v)"
  shows "numbered g' si' (Suc n)"
proof -
  have live: "live_cache si" and bound: "unat (counter si w) \<le> Suc n" if "w \<noteq> 0" for w
    using num that by (simp_all add: numbered_def)
  have "unat (counter si v) + 1 < 2 ^ 32" using bound [OF v] n by linarith
  from nextNonce_bumps [OF v live [OF v] this si] have b: "bumps si si' v (fst (nextNonce si v))" .
  have cnt: "unat (counter si' w) = unat (counter si w) + (if v = w then 1 else 0)" if "w \<noteq> 0" for w
    using b that by (simp add: bumps_def)
  have new: "unat (l_nonce (g' n)) = unat (counter si v) + 1" using b g'(3) by (simp add: bumps_def)
  have old: "l_version (g' a) \<noteq> 0 \<and> unat (l_nonce (g' a)) \<le> unat (counter si (l_version (g' a)))" if "a < n" for a
    using num that g'(1) by (simp add: numbered_def)
  have fresh: "(l_version (g' a), l_nonce (g' a)) \<noteq> (l_version (g' n), l_nonce (g' n))" if "a < n" for a
    using old [OF that] new g'(2) by auto
  have "inj_on (\<lambda>a. (l_version (g' a), l_nonce (g' a))) {..<n}"
    using num g'(1) unfolding numbered_def by (simp add: inj_on_def)
  with fresh have "inj_on (\<lambda>a. (l_version (g' a), l_nonce (g' a))) {..<Suc n}"
    by (force simp: inj_on_def less_Suc_eq)
  moreover have "l_version (g' a) \<noteq> 0 \<and> unat (l_nonce (g' a)) \<le> unat (counter si' (l_version (g' a)))" if "a < Suc n" for a
    using that old [of a] cnt [of "l_version (g' a)"] cnt [OF v] new g'(2) v by (cases "a = n") auto
  moreover have "unat (counter si' w) \<le> Suc (Suc n)" if "w \<noteq> 0" for w using cnt [OF that] bound [OF that] by simp
  moreover have "live_cache si'" using b by (simp add: bumps_def)
  ultimately show ?thesis by (simp add: numbered_def)
qed

subsection \<open>Adding a node\<close>

lemma nextNonce_counts [simp, frame_simps]:
  "st_leafCount (snd (nextNonce s v)) = st_leafCount s" "st_innerCount (snd (nextNonce s v)) = st_innerCount s"
  by (simp_all add: nextNonce_def Let_def)

lemma entries_Suc [simp]: "entries (g(n := t)) p (Suc n) = entries g p n @ [entry p t]"
  by (simp add: entries_def)

lemma entries_keys: "fastDBKeyInto [] p k \<notin> fst ` set (entries g p n)"
  by (auto simp: entries_def entry_def)

lemma seq_of_closes:
  assumes "wave_inv g stg par kl kr s"
  shows "closesPair ((seq_of g s)\<lparr>st_itemCount := c\<rparr>) h = closesPairPar s h"
proof -
  note d = wave_invD [OF assms]
  have "fr_height (frame_of (g a)) = pf_height (wv_heap s ! a)" if "a \<in> set (wv_parStack s)" for a
    using frame_okD(1) [OF d(2) shape_stack(2) [OF d(1) that]] by (simp add: frame_of_def)
  then show ?thesis by (auto simp: closesPair_def closesPairPar_def seq_of_def split: list.splits)
qed

lemma addNode_leaf_seq:
  assumes "wv_parStack s' = heapsize s # wv_parStack s" and "heapsize s' = Suc (heapsize s)"
    and "wv_si s' = (snd (nextNonce (wv_si s) v))\<lparr>st_itemCount := st_itemCount (wv_si s) + 1, st_leafCount := st_leafCount (wv_si s) + 1\<rparr>"
    and "g' = g(heapsize s := LLeaf v (fst (nextNonce (wv_si s) v)) k x)" and "st_storePrefix (wv_si s) = p"
    and "\<And>a. a \<in> set (wv_parStack s) \<Longrightarrow> a < heapsize s"
  shows "(addNode map_put map_put (seq_of g s) (writes (entries g p (heapsize s)) fast) 0 v k x :: 'e import_error + _) =
    Inr (seq_of g' s', writes (entries g' p (heapsize s')) (fast(fastDBKeyInto [] p k \<mapsto> encodeFastNodeInto [] v x)))"
proof -
  let ?sq = "(snd (nextNonce (wv_si s) v))\<lparr>st_stack := frame_of (g' (heapsize s)) # map (\<lambda>a. frame_of (g a)) (wv_parStack s),
    st_lastIavlBytes := encodeLeafNodeInto [] k x, st_itemCount := st_itemCount (wv_si s) + 1, st_leafCount := st_leafCount (wv_si s) + 1\<rparr>"
  have frames: "map (\<lambda>a. frame_of (g' a)) (wv_parStack s) = map (\<lambda>a. frame_of (g a)) (wv_parStack s)"
    using assms(6) by (intro map_cong) (auto simp: assms(4))
  have "seq_of g' s' = ?sq"
    by (rule storeImporter.equality) (use frames in \<open>simp_all add: seq_of_def assms(1-4)\<close>)
  moreover have "(addNode map_put map_put (seq_of g s) (writes (entries g p (heapsize s)) fast) 0 v k x :: 'e import_error + _) =
    Inr (?sq, writes (entries g' p (heapsize s')) (fast(fastDBKeyInto [] p k \<mapsto> encodeFastNodeInto [] v x)))"
    by (simp add: addNode_def addLeaf_def map_put_def Let_def case_prod_beta seq_of_def nextNonce_seq assms(2,4,5)
        frame_of_def writes_other [OF entries_keys] entry_def)
      (simp add: fun_upd_twist)
  ultimately show ?thesis by simp
qed

lemma addNode_inner_seq:
  assumes "wv_parStack s = r # l # rest" and "wv_parStack s' = heapsize s # rest" and "heapsize s' = Suc (heapsize s)"
    and "wv_si s' = (snd (nextNonce (wv_si s) v))\<lparr>st_itemCount := st_itemCount (wv_si s) + 1, st_innerCount := st_innerCount (wv_si s) + 1\<rparr>"
    and "g' = g(heapsize s := LNode v (fst (nextNonce (wv_si s) v)) h k (g l) (g r))" and "st_storePrefix (wv_si s) = p"
    and "\<And>a. a \<in> set (wv_parStack s) \<Longrightarrow> a < heapsize s" and "h \<noteq> 0"
    and "closesPair ((seq_of g s)\<lparr>st_itemCount := st_itemCount (wv_si s) + 1\<rparr>) h"
  shows "(addNode map_put map_put (seq_of g s) (writes (entries g p (heapsize s)) fast) h v k x :: 'e import_error + _) =
    Inr (seq_of g' s', writes (entries g' p (heapsize s')) fast)"
proof -
  let ?t = "LNode v (fst (nextNonce (wv_si s) v)) h k (g l) (g r)"
  let ?sq = "(snd (nextNonce (wv_si s) v))\<lparr>st_stack := frame_of ?t # map (\<lambda>a. frame_of (g a)) rest,
    st_lastIavlBytes := node_bytes ?t, st_itemCount := st_itemCount (wv_si s) + 1, st_innerCount := st_innerCount (wv_si s) + 1\<rparr>"
  have frames: "map (\<lambda>a. frame_of (g' a)) rest = map (\<lambda>a. frame_of (g a)) rest"
    using assms(1,7) by (intro map_cong) (auto simp: assms(5))
  have "seq_of g' s' = ?sq"
    by (rule storeImporter.equality) (use frames in \<open>simp_all add: seq_of_def assms(2-5)\<close>)
  moreover have "(addNode map_put map_put (seq_of g s) (writes (entries g p (heapsize s)) fast) h v k x :: 'e import_error + _) =
    Inr (?sq, writes (entries g' p (heapsize s')) fast)"
    using assms(9) by (simp add: addNode_def addInner_def map_put_def Let_def case_prod_beta seq_of_def nextNonce_seq
        assms(1,3,5,6,8) frame_of_def entry_def)
  ultimately show ?thesis by simp
qed

lemma sim_None:
  fixes s :: "(bytes \<rightharpoonup> bytes, 'e) parState"
  assumes "sim name height m ns g s" and "\<not> finishing (wv_main s)"
  obtains ready where "wv_err s = None" "ns = ready @ wv_input s" "heapsize s = length ready" "numbered g (wv_si s) (heapsize s)"
    "st_storePrefix (wv_si s) = storePrefix name"
    "(seq_run name height m ready :: 'e import_error + _) =
       Inr (seq_of g s, writes (entries g (storePrefix name) (heapsize s)) (wv_fast s))"
  using assms by (auto simp: sim_def split: option.splits)

lemma sim_NoneI:
  fixes s :: "(bytes \<rightharpoonup> bytes, 'e) parState"
  assumes "wv_err s = None" "ns = ready @ wv_input s" "heapsize s = length ready" "numbered g (wv_si s) (heapsize s)"
    "st_storePrefix (wv_si s) = storePrefix name" "finishing (wv_main s) \<longrightarrow> wv_input s = []"
    "(seq_run name height m ready :: 'e import_error + _) =
       Inr (seq_of g s, writes (entries g (storePrefix name) (heapsize s)) (wv_fast s))"
  shows "sim name height m ns g s"
  unfolding sim_def using assms by auto

text \<open>The streams considered: versions are set, and there are fewer nodes than nonces.\<close>

definition stream_ok :: "export_node list \<Rightarrow> bool" where
  "stream_ok ns \<longleftrightarrow> (\<forall>(h, v, k, x) \<in> set ns. v \<noteq> 0) \<and> length ns + 2 < 2 ^ 32"

lemma sim_leaf:
  fixes s :: "(bytes \<rightharpoonup> bytes, 'e) parState"
  assumes inv: "wave_inv g stg par kl kr s" and sim: "sim name height m ns g s" and main: "wv_main s = MNext"
    and ns: "stream_ok ns" and input: "wv_input s = (0, v, k, x) # input"
  shows "\<exists>g' stg' par' kl' kr'. wave_inv g' stg' par' kl' kr' (addNodePar map_put s) \<and> sim name height m ns g' (addNodePar map_put s)"
proof -
  let ?n = "heapsize s" and ?m = "fst (nextNonce (wv_si s) v)" and ?s = "addNodePar map_put s"
  let ?g = "g(?n := LLeaf v ?m k x)"
  let ?si = "(snd (nextNonce (wv_si s) v))\<lparr>st_itemCount := st_itemCount (wv_si s) + 1, st_leafCount := st_leafCount (wv_si s) + 1\<rparr>"
  obtain ready where r: "wv_err s = None" "ns = ready @ wv_input s" "?n = length ready" "numbered g (wv_si s) ?n"
    "st_storePrefix (wv_si s) = storePrefix name"
    "(seq_run name height m ready :: 'e import_error + _) = Inr (seq_of g s, writes (entries g (storePrefix name) ?n) (wv_fast s))"
    by (rule sim_None [OF sim]) (use main in \<open>simp add: finishing_def\<close>)
  have s': "?s = s\<lparr>wv_si := ?si, wv_fast := (wv_fast s)(fastDBKeyInto [] (storePrefix name) k \<mapsto> encodeFastNodeInto [] v x),
      wv_input := input, wv_heap := wv_heap s @ [(newParFrame 0 1 v ?m)\<lparr>pf_leafKey := k, pf_leafValue := x\<rparr>],
      wv_parStack := ?n # wv_parStack s, wv_main := MSubmit ?n\<rparr>"
    by (simp add: addNodePar_def input addLeafPar_def Let_def case_prod_beta map_put_def nextNonce_seq r(5))
  have "wave_inv ?g (stg(?n := 0)) (par(?n := None)) kl kr ?s"
    by (rule leaf_inv [OF inv main refl refl s']) simp
  moreover have "sim name height m ns ?g ?s"
  proof (rule sim_NoneI)
    show "numbered ?g (wv_si ?s) (heapsize ?s)"
      using numbered_step [OF r(4), of v ?si ?g] ns r(2,3) input by (simp add: s' stream_ok_def)
    show "(seq_run name height m (ready @ [(0, v, k, x)]) :: 'e import_error + _) =
        Inr (seq_of ?g ?s, writes (entries ?g (storePrefix name) (heapsize ?s)) (wv_fast ?s))"
      unfolding seq_run_snoc [OF r(6)]
      by (subst addNode_leaf_seq [where s' = ?s and g' = ?g])
        (use shape_stack(2) [OF wave_invD(1) [OF inv]] r(5) in \<open>simp_all add: s'\<close>)
  qed (use r input in \<open>simp_all add: s' finishing_def\<close>)
  ultimately show ?thesis by blast
qed

lemma sim_inner:
  fixes s :: "(bytes \<rightharpoonup> bytes, 'e) parState"
  assumes inv: "wave_inv g stg par kl kr s" and sim: "sim name height m ns g s" and main: "wv_main s = MNext"
    and ns: "stream_ok ns" and input: "wv_input s = (h, v, k, x) # input" "h \<noteq> 0"
  shows "\<exists>g' stg' par' kl' kr'. wave_inv g' stg' par' kl' kr' (addNodePar map_put s) \<and> sim name height m ns g' (addNodePar map_put s)"
proof -
  let ?n = "heapsize s" and ?m = "fst (nextNonce (wv_si s) v)" and ?s = "addNodePar map_put s"
  let ?si = "(snd (nextNonce (wv_si s) v))\<lparr>st_itemCount := st_itemCount (wv_si s) + 1, st_innerCount := st_innerCount (wv_si s) + 1\<rparr>"
  obtain ready where r: "wv_err s = None" "ns = ready @ wv_input s" "?n = length ready" "numbered g (wv_si s) ?n"
    "st_storePrefix (wv_si s) = storePrefix name"
    "(seq_run name height m ready :: 'e import_error + _) = Inr (seq_of g s, writes (entries g (storePrefix name) ?n) (wv_fast s))"
    by (rule sim_None [OF sim]) (use main in \<open>simp add: finishing_def\<close>)
  note d = wave_invD [OF inv]
  note closes = seq_of_closes [OF inv, of "st_itemCount (wv_si s) + 1" h]
  show ?thesis
  proof (cases "closesPairPar s h")
    case False
    then have s': "?s = s\<lparr>wv_input := input, wv_si := (wv_si s)\<lparr>st_itemCount := st_itemCount (wv_si s) + 1\<rparr>,
        wv_err := Some NotSiblingPair, wv_main := MWait\<rparr>"
      using input by (simp add: addNodePar_def addInnerPar_def closesPairPar_def cong: list.case_cong)
    have "wave_inv g stg par kl kr ?s"
      by (rule main_move_inv [OF inv])
        (use main d(9) in \<open>simp_all add: s' building_def owed_def waiting_def wg_ok_def promoted_def\<close>)
    moreover have "(seq_run name height m (ready @ [(h, v, k, x)]) :: 'e import_error + _) = Inl NotSiblingPair"
      unfolding seq_run_snoc [OF r(6)] using closes False input(2) by (simp add: addNode_def addInner_def seq_of_def)
    then have "(seq_run name height m ns :: 'e import_error + _) = Inl NotSiblingPair"
      using seq_run_error [of name height m "ready @ [(h, v, k, x)]" NotSiblingPair input] r(2) input(1) by simp
    then have "sim name height m ns g ?s" by (simp add: sim_def s' finishing_def)
    ultimately show ?thesis by blast
  next
    case True
    then obtain a b rest where st: "wv_parStack s = b # a # rest" by (auto simp: closesPairPar_def split: list.splits)
    let ?g = "g(?n := LNode v ?m h k (g a) (g b))"
    have ab: "a < ?n" "b < ?n" "a \<noteq> b" using shape_stack(1,2) [OF d(1)] st by auto
    have s': "?s = s\<lparr>wv_si := ?si, wv_input := input,
        wv_heap := (wv_heap s @ [(newParFrame h (pf_size (wv_heap s ! a) + pf_size (wv_heap s ! b)) v ?m)\<lparr>pf_innerKey := k,
            pf_leftChild := Some a, pf_rightChild := Some b, pf_pending := 2\<rparr>])
          [a := (wv_heap s ! a)\<lparr>pf_parent := Some ?n\<rparr>, b := (wv_heap s ! b)\<lparr>pf_parent := Some ?n\<rparr>],
        wv_parStack := ?n # rest, wv_main := MBump ?n [a, b]\<rparr>"
      using True input st ab by (simp add: addNodePar_def addInnerPar_def closesPairPar_def Let_def case_prod_beta nextNonce_seq
          modFrame_def nth_append)
    have "wave_inv ?g (stg(?n := 0)) (par(?n := None, a := Some ?n, b := Some ?n)) (kl(?n := a)) (kr(?n := b)) ?s"
      by (rule node_inv [OF inv main refl st input(2) refl refl s']) simp
    moreover have "sim name height m ns ?g ?s"
    proof (rule sim_NoneI)
      show "numbered ?g (wv_si ?s) (heapsize ?s)"
        using numbered_step [OF r(4), of v ?si ?g] ns r(2,3) input by (simp add: s' stream_ok_def)
      show "(seq_run name height m (ready @ [(h, v, k, x)]) :: 'e import_error + _) =
          Inr (seq_of ?g ?s, writes (entries ?g (storePrefix name) (heapsize ?s)) (wv_fast ?s))"
        unfolding seq_run_snoc [OF r(6)]
        by (subst addNode_inner_seq [where s' = ?s and g' = ?g])
          (use shape_stack(2) [OF d(1)] r(5) st closes True input in \<open>simp_all add: s'\<close>)
    qed (use r input in \<open>simp_all add: s' finishing_def\<close>)
    ultimately show ?thesis by blast
  qed
qed

subsection \<open>Every reachable state\<close>

lemma sim_cong:
  assumes "sim name height m ns g s" and "wv_si s' = wv_si s" "wv_input s' = wv_input s" "wv_fast s' = wv_fast s"
    "wv_err s' = wv_err s" "wv_parStack s' = wv_parStack s" "heapsize s' = heapsize s"
    and "finishing (wv_main s') = finishing (wv_main s)"
  shows "sim name height m ns g s'"
  using assms(1) unfolding sim_def seq_of_def assms(2-8) .

lemma main_sim:
  assumes "sim name height m ns g s" and "mainStep putFast s = Some s'" and "wv_main s \<noteq> MNext"
  shows "sim name height m ns g s'"
  by (rule sim_cong [OF assms(1)])
    (use assms(2,3) in \<open>auto simp: mainStep_def finishStreaming_def addEvent_def decPending_def casSubmitted_def enqueueFrame_def Let_def finishing_def
      split: mainPC.splits list.splits if_splits\<close>)

lemma dispatcher_sim: "sim name height m ns g s \<Longrightarrow> parDispatcher s = Some s' \<Longrightarrow> sim name height m ns g s'"
  by (erule sim_cong) (auto simp: parDispatcher_def split: dispatcherPC.splits list.splits if_splits)

lemma worker_same:
  assumes "parWorker i s = Some s'"
  shows "wv_si s' = wv_si s" "wv_input s' = wv_input s" "wv_fast s' = wv_fast s" "wv_err s' = wv_err s"
    "wv_parStack s' = wv_parStack s" "heapsize s' = heapsize s" "wv_main s' = wv_main s"
  using assms by (auto simp: parWorker_def workerNext_def addEvent_def decPending_def casSubmitted_def enqueueFrame_def Let_def
      split: workerPC.splits list.splits if_splits option.splits)

lemma worker_sim: "sim name height m ns g s \<Longrightarrow> parWorker i s = Some s' \<Longrightarrow> sim name height m ns g s'"
  by (erule sim_cong) (simp_all add: worker_same)

lemma sim_start: "sim name height m ns g (enableWaveParallel name height workers m ns)"
  by (rule sim_NoneI [where ready = "[]"])
    (simp_all add: enableWaveParallel_def numbered_def finishing_def seq_run_def seq_of_def entries_def newStoreImporter_def
      counter_def live_cache_def)

lemma reach_sim:
  fixes s :: "(bytes \<rightharpoonup> bytes, 'e) parState"
  assumes "wave_reach map_put (enableWaveParallel name height workers m ns) s" and ns: "stream_ok ns"
  shows "\<exists>g stg par kl kr. wave_inv g stg par kl kr s \<and> sim name height m ns g s"
  using assms(1)
proof (induction rule: wave_reach.induct)
  case start
  show ?case by (intro exI conjI) (rule wave_inv_start, rule sim_start)
next
  case (step s s')
  then obtain g stg par kl kr where i: "wave_inv g stg par kl kr s" "sim name height m ns g s" by blast
  from step(2) show ?case
  proof cases
    case main
    show ?thesis
    proof (cases "wv_main s = MNext")
      case True
      then have s': "s' = addNodePar map_put s" using main by (simp add: mainStep_def finishStreaming_def)
      show ?thesis
      proof (cases "wv_input s")
        case Nil
        then have s': "s' = s\<lparr>wv_main := MWait\<rparr>" by (simp add: s' addNodePar_def)
        have "wave_inv g stg par kl kr s'"
          by (rule main_move_inv [OF i(1)])
            (use True wave_invD(9) [OF i(1)] in \<open>simp_all add: s' building_def owed_def waiting_def wg_ok_def promoted_def\<close>)
        moreover have "sim name height m ns g s'"
        proof (rule sim_None [OF i(2)])
          have [simp]: "seq_of g (s\<lparr>wv_main := MWait\<rparr>) = seq_of g s" by (simp add: seq_of_def)
          show "sim name height m ns g s'" if "wv_err s = None" "ns = ready @ wv_input s" "heapsize s = length ready"
            "numbered g (wv_si s) (heapsize s)" "st_storePrefix (wv_si s) = storePrefix name"
            "(seq_run name height m ready :: 'e import_error + _) =
               Inr (seq_of g s, writes (entries g (storePrefix name) (heapsize s)) (wv_fast s))" for ready
            by (rule sim_NoneI [where ready = ready]) (use that Nil in \<open>simp_all add: s'\<close>)
        qed (simp add: True finishing_def)
        ultimately show ?thesis by blast
      next
        case (Cons a input)
        obtain h v k x where "a = (h, v, k, x)" by (cases a)
        with Cons show ?thesis using sim_leaf [OF i True ns] sim_inner [OF i True ns] by (cases "h = 0") (auto simp: s')
      qed
    next
      case False
      with main main_inv [OF i(1)] main_sim [OF i(2)] show ?thesis by blast
    qed
  next
    case dispatcher
    with dispatcher_inv [OF i(1)] dispatcher_sim [OF i(2)] show ?thesis by blast
  next
    case (worker j)
    with worker_inv [OF i(1)] worker_sim [OF i(2)] show ?thesis by blast
  qed
qed

end
