(* ===== verification/WaveLive.thy ===== *)
theory WaveLive
  imports WaveAdd
begin

text \<open>
  Progress of the wave-parallel importer, whatever \<open>setFast\<close> does: no reachable state is stuck
  before \<open>finishStreaming\<close> has returned, every step uses up some of a bounded amount of work, and
  when the wait group is down every frame has been processed.
\<close>

section \<open>The invariant of every reachable state\<close>

lemma to_wait_inv:
  assumes inv: "wave_inv g stg par kl kr s" and main: "wv_main s = MNext"
    and s': "wv_main s' = MWait" "wv_heap s' = wv_heap s" "wv_parStack s' = wv_parStack s" "wv_rootEncoded s' = wv_rootEncoded s"
      "wv_writeQ s' = wv_writeQ s" "st_storePrefix (wv_si s') = st_storePrefix (wv_si s)" "wv_workers s' = wv_workers s"
      "wv_pending s' = wv_pending s" "wv_ready s' = wv_ready s" "wv_disp s' = wv_disp s" "wv_hashWg s' = wv_hashWg s"
  shows "wave_inv g stg par kl kr s'"
  by (rule main_move_inv [OF inv])
    (use main wave_invD(9) [OF inv] in \<open>simp_all add: s' building_def owed_def waiting_def wg_ok_def promoted_def\<close>)

lemma addNodePar_inv:
  assumes inv: "wave_inv g stg par kl kr s" and main: "wv_main s = MNext"
  shows "\<exists>g' stg' par' kl' kr'. wave_inv g' stg' par' kl' kr' (addNodePar putFast s)"
proof (cases "wv_input s")
  case Nil
  have "wave_inv g stg par kl kr (addNodePar putFast s)"
    by (rule to_wait_inv [OF inv main]) (simp_all add: addNodePar_def Nil)
  then show ?thesis by blast
next
  case (Cons n input)
  obtain h v k x where "n = (h, v, k, x)" by (cases n)
  with Cons have input: "wv_input s = (h, v, k, x) # input" by simp
  let ?n = "heapsize s" and ?m = "fst (nextNonce ((wv_si s)\<lparr>st_itemCount := st_itemCount (wv_si s) + 1\<rparr>) v)"
  let ?si = "snd (nextNonce ((wv_si s)\<lparr>st_itemCount := st_itemCount (wv_si s) + 1\<rparr>) v)"
  consider e where "h = 0" "putFast (wv_fast s) (fastDBKeyInto [] (st_storePrefix ?si) k) (encodeFastNodeInto [] v x) = Inl e"
    | fast where "h = 0" "putFast (wv_fast s) (fastDBKeyInto [] (st_storePrefix ?si) k) (encodeFastNodeInto [] v x) = Inr fast"
    | "h \<noteq> 0" "\<not> closesPairPar s h" | a b rest where "h \<noteq> 0" "closesPairPar s h" "wv_parStack s = b # a # rest"
    by (cases "h = 0"; cases "putFast (wv_fast s) (fastDBKeyInto [] (st_storePrefix ?si) k) (encodeFastNodeInto [] v x)";
        cases "closesPairPar s h") (auto simp: closesPairPar_def split: list.splits)
  then show ?thesis
  proof cases
    case (1 e)
    have "wave_inv g stg par kl kr (addNodePar putFast s)"
      by (rule to_wait_inv [OF inv main]) (use 1 in \<open>simp_all add: addNodePar_def input addLeafPar_def Let_def case_prod_beta\<close>)
    then show ?thesis by blast
  next
    case (2 fast)
    then have s': "addNodePar putFast s =
        s\<lparr>wv_si := ?si\<lparr>st_leafCount := st_leafCount ?si + 1\<rparr>, wv_fast := fast,
          wv_input := input, wv_heap := wv_heap s @ [(newParFrame 0 1 v ?m)\<lparr>pf_leafKey := k, pf_leafValue := x\<rparr>],
          wv_parStack := ?n # wv_parStack s, wv_main := MSubmit ?n\<rparr>"
      by (simp add: addNodePar_def input addLeafPar_def Let_def case_prod_beta)
    show ?thesis by (intro exI, rule leaf_inv [OF inv main refl refl s']) simp
  next
    case 3
    have "wave_inv g stg par kl kr (addNodePar putFast s)"
      by (rule to_wait_inv [OF inv main])
        (use 3 in \<open>simp_all add: addNodePar_def input addInnerPar_def closesPairPar_def Let_def case_prod_beta cong: list.case_cong\<close>)
    then show ?thesis by blast
  next
    case (4 a b rest)
    have ab: "a < ?n" "b < ?n" "a \<noteq> b" using shape_stack(1,2) [OF wave_invD(1) [OF inv]] 4(3) by auto
    have s': "addNodePar putFast s = s\<lparr>wv_si := ?si\<lparr>st_innerCount := st_innerCount ?si + 1\<rparr>, wv_input := input,
        wv_heap := (wv_heap s @ [(newParFrame h (pf_size (wv_heap s ! a) + pf_size (wv_heap s ! b)) v ?m)\<lparr>pf_innerKey := k,
            pf_leftChild := Some a, pf_rightChild := Some b, pf_pending := 2\<rparr>])
          [a := (wv_heap s ! a)\<lparr>pf_parent := Some ?n\<rparr>, b := (wv_heap s ! b)\<lparr>pf_parent := Some ?n\<rparr>],
        wv_parStack := ?n # rest, wv_main := MBump ?n [a, b]\<rparr>"
      using 4 ab by (simp add: addNodePar_def input addInnerPar_def closesPairPar_def Let_def case_prod_beta modFrame_def nth_append)
    show ?thesis by (intro exI, rule node_inv [OF inv main refl 4(3,1) refl refl s']) simp
  qed
qed

lemma step_inv:
  assumes inv: "wave_inv g stg par kl kr s" and "wave_step putFast s s'"
  shows "\<exists>g' stg' par' kl' kr'. wave_inv g' stg' par' kl' kr' s'"
  using assms(2)
proof cases
  case main
  show ?thesis
  proof (cases "wv_main s = MNext")
    case True
    with main have "s' = addNodePar putFast s" by (simp add: mainStep_def finishStreaming_def)
    with addNodePar_inv [OF inv True] show ?thesis by simp
  next
    case False
    with main_inv [OF inv main] show ?thesis by blast
  qed
next
  case dispatcher
  with dispatcher_inv [OF inv] show ?thesis by blast
next
  case (worker i)
  with worker_inv [OF inv] show ?thesis by blast
qed

text \<open>How the goroutines shut down.\<close>

definition closing :: "nat \<Rightarrow> ('f, 'e) parState \<Rightarrow> bool" where
  "closing workers s \<longleftrightarrow>
     (wv_closed s \<longleftrightarrow> wv_main s = MJoin \<or> wv_main s = MDone) \<and> (wv_closed s \<longrightarrow> wv_hashWg s = 0) \<and>
     (wv_disp s = DExit \<longrightarrow> wv_closed s) \<and> (WExit \<in> set (wv_workers s) \<longrightarrow> wv_disp s = DExit) \<and>
     length (wv_workers s) = workers \<and> wv_readyCap s = workers * 4 \<and> wv_pendingCap s = 8192"

lemma closing_start: "closing workers (enableWaveParallel name height workers fast ns)"
  by (auto simp: closing_def enableWaveParallel_def)

lemma wsum_mono: "(\<And>w. \<phi> w \<le> \<psi> w) \<Longrightarrow> wsum \<phi> ws \<le> wsum \<psi> ws"
  by (induction ws) (auto simp: wsum_def intro: add_mono)

lemma busy_nonneg: "0 \<le> busy w" and enqueuing_nonneg: "0 \<le> enqueuing w"
  by (simp_all add: busy_def enqueuing_def split: workerPC.splits)

lemma nworkers_busy: "busy x = 1 \<Longrightarrow> nworkers x ws \<le> wsum busy ws"
  by (rule wsum_mono) (auto simp: pc_counts split: if_splits)

text \<open>With the wait group at zero nothing is on its way.\<close>

lemma wg_zero:
  assumes "wg_ok s" and "wv_hashWg s = 0"
  shows "wv_main s \<noteq> MEnqueue a" "wv_pending s = []" "wv_disp s \<noteq> DHold a" "wv_ready s = []"
    and "w \<in> set (wv_workers s) \<Longrightarrow> w = WIdle \<or> w = WExit" and "busy x = 1 \<Longrightarrow> nworkers x (wv_workers s) = 0"
proof -
  have nn: "0 \<le> wsum busy (wv_workers s)" "0 \<le> wsum enqueuing (wv_workers s)"
    by (rule wsum_nonneg, simp add: busy_nonneg enqueuing_nonneg)+
  have *: "\<not> (\<exists>a. wv_main s = MEnqueue a) \<and> length (wv_pending s) = 0 \<and> \<not> (\<exists>a. wv_disp s = DHold a) \<and>
      length (wv_ready s) = 0 \<and> wsum busy (wv_workers s) = 0"
    using assms nn by (auto simp del: length_0_conv simp: wg_ok_def split: if_splits)
  then show "wv_main s \<noteq> MEnqueue a" "wv_pending s = []" "wv_disp s \<noteq> DHold a" "wv_ready s = []" by auto
  show "w = WIdle \<or> w = WExit" if w: "w \<in> set (wv_workers s)"
  proof -
    from w obtain i where "i < length (wv_workers s)" "wv_workers s ! i = w" by (auto simp: in_set_conv_nth)
    with wsum_ge [of busy i "wv_workers s"] * busy_nonneg have "busy w \<le> 0" by simp
    then show ?thesis by (simp add: busy_def split: if_splits)
  qed
  show "nworkers x (wv_workers s) = 0" if "busy x = 1"
    using nworkers_busy [OF that, of "wv_workers s"] nworkers_nonneg [of x "wv_workers s"] * by simp
qed

lemma main_closing:
  assumes "closing n s" and "mainStep putFast s = Some s'"
  shows "closing n s'"
proof (cases "wv_main s = MNext")
  case True
  with assms(1) have c: "\<not> wv_closed s" by (simp add: closing_def)
  have s': "s' = addNodePar putFast s" using assms(2) True by (simp add: mainStep_def finishStreaming_def)
  have leaf: "wv_closed t' = wv_closed t \<and> wv_hashWg t' = wv_hashWg t \<and> wv_disp t' = wv_disp t \<and> wv_workers t' = wv_workers t \<and>
      wv_readyCap t' = wv_readyCap t \<and> wv_pendingCap t' = wv_pendingCap t \<and> wv_main t' \<noteq> MJoin \<and> wv_main t' \<noteq> MDone"
    if "addLeafPar putFast v k x t = Inr t'" for v k x and t t' :: "('a, 'b) parState"
    using that by (auto simp: addLeafPar_def Let_def case_prod_beta wrap_err_Inr_iff)
  have inner: "wv_closed t' = wv_closed t \<and> wv_hashWg t' = wv_hashWg t \<and> wv_disp t' = wv_disp t \<and> wv_workers t' = wv_workers t \<and>
      wv_readyCap t' = wv_readyCap t \<and> wv_pendingCap t' = wv_pendingCap t \<and> wv_main t' \<noteq> MJoin \<and> wv_main t' \<noteq> MDone"
    if "addInnerPar v h k t = Inr t'" for v h k and t t' :: "('a, 'b) parState"
    using that by (auto simp: addInnerPar_def Let_def case_prod_beta modFrame_def split: if_splits list.splits)
  show ?thesis using assms(1) c
    by (auto simp: s' addNodePar_def closing_def Let_def True split: list.splits sum.splits if_splits dest: leaf inner)
next
  case False
  with assms show ?thesis
    by (auto simp: closing_def mainStep_def finishStreaming_def addEvent_def decPending_def casSubmitted_def enqueueFrame_def modFrame_def Let_def
        split: mainPC.splits list.splits if_splits)
qed

lemma dispatcher_closing: "closing n s \<Longrightarrow> parDispatcher s = Some s' \<Longrightarrow> closing n s'"
  by (auto simp: closing_def parDispatcher_def split: dispatcherPC.splits list.splits if_splits)

lemma worker_closing:
  assumes "closing n s" and wg: "wg_ok s" and i: "i < length (wv_workers s)" and step: "parWorker i s = Some s'"
  shows "closing n s'"
proof -
  obtain w t where w: "workerNext (wv_workers s ! i) s = Some (w, t)" and s': "s' = t\<lparr>wv_workers := (wv_workers t)[i := w]\<rparr>"
    using step by (auto simp: parWorker_def)
  have t: "wv_closed t = wv_closed s" "wv_main t = wv_main s" "wv_disp t = wv_disp s" "wv_workers t = wv_workers s"
      "wv_readyCap t = wv_readyCap s" "wv_pendingCap t = wv_pendingCap s" and x: "w = WExit \<Longrightarrow> wv_disp s = DExit"
    and q: "wv_workers s ! i = WIdle \<Longrightarrow> wv_hashWg t = wv_hashWg s" and nx: "wv_workers s ! i \<noteq> WExit"
    using w by (auto simp: workerNext_def addEvent_def decPending_def casSubmitted_def enqueueFrame_def modFrame_def Let_def
        split: workerPC.splits list.splits if_splits option.splits)
  have "wv_closed s \<Longrightarrow> wv_hashWg t = 0"
    using wg_zero(5) [OF wg, of "wv_workers s ! i"] i q nx assms(1) by (auto simp: closing_def)
  moreover have "WExit \<in> set ((wv_workers s)[i := w]) \<Longrightarrow> w = WExit \<or> WExit \<in> set (wv_workers s)"
    using set_update_subset_insert [of "wv_workers s" i w] by auto
  ultimately show ?thesis using assms(1) x by (auto simp: closing_def s' t)
qed

lemma reach_inv:
  assumes "wave_reach putFast (enableWaveParallel name height workers fast ns) s"
  shows "\<exists>g stg par kl kr. wave_inv g stg par kl kr s" and "closing workers s"
proof -
  have "(\<exists>g stg par kl kr. wave_inv g stg par kl kr s) \<and> closing workers s" using assms
  proof (induction rule: wave_reach.induct)
    case start
    show ?case by (intro exI conjI) (rule wave_inv_start, rule closing_start)
  next
    case (step s s')
    then obtain g stg par kl kr where i: "wave_inv g stg par kl kr s" by blast
    from step(2) have "closing workers s'"
      by cases (use step.IH main_closing dispatcher_closing worker_closing [OF _ wave_invD(9) [OF i]] in blast)+
    with step_inv [OF i step(2)] show ?case by blast
  qed
  then show "\<exists>g stg par kl kr. wave_inv g stg par kl kr s" and "closing workers s" by blast+
qed

section \<open>No deadlock\<close>

lemma worker_enabled:
  assumes "i < length (wv_workers s)" and "wv_workers s ! i \<noteq> WExit"
    and "wv_workers s ! i = WIdle \<Longrightarrow> wv_ready s \<noteq> [] \<or> wv_disp s = DExit"
  shows "\<exists>s'. wave_step putFast s s'"
proof -
  have "\<exists>s'. parWorker i s = Some s'"
    using assms(2,3) by (cases "wv_workers s ! i") (auto simp: parWorker_def workerNext_def Let_def case_prod_beta split: list.splits option.splits)
  with assms(1) show ?thesis by (blast intro: wave_step.worker)
qed

lemma busy_enabled:
  assumes "0 < wsum \<phi> (wv_workers s)" and "\<And>w. 0 < \<phi> w \<Longrightarrow> w \<noteq> WIdle \<and> w \<noteq> WExit"
  shows "\<exists>s'. wave_step putFast s s'"
proof -
  from wsum_pos [OF assms(1)] obtain i where "i < length (wv_workers s)" "0 < \<phi> (wv_workers s ! i)" by (metis in_set_conv_nth)
  with assms(2) worker_enabled show ?thesis by metis
qed

text \<open>As long as some frame is queued and the dispatcher is alive, the dispatcher or a worker can move.\<close>

lemma queue_enabled:
  assumes c: "closing n s" and n: "0 < n" and alive: "wv_disp s \<noteq> DExit"
    and q: "wv_pending s \<noteq> [] \<or> (\<exists>a. wv_disp s = DHold a) \<or> wv_ready s \<noteq> []"
  shows "\<exists>s'. wave_step putFast s s'"
proof (cases "wv_ready s = []")
  case True
  have "\<exists>s'. parDispatcher s = Some s'"
    using c n q alive True by (cases "wv_disp s") (auto simp: parDispatcher_def closing_def split: list.splits)
  then show ?thesis by (blast intro: wave_step.dispatcher)
next
  case False
  have w: "0 < length (wv_workers s)" using c n by (simp add: closing_def)
  have "WExit \<notin> set (wv_workers s)" using c alive by (simp add: closing_def)
  then have "wv_workers s ! 0 \<noteq> WExit" using nth_mem [OF w] by metis
  with w show ?thesis using worker_enabled [of 0 s putFast] False by blast
qed

lemma main_enabled: "mainStep putFast s \<noteq> None \<Longrightarrow> \<exists>s'. wave_step putFast s s'"
  by (auto intro: wave_step.main)

lemma not_stuck:
  assumes wg: "wg_ok s" and c: "closing n s" and n: "0 < n" and unfinished: "wv_main s \<noteq> MDone"
  shows "\<exists>s'. wave_step putFast s s'"
proof (cases "mainStep putFast s")
  case None
  then consider a where "wv_main s = MEnqueue a" "8192 \<le> length (wv_pending s)" | "wv_main s = MWait" "wv_hashWg s \<noteq> 0"
    | "wv_main s = MJoin"
    using unfinished c by (auto simp: mainStep_def finishStreaming_def Let_def case_prod_beta closing_def split: mainPC.splits list.splits if_splits)
  then show ?thesis
  proof cases
    case 1
    then have "wv_disp s \<noteq> DExit" "wv_pending s \<noteq> []" using c by (auto simp: closing_def)
    then show ?thesis using queue_enabled [OF c n] by blast
  next
    case 2
    then have alive: "wv_disp s \<noteq> DExit" using c by (auto simp: closing_def)
    consider "0 < wsum busy (wv_workers s)" | "0 < wsum enqueuing (wv_workers s)"
      | "wv_pending s \<noteq> [] \<or> (\<exists>a. wv_disp s = DHold a) \<or> wv_ready s \<noteq> []"
      using 2 wg wsum_nonneg [of busy "wv_workers s"] wsum_nonneg [of enqueuing "wv_workers s"] busy_nonneg enqueuing_nonneg
      by (force simp: wg_ok_def)
    then show ?thesis
    proof cases
      case 1
      then show ?thesis by (rule busy_enabled) (auto simp: busy_def split: if_splits)
    next
      case 2
      then show ?thesis by (rule busy_enabled) (auto simp: enqueuing_def)
    next
      case 3
      then show ?thesis using queue_enabled [OF c n alive] by blast
    qed
  next
    case 3
    then have closed: "wv_closed s" "wv_hashWg s = 0" using c by (auto simp: closing_def)
    note z = wg_zero [OF wg closed(2)]
    show ?thesis
    proof (cases "wv_disp s = DExit")
      case True
      with None 3 obtain i where "i < length (wv_workers s)" "wv_workers s ! i \<noteq> WExit"
        by (auto simp: mainStep_def finishStreaming_def in_set_conv_nth split: if_splits)
      with True worker_enabled show ?thesis by blast
    next
      case False
      then have "parDispatcher s \<noteq> None" using z closed by (cases "wv_disp s") (auto simp: parDispatcher_def)
      then show ?thesis by (auto intro: wave_step.dispatcher)
    qed
  qed
qed (auto intro: wave_step.main)

section \<open>At rest\<close>

text \<open>The wait group is down and the main thread waits for nothing else: every frame is finished.\<close>

lemma rest_stage:
  assumes inv: "wave_inv g stg par kl kr s" and wg: "wv_hashWg s = 0" and main: "wv_main s = MWait \<or> wv_main s = MJoin \<or> wv_main s = MDone"
  shows "a < heapsize s \<Longrightarrow> stg a = 4"
proof (induction a rule: less_induct)
  case (less a)
  note d = wave_invD [OF inv]
  note z = wg_zero [OF d(9) wg]
  have w: "nworkers (WHash b) (wv_workers s) = 0" "nworkers (WEnqueue b) (wv_workers s) = 0" "nworkers (WPush b) (wv_workers s) = 0"
    "nworkers (WBump b) (wv_workers s) = 0" "nworkers (WDec b) (wv_workers s) = 0" "nworkers (WBuilt b) (wv_workers s) = 0"
    "nworkers (WSubmit b) (wv_workers s) = 0" for b by (rule z(6), simp add: busy_def)+
  have "waiting s a = 0" using z w by (simp add: waiting_def)
  then have s: "stg a \<noteq> 1" "stg a \<noteq> 2" "stg a \<noteq> 3" using d(3) less.prems w by (auto simp: located_def split: if_splits)
  have "stg a \<noteq> 0"
  proof
    assume "stg a = 0"
    then have ns: "\<not> pf_submitted (wv_heap s ! a)" using frame_okD(8) [OF d(2) less.prems] by simp
    show False
    proof (cases "is_inner (g a)")
      case True
      note k = shape_inner [OF d(1) less.prems True] and ok = links_inner [OF d(4) less.prems True]
      have "to_bump (wv_main s) = []" using main by auto
      then have "twice (wv_heap s ! kl a) = 1" "twice (wv_heap s ! kr a) = 1"
        using frame_okD(10) [OF d(2) k(3)] frame_okD(10) [OF d(2) k(4)] less.IH [OF k(1,3)] less.IH [OF k(2,4)] k(6,7)
        by (simp_all add: twice_def)
      moreover have "owed s a = 0" using main w by (auto simp: owed_def)
      ultimately have "pf_pending (wv_heap s ! a) = 0" using inner_okD(1) [OF ok] by simp
      moreover have "pf_built (wv_heap s ! a)" using inner_okD(3) [OF ok] main by (auto simp: building_def)
      ultimately show False using inner_okD(4) [OF ok] ns w main by auto
    next
      case False
      then show False using d(4) less.prems ns main by (auto simp: links_ok_def)
    qed
  qed
  with s frame_okD(9) [OF d(2) less.prems] show ?case by linarith
qed

section \<open>Every step uses up work\<close>

fun main_work :: "mainPC \<Rightarrow> nat" where
  "main_work (MBump i cs) = 10 + 2 * length cs"
| "main_work (MDec i cs) = 11 + 2 * length cs"
| "main_work (MBuilt i) = 9"
| "main_work (MCheck i) = 8"
| "main_work (MSubmit a) = 7"
| "main_work (MEnqueue a) = 16"
| "main_work MNext = 5"
| "main_work MWait = 3"
| "main_work MJoin = 2"
| "main_work MDone = 0"

fun dispatcher_work :: "dispatcherPC \<Rightarrow> nat" where
  "dispatcher_work DIdle = 1"
| "dispatcher_work (DHold a) = 10"
| "dispatcher_work DExit = 0"

fun worker_work :: "workerPC \<Rightarrow> nat" where
  "worker_work WIdle = 1"
| "worker_work (WHash a) = 8"
| "worker_work (WPush a) = 7"
| "worker_work (WBump a) = 6"
| "worker_work (WDec a) = 5"
| "worker_work (WBuilt a) = 4"
| "worker_work (WSubmit a) = 3"
| "worker_work (WEnqueue a) = 13"
| "worker_work WDone = 2"
| "worker_work WExit = 0"

definition frame_work :: "parFrame \<Rightarrow> nat" where
  "frame_work f = (if pf_submitted f then 0 else 11)"

definition work :: "('f, 'e) parState \<Rightarrow> nat" where
  "work s = 30 * length (wv_input s) + sum_list (map frame_work (wv_heap s)) + 10 * length (wv_pending s) +
     8 * length (wv_ready s) + main_work (wv_main s) + dispatcher_work (wv_disp s) + sum_list (map worker_work (wv_workers s))"

lemma sum_list_swap: "i < length xs \<Longrightarrow> sum_list (map \<phi> (xs[i := x])) + \<phi> (xs ! i) = sum_list (map \<phi> xs) + \<phi> x" for \<phi> :: "_ \<Rightarrow> nat"
proof (induction xs arbitrary: i)
  case (Cons y ys)
  then show ?case by (cases i) (simp_all add: algebra_simps)
qed simp

lemma frame_work_same:
  "frame_work f = frame_work (h ! a) \<Longrightarrow> sum_list (map frame_work (h[a := f])) = sum_list (map frame_work h)"
  using sum_list_swap [of a h frame_work f] by (cases "a < length h") (simp_all add: list_update_beyond)

lemma work_modFrame: "(\<And>f. pf_submitted (\<phi> f) = pf_submitted f) \<Longrightarrow> work (modFrame a \<phi> s) = work s"
  using frame_work_same [of "\<phi> (wv_heap s ! a)" "wv_heap s" a] by (simp add: work_def frame_work_def)

lemma work_main: "work (s\<lparr>wv_main := pc\<rparr>) + main_work (wv_main s) = work s + main_work pc"
  by (simp add: work_def)

lemma addNodePar_work:
  assumes "wv_main s = MNext"
  shows "work (addNodePar putFast s) < work s"
proof (cases "wv_input s")
  case Nil
  then show ?thesis using assms by (simp add: addNodePar_def work_def)
next
  case (Cons n input)
  obtain h v k x where n: "n = (h, v, k, x)" by (cases n)
  have leaf: "work t' = work t + 13 \<and> wv_input t' = wv_input t" if "addLeafPar putFast v k x t = Inr t'" "wv_main t = MNext"
    for t t' :: "('a, 'b) parState"
    using that by (auto simp: addLeafPar_def Let_def case_prod_beta wrap_err_Inr_iff work_def frame_work_def newParFrame_def)
  have inner: "work t' = work t + 20 \<and> wv_input t' = wv_input t" if "addInnerPar v h k t = Inr t'" "wv_main t = MNext"
    for t t' :: "('a, 'b) parState"
  proof -
    from that obtain a b rest where st: "wv_parStack t = b # a # rest" "closesPairPar t h"
      by (auto simp: addInnerPar_def closesPairPar_def split: list.splits if_splits)
    let ?t = "t\<lparr>wv_si := (snd (nextNonce (wv_si t) v))\<lparr>st_innerCount := st_innerCount (snd (nextNonce (wv_si t) v)) + 1\<rparr>,
      wv_heap := wv_heap t @ [(newParFrame h (pf_size (wv_heap t ! a) + pf_size (wv_heap t ! b)) v (fst (nextNonce (wv_si t) v)))
        \<lparr>pf_innerKey := k, pf_leftChild := Some a, pf_rightChild := Some b, pf_pending := 2\<rparr>], wv_parStack := heapsize t # rest\<rparr>"
    let ?t2 = "modFrame b (\<lambda>f. f\<lparr>pf_parent := Some (heapsize t)\<rparr>) (modFrame a (\<lambda>f. f\<lparr>pf_parent := Some (heapsize t)\<rparr>) ?t)"
    have "t' = ?t2\<lparr>wv_main := MBump (heapsize t) [a, b]\<rparr>"
      using that(1) st by (auto simp: addInnerPar_def Let_def case_prod_beta)
    moreover have "work ?t2 = work ?t" by (simp add: work_modFrame)
    moreover have "work ?t = work t + 11" by (simp add: work_def frame_work_def newParFrame_def)
    ultimately show ?thesis using work_main [of "MBump (heapsize t) [a, b]" ?t2] that(2) by simp
  qed
  let ?t = "s\<lparr>wv_input := input, wv_si := (wv_si s)\<lparr>st_itemCount := st_itemCount (wv_si s) + 1\<rparr>\<rparr>"
  have t: "work ?t + 30 = work s" "wv_main ?t = MNext" using assms Cons by (simp_all add: work_def)
  have wait: "work (?t\<lparr>wv_err := e, wv_main := MWait\<rparr>) < work s" for e using assms Cons by (simp add: work_def)
  show ?thesis
  proof (cases "if h = 0 then addLeafPar putFast v k x ?t else addInnerPar v h k ?t")
    case (Inl e)
    then show ?thesis using wait [of "Some e"] Cons n by (simp add: addNodePar_def Let_def)
  next
    case (Inr t')
    then have "work t' \<le> work ?t + 20" using leaf [of ?t t'] inner [of ?t t'] t(2) by (auto split: if_splits)
    with Inr t(1) Cons n show ?thesis by (simp add: addNodePar_def Let_def)
  qed
qed

lemma casSubmitted_work:
  assumes "a < heapsize s" and "casSubmitted a s = (won, s')"
  shows "work s' + (if won then 11 else 0) = work s" and "wv_main s' = wv_main s" "wv_workers s' = wv_workers s"
    "wv_pending s' = wv_pending s"
  using assms sum_list_swap [of a "wv_heap s" frame_work "(wv_heap s ! a)\<lparr>pf_submitted := True\<rparr>"]
  by (auto simp: casSubmitted_def work_def frame_work_def split: if_splits)

lemma main_work_less:
  assumes ok: "main_ok g kl kr s (wv_main s)" and step: "mainStep putFast s = Some s'"
  shows "work s' < work s"
proof -
  have less: "work (s1\<lparr>wv_main := pc\<rparr>) < work s" if "work s1 = work s" "wv_main s1 = wv_main s" "main_work pc < main_work (wv_main s)"
    for pc s1 using work_main [of pc s1] that by simp
  show ?thesis
  proof (cases "wv_main s")
    case MNext
    then show ?thesis using step addNodePar_work by (auto simp: mainStep_def finishStreaming_def)
  next
    case (MBump i cs)
    then show ?thesis using step by (cases cs) (auto simp: mainStep_def finishStreaming_def addEvent_def intro!: less work_modFrame)
  next
    case (MDec i cs)
    then show ?thesis using step by (auto simp: mainStep_def finishStreaming_def decPending_def intro!: less work_modFrame)
  next
    case (MBuilt i)
    then show ?thesis using step by (auto simp: mainStep_def finishStreaming_def intro!: less work_modFrame)
  next
    case (MCheck i)
    then show ?thesis using step by (auto simp: mainStep_def finishStreaming_def intro!: less)
  next
    case (MSubmit a)
    obtain won s1 where w: "casSubmitted a s = (won, s1)" by (cases "casSubmitted a s")
    then show ?thesis using step MSubmit ok casSubmitted_work [OF _ w] work_main [of "if won then MEnqueue a else MNext" s1]
      by (auto simp: mainStep_def finishStreaming_def split: if_splits)
  next
    case (MEnqueue a)
    then show ?thesis using step by (auto simp: mainStep_def finishStreaming_def enqueueFrame_def work_def split: if_splits)
  next
    case MWait
    then show ?thesis using step by (auto simp: mainStep_def finishStreaming_def work_def split: if_splits)
  next
    case MJoin
    then show ?thesis using step by (auto simp: mainStep_def finishStreaming_def work_def split: if_splits)
  qed (use step in \<open>simp add: mainStep_def finishStreaming_def\<close>)
qed

lemma dispatcher_work_less: "parDispatcher s = Some s' \<Longrightarrow> work s' < work s"
  by (auto simp: parDispatcher_def work_def split: dispatcherPC.splits list.splits if_splits)

lemma hashFrame_submitted [simp]: "pf_submitted (hashFrame h f) = pf_submitted f"
  by (simp add: hashFrame_def Let_def)

lemma workerNext_work:
  assumes ok: "worker_ok g s w" and step: "workerNext w s = Some (w', s')"
  shows "work s' + worker_work w' < work s + worker_work w" and "wv_workers s' = wv_workers s"
proof -
  have keep: "work (s1\<lparr>wv_rootEncoded := x\<rparr>) = work s1" "work (s1\<lparr>wv_writeQ := y\<rparr>) = work s1" "work (s1\<lparr>wv_hashWg := z\<rparr>) = work s1"
    for x y z and s1 :: "('a, 'b) parState" by (simp_all add: work_def)
  have "work s' + worker_work w' < work s + worker_work w \<and> wv_workers s' = wv_workers s"
  proof (cases w)
    case WIdle
    then show ?thesis using step by (auto simp: workerNext_def work_def split: list.splits if_splits)
  next
    case (WSubmit p)
    obtain won s1 where c: "casSubmitted p s = (won, s1)" by (cases "casSubmitted p s")
    then show ?thesis using step WSubmit ok casSubmitted_work [OF _ c] by (auto simp: workerNext_def split: if_splits)
  next
    case (WEnqueue p)
    then show ?thesis using step by (auto simp: workerNext_def enqueueFrame_def work_def)
  qed (use step in \<open>auto simp: workerNext_def addEvent_def decPending_def Let_def keep work_modFrame split: if_splits option.splits\<close>)
  then show "work s' + worker_work w' < work s + worker_work w" and "wv_workers s' = wv_workers s" by blast+
qed

lemma worker_work_less:
  assumes "workers_ok g s" and i: "i < length (wv_workers s)" and step: "parWorker i s = Some s'"
  shows "work s' < work s"
proof -
  obtain w t where w: "workerNext (wv_workers s ! i) s = Some (w, t)" and s': "s' = t\<lparr>wv_workers := (wv_workers t)[i := w]\<rparr>"
    using step by (auto simp: parWorker_def)
  have "worker_ok g s (wv_workers s ! i)" using assms(1) i by (simp add: workers_ok_def)
  note n = workerNext_work [OF this w]
  have "work s' + worker_work (wv_workers s ! i) = work t + worker_work w"
    using sum_list_swap [OF i, of worker_work w] n(2) by (simp add: work_def s')
  with n(1) show ?thesis by linarith
qed

lemma step_work:
  assumes inv: "wave_inv g stg par kl kr s" and "wave_step putFast s s'"
  shows "work s' < work s"
  using assms(2) by cases (use wave_invD(5,6) [OF inv] main_work_less dispatcher_work_less worker_work_less in blast)+

text \<open>Executions with their number of steps.\<close>

inductive wave_run :: "('f, 'e) setter \<Rightarrow> ('f, 'e) parState \<Rightarrow> nat \<Rightarrow> ('f, 'e) parState \<Rightarrow> bool" for putFast s0 where
  none: "wave_run putFast s0 0 s0"
| more: "wave_run putFast s0 n s \<Longrightarrow> wave_step putFast s s' \<Longrightarrow> wave_run putFast s0 (Suc n) s'"

lemma wave_run_reach: "wave_run putFast s0 n s \<Longrightarrow> wave_reach putFast s0 s"
  by (induction rule: wave_run.induct) (auto intro: wave_reach.intros)

lemma wave_reach_run: "wave_reach putFast s0 s \<Longrightarrow> \<exists>n. wave_run putFast s0 n s"
  by (induction rule: wave_reach.induct) (auto intro: wave_run.intros)

lemma start_work: "work (enableWaveParallel name height workers fast ns) = 30 * length ns + workers + 6"
  by (simp add: work_def enableWaveParallel_def sum_list_replicate)

lemma run_work:
  "wave_run putFast (enableWaveParallel name height workers fast ns) n s \<Longrightarrow> n + work s \<le> 30 * length ns + workers + 6"
proof (induction rule: wave_run.induct)
  case (more n s s')
  from reach_inv(1) [OF wave_run_reach [OF more(1)]] step_work [OF _ more(2)] have "work s' < work s" by blast
  with more.IH show ?case by linarith
qed (simp add: start_work)

end
