(* ===== verification/WaveProps.thy ===== *)
theory WaveProps
  imports WaveSim WaveLive
begin

text \<open>
  What the wave-parallel importer guarantees under every scheduling of its goroutines: the result
  of the sequential importer, no deadlock, and a bound on the number of steps.
\<close>

section \<open>Schedules\<close>

datatype goroutine = Main | Dispatcher | Worker nat

fun wave_sched :: "('f, 'e) setter \<Rightarrow> goroutine list \<Rightarrow> ('f, 'e) parState \<Rightarrow> ('f, 'e) parState option" where
  "wave_sched putFast [] s = Some s"
| "wave_sched putFast (Main # gs) s = Option.bind (mainStep putFast s) (wave_sched putFast gs)"
| "wave_sched putFast (Dispatcher # gs) s = Option.bind (parDispatcher s) (wave_sched putFast gs)"
| "wave_sched putFast (Worker i # gs) s =
     (if i < length (wv_workers s) then Option.bind (parWorker i s) (wave_sched putFast gs) else None)"

lemma wave_sched_reach:
  "wave_sched putFast gs s = Some s' \<Longrightarrow> wave_reach putFast s0 s \<Longrightarrow> wave_reach putFast s0 s'"
proof (induction gs arbitrary: s)
  case (Cons g gs)
  then obtain s1 where "wave_step putFast s s1" "wave_sched putFast gs s1 = Some s'"
    by (cases g) (auto simp: bind_eq_Some_conv split: if_splits intro: wave_step.intros)
  with Cons show ?case by (blast intro: wave_reach.step)
qed simp

lemma sched_reach: "wave_sched putFast gs s0 = Some s \<Longrightarrow> wave_reach putFast s0 s"
  using wave_sched_reach wave_reach.start by blast

lemmas sched_simps = mainStep_def finishStreaming_def parDispatcher_def parWorker_def workerNext_def addNodePar_def addLeafPar_def addInnerPar_def
  closesPairPar_def addEvent_def decPending_def casSubmitted_def enqueueFrame_def modFrame_def newParFrame_def hashFrame_def
  enableWaveParallel_def newStoreImporter_def nextNonce_def map_put_def Let_def

section \<open>The result\<close>

lemma entries_sent:
  assumes "sent_ok g stg s" and "\<And>a. a < heapsize s \<Longrightarrow> stg a = 4"
  shows "mset (wv_writeQ s) = mset (entries g (st_storePrefix (wv_si s)) (heapsize s))"
proof -
  have "{a. a < heapsize s \<and> 3 \<le> stg a} = {0..<heapsize s}" using assms(2) by auto
  with assms(1) show ?thesis by (simp add: sent_ok_def entries_def mset_upt)
qed

lemma single_root:
  assumes inv: "wave_inv g stg par kl kr s" and st: "wv_parStack s = [a]"
  shows "a = heapsize s - 1" "a < heapsize s" "par b = None \<Longrightarrow> b < heapsize s \<Longrightarrow> b = a" "par a = None"
proof -
  note sh = wave_invD(1) [OF inv]
  show a: "a < heapsize s" using shape_stack(2) [OF sh] st by simp
  show "par b = None \<Longrightarrow> b < heapsize s \<Longrightarrow> b = a" for b using shape_stack(3) [OF sh] st by simp
  show "par a = None" using shape_stack(3) [OF sh a] st by simp
  have "par (heapsize s - 1) = None"
  proof (cases "par (heapsize s - 1)")
    case (Some p)
    then show ?thesis using shape_par(1,2) [OF sh _ Some] a by linarith
  qed
  then show "a = heapsize s - 1" using shape_stack(3) [OF sh, of "heapsize s - 1"] st a by simp
qed

lemma finalize_equal:
  fixes s :: "(bytes \<rightharpoonup> bytes, 'e) parState"
  assumes inv: "wave_inv g stg par kl kr s" and stage: "\<And>a. a < heapsize s \<Longrightarrow> stg a = 4"
  shows "finalizePar put s db = map_sum ParError id (finalize put (seq_of g s) db)"
proof -
  note d = wave_invD [OF inv]
  have marker: "writeStorageVersionMarker put (seq_of g s) x = writeStorageVersionMarker put (wv_si s) x" for x
    by (simp add: writeStorageVersionMarker_def seq_of_def)
  have sum: "wrap_err (f \<circ> h) r k = map_sum f id (wrap_err h r k')" if "\<And>x. k x = map_sum f id (k' x)"
    for f h r k k' using that by (cases r) auto
  have last: "wrap_err ParError (writeStorageVersionMarker put (wv_si s) x) (\<lambda>db. Inr (y, db)) =
      map_sum ParError id (case writeStorageVersionMarker put (wv_si s) x of Inl e \<Rightarrow> Inl e | Inr db \<Rightarrow> Inr (y, db))" for x y
    by (cases "writeStorageVersionMarker put (wv_si s) x") auto
  have proj: "st_storePrefix (seq_of g s) = st_storePrefix (wv_si s)" "st_height (seq_of g s) = st_height (wv_si s)"
    "st_stack (seq_of g s) = map (\<lambda>a. frame_of (g a)) (wv_parStack s)"
    by (simp_all add: seq_of_def)
  consider "wv_parStack s = []" | a where "wv_parStack s = [a]" | a b as where "wv_parStack s = a # b # as"
    by (cases "wv_parStack s"; cases "tl (wv_parStack s)") auto
  then show ?thesis
  proof cases
    case 1
    then show ?thesis unfolding finalizePar_def finalize_def Let_def by (simp add: proj marker sum [OF last])
  next
    case (2 a)
    note r = single_root [OF inv 2]
    have "2 \<le> stg a \<and> (\<forall>b < heapsize s. (par b = None) = (b = a))" using stage [OF r(2)] r(3,4) by auto
    then have root: "wv_rootEncoded s = Some (node_bytes (g a))" using d(7) r(2) unfolding root_ok_def by blast
    have "st_lastIavlBytes (seq_of g s) = node_bytes (g a)" using r(2) r(1) [symmetric] by (auto simp: seq_of_def)
    then show ?thesis using frame_okD(3,5) [OF d(2) r(2)] stage [OF r(2)]
      unfolding finalizePar_def finalize_def Let_def
      by (simp add: 2 root proj frame_of_def marker sum [OF last] sum [OF refl] cong: if_cong sum.case_cong)
  next
    case 3
    then show ?thesis by (simp add: finalizePar_def finalize_def proj)
  qed
qed

text \<open>
  C11. The wave-parallel importer computes what the sequential one does.  In every state that can be
  reached, under any interleaving of main thread, dispatcher and workers, in which \<open>finishStreaming\<close>
  has returned, writing the queued entries in the order they were sent and running \<open>finalizePar\<close>
  gives the same root hash and the same database as \<open>addNode\<close> for each node followed by
  \<open>finalize\<close>, and an error exactly when that gives one, the same one.  The stream is arbitrary but
  for its versions, which are not 0, and its length, which is below the range of the nonces.
\<close>

theorem wave_parallel_equals_sequential:
  fixes s :: "(bytes \<rightharpoonup> bytes, 'e) parState"
  assumes "wave_reach map_put (enableWaveParallel name height workers m ns) s" and "wv_main s = MDone"
    and "stream_ok ns"
  shows "(case wv_err s of
        Some e \<Rightarrow> Inl (ParError e)
      | None \<Rightarrow> finalizePar map_put s (writes (wv_writeQ s) (wv_fast s))) =
    map_sum ParError id (importStore map_put map_put name height m ns)"
proof -
  from reach_sim [OF assms(1,3)] obtain g stg par kl kr
    where inv: "wave_inv g stg par kl kr s" and sim: "sim name height m ns g s" by blast
  have "wv_hashWg s = 0" using reach_inv(2) [OF assms(1)] assms(2) by (simp add: closing_def)
  note stage = rest_stage [OF inv this] 
  have import: "(importStore map_put map_put name height m ns :: 'e import_error + _) =
      (case seq_run name height m ns of Inl e \<Rightarrow> Inl e | Inr (s, db) \<Rightarrow> finalize map_put s db)"
    by (simp add: importStore_def seq_run_def)
  show ?thesis
  proof (cases "wv_err s")
    case None
    with sim assms(2) have num: "numbered g (wv_si s) (heapsize s)" and p: "st_storePrefix (wv_si s) = storePrefix name"
      and run: "(seq_run name height m ns :: 'e import_error + _) =
        Inr (seq_of g s, writes (entries g (storePrefix name) (heapsize s)) (wv_fast s))"
      by (auto simp: sim_def finishing_def)
    have "mset (wv_writeQ s) = mset (entries g (storePrefix name) (heapsize s))"
      using entries_sent [OF wave_invD(8) [OF inv]] stage assms(2) p by simp
    from writes_perm [OF this numbered_distinct [OF num]] show ?thesis
      using finalize_equal [OF inv stage] None assms(2) by (simp add: import run)
  next
    case (Some e)
    with sim show ?thesis by (simp add: sim_def import)
  qed
qed

definition sample_stream :: "export_node list" where
  "sample_stream = [(0, 5, [97], [1]), (0, 4, [98], [2]), (1, 5, [98], [])]"

definition sample_schedule :: "goroutine list" where
  "sample_schedule =
    [Main, Main, Main, Main, Main, Main, Main, Main, Main, Main, Main, Main, Main, Dispatcher, Dispatcher,
     Dispatcher, Dispatcher, Worker 0, Worker 0, Worker 0, Worker 0, Worker 0, Worker 0, Worker 0, Worker 0,
     Worker 0, Worker 0, Worker 0, Worker 0, Worker 0, Worker 0, Worker 0, Dispatcher, Dispatcher, Worker 0,
     Worker 0, Worker 0, Worker 0, Worker 0, Main, Dispatcher, Worker 0, Main]"

lemma leaf_below: "(0 :: i8) <s 1"
  by (simp add: word_sless_alt)

lemma sample_run:
  "\<exists>s :: (bytes \<rightharpoonup> bytes, unit) parState.
     wave_sched map_put sample_schedule (enableWaveParallel [120] 5 1 Map.empty sample_stream) = Some s \<and>
     wv_main s = MDone \<and> wv_err s = None \<and> length (wv_writeQ s) = 3"
  by (simp add: sample_schedule_def sample_stream_def sched_simps case_prod_beta leaf_below)

theorem wave_parallel_equals_sequential_witness:
  "\<exists>s :: (bytes \<rightharpoonup> bytes, unit) parState.
     wave_reach map_put (enableWaveParallel [120] 5 1 Map.empty sample_stream) s \<and> wv_main s = MDone \<and> wv_err s = None \<and>
     length (wv_writeQ s) = 3 \<and> stream_ok sample_stream \<and>
     finalizePar map_put s (writes (wv_writeQ s) (wv_fast s)) =
       map_sum ParError id (importStore map_put map_put [120] 5 Map.empty sample_stream)"
proof -
  from sample_run obtain s :: "(bytes \<rightharpoonup> bytes, unit) parState" where
    s: "wave_sched map_put sample_schedule (enableWaveParallel [120] 5 1 Map.empty sample_stream) = Some s"
      "wv_main s = MDone" "wv_err s = None" "length (wv_writeQ s) = 3" by blast
  have ok: "stream_ok sample_stream" by (simp add: stream_ok_def sample_stream_def)
  from wave_parallel_equals_sequential [OF sched_reach [OF s(1)] s(2) ok] sched_reach [OF s(1)] s ok show ?thesis
    by (intro exI [of _ s]) simp
qed

text \<open>
  C12. No deadlock.  With at least one worker, in every state that can be reached before
  \<open>finishStreaming\<close> returns, some goroutine can take a step, whatever \<open>setFast\<close> answers, and
  although the main thread waits when the queue is full, the dispatcher when the channel is full,
  and \<open>finishStreaming\<close> for the wait group and for both kinds of goroutine.
\<close>

theorem wave_no_deadlock:
  assumes "wave_reach putFast (enableWaveParallel name height workers fast ns) s" and "0 < workers"
    and "wv_main s \<noteq> MDone"
  shows "\<exists>s'. wave_step putFast s s'"
  using reach_inv [OF assms(1)] not_stuck [OF wave_invD(9) _ assms(2,3)] by blast

theorem wave_no_deadlock_witness:
  "\<exists>s'. wave_step map_put (enableWaveParallel [120] 5 1 Map.empty sample_stream :: (bytes \<rightharpoonup> bytes, unit) parState) s'"
  by (rule wave_no_deadlock [OF wave_reach.start]) (simp_all add: enableWaveParallel_def)

text \<open>
  C13. Termination.  An execution of the wave-parallel importer has at most
  \<open>30 * nodes + workers + 6\<close> steps, whatever the scheduling and whatever \<open>setFast\<close> answers.  In
  particular no frame is processed twice.
\<close>

theorem wave_terminates:
  "wave_run putFast (enableWaveParallel name height workers fast ns) n s \<Longrightarrow> n \<le> 30 * length ns + workers + 6"
  using run_work by fastforce

theorem wave_terminates_witness:
  "\<exists>n s. wave_run map_put (enableWaveParallel [120] 5 1 Map.empty sample_stream :: (bytes \<rightharpoonup> bytes, unit) parState) n s \<and>
     wv_main s = MDone \<and> n \<le> 97"
proof -
  from sample_run obtain s :: "(bytes \<rightharpoonup> bytes, unit) parState" where
    s: "wave_sched map_put sample_schedule (enableWaveParallel [120] 5 1 Map.empty sample_stream) = Some s" "wv_main s = MDone" by blast
  from wave_reach_run [OF sched_reach [OF s(1)]] obtain n where
    n: "wave_run map_put (enableWaveParallel [120] 5 1 Map.empty sample_stream) n s" by blast
  from wave_terminates [OF this] s(2) n show ?thesis by (auto simp: sample_stream_def)
qed

text \<open>
  Two workers can be about to assign \<open>rootEncoded\<close> at the same time, for two frames of which
  neither is the root: when the first two nodes are leaves and there are two workers, both leaves
  can be hashed before their parent is added, and both still have no parent.
\<close>

theorem rootEncoded_race:
  "\<exists>s. wave_reach map_put (enableWaveParallel name height (Suc (Suc n)) m ((0, v, k, x) # (0, w, k', x') # (1, u, i, []) # ns)) s \<and>
     wv_workers s ! 0 = WHash 0 \<and> wv_workers s ! 1 = WHash 1 \<and>
     pf_parent (wv_heap s ! 0) = None \<and> pf_parent (wv_heap s ! 1) = None \<and> wv_err s = None"
proof -
  let ?gs = "[Main, Main, Main, Main, Main, Main, Dispatcher, Dispatcher, Dispatcher, Dispatcher, Worker 0, Worker 1]"
  let ?s0 = "enableWaveParallel name height (Suc (Suc n)) m ((0, v, k, x) # (0, w, k', x') # (1, u, i, []) # ns)"
  have "\<exists>s. wave_sched map_put ?gs ?s0 = Some s \<and> wv_workers s ! 0 = WHash 0 \<and> wv_workers s ! 1 = WHash 1 \<and>
     pf_parent (wv_heap s ! 0) = None \<and> pf_parent (wv_heap s ! 1) = None \<and> wv_err s = None"
    by (simp add: sched_simps case_prod_beta)
  then show ?thesis using sched_reach by blast
qed

end
