(* ===== verification/DiffFormat.thy ===== *)
theory DiffFormat
  imports SnapProto
begin

unbundle bit_operations_syntax

text \<open>
  The two diff file formats of \<open>internal/snapshotdiff\<close>: the headers of \<open>format.go\<close> and
  \<open>statesync.go\<close>, over little-endian integers and length-prefixed byte strings, with their readers,
  every error of the readers, and the round trip.
\<close>

section \<open>Little-endian integers\<close>

text \<open>\<open>binary.LittleEndian.PutUint32\<close>, \<open>PutUint64\<close>, and the two readers in one fold.\<close>

definition le32 :: "u32 \<Rightarrow> bytes" where
  "le32 w = map (\<lambda>i. ucast (drop_bit (8 * i) w)) [0..<4]"

definition le64 :: "u64 \<Rightarrow> bytes" where
  "le64 w = map (\<lambda>i. ucast (drop_bit (8 * i) w)) [0..<8]"

definition le_uint :: "bytes \<Rightarrow> 'a::len word" where
  "le_uint bs = foldr (\<lambda>b x. ucast b OR push_bit 8 x) bs 0"

lemma length_le32 [simp, wire_simps]: "length (le32 w) = 4"
  by (simp add: le32_def)

lemma length_le64 [simp, wire_simps]: "length (le64 w) = 8"
  by (simp add: le64_def)

lemma bit_le_uint:
  "bit (le_uint bs :: 'a::len word) n \<longleftrightarrow> n < LENGTH('a) \<and> n div 8 < length bs \<and> bit (bs ! (n div 8)) (n mod 8)"
proof (induction bs arbitrary: n)
  case (Cons b bs)
  show ?case
  proof (cases "n < 8")
    case True
    then show ?thesis by (simp add: le_uint_def bit_simps)
  next
    case False
    then have "n div 8 = Suc ((n - 8) div 8)" "n mod 8 = (n - 8) mod 8" by (simp_all add: le_div_geq le_mod_geq)
    with False Cons.IH [of "n - 8"] show ?thesis
      by (auto simp: le_uint_def bit_simps bit_imp_le_length dest: bit_imp_le_length)
  qed
qed (simp add: le_uint_def)

lemma le_uint_le32 [simp]: "le_uint (le32 w) = w"
proof (rule bit_word_eqI)
  fix n assume "n < LENGTH(32)"
  moreover from this have "n div 8 < 4" by simp
  ultimately show "bit (le_uint (le32 w) :: u32) n = bit w n"
    by (simp add: bit_le_uint le32_def bit_simps)
qed

lemma le_uint_le64 [simp]: "le_uint (le64 w) = w"
proof (rule bit_word_eqI)
  fix n assume "n < LENGTH(64)"
  moreover from this have "n div 8 < 8" by simp
  ultimately show "bit (le_uint (le64 w) :: u64) n = bit w n"
    by (simp add: bit_le_uint le64_def bit_simps)
qed

section \<open>Headers\<close>

definition Magic :: bytes where
  "Magic = go_string ''CSDF''"

definition FormatVersion :: byte where
  "FormatVersion = 1"

record FileHeader =
  fh_BaseHeight :: u64
  fh_TargetHeight :: u64
  fh_BaseHashHex :: bytes
  fh_TargetHashHex :: bytes

definition writeLenPrefixed :: "bytes \<Rightarrow> bytes" where
  "writeLenPrefixed b = le32 (of_nat (length b)) @ b"

definition WriteHeader :: "FileHeader \<Rightarrow> bytes" where
  "WriteHeader h =
     Magic @ [FormatVersion] @ le64 (fh_BaseHeight h) @ le64 (fh_TargetHeight h) @
     writeLenPrefixed (fh_BaseHashHex h) @ writeLenPrefixed (fh_TargetHashHex h)"

datatype header_error =
    ReadMagic read_error
  | BadMagic bytes
  | ReadVersion read_error
  | UnknownVersion byte
  | HeaderRead read_error
  | LenPrefixTooLarge u32

text \<open>\<open>io.ReadFull\<close> with its error passed through a wrapper.\<close>

definition read_full :: "(read_error \<Rightarrow> 'e) \<Rightarrow> nat \<Rightarrow> bytes \<Rightarrow> (bytes \<Rightarrow> bytes \<Rightarrow> 'e + 'a) \<Rightarrow> 'e + 'a" where
  "read_full w n r f = (case ReadFull n r of Inl e \<Rightarrow> Inl (w e) | Inr (b, r) \<Rightarrow> f b r)"

definition readLenPrefixed :: "bytes \<Rightarrow> header_error + bytes \<times> bytes" where
  "readLenPrefixed r =
     read_full HeaderRead 4 r (\<lambda>buf r.
       let n = (le_uint buf :: u32) in
       if 2 ^ 20 < n then Inl (LenPrefixTooLarge n)
       else read_full HeaderRead (unat n) r (\<lambda>out r. Inr (out, r)))"

definition ReadHeader :: "bytes \<Rightarrow> header_error + FileHeader \<times> bytes" where
  "ReadHeader r =
     read_full ReadMagic 4 r (\<lambda>magic r.
     if magic \<noteq> Magic then Inl (BadMagic magic)
     else read_full ReadVersion 1 r (\<lambda>ver r.
     if ver ! 0 \<noteq> FormatVersion then Inl (UnknownVersion (ver ! 0))
     else read_full HeaderRead 8 r (\<lambda>base r.
     read_full HeaderRead 8 r (\<lambda>target r.
     case readLenPrefixed r of
       Inl e \<Rightarrow> Inl e
     | Inr (bh, r) \<Rightarrow>
         (case readLenPrefixed r of
            Inl e \<Rightarrow> Inl e
          | Inr (th, r) \<Rightarrow>
              Inr (\<lparr>fh_BaseHeight = le_uint base, fh_TargetHeight = le_uint target,
                    fh_BaseHashHex = bh, fh_TargetHashHex = th\<rparr>, r))))))"

definition StateSyncMagic :: bytes where
  "StateSyncMagic = go_string ''CSDS''"

definition StateSyncFormatVersion :: byte where
  "StateSyncFormatVersion = 1"

definition OpRef :: byte where "OpRef = 0"

definition OpLiteral :: byte where "OpLiteral = 1"

definition CosmosSDKChunkSize :: nat where
  "CosmosSDKChunkSize = 10 * 2 ^ 20"

record StateSyncHeader =
  ss_BaseHeight :: u64
  ss_TargetHeight :: u64
  ss_BaseHashHex :: bytes
  ss_TargetHashHex :: bytes
  ss_TargetItemCount :: u64

definition WriteStateSyncHeader :: "StateSyncHeader \<Rightarrow> bytes" where
  "WriteStateSyncHeader h =
     StateSyncMagic @ [StateSyncFormatVersion] @ le64 (ss_BaseHeight h) @ le64 (ss_TargetHeight h) @
     writeLenPrefixed (ss_BaseHashHex h) @ writeLenPrefixed (ss_TargetHashHex h) @ le64 (ss_TargetItemCount h)"

definition ReadStateSyncHeader :: "bytes \<Rightarrow> header_error + StateSyncHeader \<times> bytes" where
  "ReadStateSyncHeader r =
     read_full ReadMagic 4 r (\<lambda>magic r.
     if magic \<noteq> StateSyncMagic then Inl (BadMagic magic)
     else read_full HeaderRead 1 r (\<lambda>ver r.
     if ver ! 0 \<noteq> StateSyncFormatVersion then Inl (UnknownVersion (ver ! 0))
     else read_full HeaderRead 8 r (\<lambda>base r.
     read_full HeaderRead 8 r (\<lambda>target r.
     case readLenPrefixed r of
       Inl e \<Rightarrow> Inl e
     | Inr (bh, r) \<Rightarrow>
         (case readLenPrefixed r of
            Inl e \<Rightarrow> Inl e
          | Inr (th, r) \<Rightarrow>
              read_full HeaderRead 8 r (\<lambda>count r.
              Inr (\<lparr>ss_BaseHeight = le_uint base, ss_TargetHeight = le_uint target,
                    ss_BaseHashHex = bh, ss_TargetHashHex = th, ss_TargetItemCount = le_uint count\<rparr>, r)))))))"

lemma read_full_append: "length b = n \<Longrightarrow> read_full w n (b @ r) f = f b r"
  by (auto simp: read_full_def ReadFull_def)

lemma readLenPrefixed_write:
  assumes "length b \<le> 2 ^ 20"
  shows "readLenPrefixed (writeLenPrefixed b @ r) = Inr (b, r)"
proof -
  have n: "unat (of_nat (length b) :: u32) = length b"
    using assms by (simp add: unsigned_of_nat take_bit_nat_eq_self)
  then have "\<not> 2 ^ 20 < (of_nat (length b) :: u32)" using assms by (simp add: word_less_nat_alt)
  with n show ?thesis by (simp add: readLenPrefixed_def writeLenPrefixed_def read_full_append)
qed

lemma readLenPrefixed_too_large:
  assumes "2 ^ 20 < length b" and "length b < 2 ^ 32"
  shows "readLenPrefixed (writeLenPrefixed b @ r) = Inl (LenPrefixTooLarge (of_nat (length b)))"
proof -
  have n: "unat (of_nat (length b) :: u32) = length b"
    using assms by (simp add: unsigned_of_nat take_bit_nat_eq_self)
  then have "2 ^ 20 < (of_nat (length b) :: u32)" using assms by (simp add: word_less_nat_alt)
  then show ?thesis by (simp add: readLenPrefixed_def writeLenPrefixed_def read_full_append)
qed

lemmas header_simps = read_full_append readLenPrefixed_write

lemma length_Magic [simp]: "length Magic = 4" "length StateSyncMagic = 4"
  by (simp_all add: Magic_def StateSyncMagic_def go_string_def)

lemma read_full_one: "read_full w (Suc 0) (b # r) f = f [b] r"
  using read_full_append [of "[b]" 1] by simp

text \<open>
  Both diff headers survive a round trip: what \<open>ReadHeader\<close> reads from the bytes \<open>WriteHeader\<close>
  produced, whatever follows them, is the header that was written and exactly what follows, and
  likewise for the state-sync header with its item count, as long as the two hashes are at most a
  mebibyte long, the reader's limit.
\<close>

theorem diff_headers_roundtrip:
  assumes "length (fh_BaseHashHex h) \<le> 2 ^ 20" and "length (fh_TargetHashHex h) \<le> 2 ^ 20"
    and "length (ss_BaseHashHex g) \<le> 2 ^ 20" and "length (ss_TargetHashHex g) \<le> 2 ^ 20"
  shows "ReadHeader (WriteHeader h @ body) = Inr (h, body) \<and>
    ReadStateSyncHeader (WriteStateSyncHeader g @ body) = Inr (g, body)"
  using assms
  by (simp add: ReadHeader_def WriteHeader_def ReadStateSyncHeader_def WriteStateSyncHeader_def header_simps read_full_one)

theorem diff_headers_roundtrip_witness:
  "let h = \<lparr>fh_BaseHeight = 5, fh_TargetHeight = 7, fh_BaseHashHex = go_string ''ab'', fh_TargetHashHex = go_string ''cd''\<rparr>;
       g = \<lparr>ss_BaseHeight = 5, ss_TargetHeight = 7, ss_BaseHashHex = go_string ''ab'', ss_TargetHashHex = [], ss_TargetItemCount = 9\<rparr>
   in ReadHeader (WriteHeader h @ [1]) = Inr (h, [1]) \<and> ReadStateSyncHeader (WriteStateSyncHeader g @ [1]) = Inr (g, [1])"
  unfolding Let_def by (rule diff_headers_roundtrip) (simp_all add: go_string_def)

end
