(* ===== verification/ChunkWriter.thy ===== *)
theory ChunkWriter
  imports DiffFormat
begin

text \<open>
  The chunk writer of \<open>internal/snapshotdiff/apply.go\<close>: a byte stream, written in pieces of any size,
  is cut into numbered files of a fixed size, each hashed on its own.  Opening, writing and closing a
  file may fail; which calls do is the argument \<open>io\<close>.
\<close>

section \<open>The writer\<close>

record 'e chunk_io =
  io_create :: "bytes \<Rightarrow> 'e option"
  io_write :: "bytes \<Rightarrow> nat \<Rightarrow> 'e option"
  io_close :: "bytes \<Rightarrow> 'e option"

text \<open>\<open>cw_cur\<close> is the name of the open file; \<open>cw_hasher\<close> what its hasher has been fed; \<open>cw_dir\<close> the directory.\<close>

record chunkWriter =
  cw_dir :: "bytes \<rightharpoonup> bytes"
  cw_chunkSize :: nat
  cw_cur :: "bytes option"
  cw_hasher :: bytes
  cw_curWritten :: nat
  cw_chunkIdx :: nat
  cw_chunkHashes :: "bytes list"
  cw_totalWritten :: u64

definition newChunkWriter :: "(bytes \<rightharpoonup> bytes) \<Rightarrow> nat \<Rightarrow> chunkWriter" where
  "newChunkWriter dir chunkSize =
     \<lparr>cw_dir = dir, cw_chunkSize = chunkSize, cw_cur = None, cw_hasher = [], cw_curWritten = 0, cw_chunkIdx = 0,
      cw_chunkHashes = [], cw_totalWritten = 0\<rparr>"

definition chunkName :: "nat \<Rightarrow> bytes" where
  "chunkName i = go_string ''chunk_'' @ fmt_05d i @ go_string ''.bin''"

definition openNext :: "'e chunk_io \<Rightarrow> chunkWriter \<Rightarrow> 'e + chunkWriter" where
  "openNext io c =
     (let name = chunkName (cw_chunkIdx c) in
      case io_create io name of
        Some e \<Rightarrow> Inl e
      | None \<Rightarrow> Inr (c\<lparr>cw_dir := (cw_dir c)(name \<mapsto> []), cw_cur := Some name, cw_curWritten := 0, cw_hasher := []\<rparr>))"

text \<open>The file counts as closed also when \<open>Close\<close> fails.\<close>

definition closeChunk :: "'e chunk_io \<Rightarrow> chunkWriter \<Rightarrow> 'e option \<times> chunkWriter" where
  "closeChunk io c =
     (case cw_cur c of
        None \<Rightarrow> (None, c)
      | Some name \<Rightarrow>
          (case io_close io name of
             Some e \<Rightarrow> (Some e, c\<lparr>cw_cur := None\<rparr>)
           | None \<Rightarrow> (None, c\<lparr>cw_cur := None, cw_chunkHashes := cw_chunkHashes c @ [sha256 (cw_hasher c)],
                              cw_chunkIdx := cw_chunkIdx c + 1\<rparr>)))"

text \<open>
  The loop of \<open>Write\<close>: the bytes written so far, the error, the writer.  With a chunk size of 0 it
  would not end.
\<close>

partial_function (option) chunkWrite_loop :: "'e chunk_io \<Rightarrow> chunkWriter \<Rightarrow> nat \<Rightarrow> bytes \<Rightarrow>
    (nat \<times> 'e option \<times> chunkWriter) option" where
  "chunkWrite_loop io c written p =
     (if p = [] then Some (written, None, c)
      else case (if cw_cur c = None then openNext io c else Inr c) of
          Inl e \<Rightarrow> Some (written, Some e, c)
        | Inr c \<Rightarrow>
            let name = the (cw_cur c); n = min (length p) (cw_chunkSize c - cw_curWritten c) in
            case io_write io name n of
              Some e \<Rightarrow> Some (written, Some e, c)
            | None \<Rightarrow>
                let c = c\<lparr>cw_dir := (cw_dir c)(name \<mapsto> the (cw_dir c name) @ take n p), cw_hasher := cw_hasher c @ take n p,
                          cw_curWritten := cw_curWritten c + n, cw_totalWritten := cw_totalWritten c + of_nat n\<rparr> in
                if cw_chunkSize c \<le> cw_curWritten c then
                  (case closeChunk io c of
                     (Some e, c) \<Rightarrow> Some (written + n, Some e, c)
                   | (None, c) \<Rightarrow> chunkWrite_loop io c (written + n) (drop n p))
                else chunkWrite_loop io c (written + n) (drop n p))"

definition chunkWrite :: "'e chunk_io \<Rightarrow> chunkWriter \<Rightarrow> bytes \<Rightarrow> (nat \<times> 'e option \<times> chunkWriter) option" where
  "chunkWrite io c p = chunkWrite_loop io c 0 p"

text \<open>The writes of the compressor, one after the other, and the final \<open>close\<close>.\<close>

fun chunkWrites :: "'e chunk_io \<Rightarrow> chunkWriter \<Rightarrow> bytes list \<Rightarrow> ('e + chunkWriter) option" where
  "chunkWrites io c [] = (case closeChunk io c of (Some e, _) \<Rightarrow> Some (Inl e) | (None, c) \<Rightarrow> Some (Inr c))"
| "chunkWrites io c (p # ps) =
     (case chunkWrite io c p of
        None \<Rightarrow> None
      | Some (_, Some e, _) \<Rightarrow> Some (Inl e)
      | Some (_, None, c) \<Rightarrow> chunkWrites io c ps)"

text \<open>The hex digest of all chunk hashes, and the \<open>Metadata\<close> message with them.\<close>

definition hex_digit :: "byte \<Rightarrow> byte" where
  "hex_digit d = (if d < 10 then 48 + d else 87 + d)"

definition hex_encode :: "bytes \<Rightarrow> bytes" where
  "hex_encode bs = concat (map (\<lambda>b. [hex_digit (drop_bit 4 b), hex_digit (take_bit 4 b)]) bs)"

definition computeSnapshotHash :: "bytes list \<Rightarrow> bytes" where
  "computeSnapshotHash chunkHashes = hex_encode (sha256 (concat chunkHashes))"

definition hexHashes :: "bytes list \<Rightarrow> bytes list" where
  "hexHashes hs = map hex_encode hs"

definition encodeMetadataProto :: "bytes list \<Rightarrow> bytes" where
  "encodeMetadataProto chunkHashes =
     concat (map (\<lambda>h. 0x0a # PutUvarint (of_nat (length h)) @ h) chunkHashes)"

section \<open>Chunks of a stream\<close>

function chunks_of :: "nat \<Rightarrow> 'a list \<Rightarrow> 'a list list" where
  "chunks_of n xs = (if xs = [] \<or> n = 0 then [] else take n xs # chunks_of n (drop n xs))"
  by pat_completeness auto
termination
  by (relation "measure (\<lambda>(n, xs). length xs)") auto

declare chunks_of.simps [simp del]

lemma chunks_of_simps [simp]: "chunks_of n [] = []" "xs \<noteq> [] \<Longrightarrow> 0 < n \<Longrightarrow> chunks_of n xs = take n xs # chunks_of n (drop n xs)"
  by (simp_all add: chunks_of.simps [of n])

lemma concat_chunks_of: "0 < n \<Longrightarrow> concat (chunks_of n xs) = xs"
proof (induction n xs rule: chunks_of.induct)
  case (1 n xs)
  then show ?case by (cases "xs = []") auto
qed

lemma length_chunks: "0 < n \<Longrightarrow> i < length (chunks_of n xs) \<Longrightarrow>
    0 < length (chunks_of n xs ! i) \<and> length (chunks_of n xs ! i) \<le> n \<and>
    (Suc i < length (chunks_of n xs) \<longrightarrow> length (chunks_of n xs ! i) = n)"
proof (induction n xs arbitrary: i rule: chunks_of.induct)
  case (1 n xs)
  show ?case
  proof (cases "xs = []")
    case False
    with "1.prems" have c: "chunks_of n xs = take n xs # chunks_of n (drop n xs)" by simp
    show ?thesis
    proof (cases i)
      case 0
      have "chunks_of n (drop n xs) \<noteq> [] \<Longrightarrow> n < length xs" by (cases "drop n xs = []") auto
      with 0 False "1.prems"(1) show ?thesis by (auto simp: c)
    next
      case (Suc j)
      with "1.IH" [of j] "1.prems" False show ?thesis by (simp add: c)
    qed
  qed (use "1.prems" in simp)
qed

lemma chunks_of_full:
  assumes "0 < n" and "length xs = n" shows "chunks_of n (xs @ ys) = xs # chunks_of n ys"
  using assms by (cases "xs @ ys = []") auto

text \<open>A directory with the given chunks under their names, from number \<open>i\<close> on.\<close>

fun named_from :: "nat \<Rightarrow> (bytes \<rightharpoonup> bytes) \<Rightarrow> bytes list \<Rightarrow> (bytes \<rightharpoonup> bytes)" where
  "named_from i d [] = d"
| "named_from i d (x # xs) = named_from (Suc i) (d(chunkName i \<mapsto> x)) xs"

lemma named_from_snoc [simp]: "named_from i d (xs @ [x]) = (named_from i d xs)(chunkName (i + length xs) \<mapsto> x)"
  by (induction xs arbitrary: i d) simp_all

lemma chunkName_inject [simp]: "chunkName i = chunkName j \<longleftrightarrow> i = j"
proof
  assume "chunkName i = chunkName j"
  then have "digits_value (fmt_05d i) = digits_value (fmt_05d j)" by (simp add: chunkName_def)
  then show "i = j" by (simp add: fmt_05d_def)
qed simp

lemma named_from_nth: "j < length xs \<Longrightarrow> named_from i d xs (chunkName (i + j)) = Some (xs ! j)"
proof (induction xs arbitrary: j rule: rev_induct)
  case (snoc x xs)
  then show ?case by (cases "j < length xs") (auto simp: nth_append less_Suc_eq)
qed simp

lemma named_from_other: "(\<And>j. j < length xs \<Longrightarrow> f \<noteq> chunkName (i + j)) \<Longrightarrow> named_from i d xs f = d f"
  by (induction xs rule: rev_induct) auto

section \<open>Correctness\<close>

definition io_works :: "'e chunk_io \<Rightarrow> bool" where
  "io_works io \<longleftrightarrow> (\<forall>f. io_create io f = None) \<and> (\<forall>f n. io_write io f n = None) \<and> (\<forall>f. io_close io f = None)"

text \<open>The writer after the full chunks \<open>cs\<close> and the piece \<open>o\<close> of an open one.\<close>

definition cw_state :: "(bytes \<rightharpoonup> bytes) \<Rightarrow> nat \<Rightarrow> bytes list \<Rightarrow> bytes \<Rightarrow> chunkWriter \<Rightarrow> bool" where
  "cw_state d n cs rest c \<longleftrightarrow>
     cw_chunkSize c = n \<and> (\<forall>x \<in> set cs. length x = n) \<and> length rest < n \<and> cw_chunkIdx c = length cs \<and>
     cw_chunkHashes c = map sha256 cs \<and> cw_totalWritten c = of_nat (length (concat cs @ rest)) \<and>
     (if rest = [] then cw_cur c = None \<and> cw_dir c = named_from 0 d cs
      else cw_cur c = Some (chunkName (length cs)) \<and> cw_hasher c = rest \<and> cw_curWritten c = length rest \<and>
        cw_dir c = named_from 0 d (cs @ [rest]))"

lemma cw_state_new: "0 < n \<Longrightarrow> cw_state d n [] [] (newChunkWriter d n)"
  by (simp add: cw_state_def newChunkWriter_def)

lemma chunks_of_parts:
  assumes "0 < n" and "\<forall>x \<in> set cs. length x = n" and "length rest < n"
  shows "chunks_of n (concat cs @ rest) = cs @ (if rest = [] then [] else [rest])"
  using assms(2)
proof (induction cs)
  case Nil
  then show ?case using assms(1,3) by simp
next
  case (Cons x cs)
  then show ?case using chunks_of_full [OF assms(1), of x] by simp
qed

lemma cw_open:
  assumes "io_works io" and "cw_state d n cs rest c"
  obtains c' where "(if cw_cur c = None then openNext io c else Inr c) = Inr c'"
    "cw_cur c' = Some (chunkName (length cs))" "cw_hasher c' = rest" "cw_curWritten c' = length rest"
    "cw_dir c' = (named_from 0 d cs)(chunkName (length cs) \<mapsto> rest)" "cw_chunkSize c' = n" "cw_chunkIdx c' = length cs"
    "cw_chunkHashes c' = map sha256 cs" "cw_totalWritten c' = of_nat (length (concat cs @ rest))"
proof (cases "rest = []")
  case True
  let ?c = "c\<lparr>cw_dir := (cw_dir c)(chunkName (length cs) \<mapsto> []), cw_cur := Some (chunkName (length cs)),
      cw_curWritten := 0, cw_hasher := []\<rparr>"
  from True assms have "openNext io c = Inr ?c"
    by (simp add: openNext_def io_works_def cw_state_def Let_def)
  with True assms(2) show ?thesis by (intro that [of ?c]) (simp_all add: cw_state_def)
next
  case False
  with assms(2) show ?thesis by (intro that [of c]) (simp_all add: cw_state_def)
qed

lemma chunkWrite_loop_state:
  assumes io: "io_works io" and "cw_state d n cs rest c"
  shows "\<exists>cs' rest' c'. chunkWrite_loop io c w p = Some (w + length p, None, c') \<and> cw_state d n cs' rest' c' \<and>
    concat cs' @ rest' = concat cs @ rest @ p"
  using assms(2)
proof (induction "length p" arbitrary: p cs rest c w rule: less_induct)
  case less
  show ?case
  proof (cases "p = []")
    case True
    then show ?thesis using less.prems by (intro exI [of _ cs] exI [of _ rest] exI [of _ c]) (simp add: chunkWrite_loop.simps)
  next
    case False
    obtain c1 where c1: "(if cw_cur c = None then openNext io c else Inr c) = Inr c1"
      "cw_cur c1 = Some (chunkName (length cs))" "cw_hasher c1 = rest" "cw_curWritten c1 = length rest"
      "cw_dir c1 = (named_from 0 d cs)(chunkName (length cs) \<mapsto> rest)" "cw_chunkSize c1 = n" "cw_chunkIdx c1 = length cs"
      "cw_chunkHashes c1 = map sha256 cs" "cw_totalWritten c1 = of_nat (length (concat cs @ rest))"
      by (rule cw_open [OF io less.prems])
    define m where "m = min (length p) (n - length rest)"
    define c2 where "c2 = c1\<lparr>cw_dir := (cw_dir c1)(chunkName (length cs) \<mapsto> rest @ take m p), cw_hasher := rest @ take m p,
        cw_curWritten := length rest + m, cw_totalWritten := cw_totalWritten c1 + of_nat m\<rparr>"
    have rest: "length rest < n" and cs: "\<forall>x \<in> set cs. length x = n" using less.prems by (simp_all add: cw_state_def)
    have m: "0 < m" "m \<le> length p" "length (take m p) = m" "length rest + m \<le> n" using False rest by (simp_all add: m_def)
    have smaller: "length (drop m p) < length p" using m False by simp
    have unfold: "chunkWrite_loop io c w p =
        (if n \<le> length rest + m then
           (case closeChunk io c2 of (Some e, c) \<Rightarrow> Some (w + m, Some e, c) | (None, c) \<Rightarrow> chunkWrite_loop io c (w + m) (drop m p))
         else chunkWrite_loop io c2 (w + m) (drop m p))"
      using False io c1 by (subst chunkWrite_loop.simps) (simp add: io_works_def Let_def c2_def m_def [symmetric])
    show ?thesis
    proof (cases "n \<le> length rest + m")
      case True
      let ?x = "rest @ take m p"
      let ?c = "c2\<lparr>cw_cur := None, cw_chunkHashes := map sha256 (cs @ [?x]), cw_chunkIdx := Suc (length cs)\<rparr>"
      have close: "closeChunk io c2 = (None, ?c)"
        using io c1 by (simp add: closeChunk_def io_works_def c2_def)
      have "length ?x = n" using True m by simp
      then have "cw_state d n (cs @ [?x]) [] ?c" using cs rest c1 m
        by (auto simp: cw_state_def c2_def)
      from less.hyps [OF smaller this, of "w + m"] show ?thesis using unfold True close m
        by (auto simp: append_take_drop_id)
    next
      case False
      then have "cw_state d n cs (rest @ take m p) c2" using cs c1 m by (auto simp: cw_state_def c2_def)
      from less.hyps [OF smaller this, of "w + m"] show ?thesis using unfold False m
        by (auto simp: append_take_drop_id)
    qed
  qed
qed

lemma chunkWrites_state:
  assumes io: "io_works io" and "cw_state d n cs rest c"
  shows "\<exists>c'. chunkWrites io c ps = Some (Inr c') \<and> cw_cur c' = None \<and>
    cw_chunkHashes c' = map sha256 (chunks_of n (concat cs @ rest @ concat ps)) \<and>
    cw_chunkIdx c' = length (chunks_of n (concat cs @ rest @ concat ps)) \<and>
    cw_totalWritten c' = of_nat (length (concat cs @ rest @ concat ps)) \<and>
    cw_dir c' = named_from 0 d (chunks_of n (concat cs @ rest @ concat ps))"
  using assms(2)
proof (induction ps arbitrary: cs rest c)
  case Nil
  then have "0 < n" "\<forall>x \<in> set cs. length x = n" "length rest < n" by (auto simp: cw_state_def)
  from chunks_of_parts [OF this] Nil io show ?case
    by (cases "rest = []") (auto simp: closeChunk_def cw_state_def io_works_def)
next
  case (Cons p ps)
  from chunkWrite_loop_state [OF io Cons.prems, of 0 p] obtain cs' rest' c' where
    w: "chunkWrite io c p = Some (length p, None, c')" "cw_state d n cs' rest' c'" "concat cs' @ rest' = concat cs @ rest @ p"
    by (auto simp: chunkWrite_def)
  have "concat cs' @ rest' @ concat ps = concat cs @ rest @ concat (p # ps)"
    using arg_cong [OF w(3), of "\<lambda>x. x @ concat ps"] by simp
  with Cons.IH [OF w(2)] w(1) show ?case by simp
qed

lemma chunkWriter_splits_state: "io_works io \<Longrightarrow> 0 < n \<Longrightarrow> \<exists>c. chunkWrites io (newChunkWriter d n) ps = Some (Inr c)"
  using chunkWrites_state [OF _ cw_state_new] by blast

text \<open>
  C28. The chunk writer cuts a stream at fixed sizes.  However the stream is split into writes, when
  the file operations work the files \<open>chunk_00000.bin\<close>, \<open>chunk_00001.bin\<close>, ... hold consecutive
  pieces that together are the stream; every piece has the chunk size but the last, which is neither
  empty nor larger; one hash per file is recorded, that of its content, and the byte count is the
  length of the stream modulo \<open>2 ^ 64\<close>.
\<close>

theorem chunkWriter_splits:
  assumes "io_works io" and "0 < n"
  shows "\<exists>c. chunkWrites io (newChunkWriter d n) ps = Some (Inr c) \<and>
    (let k = cw_chunkIdx c; piece = (\<lambda>i. the (cw_dir c (chunkName i))) in
       concat (map piece [0..<k]) = concat ps \<and>
       list_all (\<lambda>i. 0 < length (piece i) \<and> length (piece i) \<le> n \<and> (Suc i < k \<longrightarrow> length (piece i) = n)) [0..<k] \<and>
       cw_chunkHashes c = map (\<lambda>i. sha256 (piece i)) [0..<k]) \<and>
    cw_totalWritten c = of_nat (length (concat ps))"
proof -
  let ?cs = "chunks_of n (concat ps)"
  obtain c where c: "chunkWrites io (newChunkWriter d n) ps = Some (Inr c)" "cw_chunkHashes c = map sha256 ?cs"
    "cw_chunkIdx c = length ?cs" "cw_totalWritten c = of_nat (length (concat ps))" "cw_dir c = named_from 0 d ?cs"
    using chunkWrites_state [OF assms(1) cw_state_new [OF assms(2)], of d ps] by auto
  have piece: "the (cw_dir c (chunkName i)) = ?cs ! i" if "i < length ?cs" for i
    using named_from_nth [OF that, of 0 d] c(5) by simp
  have "map (\<lambda>i. the (cw_dir c (chunkName i))) [0..<length ?cs] = map (\<lambda>i. ?cs ! i) [0..<length ?cs]"
    by (rule map_cong) (simp_all add: piece)
  then have m: "map (\<lambda>i. the (cw_dir c (chunkName i))) [0..<length ?cs] = ?cs" by (simp add: map_nth)
  have h: "map (\<lambda>i. sha256 (the (cw_dir c (chunkName i)))) [0..<length ?cs] = map sha256 ?cs"
    using arg_cong [OF m, of "map sha256"] by (simp add: o_def)
  have sizes: "list_all (\<lambda>i. 0 < length (the (cw_dir c (chunkName i))) \<and> length (the (cw_dir c (chunkName i))) \<le> n \<and>
      (Suc i < length ?cs \<longrightarrow> length (the (cw_dir c (chunkName i))) = n)) [0..<length ?cs]"
    using length_chunks [OF assms(2), of _ "concat ps"] piece by (simp add: list_all_iff)
  show ?thesis using c(1-4) sizes m h concat_chunks_of [OF assms(2), of "concat ps"]
    by (intro exI [of _ c]) (simp add: Let_def)
qed

theorem chunkWriter_splits_witness:
  "\<exists>c. chunkWrites \<lparr>io_create = \<lambda>_. None, io_write = \<lambda>_ _. None, io_close = \<lambda>_. (None :: unit option)\<rparr>
      (newChunkWriter Map.empty 2) [[1], [2, 3, 4], [5]] = Some (Inr c) \<and>
    concat (map (\<lambda>i. the (cw_dir c (chunkName i))) [0..<cw_chunkIdx c]) = [1, 2, 3, 4, 5]"
  using chunkWriter_splits [of "\<lparr>io_create = \<lambda>_. None, io_write = \<lambda>_ _. None, io_close = \<lambda>_. (None :: unit option)\<rparr>" 2
      Map.empty "[[1], [2, 3, 4], [5]]"]
  by (auto simp: io_works_def Let_def)

end
