(* ===== verification/DiffStateSync.thy ===== *)
theory DiffStateSync
  imports ChunkWriter
begin

text \<open>
  State-sync diffs (\<open>statesync_diff.go\<close>, \<open>statesync_apply.go\<close>): a target snapshot as references to
  items of a base snapshot and literal items.  The snapshots are their decompressed streams.
  The compressor and the pebble index are arguments: \<open>zw\<close> gives the writes the compressor makes for
  a stream, \<open>inflate\<close> undoes it, \<open>P\<close> holds the index operations.
\<close>

section \<open>Parameters\<close>

text \<open>\<open>ix_Get\<close> answers \<^term>\<open>None\<close> for \<open>pebble.ErrNotFound\<close>; \<open>ix_Len\<close> is the batch's size in bytes.\<close>

record ('db, 'b, 'e) index_ops =
  ix_NewBatch :: "'db \<Rightarrow> 'b"
  ix_Set :: "'b \<Rightarrow> bytes \<Rightarrow> bytes \<Rightarrow> 'e + 'b"
  ix_Len :: "'b \<Rightarrow> nat"
  ix_Apply :: "'db \<Rightarrow> 'b \<Rightarrow> 'e + 'db"
  ix_Get :: "'db \<Rightarrow> bytes \<Rightarrow> 'e + bytes option"

datatype ('e, 'z) sync_error =
    ReadBaseItem read_error
  | ReadTargetItem read_error
  | IndexErr 'e
  | IndexGet 'e
  | SyncHeader header_error
  | BaseHashMismatch bytes bytes
  | OpenZlib 'z
  | ReadRefIndex read_error
  | BaseIndexNotFound u64 "'e option"
  | ReadLiteralLength read_error
  | ReadLiteralBytes read_error
  | UnknownOp byte
  | ChunkErr 'e

section \<open>Items\<close>

text \<open>
  \<open>make([]byte, n)\<close> panics above the size of the address space; below it, memory is taken to be
  available.
\<close>

definition maxAlloc :: u64 where
  "maxAlloc = 2 ^ 48"

text \<open>\<open>snapItemReader.Next\<close>; \<^term>\<open>None\<close> at the end of the stream.\<close>

function NextItem :: "bytes \<Rightarrow> (read_error, bytes option \<times> bytes) outcome" where
  "NextItem r =
     (case ReadUvarint r of
        Inl EOF \<Rightarrow> Ok (None, r)
      | Inl e \<Rightarrow> Fail e
      | Inr (n, r') \<Rightarrow>
          if n = 0 then NextItem r'
          else if maxAlloc < n then Panic
          else case ReadFull (unat n) r' of
              Inl e \<Rightarrow> Fail e
            | Inr (buf, r'') \<Rightarrow> Ok (Some buf, r''))"
  by pat_completeness auto
termination
  by (relation "measure length") (auto dest: ReadUvarint_consumes)

declare NextItem.simps [simp del]

lemma NextItem_shrinks: "NextItem r = Ok (Some it, r') \<Longrightarrow> length r' < length r"
proof (induction r rule: NextItem.induct)
  case (1 r)
  then obtain n s where rd: "ReadUvarint r = Inr (n, s)"
    by (subst (asm) NextItem.simps) (auto split: sum.splits read_error.splits)
  with ReadUvarint_consumes [OF rd] "1.IH" [OF rd refl] "1.prems" show ?case
    by (cases "n = 0") (auto simp: NextItem.simps [of r] ReadFull_def split: if_splits)
qed

section \<open>Computing a diff\<close>

text \<open>Setting one entry, and flushing the batch when it has grown past \<open>flushEvery\<close>.\<close>

definition putIndexed :: "('db, 'b, 'e) index_ops \<Rightarrow> nat \<Rightarrow> 'db \<times> 'b \<Rightarrow> bytes \<Rightarrow> bytes \<Rightarrow> 'e + 'db \<times> 'b" where
  "putIndexed P flushEvery s k v =
     (case ix_Set P (snd s) k v of
        Inl e \<Rightarrow> Inl e
      | Inr b \<Rightarrow>
          if flushEvery < ix_Len P b
          then (case ix_Apply P (fst s) b of Inl e \<Rightarrow> Inl e | Inr db \<Rightarrow> Inr (db, ix_NewBatch P db))
          else Inr (fst s, b))"

function buildIndex :: "('db, 'b, 'e) index_ops \<Rightarrow> nat \<Rightarrow> (u64 \<Rightarrow> bytes \<Rightarrow> bytes \<times> bytes) \<Rightarrow> 'db \<times> 'b \<Rightarrow> u64 \<Rightarrow> bytes \<Rightarrow>
    (('e, 'z) sync_error, 'db \<times> u64) outcome" where
  "buildIndex P flushEvery ent s idx r =
     (case NextItem r of
        Fail e \<Rightarrow> Fail (ReadBaseItem e)
      | Panic \<Rightarrow> Panic
      | Ok (None, _) \<Rightarrow>
          if 0 < ix_Len P (snd s)
          then (case ix_Apply P (fst s) (snd s) of Inl e \<Rightarrow> Fail (IndexErr e) | Inr db \<Rightarrow> Ok (db, idx))
          else Ok (fst s, idx)
      | Ok (Some item, r') \<Rightarrow>
          (case putIndexed P flushEvery s (fst (ent idx item)) (snd (ent idx item)) of
             Inl e \<Rightarrow> Fail (IndexErr e)
           | Inr s' \<Rightarrow> buildIndex P flushEvery ent s' (idx + 1) r'))"
  by pat_completeness auto
termination
  by (relation "measure (\<lambda>(_, _, _, _, _, r). length r)") (auto dest: NextItem_shrinks)

declare buildIndex.simps [simp del]

text \<open>The index of \<open>ComputeStateSync\<close> maps hashes to positions, that of \<open>ApplyStateSync\<close> positions to items.\<close>

definition hashEntry :: "u64 \<Rightarrow> bytes \<Rightarrow> bytes \<times> bytes" where
  "hashEntry idx item = (sha256 item, le64 idx)"

definition itemEntry :: "u64 \<Rightarrow> bytes \<Rightarrow> bytes \<times> bytes" where
  "itemEntry idx item = (be64 idx, item)"

record StateSyncStats =
  sy_BaseItems :: u64
  sy_TargetItems :: u64
  sy_Refs :: u64
  sy_Literals :: u64
  sy_LiteralBytes :: u64

function emitOps :: "('db, 'b, 'e) index_ops \<Rightarrow> 'db \<Rightarrow> bytes \<Rightarrow> StateSyncStats \<Rightarrow> bytes \<Rightarrow>
    (('e, 'z) sync_error, bytes \<times> StateSyncStats) outcome" where
  "emitOps P db body st r =
     (case NextItem r of
        Fail e \<Rightarrow> Fail (ReadTargetItem e)
      | Panic \<Rightarrow> Panic
      | Ok (None, _) \<Rightarrow> Ok (body, st)
      | Ok (Some item, r') \<Rightarrow>
          let st = st\<lparr>sy_TargetItems := sy_TargetItems st + 1\<rparr> in
          case ix_Get P db (sha256 item) of
            Inl e \<Rightarrow> Fail (IndexGet e)
          | Inr (Some val) \<Rightarrow>
              emitOps P db (body @ [OpRef] @ PutUvarint (le_uint val)) (st\<lparr>sy_Refs := sy_Refs st + 1\<rparr>) r'
          | Inr None \<Rightarrow>
              emitOps P db (body @ [OpLiteral] @ PutUvarint (of_nat (length item)) @ item)
                (st\<lparr>sy_Literals := sy_Literals st + 1, sy_LiteralBytes := sy_LiteralBytes st + of_nat (length item)\<rparr>) r')"
  by pat_completeness auto
termination
  by (relation "measure (\<lambda>(_, _, _, _, r). length r)") (auto dest: NextItem_shrinks)

declare emitOps.simps [simp del]

text \<open>Writing the header again over the start of the file.\<close>

definition rewriteStateSyncHeader :: "bytes \<Rightarrow> StateSyncHeader \<Rightarrow> bytes" where
  "rewriteStateSyncHeader f h = WriteStateSyncHeader h @ drop (length (WriteStateSyncHeader h)) f"

definition ComputeStateSync :: "('db, 'b, 'e) index_ops \<Rightarrow> (bytes \<Rightarrow> bytes list) \<Rightarrow> 'db \<Rightarrow> bytes \<Rightarrow> bytes \<Rightarrow>
    bytes \<Rightarrow> bytes \<Rightarrow> u64 \<Rightarrow> u64 \<Rightarrow> (('e, 'z) sync_error, bytes \<times> StateSyncStats) outcome" where
  "ComputeStateSync P zw db base target baseHashHex targetHashHex baseHeight targetHeight =
     bind_outcome (buildIndex P (4 * 2 ^ 20) hashEntry (db, ix_NewBatch P db) 0 base) (\<lambda>(db, n).
     let hdr = \<lparr>ss_BaseHeight = baseHeight, ss_TargetHeight = targetHeight, ss_BaseHashHex = baseHashHex,
                ss_TargetHashHex = targetHashHex, ss_TargetItemCount = 0\<rparr>;
         st = \<lparr>sy_BaseItems = n, sy_TargetItems = 0, sy_Refs = 0, sy_Literals = 0, sy_LiteralBytes = 0\<rparr>
     in bind_outcome (emitOps P db [] st target) (\<lambda>(body, st).
        let f = WriteStateSyncHeader hdr @ concat (zw body)
        in Ok (rewriteStateSyncHeader f (hdr\<lparr>ss_TargetItemCount := sy_TargetItems st\<rparr>), st)))"

section \<open>Applying a diff\<close>

text \<open>\<open>ReadByte\<close> and the two operands; the items go to \<open>emit\<close>, length first.\<close>

definition emitItem :: "bytes \<Rightarrow> bytes \<Rightarrow> bytes" where
  "emitItem out item = out @ PutUvarint (of_nat (length item)) @ item"

function applyOps :: "('db, 'b, 'e) index_ops \<Rightarrow> 'db \<Rightarrow> bytes \<Rightarrow> StateSyncStats \<Rightarrow> bytes \<Rightarrow>
    (('e, 'z) sync_error, bytes \<times> StateSyncStats) outcome" where
  "applyOps P db out st body =
     (case body of
        [] \<Rightarrow> Ok (out, st)
      | op # r \<Rightarrow>
          if op = OpRef then
            (case ReadUvarint r of
               Inl e \<Rightarrow> Fail (ReadRefIndex e)
             | Inr (i, r') \<Rightarrow>
                 (case ix_Get P db (be64 i) of
                    Inl e \<Rightarrow> Fail (BaseIndexNotFound i (Some e))
                  | Inr None \<Rightarrow> Fail (BaseIndexNotFound i None)
                  | Inr (Some val) \<Rightarrow>
                      applyOps P db (emitItem out val)
                        (st\<lparr>sy_Refs := sy_Refs st + 1, sy_TargetItems := sy_TargetItems st + 1\<rparr>) r'))
          else if op = OpLiteral then
            (case ReadUvarint r of
               Inl e \<Rightarrow> Fail (ReadLiteralLength e)
             | Inr (n, r') \<Rightarrow>
                 if maxAlloc < n then Panic
                 else case ReadFull (unat n) r' of
                     Inl e \<Rightarrow> Fail (ReadLiteralBytes e)
                   | Inr (item, r'') \<Rightarrow>
                       applyOps P db (emitItem out item)
                         (st\<lparr>sy_Literals := sy_Literals st + 1, sy_TargetItems := sy_TargetItems st + 1\<rparr>) r'')
          else Fail (UnknownOp op))"
  by pat_completeness auto
termination
  by (relation "measure (\<lambda>(_, _, _, _, body). length body)")
    (auto dest!: ReadUvarint_consumes simp: ReadFull_def split: if_splits)

declare applyOps.simps [simp del]

record outMeta =
  om_Height :: u64
  om_Format :: u32
  om_Chunks :: nat
  om_HashHex :: bytes
  om_BytesTotal :: u64
  om_ChunkHashesHex :: "bytes list"
  om_MetadataLen :: nat

record sync_result =
  sr_chunks :: chunkWriter
  sr_metadata :: bytes
  sr_meta :: outMeta
  sr_out :: bytes
  sr_stats :: StateSyncStats

text \<open>\<open>metaHash\<close> is the hash in the base's \<open>meta.json\<close>, if that file can be read.\<close>

definition ApplyStateSync :: "('db, 'b, 'e) index_ops \<Rightarrow> (bytes \<Rightarrow> bytes list) \<Rightarrow> (bytes \<Rightarrow> 'z + bytes) \<Rightarrow> 'e chunk_io \<Rightarrow>
    'db \<Rightarrow> bytes option \<Rightarrow> bytes \<Rightarrow> bytes \<Rightarrow> (bytes \<rightharpoonup> bytes) \<Rightarrow> (('e, 'z) sync_error, sync_result) outcome option" where
  "ApplyStateSync P zw inflate io db metaHash base diff outDir =
     (case ReadStateSyncHeader diff of
        Inl e \<Rightarrow> Some (Fail (SyncHeader e))
      | Inr (hdr, rest) \<Rightarrow>
          if metaHash \<noteq> None \<and> the metaHash \<noteq> ss_BaseHashHex hdr
          then Some (Fail (BaseHashMismatch (the metaHash) (ss_BaseHashHex hdr)))
          else case buildIndex P (16 * 2 ^ 20) itemEntry (db, ix_NewBatch P db) 0 base of
              Fail e \<Rightarrow> Some (Fail e)
            | Panic \<Rightarrow> Some Panic
            | Ok (db, n) \<Rightarrow>
                (case inflate rest of
                   Inl z \<Rightarrow> Some (Fail (OpenZlib z))
                 | Inr body \<Rightarrow>
                     (case applyOps P db [] \<lparr>sy_BaseItems = n, sy_TargetItems = 0, sy_Refs = 0, sy_Literals = 0,
                                             sy_LiteralBytes = 0\<rparr> body of
                        Fail e \<Rightarrow> Some (Fail e)
                      | Panic \<Rightarrow> Some Panic
                      | Ok (out, st) \<Rightarrow>
                          (case chunkWrites io (newChunkWriter outDir CosmosSDKChunkSize) (zw out) of
                             None \<Rightarrow> None
                           | Some (Inl e) \<Rightarrow> Some (Fail (ChunkErr e))
                           | Some (Inr cw) \<Rightarrow>
                               let mb = encodeMetadataProto (cw_chunkHashes cw) in
                               Some (Ok \<lparr>sr_chunks = cw, sr_metadata = mb,
                                 sr_meta = \<lparr>om_Height = ss_TargetHeight hdr, om_Format = 3, om_Chunks = cw_chunkIdx cw,
                                   om_HashHex = computeSnapshotHash (cw_chunkHashes cw), om_BytesTotal = cw_totalWritten cw,
                                   om_ChunkHashesHex = hexHashes (cw_chunkHashes cw), om_MetadataLen = length mb\<rparr>,
                                 sr_out = out, sr_stats = st\<rparr>)))))"

section \<open>Streams of items\<close>

text \<open>The items a reader finds in a stream, which may have empty records between them.\<close>

inductive item_stream :: "bytes \<Rightarrow> bytes list \<Rightarrow> bool" where
  finished: "NextItem r = Ok (None, r') \<Longrightarrow> item_stream r []"
| more: "NextItem r = Ok (Some it, r') \<Longrightarrow> item_stream r' its \<Longrightarrow> item_stream r (it # its)"

definition items_wire :: "bytes list \<Rightarrow> bytes" where
  "items_wire its = concat (map (\<lambda>it. PutUvarint (of_nat (length it)) @ it) its)"

definition item_fits :: "bytes \<Rightarrow> bool" where
  "item_fits it \<longleftrightarrow> it \<noteq> [] \<and> length it \<le> 2 ^ 48"

lemma unat_maxAlloc: "unat maxAlloc = 2 ^ 48"
  by (simp add: maxAlloc_def)

lemma NextItem_fits: "NextItem r = Ok (Some it, r') \<Longrightarrow> item_fits it"
proof (induction r rule: NextItem.induct)
  case (1 r)
  then obtain n s where rd: "ReadUvarint r = Inr (n, s)"
    by (subst (asm) NextItem.simps) (auto split: sum.splits read_error.splits)
  show ?case
  proof (cases "n = 0")
    case True
    with "1.IH" [OF rd refl True] "1.prems" rd show ?thesis by (simp add: NextItem.simps [of r])
  next
    case False
    then have "0 < unat n" using unat_gt_0 by blast
    with False "1.prems" rd show ?thesis
      by (auto simp: NextItem.simps [of r] ReadFull_def item_fits_def word_less_nat_alt unat_maxAlloc split: if_splits)
  qed
qed

lemma item_stream_fits: "item_stream r its \<Longrightarrow> it \<in> set its \<Longrightarrow> item_fits it"
  by (induction rule: item_stream.induct) (auto dest: NextItem_fits)

lemma item_length:
  assumes "item_fits it"
  shows "unat (of_nat (length it) :: u64) = length it" "(of_nat (length it) :: u64) \<noteq> 0" "\<not> maxAlloc < of_nat (length it)"
proof -
  show n: "unat (of_nat (length it) :: u64) = length it"
    using assms by (intro unat_u64_of_nat) (simp add: item_fits_def)
  then show "(of_nat (length it) :: u64) \<noteq> 0" using assms by (auto simp: item_fits_def)
  show "\<not> maxAlloc < of_nat (length it)" using n assms by (simp add: word_less_nat_alt unat_maxAlloc item_fits_def)
qed

lemma NextItem_wire: "item_fits it \<Longrightarrow> NextItem (PutUvarint (of_nat (length it)) @ it @ r) = Ok (Some it, r)"
  using item_length [of it] by (subst NextItem.simps) (simp add: ReadFull_def)

lemma item_stream_wire: "list_all item_fits its \<Longrightarrow> item_stream (items_wire its) its"
proof (induction its)
  case Nil
  show ?case by (rule item_stream.finished) (simp add: items_wire_def NextItem.simps ReadUvarint_def ReadUvarint_loop.simps)
next
  case (Cons it its)
  then show ?case using NextItem_wire [of it "items_wire its"]
    by (intro item_stream.more [where r' = "items_wire its"]) (simp_all add: items_wire_def)
qed

section \<open>What pebble promises\<close>

fun index_map :: "(u64 \<Rightarrow> bytes \<Rightarrow> bytes \<times> bytes) \<Rightarrow> (bytes \<rightharpoonup> bytes) \<Rightarrow> nat \<Rightarrow> bytes list \<Rightarrow> (bytes \<rightharpoonup> bytes)" where
  "index_map ent m i [] = m"
| "index_map ent m i (it # its) = index_map ent (m(fst (ent (of_nat i) it) \<mapsto> snd (ent (of_nat i) it))) (Suc i) its"

lemma entry_simps [simp]:
  "fst (hashEntry i it) = sha256 it" "snd (hashEntry i it) = le64 i" "fst (itemEntry i it) = be64 i" "snd (itemEntry i it) = it"
  by (simp_all add: hashEntry_def itemEntry_def)

lemma index_map_snoc:
  "index_map ent m i (its @ [it]) =
     (let e = ent (of_nat (i + length its)) it in (index_map ent m i its)(fst e \<mapsto> snd e))"
  by (induction its arbitrary: m i) (simp_all add: Let_def ac_simps)

lemma index_map_hash:
  assumes "index_map hashEntry m i its h = Some v"
  shows "m h = Some v \<or> (\<exists>j < length its. v = le64 (of_nat (i + j)) \<and> sha256 (its ! j) = h)"
  using assms
proof (induction its arbitrary: m i)
  case (Cons it its)
  have "index_map hashEntry (m(sha256 it \<mapsto> le64 (of_nat i))) (Suc i) its h = Some v" using Cons.prems by simp
  from Cons.IH [OF this] consider "(m(sha256 it \<mapsto> le64 (of_nat i))) h = Some v" | j where "j < length its" "v = le64 (of_nat (Suc i + j))" "sha256 (its ! j) = h"
    by blast
  then show ?case
  proof cases
    case 1
    then show ?thesis by (cases "sha256 it = h") (auto intro: exI [of _ 0])
  next
    case 2
    then show ?thesis by (intro disjI2 exI [of _ "Suc j"]) simp
  qed
qed simp

lemma index_map_item:
  "j < length its \<Longrightarrow> i + length its \<le> 2 ^ 64 \<Longrightarrow> index_map itemEntry m i its (be64 (of_nat (i + j))) = Some (its ! j)"
proof (induction its arbitrary: m i j)
  case (Cons it its)
  have keep: "index_map itemEntry m' (Suc i) its' (be64 (of_nat i)) = m' (be64 (of_nat i))" if "i + length its' < 2 ^ 64" for its' m'
    using that
  proof (induction its' arbitrary: m' rule: rev_induct)
    case Nil
    show ?case by simp
  next
    case (snoc x xs)
    have "(of_nat (Suc i + length xs) :: u64) \<noteq> of_nat i"
    proof
      assume "(of_nat (Suc i + length xs) :: u64) = of_nat i"
      from arg_cong [OF this, of unat] have "unat (of_nat (Suc i + length xs) :: u64) = unat (of_nat i :: u64)" .
      then show False using snoc.prems by (simp add: unat_u64_of_nat del: of_nat_add of_nat_Suc)
    qed
    then show ?case using snoc by (simp add: index_map_snoc Let_def del: of_nat_add of_nat_Suc)
  qed
  show ?case
  proof (cases j)
    case 0
    then show ?thesis using keep [of its] Cons.prems by simp
  next
    case (Suc l)
    then show ?thesis using Cons.IH [of l "Suc i"] Cons.prems by simp
  qed
qed simp

locale pebble_index =
  fixes P :: "('db, 'b, 'e) index_ops"
    and db_content :: "'db \<Rightarrow> bytes \<rightharpoonup> bytes"
    and batch_of :: "'b \<Rightarrow> (bytes \<times> bytes) list"
  assumes NewBatch_law: "batch_of (ix_NewBatch P db) = []"
    and Set_law: "\<exists>b'. ix_Set P b k v = Inr b' \<and> batch_of b' = (k, v) # batch_of b"
    and Len_law: "ix_Len P b = 0 \<Longrightarrow> batch_of b = []"
    and Apply_law: "\<exists>db'. ix_Apply P db b = Inr db' \<and> db_content db' = db_content db ++ map_of (batch_of b)"
    and Get_law: "ix_Get P db k = Inr (db_content db k)"
begin

abbreviation seen :: "'db \<times> 'b \<Rightarrow> bytes \<rightharpoonup> bytes" where
  "seen s \<equiv> db_content (fst s) ++ map_of (batch_of (snd s))"

lemma putIndexed_seen: "\<exists>s'. putIndexed P n s k v = Inr s' \<and> seen s' = (seen s)(k \<mapsto> v)"
proof -
  obtain b where b: "ix_Set P (snd s) k v = Inr b" "batch_of b = (k, v) # batch_of (snd s)" using Set_law by blast
  obtain db where db: "ix_Apply P (fst s) b = Inr db" "db_content db = db_content (fst s) ++ map_of (batch_of b)"
    using Apply_law by blast
  show ?thesis using b db NewBatch_law by (cases "n < ix_Len P b") (simp_all add: putIndexed_def)
qed

lemma buildIndex_content:
  "item_stream r its \<Longrightarrow>
   \<exists>db. (buildIndex P n ent s (of_nat i) r :: (('e, 'z) sync_error, _) outcome) = Ok (db, of_nat (i + length its)) \<and> db_content db = index_map ent (seen s) i its"
proof (induction arbitrary: s i rule: item_stream.induct)
  case (finished r r')
  obtain db where db: "ix_Apply P (fst s) (snd s) = Inr db" "db_content db = seen s" using Apply_law by blast
  then show ?case using finished Len_law [of "snd s"] by (cases "0 < ix_Len P (snd s)") (simp_all add: buildIndex.simps)
next
  case (more r it r' its)
  let ?e = "ent (of_nat i) it"
  obtain s' where s': "putIndexed P n s (fst ?e) (snd ?e) = Inr s'" "seen s' = (seen s)(fst ?e \<mapsto> snd ?e)"
    using putIndexed_seen by blast
  from more.IH [of s' "Suc i"] obtain db where
    "(buildIndex P n ent s' (of_nat (Suc i)) r' :: (('e, 'z) sync_error, _) outcome) = Ok (db, of_nat (Suc i + length its))" "db_content db = index_map ent (seen s') (Suc i) its"
    by blast
  then show ?case using more.hyps s' by (simp add: buildIndex.simps [of P n ent s] ac_simps)
qed

definition op_of :: "'db \<Rightarrow> bytes \<Rightarrow> bytes" where
  "op_of db it = (case db_content db (sha256 it) of
       Some v \<Rightarrow> OpRef # PutUvarint (le_uint v)
     | None \<Rightarrow> OpLiteral # PutUvarint (of_nat (length it)) @ it)"

lemma emitOps_ops:
  "item_stream r its \<Longrightarrow>
   \<exists>st'. (emitOps P db body st r :: (('e, 'z) sync_error, _) outcome) = Ok (body @ concat (map (op_of db) its), st') \<and>
     sy_TargetItems st' = sy_TargetItems st + of_nat (length its)"
proof (induction arbitrary: body st rule: item_stream.induct)
  case (finished r r')
  then show ?case by (simp add: emitOps.simps)
next
  case (more r it r' its)
  show ?case
  proof (cases "db_content db (sha256 it)")
    case None
    show ?thesis using more.IH [of "body @ op_of db it" "st\<lparr>sy_TargetItems := sy_TargetItems st + 1,
        sy_Literals := sy_Literals st + 1, sy_LiteralBytes := sy_LiteralBytes st + of_nat (length it)\<rparr>"] more.hyps None
      by (simp add: emitOps.simps [of P db body st r] Get_law op_of_def ac_simps)
  next
    case (Some v)
    show ?thesis using more.IH [of "body @ op_of db it" "st\<lparr>sy_TargetItems := sy_TargetItems st + 1, sy_Refs := sy_Refs st + 1\<rparr>"]
        more.hyps Some
      by (simp add: emitOps.simps [of P db body st r] Get_law op_of_def ac_simps)
  qed
qed

lemma applyOps_ops:
  assumes "\<And>it v. it \<in> set its \<Longrightarrow> db_content db (sha256 it) = Some v \<Longrightarrow> db_content db' (be64 (le_uint v)) = Some it"
    and "\<And>it. it \<in> set its \<Longrightarrow> item_fits it"
  shows "\<exists>st'. (applyOps P db' out st (concat (map (op_of db) its)) :: (('e, 'z) sync_error, _) outcome) = Ok (out @ items_wire its, st') \<and>
    sy_TargetItems st' = sy_TargetItems st + of_nat (length its)"
  using assms
proof (induction its arbitrary: out st)
  case Nil
  show ?case by (simp add: applyOps.simps items_wire_def)
next
  case (Cons it its)
  have fit: "item_fits it" using Cons.prems(2) by simp
  note len = item_length [OF fit]
  have IH: "\<exists>st'. (applyOps P db' out st (concat (map (op_of db) its)) :: (('e, 'z) sync_error, _) outcome) = Ok (out @ items_wire its, st') \<and>
      sy_TargetItems st' = sy_TargetItems st + of_nat (length its)" for out st
    using Cons.IH Cons.prems by simp
  have wire: "emitItem out it @ items_wire its = out @ items_wire (it # its)" by (simp add: emitItem_def items_wire_def)
  show ?case
  proof (cases "db_content db (sha256 it)")
    case None
    show ?thesis using IH [of "emitItem out it" "st\<lparr>sy_Literals := sy_Literals st + 1, sy_TargetItems := sy_TargetItems st + 1\<rparr>"] None len wire
      by (subst applyOps.simps) (simp add: op_of_def OpRef_def OpLiteral_def ReadFull_def ac_simps)
  next
    case (Some v)
    show ?thesis using IH [of "emitItem out it" "st\<lparr>sy_Refs := sy_Refs st + 1, sy_TargetItems := sy_TargetItems st + 1\<rparr>"] Some wire
        Cons.prems(1) [of it v]
      by (subst applyOps.simps) (simp add: op_of_def OpRef_def Get_law ac_simps)
  qed
qed

lemma compute_apply:
  assumes base: "item_stream base bs" and target: "item_stream target ts" and n: "length bs \<le> 2 ^ 64"
    and fresh: "db_content db1 = Map.empty"
    and coll: "\<And>x y. x \<in> set bs \<Longrightarrow> y \<in> set ts \<Longrightarrow> sha256 x = sha256 y \<Longrightarrow> x = y"
    and zlib: "\<And>x. inflate (concat (zw x)) = Inr x" and io: "io_works io"
    and hdr: "length bh \<le> 2 ^ 20" "length th \<le> 2 ^ 20" and meta: "metaHash = None \<or> metaHash = Some bh"
  shows "\<exists>diff st res c. (ComputeStateSync P zw db1 base target bh th bH tH :: (('e, 'z) sync_error, _) outcome) = Ok (diff, st) \<and>
    (ApplyStateSync P zw inflate io db2 metaHash base diff outDir :: (('e, 'z) sync_error, _) outcome option) = Some (Ok res) \<and>
    chunkWrites io (newChunkWriter outDir CosmosSDKChunkSize) (zw (items_wire ts)) = Some (Inr c) \<and>
    sr_out res = items_wire ts \<and> sr_chunks res = c \<and> om_Height (sr_meta res) = tH \<and> om_Chunks (sr_meta res) = cw_chunkIdx c \<and>
    sr_metadata res = encodeMetadataProto (cw_chunkHashes c)"
proof -
  obtain i1 where i1: "(buildIndex P (4 * 2 ^ 20) hashEntry (db1, ix_NewBatch P db1) 0 base :: (('e, 'z) sync_error, _) outcome) =
      Ok (i1, of_nat (length bs))" "db_content i1 = index_map hashEntry Map.empty 0 bs"
    using buildIndex_content [OF base, of "4 * 2 ^ 20" hashEntry "(db1, ix_NewBatch P db1)" 0] fresh by (auto simp: NewBatch_law)
  obtain i2 where i2: "(buildIndex P (16 * 2 ^ 20) itemEntry (db2, ix_NewBatch P db2) 0 base :: (('e, 'z) sync_error, _) outcome) =
      Ok (i2, of_nat (length bs))" "db_content i2 = index_map itemEntry (db_content db2) 0 bs"
    using buildIndex_content [OF base, of "16 * 2 ^ 20" itemEntry "(db2, ix_NewBatch P db2)" 0] by (auto simp: NewBatch_law)
  let ?st = "\<lparr>sy_BaseItems = of_nat (length bs), sy_TargetItems = 0, sy_Refs = 0, sy_Literals = 0, sy_LiteralBytes = 0\<rparr>"
  let ?body = "concat (map (op_of i1) ts)"
  obtain st where st: "(emitOps P i1 [] ?st target :: (('e, 'z) sync_error, _) outcome) = Ok (?body, st)"
    using emitOps_ops [OF target, of i1 "[]" ?st] by auto
  let ?hdr = "\<lparr>ss_BaseHeight = bH, ss_TargetHeight = tH, ss_BaseHashHex = bh, ss_TargetHashHex = th, ss_TargetItemCount = sy_TargetItems st\<rparr>"
  have len: "length (WriteStateSyncHeader (?hdr\<lparr>ss_TargetItemCount := 0\<rparr>)) = length (WriteStateSyncHeader ?hdr)"
    by (simp add: WriteStateSyncHeader_def)
  have compute: "(ComputeStateSync P zw db1 base target bh th bH tH :: (('e, 'z) sync_error, _) outcome) =
      Ok (WriteStateSyncHeader ?hdr @ concat (zw ?body), st)"
    using i1(1) st len by (simp add: ComputeStateSync_def rewriteStateSyncHeader_def Let_def)
  have ref: "db_content i2 (be64 (le_uint v)) = Some it" if "it \<in> set ts" "db_content i1 (sha256 it) = Some v" for it v
  proof -
    from index_map_hash [of Map.empty 0 bs "sha256 it" v] that(2) i1(2) obtain j where
      j: "j < length bs" "v = le64 (of_nat j)" "sha256 (bs ! j) = sha256 it" by auto
    then have "bs ! j = it" using coll that(1) by simp
    with j index_map_item [of j bs 0 "db_content db2"] n i2(2) show ?thesis by simp
  qed
  obtain st2 where apply_ops: "(applyOps P i2 [] ?st ?body :: (('e, 'z) sync_error, _) outcome) = Ok (items_wire ts, st2)"
    using applyOps_ops [of ts i1 i2 "[]" ?st] ref item_stream_fits [OF target] by auto
  have "0 < CosmosSDKChunkSize" by (simp add: CosmosSDKChunkSize_def)
  from chunkWriter_splits_state [OF io this] obtain c where
    c: "chunkWrites io (newChunkWriter outDir CosmosSDKChunkSize) (zw (items_wire ts)) = Some (Inr c)" by blast
  have header: "ReadStateSyncHeader (WriteStateSyncHeader ?hdr @ r) = Inr (?hdr, r)" for r
    using hdr by (simp add: ReadStateSyncHeader_def WriteStateSyncHeader_def header_simps read_full_one)
  show ?thesis
    by (rule exI [of _ "WriteStateSyncHeader ?hdr @ concat (zw ?body)"], rule exI [of _ st])
      (use compute meta c i2(1) in \<open>auto simp: ApplyStateSync_def header zlib apply_ops Let_def\<close>)
qed

end

section \<open>Properties\<close>

text \<open>An index in memory.\<close>

definition mem_index :: "(bytes \<rightharpoonup> bytes, (bytes \<times> bytes) list, unit) index_ops" where
  "mem_index = \<lparr>ix_NewBatch = \<lambda>_. [], ix_Set = \<lambda>b k v. Inr ((k, v) # b), ix_Len = length,
     ix_Apply = \<lambda>db b. Inr (db ++ map_of b), ix_Get = \<lambda>db k. Inr (db k)\<rparr>"

interpretation mem_ix: pebble_index mem_index id id
  by unfold_locales (auto simp: mem_index_def)



end
