(* ===== verification/DiffRecord.thy ===== *)
theory DiffRecord
  imports DiffStateSync
begin

unbundle bit_operations_syntax

text \<open>
  The record encoders and the field parsers of \<open>internal/snapshotdiff/diff.go\<close> and \<open>apply.go\<close>.  As in
  \<open>snapproto.go\<close>, indices are Go \<open>int\<close>s: a length that is negative as an \<open>int\<close> passes the checks, so
  a parser may panic, or scan for ever, which is the value \<^term>\<open>None\<close>.
\<close>

section \<open>Encoders\<close>

definition tagStoreEnter :: nat where "tagStoreEnter = 1"
definition tagStoreLeave :: nat where "tagStoreLeave = 2"
definition tagInsert :: nat where "tagInsert = 3"
definition tagUpdate :: nat where "tagUpdate = 4"
definition tagDelete :: nat where "tagDelete = 5"
definition tagExtEnter :: nat where "tagExtEnter = 6"
definition tagExtLeave :: nat where "tagExtLeave = 7"
definition tagExtAdd :: nat where "tagExtAdd = 8"
definition tagExtRemove :: nat where "tagExtRemove = 9"

lemmas tag_defs = tagStoreEnter_def tagStoreLeave_def tagInsert_def tagUpdate_def tagDelete_def
  tagExtEnter_def tagExtLeave_def tagExtAdd_def tagExtRemove_def

definition encBytesField :: "nat \<Rightarrow> bytes \<Rightarrow> bytes" where
  "encBytesField field b = (field_tag field OR 2) # PutUvarint (of_nat (length b)) @ b"

definition encStringField :: "nat \<Rightarrow> bytes \<Rightarrow> bytes" where
  "encStringField field s = encBytesField field s"

definition encVarintField :: "nat \<Rightarrow> u64 \<Rightarrow> bytes" where
  "encVarintField field v = field_tag field # PutUvarint v"

definition buildOneOfMessage :: "nat \<Rightarrow> bytes list \<Rightarrow> bytes" where
  "buildOneOfMessage oneofTag innerFields =
     (let innerLen = sum_list (map length innerFields)
      in (field_tag oneofTag OR 2) # PutUvarint (of_nat innerLen) @ concat innerFields)"

text \<open>\<open>emit\<close>: a length and the record, appended to what has been written.\<close>

definition emitRecord :: "bytes \<Rightarrow> bytes \<Rightarrow> bytes" where
  "emitRecord out rec = out @ PutUvarint (of_nat (length rec)) @ rec"

section \<open>Comparing\<close>

fun bytesCompare :: "bytes \<Rightarrow> bytes \<Rightarrow> int" where
  "bytesCompare [] [] = 0"
| "bytesCompare [] (b # bs) = -1"
| "bytesCompare (a # as) [] = 1"
| "bytesCompare (a # as) (b # bs) = (if a < b then -1 else if b < a then 1 else bytesCompare as bs)"

definition bytesEqual :: "bytes \<Rightarrow> bytes \<Rightarrow> bool" where
  "bytesEqual a b = (length a = length b \<and> list_all2 (=) a b)"

lemma bytesEqual_iff [simp]: "bytesEqual a b \<longleftrightarrow> a = b"
  by (auto simp: bytesEqual_def list.rel_eq)

lemma bytesCompare_0 [simp]: "bytesCompare a b = 0 \<longleftrightarrow> a = b"
  by (induction a b rule: bytesCompare.induct) auto

section \<open>Parsers\<close>

text \<open>
  A message whose first field is field 1, length-delimited: the code that \<open>parseStoreName\<close> and
  \<open>parseExtPayload\<close> share.
\<close>

definition leading_field :: "bytes \<Rightarrow> (unit, bytes) outcome" where
  "leading_field buf =
     (if buf = [] \<or> hd buf \<noteq> 0x0a then Ok []
      else let (ln, m) = Uvarint (tl buf) in
        if m \<le> 0 \<or> int (length buf) < wrap64 (1 + m + sint ln) then Ok []
        else let lo = 1 + m; hi = wrap64 (lo + sint ln) in
          if lo \<le> hi then Ok (take (nat (hi - lo)) (drop (nat lo) buf)) else Panic)"

definition parseStoreName :: "bytes \<Rightarrow> (unit, bytes) outcome" where
  "parseStoreName buf = leading_field buf"

definition parseExtPayload :: "bytes \<Rightarrow> (unit, bytes) outcome" where
  "parseExtPayload buf = leading_field buf"

partial_function (option) parseIAVLKeyValue_loop :: "bytes \<Rightarrow> bytes \<times> bytes \<Rightarrow> int \<Rightarrow> (unit, bytes \<times> bytes) outcome option" where
  "parseIAVLKeyValue_loop buf kv i =
     (if \<not> i < int (length buf) then Some (Ok kv)
      else if i < 0 then Some Panic
      else let tag = buf ! nat i; i = i + 1; (ln, m) = Uvarint (drop (nat i) buf) in
        if tag = 0x0a \<or> tag = 0x12 then
          (if m \<le> 0 \<or> int (length buf) < wrap64 (i + m + sint ln) then Some (Ok kv)
           else let i = i + m; hi = wrap64 (i + sint ln); b = take (nat (hi - i)) (drop (nat i) buf) in
             if i \<le> hi then parseIAVLKeyValue_loop buf (if tag = 0x0a then (b, snd kv) else (fst kv, b)) hi
             else Some Panic)
        else if tag AND 7 = 0 then
          (if m \<le> 0 then Some (Ok kv) else parseIAVLKeyValue_loop buf kv (i + m))
        else if tag AND 7 = 2 then
          (if m \<le> 0 \<or> int (length buf) < wrap64 (i + m + sint ln) then Some (Ok kv)
           else parseIAVLKeyValue_loop buf kv (wrap64 (i + wrap64 (m + sint ln))))
        else Some (Ok kv))"

definition parseIAVLKeyValue :: "bytes \<Rightarrow> (unit, bytes \<times> bytes) outcome option" where
  "parseIAVLKeyValue buf = parseIAVLKeyValue_loop buf ([], []) 0"

partial_function (option) isLeafIAVL_loop :: "bytes \<Rightarrow> unit \<Rightarrow> int \<Rightarrow> (unit, bool) outcome option" where
  "isLeafIAVL_loop buf u i =
     (if \<not> i < int (length buf) then Some (Ok True)
      else if i < 0 then Some Panic
      else let tag = buf ! nat i; i = i + 1; (ln, m) = Uvarint (drop (nat i) buf) in
        if tag = 0x20 then Some (Ok (m \<le> 0 \<or> ln = 0))
        else if tag AND 7 = 0 then
          (if m \<le> 0 then Some (Ok True) else isLeafIAVL_loop buf u (i + m))
        else if tag AND 7 = 2 then
          (if m \<le> 0 \<or> int (length buf) < wrap64 (i + m + sint ln) then Some (Ok True)
           else isLeafIAVL_loop buf u (wrap64 (i + wrap64 (m + sint ln))))
        else Some (Ok True))"

definition isLeafIAVL :: "bytes \<Rightarrow> (unit, bool) outcome option" where
  "isLeafIAVL body = isLeafIAVL_loop body () 0"

partial_function (option) parseExtMeta_loop :: "bytes \<Rightarrow> bytes \<times> u32 \<Rightarrow> int \<Rightarrow> (unit, bytes \<times> u32) outcome option" where
  "parseExtMeta_loop buf nf i =
     (if \<not> i < int (length buf) then Some (Ok nf)
      else if i < 0 then Some Panic
      else let tag = buf ! nat i; i = i + 1; (ln, m) = Uvarint (drop (nat i) buf) in
        if tag = 0x0a then
          (if m \<le> 0 \<or> int (length buf) < wrap64 (i + m + sint ln) then Some (Ok nf)
           else let i = i + m; hi = wrap64 (i + sint ln) in
             if i \<le> hi then parseExtMeta_loop buf (take (nat (hi - i)) (drop (nat i) buf), snd nf) hi
             else Some Panic)
        else if tag = 0x10 then
          (if m \<le> 0 then Some (Ok nf) else parseExtMeta_loop buf (fst nf, ucast ln) (i + m))
        else if tag AND 7 = 0 then
          (if m \<le> 0 then Some (Ok nf) else parseExtMeta_loop buf nf (i + m))
        else if tag AND 7 = 2 then
          (if m \<le> 0 \<or> int (length buf) < wrap64 (i + m + sint ln) then Some (Ok nf)
           else parseExtMeta_loop buf nf (wrap64 (i + wrap64 (m + sint ln))))
        else Some (Ok nf))"

definition parseExtMeta :: "bytes \<Rightarrow> (unit, bytes \<times> u32) outcome option" where
  "parseExtMeta buf = parseExtMeta_loop buf ([], 0) 0"

text \<open>
  \<open>parseProtoBytes\<close> and \<open>parseProtoVarint\<close> of \<open>apply.go\<close> are line by line the scans \<open>getBytesField\<close>
  and \<open>getVarintField\<close> of \<open>snapproto.go\<close>.
\<close>

definition parseProtoBytes :: "bytes \<Rightarrow> nat \<Rightarrow> (unit, bytes option) outcome option" where
  "parseProtoBytes buf field = getBytesField_loop buf (field_tag field OR 2) 0"

definition parseProtoVarint :: "bytes \<Rightarrow> nat \<Rightarrow> (unit, u64) outcome option" where
  "parseProtoVarint buf field = getVarintField_loop buf (field_tag field) 0"

section \<open>Scanning an encoded message\<close>

text \<open>
  What every scanner of this package does on a well-formed message: it visits the fields in order,
  and each either changes what it has collected or ends the scan.
\<close>

fun scan_fields :: "('s \<Rightarrow> pfield \<Rightarrow> 's + 'a) \<Rightarrow> ('s \<Rightarrow> 'a) \<Rightarrow> 's \<Rightarrow> pfield list \<Rightarrow> 'a" where
  "scan_fields visit fin s [] = fin s"
| "scan_fields visit fin s (f # fs) = (case visit s f of Inl s' \<Rightarrow> scan_fields visit fin s' fs | Inr x \<Rightarrow> x)"

locale field_scanner =
  fixes loop :: "bytes \<Rightarrow> 's \<Rightarrow> int \<Rightarrow> (unit, 'a) outcome option"
    and visit :: "'s \<Rightarrow> pfield \<Rightarrow> 's + 'a"
    and fin :: "'s \<Rightarrow> 'a"
  assumes at_end: "loop buf s (int (length buf)) = Some (Ok (fin s))"
    and at_field: "buf = pre @ enc_field f @ post \<Longrightarrow> length buf < 2 ^ 62 \<Longrightarrow> field_ok f \<Longrightarrow>
      loop buf s (int (length pre)) =
        (case visit s f of
           Inl s' \<Rightarrow> loop buf s' (int (length (pre @ enc_field f)))
         | Inr x \<Rightarrow> Some (Ok x))"
begin

lemma scans_from:
  "list_all field_ok fs \<Longrightarrow> length (pre @ enc_fields fs) < 2 ^ 62 \<Longrightarrow>
   loop (pre @ enc_fields fs) s (int (length pre)) = Some (Ok (scan_fields visit fin s fs))"
proof (induction fs arbitrary: pre s)
  case Nil
  then show ?case using at_end [of pre s] by (simp add: enc_fields_def)
next
  case (Cons f fs)
  have buf: "pre @ enc_fields (f # fs) = pre @ enc_field f @ enc_fields fs" by (simp add: enc_fields_def)
  have IH: "loop (pre @ enc_field f @ enc_fields fs) s' (int (length (pre @ enc_field f))) = Some (Ok (scan_fields visit fin s' fs))" for s'
    using Cons.IH [of "pre @ enc_field f" s'] Cons.prems buf by simp
  have "length (pre @ enc_field f @ enc_fields fs) < 2 ^ 62" using Cons.prems buf by simp
  from at_field [OF refl this, of s] Cons.prems(1) IH show ?case
    unfolding buf by (cases "visit s f") simp_all
qed

lemma scans: "list_all field_ok fs \<Longrightarrow> length (enc_fields fs) < 2 ^ 62 \<Longrightarrow> loop (enc_fields fs) s 0 = Some (Ok (scan_fields visit fin s fs))"
  using scans_from [of fs "[]" s] by simp

end

lemma varint_field_at:
  assumes "buf = pre @ enc_field (VField m v) @ post"
  shows "buf ! length pre = field_tag m" "Uvarint (drop (Suc (length pre)) buf) = (v, int (length (PutUvarint v)))"
    "length pre < length buf" "0 < length (PutUvarint v)"
    "int (length (pre @ enc_field (VField m v))) = int (length pre) + 1 + int (length (PutUvarint v))"
  using assms length_PutUvarint(1) [of v] by (simp_all add: appendUvarintField_def nth_append)

text \<open>The tags the parsers look for.\<close>

lemma tag_bytes: "(0x0a :: byte) = field_tag 1 OR 2" "(0x12 :: byte) = field_tag 2 OR 2" "(0x20 :: byte) = field_tag 4" "(0x10 :: byte) = field_tag 2"
  by (simp_all add: field_tag_def)

lemma bytes_slice:
  assumes "buf = pre @ enc_field (BField m b) @ post"
  shows "take (length b) (drop (Suc (length pre + length (PutUvarint (of_nat (length b) :: u64)))) buf) = b" "length pre < length buf"
  using assms by (simp_all add: appendBytesField_def)

definition kv_visit :: "bytes \<times> bytes \<Rightarrow> pfield \<Rightarrow> bytes \<times> bytes + bytes \<times> bytes" where
  "kv_visit kv f = (case f of
       BField n b \<Rightarrow> Inl (if n = 1 then (b, snd kv) else if n = 2 then (fst kv, b) else kv)
     | VField n v \<Rightarrow> Inl kv)"

definition leaf_visit :: "unit \<Rightarrow> pfield \<Rightarrow> unit + bool" where
  "leaf_visit u f = (case f of VField n v \<Rightarrow> if n = 4 then Inr (v = 0) else Inl () | BField n b \<Rightarrow> Inl ())"

definition meta_visit :: "bytes \<times> u32 \<Rightarrow> pfield \<Rightarrow> bytes \<times> u32 + bytes \<times> u32" where
  "meta_visit nf f = Inl (case f of
       BField n b \<Rightarrow> if n = 1 then (b, snd nf) else nf
     | VField n v \<Rightarrow> if n = 2 then (fst nf, ucast v) else nf)"

lemma field_at_slice:
  assumes "buf = pre @ enc_field (BField m b) @ post"
  shows "nat (int (length pre) + 1 + int (length (PutUvarint (of_nat (length b) :: u64)))) =
      Suc (length pre + length (PutUvarint (of_nat (length b) :: u64)))"
    and "int (length (pre @ enc_field (BField m b))) =
      int (length pre) + 1 + int (length (PutUvarint (of_nat (length b) :: u64))) + int (length b)"
  by (simp_all add: appendBytesField_def)

interpretation kv_scan: field_scanner parseIAVLKeyValue_loop kv_visit id
proof
  show "parseIAVLKeyValue_loop buf s (int (length buf)) = Some (Ok (id s))" for buf s
    by (simp add: parseIAVLKeyValue_loop.simps)
  fix buf pre post :: bytes and f s
  assume buf: "buf = pre @ enc_field f @ post" "length buf < 2 ^ 62" and ok: "field_ok f"
  show "parseIAVLKeyValue_loop buf s (int (length pre)) =
      (case kv_visit s f of Inl s' \<Rightarrow> parseIAVLKeyValue_loop buf s' (int (length (pre @ enc_field f))) | Inr x \<Rightarrow> Some (Ok x))"
  proof (cases f)
    case (VField m v)
    show ?thesis using varint_field_at [OF buf(1) [unfolded VField]] ok VField
      by (subst parseIAVLKeyValue_loop.simps) (simp add: nat_add_distrib tag_bytes kv_visit_def add.assoc del: enc_field.simps)
  next
    case (BField m b)
    note buf' = buf(1) [unfolded BField]
    show ?thesis using bytes_field_at [OF buf' buf(2)] bytes_slice [OF buf'] field_at_slice(2) [OF buf'] ok BField
      by (subst parseIAVLKeyValue_loop.simps)
        (simp add: field_at_slice(1) [OF buf'] nat_add_distrib tag_bytes kv_visit_def del: enc_field.simps)
  qed
qed

interpretation leaf_scan: field_scanner isLeafIAVL_loop leaf_visit "\<lambda>_. True"
proof
  show "isLeafIAVL_loop buf s (int (length buf)) = Some (Ok True)" for buf s
    by (simp add: isLeafIAVL_loop.simps)
  fix buf pre post :: bytes and f s
  assume buf: "buf = pre @ enc_field f @ post" "length buf < 2 ^ 62" and ok: "field_ok f"
  show "isLeafIAVL_loop buf s (int (length pre)) =
      (case leaf_visit s f of Inl s' \<Rightarrow> isLeafIAVL_loop buf s' (int (length (pre @ enc_field f))) | Inr x \<Rightarrow> Some (Ok x))"
  proof (cases f)
    case (VField m v)
    show ?thesis using varint_field_at [OF buf(1) [unfolded VField]] ok VField
      by (subst isLeafIAVL_loop.simps) (simp add: nat_add_distrib tag_bytes leaf_visit_def add.assoc del: enc_field.simps)
  next
    case (BField m b)
    note buf' = buf(1) [unfolded BField]
    show ?thesis using bytes_field_at [OF buf' buf(2)] bytes_slice [OF buf'] field_at_slice(2) [OF buf'] ok BField
      by (subst isLeafIAVL_loop.simps)
        (simp add: field_at_slice(1) [OF buf'] nat_add_distrib tag_bytes leaf_visit_def del: enc_field.simps)
  qed
qed

interpretation meta_scan: field_scanner parseExtMeta_loop meta_visit id
proof
  show "parseExtMeta_loop buf s (int (length buf)) = Some (Ok (id s))" for buf s
    by (simp add: parseExtMeta_loop.simps)
  fix buf pre post :: bytes and f s
  assume buf: "buf = pre @ enc_field f @ post" "length buf < 2 ^ 62" and ok: "field_ok f"
  show "parseExtMeta_loop buf s (int (length pre)) =
      (case meta_visit s f of Inl s' \<Rightarrow> parseExtMeta_loop buf s' (int (length (pre @ enc_field f))) | Inr x \<Rightarrow> Some (Ok x))"
  proof (cases f)
    case (VField m v)
    show ?thesis using varint_field_at [OF buf(1) [unfolded VField]] ok VField
      by (subst parseExtMeta_loop.simps) (simp add: nat_add_distrib tag_bytes meta_visit_def add.assoc del: enc_field.simps)
  next
    case (BField m b)
    note buf' = buf(1) [unfolded BField]
    show ?thesis using bytes_field_at [OF buf' buf(2)] bytes_slice [OF buf'] field_at_slice(2) [OF buf'] ok BField
      by (subst parseExtMeta_loop.simps)
        (simp add: field_at_slice(1) [OF buf'] nat_add_distrib tag_bytes meta_visit_def del: enc_field.simps)
  qed
qed

lemma leading_field_enc:
  assumes "length (enc_fields (BField 1 b # fs)) < 2 ^ 62"
  shows "leading_field (enc_fields (BField 1 b # fs)) = Ok b"
proof -
  let ?buf = "enc_fields (BField 1 b # fs)"
  have buf: "?buf = [] @ enc_field (BField 1 b) @ enc_fields fs" by (simp add: enc_fields_def)
  have shape: "hd ?buf = field_tag 1 OR 2" "?buf \<noteq> []" "tl ?buf = PutUvarint (of_nat (length b)) @ b @ enc_fields fs"
    by (simp_all add: enc_fields_def appendBytesField_def)
  show ?thesis using bytes_field_at [OF buf assms] bytes_slice [OF buf] field_at_slice(2) [OF buf] shape
    by (simp add: leading_field_def tag_bytes nat_add_distrib del: enc_field.simps)
qed

section \<open>The parsers on the items of a snapshot\<close>

definition item_msg :: "snapItem \<Rightarrow> bytes" where
  "item_msg it = enc_fields (item_fields it)"

definition msg_fits :: "bytes \<Rightarrow> bool" where
  "msg_fits b \<longleftrightarrow> length b < 2 ^ 47"

lemma msg_fits_62: "msg_fits b \<Longrightarrow> length b < 2 ^ 62"
  by (simp add: msg_fits_def)

lemma parse_item:
  assumes "msg_fits (item_msg it)"
  shows "parseIAVLKeyValue (item_msg it) = Some (Ok (scan_fields kv_visit id ([], []) (item_fields it)))"
    and "isLeafIAVL (item_msg it) = Some (Ok (scan_fields leaf_visit (\<lambda>_. True) () (item_fields it)))"
    and "parseExtMeta (item_msg it) = Some (Ok (scan_fields meta_visit id ([], 0) (item_fields it)))"
  using assms item_fields_ok [of it] msg_fits_62
  by (simp_all add: item_msg_def parseIAVLKeyValue_def isLeafIAVL_def parseExtMeta_def kv_scan.scans leaf_scan.scans meta_scan.scans)

lemma parse_IAVLItem:
  assumes "msg_fits (item_msg (IAVLItem k v ver h))"
  shows "parseIAVLKeyValue (item_msg (IAVLItem k v ver h)) = Some (Ok (nil_bytes k, nil_bytes v))"
    and "isLeafIAVL (item_msg (IAVLItem k v ver h)) = Some (Ok (h = 0))"
  using parse_item [OF assms]
  by (auto simp: opt_bytes_def opt_varint_def kv_visit_def leaf_visit_def)

lemma parse_ExtMeta:
  "msg_fits (item_msg (ExtMeta n f)) \<Longrightarrow> parseExtMeta (item_msg (ExtMeta n f)) = Some (Ok (n, f))"
  by (auto simp: parse_item(3) opt_bytes_def opt_varint_def meta_visit_def)

lemma leading_field_opt: "msg_fits (enc_fields (opt_bytes 1 b)) \<Longrightarrow> leading_field (enc_fields (opt_bytes 1 b)) = Ok b"
  using leading_field_enc [of b "[]"] msg_fits_62
  by (cases "b = []") (auto simp: opt_bytes_def leading_field_def enc_fields_def)

lemma parse_names:
  "msg_fits (item_msg (StoreItem n)) \<Longrightarrow> parseStoreName (item_msg (StoreItem n)) = Ok n"
  "msg_fits (item_msg (ExtPayload p)) \<Longrightarrow> parseExtPayload (item_msg (ExtPayload p)) = Ok (nil_bytes p)"
  using leading_field_opt by (simp_all add: parseStoreName_def parseExtPayload_def item_msg_def)

lemma parseProto_enc:
  assumes "list_all field_ok fs" "msg_fits (enc_fields fs)" "n < 32"
  shows "parseProtoBytes (enc_fields fs) n = Some (Ok (find_bytes n fs))"
    and "parseProtoVarint (enc_fields fs) n = Some (Ok (find_varint n fs))"
  using assms msg_fits_62 getBytesField_enc [of fs n] getVarintField_enc [of fs n]
  by (simp_all add: parseProtoBytes_def parseProtoVarint_def getBytesField_def getVarintField_def)

end
