(* ===== verification/DiffCompute.thy ===== *)
theory DiffCompute
  imports DiffRecord
begin

unbundle bit_operations_syntax

text \<open>
  Logical diffs (\<open>internal/snapshotdiff/diff.go\<close>): the snapshot reader with its one-item look-ahead,
  the streaming merge of two stores, the comparison of extension payloads and \<open>Compute\<close>.  The
  snapshots are their decompressed streams; writing the body does not fail.
\<close>

section \<open>Results\<close>

datatype diff_error =
    DiffRead read_error
  | DiffHeader header_error
  | MalformedRecord byte
  | TargetOnlyChanged bytes
  | DiffHashMismatch bytes bytes

text \<open>
  A call that may fail, panic or never return, followed by another.  The field scanners have no
  errors of their own.
\<close>

definition go_bind :: "('e, 'a) outcome option \<Rightarrow> ('a \<Rightarrow> ('e, 'b) outcome option) \<Rightarrow> ('e, 'b) outcome option" where
  "go_bind m f = Option.bind m (\<lambda>r. case r of Ok x \<Rightarrow> f x | Fail e \<Rightarrow> Some (Fail e) | Panic \<Rightarrow> Some Panic)"

definition scanned :: "(unit, 'a) outcome option \<Rightarrow> ('e, 'a) outcome option" where
  "scanned m = map_option (\<lambda>r. case r of Ok x \<Rightarrow> Ok x | _ \<Rightarrow> Panic) m"

lemma go_bind_mono [partial_function_mono]:
  assumes "mono_option m" and "\<And>x. mono_option (\<lambda>f. g x f)"
  shows "mono_option (\<lambda>f. go_bind (m f) (\<lambda>x. g x f))"
proof -
  have "mono_option (\<lambda>f. case r of Ok x \<Rightarrow> g x f | Fail e \<Rightarrow> Some (Fail e) | Panic \<Rightarrow> Some Panic)" for r
    using assms(2) by (cases r) (auto intro: partial_function_mono)
  then show ?thesis unfolding go_bind_def by (intro bind_mono assms(1))
qed

lemma go_bind_simps [simp]:
  "go_bind None f = None" "go_bind (Some (Ok x)) f = f x" "go_bind (Some (Fail e)) f = Some (Fail e)" "go_bind (Some Panic) f = Some Panic"
  by (simp_all add: go_bind_def)

lemma scanned_simps [simp]: "scanned (Some (Ok x)) = Some (Ok x)" "scanned None = None" "scanned (Some Panic) = Some Panic"
  by (simp_all add: scanned_def)

section \<open>The snapshot reader\<close>

record extData =
  ed_format :: u32
  ed_payloads :: "bytes list"

record storeReader =
  rd_in :: bytes
  rd_curStore :: bytes
  rd_extName :: bytes
  rd_extFormat :: u32
  rd_extAll :: "(bytes \<times> extData) list"
  rd_cached :: "(byte \<times> bytes) option"

definition newStoreReader :: "bytes \<Rightarrow> storeReader" where
  "newStoreReader r = \<lparr>rd_in = r, rd_curStore = [], rd_extName = [], rd_extFormat = 0, rd_extAll = [], rd_cached = None\<rparr>"

text \<open>
  The look-ahead: tag and inner message of the next item.  An item whose inner length is malformed
  is handed out whole.
\<close>

function peekItem :: "storeReader \<Rightarrow> (diff_error, (byte \<times> bytes) option \<times> storeReader) outcome" where
  "peekItem s =
     (case rd_cached s of
        Some c \<Rightarrow> Ok (Some c, s)
      | None \<Rightarrow>
          (case ReadUvarint (rd_in s) of
             Inl EOF \<Rightarrow> Ok (None, s)
           | Inl e \<Rightarrow> Fail (DiffRead e)
           | Inr (len, r) \<Rightarrow>
               if len = 0 then peekItem (s\<lparr>rd_in := r\<rparr>)
               else if maxAlloc < len then Panic
               else case ReadFull (unat len) r of
                   Inl e \<Rightarrow> Fail (DiffRead e)
                 | Inr (buf, r) \<Rightarrow>
                     let t = drop_bit 3 (hd buf); (innerLen, n) = Uvarint (tl buf) in
                     if n \<le> 0 \<or> int (length buf) - 1 - n < sint innerLen
                     then Ok (Some (t, buf), s\<lparr>rd_in := r, rd_cached := Some (t, buf)\<rparr>)
                     else let lo = 1 + n; hi = lo + sint innerLen; body = take (nat (hi - lo)) (drop (nat lo) buf) in
                       if lo \<le> hi then Ok (Some (t, body), s\<lparr>rd_in := r, rd_cached := Some (t, body)\<rparr>)
                       else Panic))"
  by pat_completeness auto
termination
  by (relation "measure (\<lambda>s. length (rd_in s))") (auto dest: ReadUvarint_consumes)

declare peekItem.simps [simp del]

definition consumeItem :: "storeReader \<Rightarrow> storeReader" where
  "consumeItem s = s\<lparr>rd_cached := None\<rparr>"

text \<open>\<open>peekStore\<close>; \<^term>\<open>None\<close> when the stores are over.\<close>

partial_function (option) peekStore_loop :: "storeReader \<Rightarrow> (diff_error, bytes option \<times> storeReader) outcome option" where
  "peekStore_loop s =
     go_bind (Some (peekItem s)) (\<lambda>(it, s). case it of
         None \<Rightarrow> Some (Ok (None, s))
       | Some (tag, body) \<Rightarrow>
           if tag = 1 then
             go_bind (scanned (Some (parseStoreName body))) (\<lambda>name. Some (Ok (Some name, consumeItem (s\<lparr>rd_curStore := name\<rparr>))))
           else if tag = 3 \<or> tag = 4 then Some (Ok (None, s))
           else peekStore_loop (consumeItem s))"

definition peekStore :: "storeReader \<Rightarrow> (diff_error, bytes option \<times> storeReader) outcome option" where
  "peekStore s = (if rd_curStore s \<noteq> [] then Some (Ok (Some (rd_curStore s), s)) else peekStore_loop s)"

text \<open>One item of the current store: whether the store is over, and the record the callback is given.\<close>

definition readNextItemInStoreRaw :: "storeReader \<Rightarrow> bytes \<Rightarrow> (diff_error, bool \<times> bytes option \<times> storeReader) outcome" where
  "readNextItemInStoreRaw s expectStore =
     (if rd_curStore s \<noteq> expectStore then Ok (True, None, s)
      else bind_outcome (peekItem s) (\<lambda>(it, s). case it of
          None \<Rightarrow> Ok (True, None, s\<lparr>rd_curStore := []\<rparr>)
        | Some (tag, body) \<Rightarrow>
            if tag = 2 then Ok (False, Some body, consumeItem s)
            else if tag = 1 \<or> tag = 3 \<or> tag = 4 then Ok (True, None, s\<lparr>rd_curStore := []\<rparr>)
            else Ok (False, None, consumeItem s)))"

definition addPayload :: "bytes \<Rightarrow> bytes \<Rightarrow> (bytes \<times> extData) list \<Rightarrow> (bytes \<times> extData) list option" where
  "addPayload name p out = (case map_of out name of
       None \<Rightarrow> None
     | Some e \<Rightarrow> Some (AList.update name (e\<lparr>ed_payloads := ed_payloads e @ [p]\<rparr>) out))"

partial_function (option) readAllExtensions :: "storeReader \<Rightarrow> (diff_error, (bytes \<times> extData) list) outcome option" where
  "readAllExtensions s =
     go_bind (Some (peekItem s)) (\<lambda>(it, s). case it of
         None \<Rightarrow> Some (Ok (rd_extAll s))
       | Some (tag, body) \<Rightarrow>
           if tag = 3 then
             go_bind (scanned (parseExtMeta body)) (\<lambda>(name, format).
               let out = rd_extAll s;
                   out' = (if map_of out name = None then AList.update name \<lparr>ed_format = format, ed_payloads = []\<rparr> out else out)
               in readAllExtensions (consumeItem (s\<lparr>rd_extName := name, rd_extFormat := format, rd_extAll := out'\<rparr>)))
           else if tag = 4 then
             go_bind (scanned (Some (parseExtPayload body))) (\<lambda>payload.
               if rd_extName s \<noteq> [] then
                 (case addPayload (rd_extName s) payload (rd_extAll s) of
                    None \<Rightarrow> Some Panic
                  | Some out \<Rightarrow> readAllExtensions (consumeItem (s\<lparr>rd_extAll := out\<rparr>)))
               else readAllExtensions (consumeItem s))
           else readAllExtensions (consumeItem s))"

section \<open>Stores\<close>

record StoreStats =
  ss_BaseItems :: u64
  ss_TargetItems :: u64
  ss_Inserts :: u64
  ss_Updates :: u64
  ss_Deletes :: u64

record Stats =
  st_Stores :: nat
  st_Extensions :: nat
  st_Inserts :: u64
  st_Updates :: u64
  st_Deletes :: u64
  st_ExtAdds :: u64
  st_ExtRemoves :: u64
  st_BodyBytesRaw :: u64
  st_BodyBytesGz :: u64
  st_PerStore :: "bytes \<rightharpoonup> StoreStats"

text \<open>What the two closures \<open>advanceBase\<close> and \<open>advanceTarget\<close> share: the next leaf of the store.\<close>

partial_function (option) advanceLeaf :: "bytes \<Rightarrow> storeReader \<Rightarrow> (diff_error, bytes option \<times> storeReader) outcome option" where
  "advanceLeaf name s =
     go_bind (Some (readNextItemInStoreRaw s name)) (\<lambda>(fin, rec, s).
       if fin then Some (Ok (None, s))
       else case rec of
           None \<Rightarrow> advanceLeaf name s
         | Some rec \<Rightarrow> go_bind (scanned (isLeafIAVL rec)) (\<lambda>leaf. if leaf then Some (Ok (Some rec, s)) else advanceLeaf name s))"

text \<open>The variables of \<open>diffStore\<close>; a reader is \<^term>\<open>None\<close> when the side lacks the store.\<close>

record diffVars =
  dv_base :: "storeReader option"
  dv_target :: "storeReader option"
  dv_baseRec :: "bytes option"
  dv_targetRec :: "bytes option"
  dv_ss :: StoreStats
  dv_stats :: Stats
  dv_out :: bytes

definition advanceBase :: "bytes \<Rightarrow> diffVars \<Rightarrow> (diff_error, diffVars) outcome option" where
  "advanceBase name d =
     (case dv_base d of
        None \<Rightarrow> Some (Ok d)
      | Some r \<Rightarrow> go_bind (advanceLeaf name r) (\<lambda>(rec, r).
          Some (Ok (d\<lparr>dv_base := Some r, dv_baseRec := rec,
            dv_ss := (if rec = None then dv_ss d else (dv_ss d)\<lparr>ss_BaseItems := ss_BaseItems (dv_ss d) + 1\<rparr>)\<rparr>))))"

definition advanceTarget :: "bytes \<Rightarrow> diffVars \<Rightarrow> (diff_error, diffVars) outcome option" where
  "advanceTarget name d =
     (case dv_target d of
        None \<Rightarrow> Some (Ok d)
      | Some r \<Rightarrow> go_bind (advanceLeaf name r) (\<lambda>(rec, r).
          Some (Ok (d\<lparr>dv_target := Some r, dv_targetRec := rec,
            dv_ss := (if rec = None then dv_ss d else (dv_ss d)\<lparr>ss_TargetItems := ss_TargetItems (dv_ss d) + 1\<rparr>)\<rparr>))))"

definition emitInsert :: "bytes \<Rightarrow> bytes \<Rightarrow> diffVars \<Rightarrow> diffVars" where
  "emitInsert k v d =
     d\<lparr>dv_ss := (dv_ss d)\<lparr>ss_Inserts := ss_Inserts (dv_ss d) + 1\<rparr>,
       dv_stats := (dv_stats d)\<lparr>st_Inserts := st_Inserts (dv_stats d) + 1\<rparr>,
       dv_out := emitRecord (dv_out d) (buildOneOfMessage tagInsert [encBytesField 1 k, encBytesField 2 v])\<rparr>"

definition emitUpdate :: "bytes \<Rightarrow> bytes \<Rightarrow> diffVars \<Rightarrow> diffVars" where
  "emitUpdate k v d =
     d\<lparr>dv_ss := (dv_ss d)\<lparr>ss_Updates := ss_Updates (dv_ss d) + 1\<rparr>,
       dv_stats := (dv_stats d)\<lparr>st_Updates := st_Updates (dv_stats d) + 1\<rparr>,
       dv_out := emitRecord (dv_out d) (buildOneOfMessage tagUpdate [encBytesField 1 k, encBytesField 2 v])\<rparr>"

definition emitDelete :: "bytes \<Rightarrow> diffVars \<Rightarrow> diffVars" where
  "emitDelete k d =
     d\<lparr>dv_ss := (dv_ss d)\<lparr>ss_Deletes := ss_Deletes (dv_ss d) + 1\<rparr>,
       dv_stats := (dv_stats d)\<lparr>st_Deletes := st_Deletes (dv_stats d) + 1\<rparr>,
       dv_out := emitRecord (dv_out d) (buildOneOfMessage tagDelete [encBytesField 1 k])\<rparr>"

text \<open>Both sides hold a record: one turn of the merge, which compares whole records before keys.\<close>

definition mergeBoth :: "bytes \<Rightarrow> bytes \<Rightarrow> bytes \<Rightarrow> diffVars \<Rightarrow> (diff_error, diffVars) outcome option" where
  "mergeBoth name baseRec targetRec d =
     (let cmp = bytesCompare baseRec targetRec in
      if cmp = 0 then go_bind (advanceBase name d) (advanceTarget name)
      else go_bind (scanned (parseIAVLKeyValue baseRec)) (\<lambda>(baseK, _).
        go_bind (scanned (parseIAVLKeyValue targetRec)) (\<lambda>(targetK, targetV).
          if bytesEqual baseK targetK
          then go_bind (advanceBase name (emitUpdate baseK targetV d)) (advanceTarget name)
          else if cmp < 0 then advanceBase name (emitDelete baseK d)
          else advanceTarget name (emitInsert targetK targetV d))))"

partial_function (option) diffStore_loop :: "bytes \<Rightarrow> diffVars \<Rightarrow> (diff_error, diffVars) outcome option" where
  "diffStore_loop name d =
     (case (dv_baseRec d, dv_targetRec d) of
        (None, None) \<Rightarrow> Some (Ok d)
      | (None, Some t) \<Rightarrow>
          go_bind (scanned (parseIAVLKeyValue t)) (\<lambda>(k, v).
          go_bind (advanceTarget name (emitInsert k v d)) (diffStore_loop name))
      | (Some b, None) \<Rightarrow>
          go_bind (scanned (parseIAVLKeyValue b)) (\<lambda>(k, _).
          go_bind (advanceBase name (emitDelete k d)) (diffStore_loop name))
      | (Some b, Some t) \<Rightarrow> go_bind (mergeBoth name b t d) (diffStore_loop name))"

definition zeroStoreStats :: StoreStats where
  "zeroStoreStats = \<lparr>ss_BaseItems = 0, ss_TargetItems = 0, ss_Inserts = 0, ss_Updates = 0, ss_Deletes = 0\<rparr>"

definition diffStore :: "Stats \<Rightarrow> bytes \<Rightarrow> storeReader option \<Rightarrow> storeReader option \<Rightarrow> bytes \<Rightarrow> (diff_error, diffVars) outcome option" where
  "diffStore stats out baseRdr targetRdr name =
     (let out = emitRecord out (buildOneOfMessage tagStoreEnter [encStringField 1 name]);
          stats = stats\<lparr>st_Stores := st_Stores stats + 1\<rparr>;
          ss = (case st_PerStore stats name of None \<Rightarrow> zeroStoreStats | Some ss \<Rightarrow> ss);
          d = \<lparr>dv_base = baseRdr, dv_target = targetRdr, dv_baseRec = None, dv_targetRec = None, dv_ss = ss, dv_stats = stats, dv_out = out\<rparr>
      in go_bind (advanceBase name d) (\<lambda>d.
         go_bind (advanceTarget name d) (\<lambda>d.
         go_bind (diffStore_loop name d) (\<lambda>d.
           Some (Ok (d\<lparr>dv_out := emitRecord (dv_out d) (buildOneOfMessage tagStoreLeave []),
             dv_stats := (dv_stats d)\<lparr>st_PerStore := (st_PerStore (dv_stats d))(name \<mapsto> dv_ss d)\<rparr>\<rparr>))))))"

section \<open>Extensions\<close>

text \<open>
  The payloads to remove and to add, and one extension.  \<open>ord\<close> is the order in which Go happens to range over a map with the given keys;
  of payloads with one hash, the removal names the first and \<open>targetByHash\<close> holds the last.
\<close>

definition extFormat :: "extData option \<Rightarrow> extData option \<Rightarrow> u32" where
  "extFormat base target = (case base of
       Some b \<Rightarrow> ed_format b
     | None \<Rightarrow> (case target of Some t \<Rightarrow> ed_format t | None \<Rightarrow> 1))"

definition opt_payloads :: "extData option \<Rightarrow> bytes list" where
  "opt_payloads e = (case e of None \<Rightarrow> [] | Some e \<Rightarrow> ed_payloads e)"

definition extRemoves :: "(bytes list \<Rightarrow> bytes list) \<Rightarrow> bytes list \<Rightarrow> bytes list \<Rightarrow> bytes list" where
  "extRemoves ord base target =
     (let targetByHash = map_of (rev (map (\<lambda>p. (sha256 p, p)) target)) in
      concat (map (\<lambda>h. if targetByHash h = None then take 1 (filter (\<lambda>p. sha256 p = h) base) else []) (ord (remdups (map sha256 base)))))"

definition extAdds :: "(bytes list \<Rightarrow> bytes list) \<Rightarrow> bytes list \<Rightarrow> bytes list \<Rightarrow> bytes list" where
  "extAdds ord base target =
     (let baseHashes = map sha256 base; targetByHash = map_of (rev (map (\<lambda>p. (sha256 p, p)) target)) in
      concat (map (\<lambda>h. if h \<in> set baseHashes then [] else [the (targetByHash h)]) (ord (remdups (map sha256 target)))))"

definition diffExtension :: "(bytes list \<Rightarrow> bytes list) \<Rightarrow> bytes \<Rightarrow> extData option \<Rightarrow> extData option \<Rightarrow> Stats \<times> bytes \<Rightarrow> Stats \<times> bytes" where
  "diffExtension ord name base target so =
     (let (stats, out) = so;
          out = emitRecord out (buildOneOfMessage tagExtEnter [encStringField 1 name, encVarintField 2 (ucast (extFormat base target))]);
          removes = extRemoves ord (opt_payloads base) (opt_payloads target);
          adds = extAdds ord (opt_payloads base) (opt_payloads target);
          out = foldl (\<lambda>out p. emitRecord out (buildOneOfMessage tagExtRemove [encBytesField 1 p])) out removes;
          out = foldl (\<lambda>out p. emitRecord out (buildOneOfMessage tagExtAdd [encBytesField 1 p])) out adds
      in (stats\<lparr>st_Extensions := st_Extensions stats + 1, st_ExtRemoves := st_ExtRemoves stats + of_nat (length removes),
            st_ExtAdds := st_ExtAdds stats + of_nat (length adds)\<rparr>,
          emitRecord out (buildOneOfMessage tagExtLeave [])))"

definition diffExtensions :: "(bytes list \<Rightarrow> bytes list) \<Rightarrow> (bytes \<times> extData) list \<Rightarrow> (bytes \<times> extData) list \<Rightarrow> Stats \<times> bytes \<Rightarrow> Stats \<times> bytes" where
  "diffExtensions ord baseExt targetExt so =
     foldl (\<lambda>so name. diffExtension ord name (map_of baseExt name) (map_of targetExt name) so) so
       (sort (remdups (map fst baseExt @ map fst targetExt)))"

section \<open>The differ\<close>

record streamVars =
  sv_base :: storeReader
  sv_target :: storeReader
  sv_stats :: Stats
  sv_out :: bytes

text \<open>What \<open>diffStore\<close> leaves in the readers and the statistics.\<close>

definition afterStore :: "streamVars \<Rightarrow> diffVars \<Rightarrow> streamVars" where
  "afterStore v d = \<lparr>sv_base = (case dv_base d of None \<Rightarrow> sv_base v | Some r \<Rightarrow> r),
     sv_target = (case dv_target d of None \<Rightarrow> sv_target v | Some r \<Rightarrow> r), sv_stats = dv_stats d, sv_out = dv_out d\<rparr>"

text \<open>The switch of \<open>computeStream\<close>: which sides \<open>diffStore\<close> is given, and the store's name.\<close>

fun pickStore :: "bytes option \<Rightarrow> bytes option \<Rightarrow> (bool \<times> bool \<times> bytes) option" where
  "pickStore None None = None"
| "pickStore None (Some targetStore) = Some (False, True, targetStore)"
| "pickStore (Some baseStore) None = Some (True, False, baseStore)"
| "pickStore (Some baseStore) (Some targetStore) =
     (if baseStore < targetStore then Some (True, False, baseStore)
      else if targetStore < baseStore then Some (False, True, targetStore)
      else Some (True, True, baseStore))"

partial_function (option) computeStores :: "streamVars \<Rightarrow> (diff_error, streamVars) outcome option" where
  "computeStores v =
     go_bind (peekStore (sv_base v)) (\<lambda>(baseStore, b).
     go_bind (peekStore (sv_target v)) (\<lambda>(targetStore, t).
       case pickStore baseStore targetStore of
         None \<Rightarrow> Some (Ok (v\<lparr>sv_base := b, sv_target := t\<rparr>))
       | Some (useBase, useTarget, name) \<Rightarrow>
           go_bind (diffStore (sv_stats v) (sv_out v) (if useBase then Some b else None) (if useTarget then Some t else None) name)
             (\<lambda>d. computeStores (afterStore (v\<lparr>sv_base := b, sv_target := t\<rparr>) d))))"

definition computeStream :: "(bytes list \<Rightarrow> bytes list) \<Rightarrow> bytes \<Rightarrow> bytes \<Rightarrow> Stats \<Rightarrow> (diff_error, Stats \<times> bytes) outcome option" where
  "computeStream ord base target stats =
     go_bind (computeStores \<lparr>sv_base = newStoreReader base, sv_target = newStoreReader target, sv_stats = stats, sv_out = []\<rparr>) (\<lambda>v.
     go_bind (readAllExtensions (sv_base v)) (\<lambda>baseExt.
     go_bind (readAllExtensions (sv_target v)) (\<lambda>targetExt.
       Some (Ok (diffExtensions ord baseExt targetExt (sv_stats v, sv_out v))))))"

definition zeroStats :: Stats where
  "zeroStats = \<lparr>st_Stores = 0, st_Extensions = 0, st_Inserts = 0, st_Updates = 0, st_Deletes = 0, st_ExtAdds = 0, st_ExtRemoves = 0,
     st_BodyBytesRaw = 0, st_BodyBytesGz = 0, st_PerStore = Map.empty\<rparr>"

definition Compute :: "(bytes list \<Rightarrow> bytes list) \<Rightarrow> (bytes \<Rightarrow> bytes list) \<Rightarrow> bytes \<Rightarrow> bytes \<Rightarrow> bytes \<Rightarrow> bytes \<Rightarrow> u64 \<Rightarrow> u64 \<Rightarrow>
    (diff_error, bytes \<times> Stats) outcome option" where
  "Compute ord zw base target baseHashHex targetHashHex baseHeight targetHeight =
     go_bind (computeStream ord base target zeroStats) (\<lambda>(stats, body).
       Some (Ok (WriteHeader \<lparr>fh_BaseHeight = baseHeight, fh_TargetHeight = targetHeight,
                   fh_BaseHashHex = baseHashHex, fh_TargetHashHex = targetHashHex\<rparr> @ concat (zw body),
                 stats\<lparr>st_BodyBytesRaw := of_nat (length body), st_BodyBytesGz := of_nat (length (concat (zw body)))\<rparr>)))"

end
