(* ===== verification/DiffApply.thy ===== *)
theory DiffApply
  imports DiffCompute
begin

unbundle bit_operations_syntax

text \<open>
  Applying a logical diff (\<open>internal/snapshotdiff/apply.go\<close>): the reader of the diff's records, the
  merge of a base store with its changes, the extensions, and \<open>Apply\<close>.
\<close>

section \<open>The diff reader\<close>

text \<open>\<open>df_in\<close> is what the decompressor still delivers.\<close>

record diffReader =
  df_in :: bytes
  df_pending :: "(byte \<times> bytes) option"
  df_eof :: bool

definition newDiffReader :: "bytes \<Rightarrow> diffReader" where
  "newDiffReader r = \<lparr>df_in = r, df_pending = None, df_eof = False\<rparr>"

text \<open>
  A body that ends in the middle of a record ends there: both \<open>io.EOF\<close> and \<open>io.ErrUnexpectedEOF\<close>
  are the end.
\<close>

function peekRecord :: "diffReader \<Rightarrow> (diff_error, (byte \<times> bytes) option \<times> diffReader) outcome" where
  "peekRecord d =
     (if df_eof d then Ok (None, d)
      else case df_pending d of
          Some c \<Rightarrow> Ok (Some c, d)
        | None \<Rightarrow>
            (case ReadUvarint (df_in d) of
               Inl VarintOverflow \<Rightarrow> Fail (DiffRead VarintOverflow)
             | Inl _ \<Rightarrow> Ok (None, d\<lparr>df_eof := True\<rparr>)
             | Inr (recLen, r) \<Rightarrow>
                 if recLen = 0 then peekRecord (d\<lparr>df_in := r\<rparr>)
                 else if maxAlloc < recLen then Panic
                 else case ReadFull (unat recLen) r of
                     Inl _ \<Rightarrow> Ok (None, d\<lparr>df_eof := True\<rparr>)
                   | Inr (rec, r) \<Rightarrow>
                       let outerTag = drop_bit 3 (hd rec); (innerLen, n) = Uvarint (tl rec) in
                       if n \<le> 0 \<or> int (length rec) - 1 - n < sint innerLen then Fail (MalformedRecord outerTag)
                       else let lo = 1 + n; hi = lo + sint innerLen; body = take (nat (hi - lo)) (drop (nat lo) rec) in
                         if lo \<le> hi then Ok (Some (outerTag, body), d\<lparr>df_in := r, df_pending := Some (outerTag, body)\<rparr>)
                         else Panic))"
  by pat_completeness auto
termination
  by (relation "measure (\<lambda>d. length (df_in d))") (auto dest: ReadUvarint_consumes)

declare peekRecord.simps [simp del]

definition consumeRecord :: "diffReader \<Rightarrow> diffReader" where
  "consumeRecord d = d\<lparr>df_pending := None\<rparr>"

datatype diffSection = SectionStore bytes | SectionExt bytes u32

text \<open>\<open>string(b)\<close> and \<open>append([]byte(nil), b...)\<close> of a field that may be absent.\<close>

definition protoBytes :: "bytes \<Rightarrow> nat \<Rightarrow> (diff_error, bytes) outcome option" where
  "protoBytes body n = go_bind (scanned (parseProtoBytes body n)) (\<lambda>b. Some (Ok (nil_bytes b)))"

partial_function (option) peekSection :: "diffReader \<Rightarrow> (diff_error, diffSection option \<times> diffReader) outcome option" where
  "peekSection d =
     go_bind (Some (peekRecord d)) (\<lambda>(rec, d). case rec of
         None \<Rightarrow> Some (Ok (None, d))
       | Some (tag, body) \<Rightarrow>
           if unat tag = tagStoreEnter then
             go_bind (protoBytes body 1) (\<lambda>name. Some (Ok (Some (SectionStore name), d)))
           else if unat tag = tagExtEnter then
             go_bind (protoBytes body 1) (\<lambda>name.
             go_bind (scanned (parseProtoVarint body 2)) (\<lambda>f. Some (Ok (Some (SectionExt name (ucast f)), d))))
           else peekSection (consumeRecord d))"

text \<open>Go maps as association lists with one entry for a key.\<close>

record storeChanges =
  sc_deletes :: "bytes list"
  sc_updates :: "(bytes \<times> bytes) list"
  sc_inserts :: "(bytes \<times> bytes) list"

definition newStoreChanges :: storeChanges where
  "newStoreChanges = \<lparr>sc_deletes = [], sc_updates = [], sc_inserts = []\<rparr>"

partial_function (option) readStoreChanges_loop :: "storeChanges \<Rightarrow> diffReader \<Rightarrow> (diff_error, storeChanges \<times> diffReader) outcome option" where
  "readStoreChanges_loop ch d =
     go_bind (Some (peekRecord d)) (\<lambda>(rec, d). case rec of
         None \<Rightarrow> Some (Ok (ch, d))
       | Some (tag, body) \<Rightarrow>
           if unat tag = tagStoreLeave then Some (Ok (ch, consumeRecord d))
           else if unat tag = tagInsert then
             go_bind (protoBytes body 1) (\<lambda>k. go_bind (protoBytes body 2) (\<lambda>v.
               readStoreChanges_loop (ch\<lparr>sc_inserts := AList.update k v (sc_inserts ch)\<rparr>) (consumeRecord d)))
           else if unat tag = tagUpdate then
             go_bind (protoBytes body 1) (\<lambda>k. go_bind (protoBytes body 2) (\<lambda>v.
               readStoreChanges_loop (ch\<lparr>sc_updates := AList.update k v (sc_updates ch)\<rparr>) (consumeRecord d)))
           else if unat tag = tagDelete then
             go_bind (protoBytes body 1) (\<lambda>k.
               readStoreChanges_loop (ch\<lparr>sc_deletes := List.insert k (sc_deletes ch)\<rparr>) (consumeRecord d))
           else if unat tag = tagStoreEnter \<or> unat tag = tagExtEnter then Some (Ok (ch, d))
           else readStoreChanges_loop ch (consumeRecord d))"

definition readStoreChanges :: "diffReader \<Rightarrow> (diff_error, storeChanges \<times> diffReader) outcome option" where
  "readStoreChanges d = readStoreChanges_loop newStoreChanges d"

record extChangeSet =
  ec_format :: u32
  ec_removes :: "bytes list"
  ec_adds :: "bytes list"

partial_function (option) readExtChanges_loop :: "extChangeSet \<Rightarrow> diffReader \<Rightarrow> (diff_error, extChangeSet \<times> diffReader) outcome option" where
  "readExtChanges_loop ch d =
     go_bind (Some (peekRecord d)) (\<lambda>(rec, d). case rec of
         None \<Rightarrow> Some (Ok (ch, d))
       | Some (tag, body) \<Rightarrow>
           if unat tag = tagExtLeave then Some (Ok (ch, consumeRecord d))
           else if unat tag = tagExtAdd then
             go_bind (protoBytes body 1) (\<lambda>p. readExtChanges_loop (ch\<lparr>ec_adds := ec_adds ch @ [p]\<rparr>) (consumeRecord d))
           else if unat tag = tagExtRemove then
             go_bind (protoBytes body 1) (\<lambda>p.
               readExtChanges_loop (ch\<lparr>ec_removes := List.insert (sha256 p) (ec_removes ch)\<rparr>) (consumeRecord d))
           else if unat tag = tagStoreEnter \<or> unat tag = tagExtEnter then Some (Ok (ch, d))
           else readExtChanges_loop ch (consumeRecord d))"

definition readExtChanges :: "u32 \<Rightarrow> diffReader \<Rightarrow> (diff_error, extChangeSet \<times> diffReader) outcome option" where
  "readExtChanges format d = readExtChanges_loop \<lparr>ec_format = format, ec_removes = [], ec_adds = []\<rparr> d"

section \<open>Stores\<close>

record ApplyStats =
  as_Stores :: nat
  as_Extensions :: nat
  as_ItemsEmitted :: u64
  as_PayloadsEmitted :: u64
  as_Chunks :: nat
  as_BytesUncompressed :: u64
  as_BytesCompressed :: u64

definition emitLeaf :: "bytes \<Rightarrow> bytes \<Rightarrow> ApplyStats \<times> bytes \<Rightarrow> ApplyStats \<times> bytes" where
  "emitLeaf k v so = (let (stats, out) = so in
     (stats\<lparr>as_ItemsEmitted := as_ItemsEmitted stats + 1\<rparr>,
      emitRecord out (buildOneOfMessage 2 [encBytesField 1 k, encBytesField 2 v])))"

definition emitStoreName :: "bytes \<Rightarrow> ApplyStats \<times> bytes \<Rightarrow> ApplyStats \<times> bytes" where
  "emitStoreName name so = (let (stats, out) = so in
     (stats\<lparr>as_Stores := as_Stores stats + 1\<rparr>, emitRecord out (buildOneOfMessage 1 [encStringField 1 name])))"

definition processBaseItem :: "storeChanges option \<Rightarrow> bytes \<Rightarrow> bytes \<Rightarrow> ApplyStats \<times> bytes \<Rightarrow> ApplyStats \<times> bytes" where
  "processBaseItem ch k v so =
     (case ch of
        None \<Rightarrow> emitLeaf k v so
      | Some ch \<Rightarrow>
          if k \<in> set (sc_deletes ch) then so
          else case map_of (sc_updates ch) k of
              Some upd \<Rightarrow> emitLeaf k upd so
            | None \<Rightarrow> emitLeaf k v so)"

text \<open>\<open>nextBase\<close>: the next leaf of the store, its key and value.\<close>

definition nextBase :: "bytes \<Rightarrow> storeReader \<Rightarrow> (diff_error, (bytes \<times> bytes) option \<times> storeReader) outcome option" where
  "nextBase name s =
     go_bind (advanceLeaf name s) (\<lambda>(rec, s). case rec of
         None \<Rightarrow> Some (Ok (None, s))
       | Some rec \<Rightarrow> go_bind (protoBytes rec 1) (\<lambda>k. go_bind (protoBytes rec 2) (\<lambda>v. Some (Ok (Some (k, v), s)))))"

definition emitInsertKey :: "storeChanges option \<Rightarrow> bytes \<Rightarrow> ApplyStats \<times> bytes \<Rightarrow> ApplyStats \<times> bytes" where
  "emitInsertKey ch ik so = emitLeaf ik (case ch of None \<Rightarrow> [] | Some ch \<Rightarrow> nil_bytes (map_of (sc_inserts ch) ik)) so"

text \<open>The merge; the last argument but one is \<open>insertKeys\<close> from \<open>insertIdx\<close> on.\<close>

partial_function (option) emitStore_loop :: "bytes \<Rightarrow> storeChanges option \<Rightarrow> (bytes \<times> bytes) option \<Rightarrow> storeReader \<Rightarrow> bytes list \<Rightarrow>
    ApplyStats \<times> bytes \<Rightarrow> (diff_error, storeReader \<times> ApplyStats \<times> bytes) outcome option" where
  "emitStore_loop name ch cur s keys so =
     (case (cur, keys) of
        (None, []) \<Rightarrow> Some (Ok (s, so))
      | (None, ik # keys) \<Rightarrow> emitStore_loop name ch None s keys (emitInsertKey ch ik so)
      | (Some (k, v), []) \<Rightarrow>
          go_bind (nextBase name s) (\<lambda>(cur, s). emitStore_loop name ch cur s [] (processBaseItem ch k v so))
      | (Some (k, v), ik # keys) \<Rightarrow>
          if bytesCompare k ik < 0 then
            go_bind (nextBase name s) (\<lambda>(cur, s). emitStore_loop name ch cur s (ik # keys) (processBaseItem ch k v so))
          else if bytesCompare k ik > 0 then
            emitStore_loop name ch (Some (k, v)) s keys (emitInsertKey ch ik so)
          else
            go_bind (nextBase name s) (\<lambda>(cur, s).
              emitStore_loop name ch cur s keys (emitInsertKey ch ik (processBaseItem ch k v so))))"

definition emitStoreFromBase :: "bytes \<Rightarrow> storeChanges option \<Rightarrow> storeReader \<Rightarrow> ApplyStats \<times> bytes \<Rightarrow>
    (diff_error, storeReader \<times> ApplyStats \<times> bytes) outcome option" where
  "emitStoreFromBase name ch s so =
     (let insertKeys = (case ch of None \<Rightarrow> [] | Some ch \<Rightarrow> sort (map fst (sc_inserts ch))) in
      go_bind (nextBase name s) (\<lambda>(cur, s).
        if cur = None \<and> insertKeys = [] then Some (Ok (s, so))
        else emitStore_loop name ch cur s insertKeys (emitStoreName name so)))"

definition emitTargetOnlyStore :: "bytes \<Rightarrow> (bytes \<times> bytes) list \<Rightarrow> ApplyStats \<times> bytes \<Rightarrow> ApplyStats \<times> bytes" where
  "emitTargetOnlyStore name inserts so =
     (if inserts = [] then so
      else foldl (\<lambda>so k. emitLeaf k (nil_bytes (map_of inserts k)) so) (emitStoreName name so) (sort (map fst inserts)))"

record applyVars =
  av_base :: storeReader
  av_diff :: diffReader
  av_so :: "ApplyStats \<times> bytes"

text \<open>One turn of the store loop; \<^term>\<open>None\<close> when both sides' stores are over.\<close>

definition applyStore :: "applyVars \<Rightarrow> (diff_error, applyVars option \<times> applyVars) outcome option" where
  "applyStore v =
     go_bind (peekStore (av_base v)) (\<lambda>(baseStore, b).
     go_bind (peekSection (av_diff v)) (\<lambda>(sec, d).
       let v = v\<lparr>av_base := b, av_diff := d\<rparr>;
           diffName = (case sec of Some (SectionStore n) \<Rightarrow> Some n | _ \<Rightarrow> None) in
       case (baseStore, diffName) of
         (None, None) \<Rightarrow> Some (Ok (None, v))
       | (Some bn, None) \<Rightarrow>
           go_bind (emitStoreFromBase bn None b (av_so v)) (\<lambda>(b, so). Some (Ok (Some (v\<lparr>av_base := b, av_so := so\<rparr>), v)))
       | (bn, Some dn) \<Rightarrow>
           if bn = None \<or> dn < the bn then
             go_bind (readStoreChanges (consumeRecord d)) (\<lambda>(ch, d).
               if sc_deletes ch \<noteq> [] \<or> sc_updates ch \<noteq> [] then Some (Fail (TargetOnlyChanged dn))
               else Some (Ok (Some (v\<lparr>av_diff := d, av_so := emitTargetOnlyStore dn (sc_inserts ch) (av_so v)\<rparr>), v)))
           else if dn > the bn then
             go_bind (emitStoreFromBase (the bn) None b (av_so v)) (\<lambda>(b, so). Some (Ok (Some (v\<lparr>av_base := b, av_so := so\<rparr>), v)))
           else
             go_bind (readStoreChanges (consumeRecord d)) (\<lambda>(ch, d).
             go_bind (emitStoreFromBase (the bn) (Some ch) b (av_so v)) (\<lambda>(b, so).
               Some (Ok (Some (v\<lparr>av_base := b, av_diff := d, av_so := so\<rparr>), v))))))"

partial_function (option) applyStores :: "applyVars \<Rightarrow> (diff_error, applyVars) outcome option" where
  "applyStores v = go_bind (applyStore v) (\<lambda>(next, v). case next of None \<Rightarrow> Some (Ok v) | Some v' \<Rightarrow> applyStores v')"

section \<open>Extensions\<close>

partial_function (option) readPerExt :: "(bytes \<times> extChangeSet) list \<Rightarrow> diffReader \<Rightarrow> (diff_error, (bytes \<times> extChangeSet) list) outcome option" where
  "readPerExt perExt d =
     go_bind (peekSection d) (\<lambda>(sec, d). case sec of
         Some (SectionExt name format) \<Rightarrow>
           go_bind (readExtChanges format (consumeRecord d)) (\<lambda>(ch, d). readPerExt (AList.update name ch perExt) d)
       | _ \<Rightarrow> Some (Ok perExt))"

text \<open>The payloads an extension ends with, and their items: the meta item only if there is a payload.\<close>

definition extPayloads :: "extData option \<Rightarrow> extChangeSet option \<Rightarrow> bytes list" where
  "extPayloads base ch =
     filter (\<lambda>p. case ch of None \<Rightarrow> True | Some ch \<Rightarrow> sha256 p \<notin> set (ec_removes ch)) (opt_payloads base) @
     (case ch of None \<Rightarrow> [] | Some ch \<Rightarrow> ec_adds ch)"

definition applyExtension :: "bytes \<Rightarrow> extData option \<Rightarrow> extChangeSet option \<Rightarrow> ApplyStats \<times> bytes \<Rightarrow> ApplyStats \<times> bytes" where
  "applyExtension name base ch so =
     (let (stats, out) = so;
          format = (case ch of Some ch \<Rightarrow> ec_format ch | None \<Rightarrow> (case base of Some b \<Rightarrow> ed_format b | None \<Rightarrow> 0));
          ps = extPayloads base ch in
      if ps = [] then so
      else let out = emitRecord out (buildOneOfMessage 3 [encStringField 1 name, encVarintField 2 (ucast format)]);
               out = foldl (\<lambda>out p. emitRecord out (buildOneOfMessage 4 [encBytesField 1 p])) out ps
           in (stats\<lparr>as_PayloadsEmitted := as_PayloadsEmitted stats + of_nat (length ps), as_Extensions := as_Extensions stats + 1\<rparr>, out))"

definition applyExtensions :: "(bytes \<times> extData) list \<Rightarrow> (bytes \<times> extChangeSet) list \<Rightarrow> ApplyStats \<times> bytes \<Rightarrow> ApplyStats \<times> bytes" where
  "applyExtensions extAll perExt so =
     foldl (\<lambda>so name. applyExtension name (map_of extAll name) (map_of perExt name) so) so
       (sort (remdups (map fst extAll @ map fst perExt)))"

section \<open>Apply\<close>

definition zeroApplyStats :: ApplyStats where
  "zeroApplyStats = \<lparr>as_Stores = 0, as_Extensions = 0, as_ItemsEmitted = 0, as_PayloadsEmitted = 0, as_Chunks = 0,
     as_BytesUncompressed = 0, as_BytesCompressed = 0\<rparr>"

definition applyStream :: "bytes \<Rightarrow> bytes \<Rightarrow> (diff_error, ApplyStats \<times> bytes) outcome option" where
  "applyStream base body =
     go_bind (applyStores \<lparr>av_base = newStoreReader base, av_diff = newDiffReader body, av_so = (zeroApplyStats, [])\<rparr>) (\<lambda>v.
     go_bind (readAllExtensions (av_base v)) (\<lambda>extAll.
     go_bind (readPerExt [] (av_diff v)) (\<lambda>perExt.
       Some (Ok (applyExtensions extAll perExt (av_so v))))))"

datatype ('e, 'z) apply_error = ApplyDiff diff_error | ApplyZlib 'z | ApplyChunk 'e

record apply_result =
  ar_chunks :: chunkWriter
  ar_meta :: outMeta
  ar_out :: bytes
  ar_stats :: ApplyStats

text \<open>
  \<open>metaHash\<close> is the hash in the base's \<open>meta.json\<close>, if it can be read.  \<open>inflate\<close> is what the
  decompressor delivers before it reports the end or an unexpected end.
\<close>

definition Apply :: "(bytes \<Rightarrow> bytes list) \<Rightarrow> (bytes \<Rightarrow> 'z + bytes) \<Rightarrow> 'e chunk_io \<Rightarrow> bytes option \<Rightarrow> bytes \<Rightarrow> bytes \<Rightarrow>
    (bytes \<rightharpoonup> bytes) \<Rightarrow> (('e, 'z) apply_error, apply_result) outcome option" where
  "Apply zw inflate io metaHash base diff outDir =
     (case ReadHeader diff of
        Inl e \<Rightarrow> Some (Fail (ApplyDiff (DiffHeader e)))
      | Inr (hdr, rest) \<Rightarrow>
          if metaHash \<noteq> None \<and> the metaHash \<noteq> fh_BaseHashHex hdr
          then Some (Fail (ApplyDiff (DiffHashMismatch (the metaHash) (fh_BaseHashHex hdr))))
          else case inflate rest of
              Inl z \<Rightarrow> Some (Fail (ApplyZlib z))
            | Inr body \<Rightarrow>
                (case applyStream base body of
                   None \<Rightarrow> None
                 | Some Panic \<Rightarrow> Some Panic
                 | Some (Fail e) \<Rightarrow> Some (Fail (ApplyDiff e))
                 | Some (Ok (stats, out)) \<Rightarrow>
                     (case chunkWrites io (newChunkWriter outDir (16 * 2 ^ 20)) (zw out) of
                        None \<Rightarrow> None
                      | Some (Inl e) \<Rightarrow> Some (Fail (ApplyChunk e))
                      | Some (Inr cw) \<Rightarrow>
                          Some (Ok \<lparr>ar_chunks = cw,
                            ar_meta = \<lparr>om_Height = fh_TargetHeight hdr, om_Format = 3, om_Chunks = cw_chunkIdx cw,
                              om_HashHex = computeSnapshotHash (cw_chunkHashes cw), om_BytesTotal = cw_totalWritten cw,
                              om_ChunkHashesHex = hexHashes (cw_chunkHashes cw), om_MetadataLen = 0\<rparr>,
                            ar_out = out,
                            ar_stats = stats\<lparr>as_Chunks := cw_chunkIdx cw, as_BytesUncompressed := of_nat (length out),
                              as_BytesCompressed := cw_totalWritten cw\<rparr>\<rparr>))))"

end
