(* ===== verification/DiffMerge.thy ===== *)
theory DiffMerge
  imports DiffApply
begin

text \<open>
  The merge of two stores and the application of its result, on lists: a store is the list of its
  leaf records, \<open>kv\<close> reads a record's key and value.  The merge compares whole records, so it may
  report a key of both sides as deleted and inserted; applying the changes gives the target all the same.
\<close>

section \<open>Changes\<close>

datatype change = Ins bytes bytes | Upd bytes bytes | Del bytes

fun ch_key :: "change \<Rightarrow> bytes" where
  "ch_key (Ins k v) = k"
| "ch_key (Upd k v) = k"
| "ch_key (Del k) = k"

fun merge_leaves :: "(bytes \<Rightarrow> bytes \<times> bytes) \<Rightarrow> bytes list \<Rightarrow> bytes list \<Rightarrow> change list" where
  "merge_leaves kv [] [] = []"
| "merge_leaves kv [] (t # ts) = Ins (fst (kv t)) (snd (kv t)) # merge_leaves kv [] ts"
| "merge_leaves kv (b # bs) [] = Del (fst (kv b)) # merge_leaves kv bs []"
| "merge_leaves kv (b # bs) (t # ts) =
     (if b = t then merge_leaves kv bs ts
      else if fst (kv b) = fst (kv t) then Upd (fst (kv b)) (snd (kv t)) # merge_leaves kv bs ts
      else if b < t then Del (fst (kv b)) # merge_leaves kv bs (t # ts)
      else Ins (fst (kv t)) (snd (kv t)) # merge_leaves kv (b # bs) ts)"

text \<open>What the changes say of one key, by what the two sides hold for it.\<close>

fun key_changes :: "bytes \<Rightarrow> bytes option \<Rightarrow> bytes option \<Rightarrow> change set \<Rightarrow> bool" where
  "key_changes k None None S = (S = {})"
| "key_changes k None (Some v) S = (S = {Ins k v})"
| "key_changes k (Some v) None S = (S = {Del k})"
| "key_changes k (Some v) (Some v') S = (S = {Ins k v', Del k} \<or> S = {Upd k v'} \<or> S = {} \<and> v = v')"

definition about :: "bytes \<Rightarrow> change list \<Rightarrow> change set" where
  "about k M = {c \<in> set M. ch_key c = k}"

lemma about_simps [simp]: "about k [] = {}" "about k (c # M) = (if ch_key c = k then insert c (about k M) else about k M)"
  by (auto simp: about_def)

lemma key_changes_Ins: "key_changes k b t S \<Longrightarrow> Ins k u \<in> S \<Longrightarrow> Ins k v \<in> S \<Longrightarrow> u = v"
  by (cases b; cases t) auto

lemma map_of_kv_None: "map_of (map kv rs) k = None \<longleftrightarrow> k \<notin> (fst \<circ> kv) ` set rs"
  by (simp add: map_of_eq_None_iff image_image comp_def)

lemma merge_leaves_changes:
  assumes "distinct (map (fst \<circ> kv) bs)" and "distinct (map (fst \<circ> kv) ts)"
  shows "key_changes k (map_of (map kv bs) k) (map_of (map kv ts) k) (about k (merge_leaves kv bs ts))"
  using assms
proof (induction kv bs ts rule: merge_leaves.induct)
  case (2 kv t ts)
  then have "map_of (map kv ts) (fst (kv t)) = None" by (simp add: map_of_kv_None)
  with 2 show ?case by (cases "kv t") (auto split: if_splits)
next
  case (3 kv b bs)
  then have "map_of (map kv bs) (fst (kv b)) = None" by (simp add: map_of_kv_None)
  with 3 show ?case by (cases "kv b") (auto split: if_splits)
next
  case (4 kv b bs t ts)
  have nb: "map_of (map kv bs) (fst (kv b)) = None" and nt: "map_of (map kv ts) (fst (kv t)) = None"
    using 4(5,6) by (simp_all add: map_of_kv_None)
  obtain kb vb kt vt where eqs: "kv b = (kb, vb)" "kv t = (kt, vt)" by (metis surj_pair)
  consider (same) "b = t" | (upd) "b \<noteq> t" "kb = kt" | (del) "b \<noteq> t" "kb \<noteq> kt" "b < t" | (ins) "b \<noteq> t" "kb \<noteq> kt" "\<not> b < t"
    by blast
  then show ?case
  proof cases
    case same
    with 4 nb nt eqs show ?thesis by (cases "k = kb") auto
  next
    case upd
    with 4 nb nt eqs show ?thesis by (cases "k = kb") auto
  next
    case del
    with 4 have "key_changes k (map_of (map kv bs) k) (map_of (map kv (t # ts)) k) (about k (merge_leaves kv bs (t # ts)))"
      using eqs by simp
    with del nb eqs show ?thesis by (cases "k = kb"; cases "map_of (map kv (t # ts)) k") (auto split: if_splits)
  next
    case ins
    with 4 have "key_changes k (map_of (map kv (b # bs)) k) (map_of (map kv ts) k) (about k (merge_leaves kv (b # bs) ts))"
      using eqs by simp
    with ins nt eqs show ?thesis by (cases "k = kt"; cases "map_of (map kv (b # bs)) k") (auto split: if_splits)
  qed
qed simp

section \<open>Collecting the changes\<close>

fun ch_step :: "storeChanges \<Rightarrow> change \<Rightarrow> storeChanges" where
  "ch_step ch (Ins k v) = ch\<lparr>sc_inserts := AList.update k v (sc_inserts ch)\<rparr>"
| "ch_step ch (Upd k v) = ch\<lparr>sc_updates := AList.update k v (sc_updates ch)\<rparr>"
| "ch_step ch (Del k) = ch\<lparr>sc_deletes := List.insert k (sc_deletes ch)\<rparr>"

definition collect :: "storeChanges \<Rightarrow> change list \<Rightarrow> storeChanges" where
  "collect ch M = foldl ch_step ch M"

lemma collect_simps [simp]: "collect ch [] = ch" "collect ch (c # M) = collect (ch_step ch c) M"
  by (simp_all add: collect_def)

lemma collect_deletes: "k \<in> set (sc_deletes (collect ch M)) \<longleftrightarrow> k \<in> set (sc_deletes ch) \<or> Del k \<in> about k M"
proof (induction M arbitrary: ch)
  case (Cons c M)
  show ?case using Cons.IH [of "ch_step ch c"] by (cases c) auto
qed simp

lemma collect_inserts:
  "map_of (sc_inserts (collect ch M)) k = Some v \<Longrightarrow> map_of (sc_inserts ch) k = Some v \<or> Ins k v \<in> about k M"
  "map_of (sc_inserts (collect ch M)) k = None \<longleftrightarrow> map_of (sc_inserts ch) k = None \<and> (\<forall>v. Ins k v \<notin> about k M)"
proof (induction M arbitrary: ch)
  case (Cons c M)
  { case 1 with Cons.IH(1) [of "ch_step ch c"] show ?case by (cases c) (auto simp: update_conv split: if_splits) }
  { case 2 show ?case using Cons.IH(2) [of "ch_step ch c"] by (cases c) (auto simp: update_conv) }
qed auto

lemma collect_updates:
  "map_of (sc_updates (collect ch M)) k = Some v \<Longrightarrow> map_of (sc_updates ch) k = Some v \<or> Upd k v \<in> about k M"
  "map_of (sc_updates (collect ch M)) k = None \<longleftrightarrow> map_of (sc_updates ch) k = None \<and> (\<forall>v. Upd k v \<notin> about k M)"
proof (induction M arbitrary: ch)
  case (Cons c M)
  { case 1 with Cons.IH(1) [of "ch_step ch c"] show ?case by (cases c) (auto simp: update_conv split: if_splits) }
  { case 2 show ?case using Cons.IH(2) [of "ch_step ch c"] by (cases c) (auto simp: update_conv) }
qed auto

lemma collect_distinct: "distinct (map fst (sc_inserts ch)) \<Longrightarrow> distinct (map fst (sc_inserts (collect ch M)))"
proof (induction M arbitrary: ch)
  case (Cons c M)
  then show ?case by (cases c) (auto simp: distinct_update)
qed simp

section \<open>Applying the changes\<close>

definition base_leaf :: "storeChanges option \<Rightarrow> bytes \<Rightarrow> bytes \<Rightarrow> (bytes \<times> bytes) list" where
  "base_leaf ch k v = (case ch of
       None \<Rightarrow> [(k, v)]
     | Some ch \<Rightarrow> if k \<in> set (sc_deletes ch) then []
         else case map_of (sc_updates ch) k of Some u \<Rightarrow> [(k, u)] | None \<Rightarrow> [(k, v)])"

definition new_leaf :: "storeChanges option \<Rightarrow> bytes \<Rightarrow> bytes \<times> bytes" where
  "new_leaf ch k = (k, case ch of None \<Rightarrow> [] | Some ch \<Rightarrow> nil_bytes (map_of (sc_inserts ch) k))"

lemma fst_new_leaf [simp]: "fst (new_leaf ch k) = k"
  by (simp add: new_leaf_def)

lemma fst_base_leaf: "x \<in> set (base_leaf ch k v) \<Longrightarrow> fst x = k"
  by (auto simp: base_leaf_def split: option.splits if_splits)

fun weave :: "storeChanges option \<Rightarrow> (bytes \<times> bytes) list \<Rightarrow> bytes list \<Rightarrow> (bytes \<times> bytes) list" where
  "weave ch [] [] = []"
| "weave ch [] (ik # ks) = new_leaf ch ik # weave ch [] ks"
| "weave ch ((k, v) # bs) [] = base_leaf ch k v @ weave ch bs []"
| "weave ch ((k, v) # bs) (ik # ks) =
     (if k < ik then base_leaf ch k v @ weave ch bs (ik # ks)
      else if ik < k then new_leaf ch ik # weave ch ((k, v) # bs) ks
      else base_leaf ch k v @ new_leaf ch ik # weave ch bs ks)"

lemma set_weave: "set (weave ch bs ks) = (\<Union>(k, v) \<in> set bs. set (base_leaf ch k v)) \<union> new_leaf ch ` set ks"
  by (induction ch bs ks rule: weave.induct) auto

lemma in_weave:
  "(k, v) \<in> set (weave ch bs ks) \<longleftrightarrow> (\<exists>u. (k, u) \<in> set bs \<and> (k, v) \<in> set (base_leaf ch k u)) \<or> k \<in> set ks \<and> (k, v) = new_leaf ch k"
proof -
  have "(k, v) \<in> new_leaf ch ` set ks \<longleftrightarrow> k \<in> set ks \<and> (k, v) = new_leaf ch k"
    by (auto simp: new_leaf_def)
  moreover have "(k, v) \<in> set (base_leaf ch k' u) \<Longrightarrow> k' = k" for k' u
    using fst_base_leaf [of "(k, v)" ch k' u] by simp
  ultimately show ?thesis unfolding set_weave by blast
qed

lemma keys_weave: "x \<in> set (weave ch bs ks) \<Longrightarrow> fst x \<in> fst ` set bs \<union> set ks"
proof (induction ch bs ks rule: weave.induct)
  case (4 ch k v bs ik ks)
  then show ?case by (auto split: if_splits dest: fst_base_leaf)
qed (auto dest: fst_base_leaf)

lemma length_base_leaf: "base_leaf ch k v = [] \<or> (\<exists>u. base_leaf ch k v = [(k, u)])"
  by (auto simp: base_leaf_def split: option.splits)

lemma sorted_base_leaf:
  "sorted_wrt (<) (map fst xs) \<Longrightarrow> (\<And>x. x \<in> set xs \<Longrightarrow> k < fst x) \<Longrightarrow> sorted_wrt (<) (map fst (base_leaf ch k v) @ map fst xs)"
  using length_base_leaf [of ch k v] by auto

lemma sorted_weave:
  assumes "sorted_wrt (<) (map fst bs)" and "sorted_wrt (<) ks" and "\<And>k v. (k, v) \<in> set bs \<Longrightarrow> k \<in> set ks \<Longrightarrow> base_leaf ch k v = []"
  shows "sorted_wrt (<) (map fst (weave ch bs ks))"
  using assms
proof (induction ch bs ks rule: weave.induct)
  case (2 ch ik ks)
  then show ?case by (auto dest: keys_weave)
next
  case (3 ch k v bs)
  then show ?case by (auto intro!: sorted_base_leaf dest!: keys_weave)
next
  case (4 ch k v bs ik ks)
  consider "k < ik" | "ik < k" | "k = ik" by (meson linorder_less_linear)
  then show ?case
  proof cases
    case 1
    with 4 show ?thesis by (auto intro!: sorted_base_leaf dest!: keys_weave intro: less_trans)
  next
    case 2
    have "ik < fst x" if "x \<in> set (weave ch ((k, v) # bs) ks)" for x
      using keys_weave [OF that] 4(5) 4(4) 2 by (auto intro: less_trans)
    with 2 4 show ?thesis by simp
  next
    case 3
    have "ik < fst x" if "x \<in> set (weave ch bs ks)" for x
      using keys_weave [OF that] 4(5) 4(4) 3 by auto
    with 3 4 show ?thesis by simp
  qed
qed simp

lemma sorted_pairs_unique:
  assumes "sorted_wrt (<) (map fst xs)" "sorted_wrt (<) (map fst ys)" "set xs = set (ys :: (bytes \<times> bytes) list)"
  shows "xs = ys"
proof -
  have keys: "map fst xs = map fst ys" using assms by (intro strict_sorted_equal) auto
  have "distinct (map fst ys)" using assms(2) strict_sorted_iff by blast
  then have inj: "inj_on fst (set ys)" by (simp add: distinct_map)
  show ?thesis
  proof (rule nth_equalityI)
    show len: "length xs = length ys" using keys by (metis length_map)
    fix i assume i: "i < length xs"
    then have "fst (xs ! i) = fst (ys ! i)" using keys len by (metis nth_map)
    moreover have "xs ! i \<in> set ys" "ys ! i \<in> set ys" using i len assms(3) by (metis nth_mem)+
    ultimately show "xs ! i = ys ! i" using inj by (auto dest: inj_onD)
  qed
qed

theorem apply_merge:
  assumes b: "sorted_wrt (<) (map (fst \<circ> kv) bs)" and t: "sorted_wrt (<) (map (fst \<circ> kv) ts)"
  defines "ch \<equiv> collect newStoreChanges (merge_leaves kv bs ts)"
  shows "weave (Some ch) (map kv bs) (sort (map fst (sc_inserts ch))) = map kv ts"
proof (rule sorted_pairs_unique)
  let ?M = "merge_leaves kv bs ts" and ?ks = "sort (map fst (sc_inserts ch))"
  have db: "distinct (map (fst \<circ> kv) bs)" and dt: "distinct (map (fst \<circ> kv) ts)" using b t strict_sorted_iff by blast+
  note M = merge_leaves_changes [OF db dt]
  have db': "distinct (map fst (map kv bs))" and dt': "distinct (map fst (map kv ts))" using db dt by simp_all
  have ins: "map_of (sc_inserts ch) k = Some v \<Longrightarrow> Ins k v \<in> about k ?M" "map_of (sc_inserts ch) k = None \<longleftrightarrow> (\<forall>v. Ins k v \<notin> about k ?M)" for k v
    using collect_inserts [of newStoreChanges ?M k] by (auto simp: ch_def newStoreChanges_def)
  have upd: "map_of (sc_updates ch) k = Some v \<Longrightarrow> Upd k v \<in> about k ?M" "map_of (sc_updates ch) k = None \<longleftrightarrow> (\<forall>v. Upd k v \<notin> about k ?M)" for k v
    using collect_updates [of newStoreChanges ?M k] by (auto simp: ch_def newStoreChanges_def)
  have del: "k \<in> set (sc_deletes ch) \<longleftrightarrow> Del k \<in> about k ?M" for k
    using collect_deletes [of k newStoreChanges ?M] by (simp add: ch_def newStoreChanges_def)
  have ks: "k \<in> set ?ks \<longleftrightarrow> (\<exists>v. Ins k v \<in> about k ?M)" for k
    using ins(2) [of k] by (auto simp: map_of_eq_None_iff)
  have both: "base_leaf (Some ch) k v = (if Del k \<in> about k ?M then [] else if \<exists>u. Upd k u \<in> about k ?M then [(k, the (map_of (map kv ts) k))] else [(k, v)])"
    if "map_of (map kv bs) k = Some v" for k v
    using M [of k] that upd [of k] by (cases "map_of (map kv ts) k"; cases "map_of (sc_updates ch) k") (auto simp: base_leaf_def del)
  have new: "new_leaf (Some ch) k = (k, v)" if i: "Ins k v \<in> about k ?M" for k v
  proof -
    obtain u where u: "map_of (sc_inserts ch) k = Some u" using ins(2) [of k] i by auto
    have "Ins k u \<in> about k ?M" using u by (rule ins(1))
    then have "u = v" using i key_changes_Ins [OF M [of k]] by blast
    with u show ?thesis by (simp add: new_leaf_def nil_bytes_def)
  qed
  show "sorted_wrt (<) (map fst (weave (Some ch) (map kv bs) ?ks))"
  proof (rule sorted_weave)
    show "sorted_wrt (<) (map fst (map kv bs))" using b by simp
    have "distinct (map fst (sc_inserts ch))" unfolding ch_def by (rule collect_distinct) (simp add: newStoreChanges_def)
    then show "sorted_wrt (<) ?ks" by (simp add: strict_sorted_iff)
    fix k v assume "(k, v) \<in> set (map kv bs)" and "k \<in> set ?ks"
    then have "map_of (map kv bs) k = Some v" "\<exists>v. Ins k v \<in> about k ?M" using db' ks by (auto intro: map_of_is_SomeI)
    then show "base_leaf (Some ch) k v = []" using both [of k v] M [of k] by (cases "map_of (map kv ts) k") auto
  qed
  show "sorted_wrt (<) (map fst (map kv ts))" using t by simp
  show "set (weave (Some ch) (map kv bs) ?ks) = set (map kv ts)"
  proof (rule set_eqI)
    fix x :: "bytes \<times> bytes"
    obtain k v where x: "x = (k, v)" by (cases x)
    have bs: "(k, u) \<in> set (map kv bs) \<longleftrightarrow> map_of (map kv bs) k = Some u" for u using db' by (simp add: map_of_eq_Some_iff)
    have ts: "(k, u) \<in> set (map kv ts) \<longleftrightarrow> map_of (map kv ts) k = Some u" for u using dt' by (simp add: map_of_eq_Some_iff)
    have "x \<in> set (weave (Some ch) (map kv bs) ?ks) \<longleftrightarrow>
        (\<exists>u. map_of (map kv bs) k = Some u \<and> x \<in> set (base_leaf (Some ch) k u)) \<or> (k \<in> set ?ks \<and> x = new_leaf (Some ch) k)"
      unfolding x in_weave using bs by simp
    also have "\<dots> \<longleftrightarrow> map_of (map kv ts) k = Some v"
      using M [of k] both [of k] new [of k] ks [of k] x
      by (cases "map_of (map kv bs) k"; cases "map_of (map kv ts) k") auto
    finally show "x \<in> set (weave (Some ch) (map kv bs) ?ks) \<longleftrightarrow> x \<in> set (map kv ts)" using ts x by simp
  qed
qed

end
