(* ===== verification/DiffSim.thy ===== *)
theory DiffSim
  imports DiffMerge
begin

unbundle bit_operations_syntax

text \<open>
  The readers and loops of the differ on well-formed streams: each loop is related to a function on
  the lists of leaves, stores and extensions a stream encodes.
\<close>

section \<open>Records\<close>

definition one_rec :: "nat \<times> bytes \<Rightarrow> bytes" where
  "one_rec r = buildOneOfMessage (fst r) [snd r]"

definition recs_wire :: "(nat \<times> bytes) list \<Rightarrow> bytes" where
  "recs_wire rs = concat (map (\<lambda>r. PutUvarint (of_nat (length (one_rec r))) @ one_rec r) rs)"

definition rec_fits :: "nat \<times> bytes \<Rightarrow> bool" where
  "rec_fits r \<longleftrightarrow> fst r < 32 \<and> msg_fits (snd r)"

lemma recs_wire_simps [simp]:
  "recs_wire [] = []" "recs_wire (r # rs) = PutUvarint (of_nat (length (one_rec r))) @ one_rec r @ recs_wire rs"
  "recs_wire (rs @ rs') = recs_wire rs @ recs_wire rs'"
  by (simp_all add: recs_wire_def)

lemma emitRecord_wire [simp]: "emitRecord out (buildOneOfMessage t fs) = out @ recs_wire [(t, concat fs)]"
  by (simp add: emitRecord_def recs_wire_def one_rec_def buildOneOfMessage_def length_concat Let_def)

lemma one_rec_shape:
  assumes "rec_fits (t, b)"
  defines "rec \<equiv> one_rec (t, b)" and "l \<equiv> length (PutUvarint (of_nat (length b)))"
  shows "drop_bit 3 (hd rec) = of_nat t" and "Uvarint (tl rec) = (of_nat (length b), int l)"
    and "length rec = 1 + l + length b" and "take (length b) (drop (Suc l) rec) = b" and "0 < l"
    and "sint (of_nat (length b) :: u64) = int (length b)" and "item_fits rec"
proof -
  have t: "t < 32" and b: "length b < 2 ^ 47" using assms(1) by (simp_all add: rec_fits_def msg_fits_def)
  show "drop_bit 3 (hd rec) = of_nat t" using drop_bit_field_tag [OF t] by (simp add: rec_def one_rec_def buildOneOfMessage_def)
  show l: "0 < l" using length_PutUvarint(1) by (simp add: l_def)
  show len: "length rec = 1 + l + length b" by (simp add: rec_def one_rec_def buildOneOfMessage_def l_def)
  show "sint (of_nat (length b) :: u64) = int (length b)" using b by (intro sint_of_nat_u64) simp
  have "l \<le> 10" by (simp add: l_def length_PutUvarint)
  then show "item_fits rec" using len b l by (auto simp: item_fits_def)
qed (simp_all add: rec_def l_def one_rec_def buildOneOfMessage_def)

section \<open>The snapshot reader\<close>

definition reads :: "storeReader \<Rightarrow> (nat \<times> bytes) list \<Rightarrow> bool" where
  "reads s rs \<longleftrightarrow> list_all rec_fits rs \<and>
     (case rd_cached s of
        None \<Rightarrow> rd_in s = recs_wire rs
      | Some c \<Rightarrow> \<exists>t b rs'. rs = (t, b) # rs' \<and> c = (of_nat t, b) \<and> rd_in s = recs_wire rs')"

definition reading :: "storeReader \<Rightarrow> bytes \<Rightarrow> (nat \<times> bytes) list \<Rightarrow> bool" where
  "reading s cur rs \<longleftrightarrow> reads s rs \<and> rd_curStore s = cur \<and> rd_extAll s = [] \<and> rd_extName s = []"

lemma peekItem_Nil: "reads s [] \<Longrightarrow> peekItem s = Ok (None, s)"
  by (subst peekItem.simps) (auto simp: reads_def ReadUvarint_def ReadUvarint_loop.simps split: option.splits)

lemma peekItem_Cons:
  assumes "reads s ((t, b) # rs)"
  shows "peekItem s = Ok (Some (of_nat t, b), s\<lparr>rd_in := recs_wire rs, rd_cached := Some (of_nat t, b)\<rparr>)"
proof (cases "rd_cached s")
  case None
  have fit: "rec_fits (t, b)" and inp: "rd_in s = recs_wire ((t, b) # rs)" using assms None by (simp_all add: reads_def)
  show ?thesis
    using one_rec_shape [OF fit] item_length [OF one_rec_shape(7) [OF fit]] None inp
    by (subst peekItem.simps) (simp add: ReadFull_def Let_def nat_add_distrib)
next
  case (Some c)
  then have "s\<lparr>rd_in := recs_wire rs, rd_cached := Some (of_nat t, b)\<rparr> = s" "c = (of_nat t, b)"
    using assms by (auto simp: reads_def)
  with Some show ?thesis by (subst peekItem.simps) simp
qed

lemma reads_after:
  "reads s (r # rs) \<Longrightarrow> reads (consumeItem (s\<lparr>rd_in := recs_wire rs, rd_cached := c\<rparr>)) rs"
  "reads s ((t, b) # rs) \<Longrightarrow> reads (s\<lparr>rd_in := recs_wire rs, rd_cached := Some (of_nat t, b)\<rparr>) ((t, b) # rs)"
  by (auto simp: reads_def consumeItem_def)

lemma reads_frame [simp]:
  "reads (s\<lparr>rd_curStore := n\<rparr>) rs = reads s rs" "reads (s\<lparr>rd_extName := n\<rparr>) rs = reads s rs"
  "reads (s\<lparr>rd_extFormat := f\<rparr>) rs = reads s rs" "reads (s\<lparr>rd_extAll := a\<rparr>) rs = reads s rs"
  by (simp_all add: reads_def cong: option.case_cong)

lemma consumeItem_frame [simp]:
  "consumeItem (s\<lparr>rd_curStore := n\<rparr>) = (consumeItem s)\<lparr>rd_curStore := n\<rparr>"
  "consumeItem (s\<lparr>rd_extName := n\<rparr>) = (consumeItem s)\<lparr>rd_extName := n\<rparr>"
  "consumeItem (s\<lparr>rd_extFormat := f\<rparr>) = (consumeItem s)\<lparr>rd_extFormat := f\<rparr>"
  "consumeItem (s\<lparr>rd_extAll := a\<rparr>) = (consumeItem s)\<lparr>rd_extAll := a\<rparr>"
  "rd_curStore (consumeItem s) = rd_curStore s" "rd_extName (consumeItem s) = rd_extName s" "rd_extAll (consumeItem s) = rd_extAll s"
  by (simp_all add: consumeItem_def)

lemma reading_frame [simp]: "reading (s\<lparr>rd_curStore := n\<rparr>) n rs \<longleftrightarrow> reading s (rd_curStore s) rs"
  by (simp add: reading_def)

lemma peek_reading:
  assumes "reading s cur ((t, b) # rs)"
  obtains s' where "peekItem s = Ok (Some (of_nat t, b), s')" "reading s' cur ((t, b) # rs)" "reading (consumeItem s') cur rs"
  using that [OF peekItem_Cons] assms reads_after [of s] by (auto simp: reading_def)

lemma peek_reading_Nil: "reading s cur [] \<Longrightarrow> peekItem s = Ok (None, s)"
  by (simp add: reading_def peekItem_Nil)

lemma reading_cur: "reading s cur rs \<Longrightarrow> rd_curStore s = cur"
  by (simp add: reading_def)

lemma reading_new: "list_all rec_fits rs \<Longrightarrow> reading (newStoreReader (recs_wire rs)) [] rs"
  by (simp add: reading_def reads_def newStoreReader_def)

section \<open>Snapshots\<close>

definition item_recs :: "snapItem list \<Rightarrow> (nat \<times> bytes) list" where
  "item_recs its = map (\<lambda>it. (item_type it, item_msg it)) its"

lemma item_recs_simps [simp]:
  "item_recs [] = []" "item_recs (it # its) = (item_type it, item_msg it) # item_recs its" "item_recs (xs @ ys) = item_recs xs @ item_recs ys"
  by (simp_all add: item_recs_def)

definition is_node :: "snapItem \<Rightarrow> bool" where
  "is_node it = (case it of IAVLItem k v ver h \<Rightarrow> True | _ \<Rightarrow> False)"

definition is_leaf :: "snapItem \<Rightarrow> bool" where
  "is_leaf it = (case it of IAVLItem k v ver h \<Rightarrow> h = 0 | _ \<Rightarrow> False)"

definition leaf_msgs :: "snapItem list \<Rightarrow> bytes list" where
  "leaf_msgs ns = map item_msg (filter is_leaf ns)"

text \<open>The key and value of a leaf record.\<close>

definition rec_kv :: "bytes \<Rightarrow> bytes \<times> bytes" where
  "rec_kv r = (case parseIAVLKeyValue r of Some (Ok kv) \<Rightarrow> kv | _ \<Rightarrow> ([], []))"

definition stores_over :: "(nat \<times> bytes) list \<Rightarrow> bool" where
  "stores_over rs \<longleftrightarrow> rs = [] \<or> fst (hd rs) = 1 \<or> fst (hd rs) = 3 \<or> fst (hd rs) = 4"

definition leaf_rec :: "bytes \<Rightarrow> bool" where
  "leaf_rec r \<longleftrightarrow> parseIAVLKeyValue r = Some (Ok (rec_kv r)) \<and>
     protoBytes r 1 = Some (Ok (fst (rec_kv r))) \<and> protoBytes r 2 = Some (Ok (snd (rec_kv r)))"

lemma length_opt_bytes: "length (enc_fields (opt_bytes n b)) \<ge> length b"
  by (simp add: opt_bytes_def enc_fields_def appendBytesField_def)

lemma length_rec_kv:
  assumes "is_node it" and "msg_fits (item_msg it)"
  shows "length (fst (rec_kv (item_msg it))) \<le> length (item_msg it)" "length (snd (rec_kv (item_msg it))) \<le> length (item_msg it)"
proof -
  obtain k v ver h where it: "it = IAVLItem k v ver h" using assms(1) by (auto simp: is_node_def split: snapItem.splits)
  have kv: "rec_kv (item_msg it) = (nil_bytes k, nil_bytes v)" using parse_IAVLItem(1) assms(2) it by (simp add: rec_kv_def)
  show "length (fst (rec_kv (item_msg it))) \<le> length (item_msg it)" "length (snd (rec_kv (item_msg it))) \<le> length (item_msg it)"
    using kv length_opt_bytes [of "nil_bytes k" 1] length_opt_bytes [of "nil_bytes v" 2] by (simp_all add: item_msg_def it enc_fields_def)
qed

lemma leaf_rec_item:
  assumes "msg_fits (item_msg it)" and "is_node it"
  shows "leaf_rec (item_msg it)" "isLeafIAVL (item_msg it) = Some (Ok (is_leaf it))"
proof -
  obtain k v ver h where it: "it = IAVLItem k v ver h" using assms(2) by (auto simp: is_node_def split: snapItem.splits)
  have kv: "rec_kv (item_msg it) = (nil_bytes k, nil_bytes v)" using parse_IAVLItem(1) assms(1) it by (simp add: rec_kv_def)
  have fb: "nil_bytes (find_bytes 1 (item_fields it)) = nil_bytes k" "nil_bytes (find_bytes 2 (item_fields it)) = nil_bytes v"
    by (auto simp: it opt_defs split: option.splits)
  show "leaf_rec (item_msg it)"
    using kv fb parse_IAVLItem(1) parseProto_enc(1) [OF item_fields_ok [of it]] assms(1) it
    by (simp add: leaf_rec_def protoBytes_def item_msg_def msg_fits_def)
  show "isLeafIAVL (item_msg it) = Some (Ok (is_leaf it))" using parse_IAVLItem(2) assms(1) it by (simp add: is_leaf_def)
qed

lemma leaf_msgs_simps [simp]: "leaf_msgs [] = []" "leaf_msgs (it # ns) = (if is_leaf it then item_msg it # leaf_msgs ns else leaf_msgs ns)"
  by (simp_all add: leaf_msgs_def)

section \<open>One side of a store\<close>

text \<open>A side after \<open>advanceLeaf\<close>: the record in hand and the leaves left, followed by \<open>rest\<close>.\<close>

definition side_at :: "bytes \<Rightarrow> storeReader \<Rightarrow> bytes option \<Rightarrow> bytes list \<Rightarrow> (nat \<times> bytes) list \<Rightarrow> bool" where
  "side_at name s rec ls rest \<longleftrightarrow>
     (case rec of
        None \<Rightarrow> ls = [] \<and> reading s [] rest
      | Some l \<Rightarrow> leaf_rec l \<and> stores_over rest \<and>
          (\<exists>ns. reading s name (item_recs ns @ rest) \<and> list_all is_node ns \<and> ls = l # leaf_msgs ns))"

lemma reading_fits: "reading s cur rs \<Longrightarrow> list_all rec_fits rs"
  by (simp add: reading_def reads_def)

lemma advanceLeaf_side:
  assumes "reading s name (item_recs ns @ rest)" and "list_all is_node ns" and "stores_over rest"
  shows "\<exists>rec s'. advanceLeaf name s = Some (Ok (rec, s')) \<and> side_at name s' rec (leaf_msgs ns) rest"
  using assms
proof (induction ns arbitrary: s)
  case empty: Nil
  show ?case
  proof (cases rest)
    case Nil
    then have rd: "reading s name []" using empty.prems by simp
    have "reading (s\<lparr>rd_curStore := []\<rparr>) [] []" using rd by (simp add: reading_def)
    then show ?thesis using Nil rd peek_reading_Nil [OF rd]
      by (subst advanceLeaf.simps) (simp add: readNextItemInStoreRaw_def reading_cur side_at_def)
  next
    case (Cons r rs)
    obtain t b where r: "r = (t, b)" by (cases r)
    have rd: "reading s name ((t, b) # rs)" and t: "t = 1 \<or> t = 3 \<or> t = 4" using empty.prems Cons r by (simp_all add: stores_over_def)
    from peek_reading [OF rd] obtain s' where s': "peekItem s = Ok (Some (of_nat t, b), s')" "reading s' name ((t, b) # rs)" by blast
    have "of_nat t \<noteq> (2 :: byte)" "of_nat t = (1 :: byte) \<or> of_nat t = (3 :: byte) \<or> of_nat t = (4 :: byte)" using t by auto
    moreover have "reading (s'\<lparr>rd_curStore := []\<rparr>) [] ((t, b) # rs)" using s'(2) by (simp add: reading_def)
    moreover have "readNextItemInStoreRaw s name = Ok (True, None, s'\<lparr>rd_curStore := []\<rparr>)"
      using s'(1) reading_cur [OF rd] calculation(1,2) by (simp add: readNextItemInStoreRaw_def)
    ultimately show ?thesis using Cons r by (subst advanceLeaf.simps) (simp add: side_at_def)
  qed
next
  case (Cons it ns)
  have rd: "reading s name ((item_type it, item_msg it) # item_recs ns @ rest)" using Cons.prems by simp
  have node: "is_node it" and ty: "item_type it = 2" using Cons.prems(2) by (auto simp: is_node_def split: snapItem.splits)
  have fit: "msg_fits (item_msg it)" using reading_fits [OF rd] by (simp add: rec_fits_def)
  from peek_reading [OF rd] obtain s' where
    s': "peekItem s = Ok (Some (of_nat (item_type it), item_msg it), s')" "reading (consumeItem s') name (item_recs ns @ rest)" by blast
  have step: "advanceLeaf name s = (if is_leaf it then Some (Ok (Some (item_msg it), consumeItem s')) else advanceLeaf name (consumeItem s'))"
    using s'(1) rd leaf_rec_item(2) [OF fit node] ty by (subst advanceLeaf.simps) (simp add: readNextItemInStoreRaw_def reading_cur)
  show ?case
  proof (cases "is_leaf it")
    case True
    with step s'(2) Cons.prems leaf_rec_item(1) [OF fit node] show ?thesis by (auto simp: side_at_def)
  next
    case False
    with step Cons.IH [OF s'(2)] Cons.prems show ?thesis by simp
  qed
qed

lemma advanceLeaf_next:
  assumes "side_at name s (Some l) (l # ls) rest"
  shows "\<exists>rec s'. advanceLeaf name s = Some (Ok (rec, s')) \<and> side_at name s' rec ls rest"
proof -
  from assms obtain ns where "reading s name (item_recs ns @ rest)" "list_all is_node ns" "stores_over rest" "ls = leaf_msgs ns"
    by (auto simp: side_at_def)
  with advanceLeaf_side [of s name ns rest] show ?thesis by simp
qed

section \<open>Merging a store\<close>

fun side_opt :: "bytes \<Rightarrow> storeReader option \<Rightarrow> bytes option \<Rightarrow> bytes list \<Rightarrow> (nat \<times> bytes) list \<Rightarrow> bool" where
  "side_opt name None rec ls rest = (rec = None \<and> ls = [])"
| "side_opt name (Some s) rec ls rest = side_at name s rec ls rest"

fun change_rec :: "change \<Rightarrow> nat \<times> bytes" where
  "change_rec (Ins k v) = (tagInsert, encBytesField 1 k @ encBytesField 2 v)"
| "change_rec (Upd k v) = (tagUpdate, encBytesField 1 k @ encBytesField 2 v)"
| "change_rec (Del k) = (tagDelete, encBytesField 1 k)"

text \<open>Both sides of \<open>diffStore\<close>; \<open>sides_kept\<close> says that no reader appears or goes away.\<close>

definition sides_at :: "bytes \<Rightarrow> diffVars \<Rightarrow> bytes list \<Rightarrow> bytes list \<Rightarrow> (nat \<times> bytes) list \<Rightarrow> (nat \<times> bytes) list \<Rightarrow> bool" where
  "sides_at name d bs ts rb rt \<longleftrightarrow>
     side_opt name (dv_base d) (dv_baseRec d) bs rb \<and> side_opt name (dv_target d) (dv_targetRec d) ts rt"

definition sides_kept :: "diffVars \<Rightarrow> diffVars \<Rightarrow> bool" where
  "sides_kept d d' \<longleftrightarrow> (dv_base d = None \<longleftrightarrow> dv_base d' = None) \<and> (dv_target d = None \<longleftrightarrow> dv_target d' = None)"

lemma side_opt_rec:
  "side_opt name r rec [] rest \<Longrightarrow> rec = None"
  "side_opt name r rec (l # ls) rest \<Longrightarrow> rec = Some l \<and> leaf_rec l \<and> r \<noteq> None"
  by (cases r; auto simp: side_at_def split: option.splits)+

lemma advanceBase_next:
  assumes "sides_at name d (b # bs) ts rb rt"
  shows "\<exists>d'. advanceBase name d = Some (Ok d') \<and> sides_at name d' bs ts rb rt \<and> sides_kept d d' \<and> dv_out d' = dv_out d"
proof -
  from assms obtain s where s: "dv_base d = Some s" "side_at name s (Some b) (b # bs) rb"
    using side_opt_rec(2) [of name "dv_base d" "dv_baseRec d" b bs rb] by (cases "dv_base d") (auto simp: sides_at_def)
  from advanceLeaf_next [OF s(2)] s(1) assms show ?thesis
    by (auto simp: advanceBase_def sides_at_def sides_kept_def)
qed

lemma advanceTarget_next:
  assumes "sides_at name d bs (t # ts) rb rt"
  shows "\<exists>d'. advanceTarget name d = Some (Ok d') \<and> sides_at name d' bs ts rb rt \<and> sides_kept d d' \<and> dv_out d' = dv_out d"
proof -
  from assms obtain s where s: "dv_target d = Some s" "side_at name s (Some t) (t # ts) rt"
    using side_opt_rec(2) [of name "dv_target d" "dv_targetRec d" t ts rt] by (cases "dv_target d") (auto simp: sides_at_def)
  from advanceLeaf_next [OF s(2)] s(1) assms show ?thesis
    by (auto simp: advanceTarget_def sides_at_def sides_kept_def)
qed

lemma emit_frame [simp]:
  "sides_at name (emitInsert k v d) bs ts rb rt = sides_at name d bs ts rb rt" "sides_kept (emitInsert k v d) d' = sides_kept d d'"
  "sides_at name (emitUpdate k v d) bs ts rb rt = sides_at name d bs ts rb rt" "sides_kept (emitUpdate k v d) d' = sides_kept d d'"
  "sides_at name (emitDelete k d) bs ts rb rt = sides_at name d bs ts rb rt" "sides_kept (emitDelete k d) d' = sides_kept d d'"
  by (simp_all add: sides_at_def sides_kept_def emitInsert_def emitUpdate_def emitDelete_def)

lemma emit_out [simp]:
  "dv_out (emitInsert k v d) = dv_out d @ recs_wire [change_rec (Ins k v)]"
  "dv_out (emitUpdate k v d) = dv_out d @ recs_wire [change_rec (Upd k v)]"
  "dv_out (emitDelete k d) = dv_out d @ recs_wire [change_rec (Del k)]"
  by (simp_all add: emitInsert_def emitUpdate_def emitDelete_def del: recs_wire_simps)

lemma sides_kept_trans: "sides_kept a b \<Longrightarrow> sides_kept b c \<Longrightarrow> sides_kept a c"
  by (simp add: sides_kept_def)

text \<open>One step of the merge, with what is left of both sides.\<close>

lemma bytesCompare_less: "bytesCompare a b < 0 \<longleftrightarrow> a < b"
  by (induction a b rule: bytesCompare.induct) auto

lemma bytesCompare_greater: "bytesCompare a b > 0 \<longleftrightarrow> b < a"
  by (induction a b rule: bytesCompare.induct) auto

lemma advance_both:
  assumes "sides_at name d (b # bs) (t # ts) rb rt"
  shows "\<exists>d'. go_bind (advanceBase name d) (advanceTarget name) = Some (Ok d') \<and> sides_at name d' bs ts rb rt \<and> sides_kept d d' \<and> dv_out d' = dv_out d"
proof -
  from advanceBase_next [OF assms] obtain d1 where d1: "advanceBase name d = Some (Ok d1)" "sides_at name d1 bs (t # ts) rb rt"
    "sides_kept d d1" "dv_out d1 = dv_out d" by blast
  from advanceTarget_next [OF d1(2)] d1 sides_kept_trans show ?thesis by fastforce
qed

lemma diffStore_loop_merges:
  assumes "sides_at name d bs ts rb rt"
  shows "\<exists>d'. diffStore_loop name d = Some (Ok d') \<and> sides_at name d' [] [] rb rt \<and> sides_kept d d' \<and>
    dv_out d' = dv_out d @ recs_wire (map change_rec (merge_leaves rec_kv bs ts))"
  using assms
proof (induction rec_kv bs ts arbitrary: d rule: merge_leaves.induct)
  case 1
  have "dv_baseRec d = None" "dv_targetRec d = None" using "1.prems" by (auto simp: sides_at_def dest: side_opt_rec)
  with "1.prems" show ?case by (subst diffStore_loop.simps) (simp add: sides_kept_def)
next
  case (2 t ts)
  have r: "dv_baseRec d = None" "dv_targetRec d = Some t" "leaf_rec t" using "2.prems" by (auto simp: sides_at_def dest: side_opt_rec)
  let ?d = "emitInsert (fst (rec_kv t)) (snd (rec_kv t)) d"
  from "2.prems" advanceTarget_next [of name ?d "[]" t ts rb rt] obtain d1 where
    d1: "advanceTarget name ?d = Some (Ok d1)" "sides_at name d1 [] ts rb rt" "sides_kept d d1" "dv_out d1 = dv_out ?d" by auto
  have "diffStore_loop name d = diffStore_loop name d1"
    using r d1(1) by (subst diffStore_loop.simps) (simp add: leaf_rec_def case_prod_beta del: recs_wire_simps emit_out)
  with "2.hyps" [OF d1(2)] d1 show ?case by (fastforce intro: sides_kept_trans)
next
  case (3 b bs)
  have r: "dv_baseRec d = Some b" "dv_targetRec d = None" "leaf_rec b" using "3.prems" by (auto simp: sides_at_def dest: side_opt_rec)
  let ?d = "emitDelete (fst (rec_kv b)) d"
  from "3.prems" advanceBase_next [of name ?d b bs "[]" rb rt] obtain d1 where
    d1: "advanceBase name ?d = Some (Ok d1)" "sides_at name d1 bs [] rb rt" "sides_kept d d1" "dv_out d1 = dv_out ?d" by auto
  have "diffStore_loop name d = diffStore_loop name d1"
    using r d1(1) by (subst diffStore_loop.simps) (simp add: leaf_rec_def case_prod_beta del: recs_wire_simps emit_out)
  with "3.hyps" [OF d1(2)] d1 show ?case by (fastforce intro: sides_kept_trans)
next
  case (4 b bs t ts)
  have r: "dv_baseRec d = Some b" "dv_targetRec d = Some t" "leaf_rec b" "leaf_rec t" using "4.prems" by (auto simp: sides_at_def dest: side_opt_rec)
  have loop: "diffStore_loop name d = go_bind (mergeBoth name b t d) (diffStore_loop name)"
    using r by (subst diffStore_loop.simps) simp
  note mb = mergeBoth_def bytesCompare_less leaf_rec_def case_prod_beta Let_def
  consider (same) "b = t" | (upd) "b \<noteq> t" "fst (rec_kv b) = fst (rec_kv t)"
    | (del) "b \<noteq> t" "fst (rec_kv b) \<noteq> fst (rec_kv t)" "b < t" | (ins) "b \<noteq> t" "fst (rec_kv b) \<noteq> fst (rec_kv t)" "\<not> b < t" by blast
  then show ?case
  proof cases
    case same
    from advance_both [OF "4.prems"] obtain d1 where d1: "go_bind (advanceBase name d) (advanceTarget name) = Some (Ok d1)"
      "sides_at name d1 bs ts rb rt" "sides_kept d d1" "dv_out d1 = dv_out d" by blast
    have "diffStore_loop name d = diffStore_loop name d1" using loop d1(1) same by (simp add: mb)
    with "4.hyps"(1) [OF same d1(2)] d1 same show ?thesis by (fastforce intro: sides_kept_trans)
  next
    case upd
    let ?d = "emitUpdate (fst (rec_kv b)) (snd (rec_kv t)) d"
    from "4.prems" advance_both [of name ?d b bs t ts rb rt] obtain d1 where d1: "go_bind (advanceBase name ?d) (advanceTarget name) = Some (Ok d1)"
      "sides_at name d1 bs ts rb rt" "sides_kept d d1" "dv_out d1 = dv_out ?d" by auto
    have "diffStore_loop name d = diffStore_loop name d1" using loop d1(1) upd r by (simp add: mb)
    with "4.hyps"(2) [OF upd d1(2)] d1 upd show ?thesis by (fastforce intro: sides_kept_trans)
  next
    case del
    let ?d = "emitDelete (fst (rec_kv b)) d"
    from "4.prems" advanceBase_next [of name ?d b bs "t # ts" rb rt] obtain d1 where
      d1: "advanceBase name ?d = Some (Ok d1)" "sides_at name d1 bs (t # ts) rb rt" "sides_kept d d1" "dv_out d1 = dv_out ?d" by auto
    have "diffStore_loop name d = diffStore_loop name d1" using loop d1(1) del r by (simp add: mb)
    with "4.hyps"(3) [OF del d1(2)] d1 del show ?thesis by (fastforce intro: sides_kept_trans)
  next
    case ins
    let ?d = "emitInsert (fst (rec_kv t)) (snd (rec_kv t)) d"
    from "4.prems" advanceTarget_next [of name ?d "b # bs" t ts rb rt] obtain d1 where
      d1: "advanceTarget name ?d = Some (Ok d1)" "sides_at name d1 (b # bs) ts rb rt" "sides_kept d d1" "dv_out d1 = dv_out ?d" by auto
    have "diffStore_loop name d = diffStore_loop name d1" using loop d1(1) ins r by (simp add: mb)
    with "4.hyps"(4) [OF ins d1(2)] d1 ins show ?thesis by (fastforce intro: sides_kept_trans)
  qed
qed

section \<open>One store\<close>

text \<open>A side before \<open>diffStore\<close>: no reader, or one at the nodes of the store.\<close>

fun side_start :: "bytes \<Rightarrow> storeReader option \<Rightarrow> snapItem list \<Rightarrow> (nat \<times> bytes) list \<Rightarrow> bool" where
  "side_start name None ns rest = (ns = [])"
| "side_start name (Some s) ns rest = (reading s name (item_recs ns @ rest) \<and> list_all is_node ns \<and> stores_over rest)"

definition store_section :: "bytes \<Rightarrow> bytes list \<Rightarrow> bytes list \<Rightarrow> (nat \<times> bytes) list" where
  "store_section name bs ts = (tagStoreEnter, encStringField 1 name) # map change_rec (merge_leaves rec_kv bs ts) @ [(tagStoreLeave, [])]"

lemma diffStore_section:
  assumes "side_start name br bns rb" and "side_start name tr tns rt"
  shows "\<exists>d. diffStore stats out br tr name = Some (Ok d) \<and> dv_out d = out @ recs_wire (store_section name (leaf_msgs bns) (leaf_msgs tns)) \<and>
    (case br of None \<Rightarrow> dv_base d = None | Some _ \<Rightarrow> \<exists>s. dv_base d = Some s \<and> reading s [] rb) \<and>
    (case tr of None \<Rightarrow> dv_target d = None | Some _ \<Rightarrow> \<exists>s. dv_target d = Some s \<and> reading s [] rt)"
proof -
  define d0 where "d0 = \<lparr>dv_base = br, dv_target = tr, dv_baseRec = None, dv_targetRec = None,
    dv_ss = (case st_PerStore (stats\<lparr>st_Stores := st_Stores stats + 1\<rparr>) name of None \<Rightarrow> zeroStoreStats | Some ss \<Rightarrow> ss),
    dv_stats = stats\<lparr>st_Stores := st_Stores stats + 1\<rparr>, dv_out = emitRecord out (buildOneOfMessage tagStoreEnter [encStringField 1 name])\<rparr>"
  have "\<exists>d1. advanceBase name d0 = Some (Ok d1) \<and> side_opt name (dv_base d1) (dv_baseRec d1) (leaf_msgs bns) rb \<and> (dv_base d1 = None \<longleftrightarrow> br = None) \<and>
      dv_target d1 = tr \<and> dv_targetRec d1 = None \<and> dv_out d1 = dv_out d0"
  proof (cases br)
    case None
    with assms(1) show ?thesis by (simp add: advanceBase_def d0_def)
  next
    case (Some s)
    with assms(1) advanceLeaf_side [of s name bns rb] obtain r s' where "advanceLeaf name s = Some (Ok (r, s'))" "side_at name s' r (leaf_msgs bns) rb"
      by auto
    with Some show ?thesis by (simp add: advanceBase_def d0_def)
  qed
  then obtain d1 where d1: "advanceBase name d0 = Some (Ok d1)" "side_opt name (dv_base d1) (dv_baseRec d1) (leaf_msgs bns) rb"
    "dv_base d1 = None \<longleftrightarrow> br = None" "dv_target d1 = tr" "dv_targetRec d1 = None" "dv_out d1 = dv_out d0"
    by (elim exE conjE) (rule that)
  have "\<exists>d2. advanceTarget name d1 = Some (Ok d2) \<and> sides_at name d2 (leaf_msgs bns) (leaf_msgs tns) rb rt \<and> (dv_target d2 = None \<longleftrightarrow> tr = None) \<and>
      (dv_base d2 = None \<longleftrightarrow> br = None) \<and> dv_out d2 = dv_out d0"
  proof (cases tr)
    case None
    with assms(2) d1 show ?thesis by (simp add: advanceTarget_def sides_at_def)
  next
    case (Some s)
    with assms(2) advanceLeaf_side [of s name tns rt] obtain r s' where "advanceLeaf name s = Some (Ok (r, s'))" "side_at name s' r (leaf_msgs tns) rt"
      by auto
    with Some d1 show ?thesis by (simp add: advanceTarget_def sides_at_def)
  qed
  then obtain d2 where d2: "advanceTarget name d1 = Some (Ok d2)" "sides_at name d2 (leaf_msgs bns) (leaf_msgs tns) rb rt"
    "dv_target d2 = None \<longleftrightarrow> tr = None" "dv_base d2 = None \<longleftrightarrow> br = None" "dv_out d2 = dv_out d0"
    by (elim exE conjE) (rule that)
  from diffStore_loop_merges [OF d2(2)] obtain d3 where d3: "diffStore_loop name d2 = Some (Ok d3)" "sides_at name d3 [] [] rb rt" "sides_kept d2 d3"
    "dv_out d3 = dv_out d2 @ recs_wire (map change_rec (merge_leaves rec_kv (leaf_msgs bns) (leaf_msgs tns)))" by blast
  have run: "diffStore stats out br tr name = Some (Ok (d3\<lparr>dv_out := emitRecord (dv_out d3) (buildOneOfMessage tagStoreLeave []),
      dv_stats := (dv_stats d3)\<lparr>st_PerStore := (st_PerStore (dv_stats d3))(name \<mapsto> dv_ss d3)\<rparr>\<rparr>))"
    unfolding diffStore_def Let_def d0_def [symmetric] d1(1) go_bind_simps d2(1) d3(1) ..
  have base: "case br of None \<Rightarrow> dv_base d3 = None | Some _ \<Rightarrow> \<exists>s. dv_base d3 = Some s \<and> reading s [] rb"
    using d3(2,3) d2(4) by (cases br; cases "dv_base d3") (auto simp: sides_at_def sides_kept_def side_at_def split: option.splits)
  have target: "case tr of None \<Rightarrow> dv_target d3 = None | Some _ \<Rightarrow> \<exists>s. dv_target d3 = Some s \<and> reading s [] rt"
    using d3(2,3) d2(3) by (cases tr; cases "dv_target d3") (auto simp: sides_at_def sides_kept_def side_at_def split: option.splits)
  show ?thesis using run base target d3(4) d2(5)
    by (simp add: store_section_def d0_def cong: option.case_cong)
qed

section \<open>The stores of a snapshot\<close>

type_synonym stores = "(bytes \<times> snapItem list) list"

definition store_items :: "stores \<Rightarrow> snapItem list" where
  "store_items S = concat (map (\<lambda>(n, ns). StoreItem n # ns) S)"

definition stores_ok :: "stores \<Rightarrow> bool" where
  "stores_ok S \<longleftrightarrow> list_all (\<lambda>(n, ns). n \<noteq> [] \<and> list_all is_node ns) S"

definition exts_only :: "(nat \<times> bytes) list \<Rightarrow> bool" where
  "exts_only E \<longleftrightarrow> E = [] \<or> fst (hd E) = 3 \<or> fst (hd E) = 4"

text \<open>A reader before the stores \<open>S\<close>, which may have taken the first store's name already.\<close>

fun at_stores :: "storeReader \<Rightarrow> stores \<Rightarrow> (nat \<times> bytes) list \<Rightarrow> bool" where
  "at_stores s [] E = (exts_only E \<and> reading s [] E)"
| "at_stores s ((n, ns) # S) E = (exts_only E \<and> stores_ok ((n, ns) # S) \<and>
     (reading s [] (item_recs (store_items ((n, ns) # S)) @ E) \<or> reading s n (item_recs (ns @ store_items S) @ E)))"

lemma store_items_simps [simp]: "store_items [] = []" "store_items ((n, ns) # S) = StoreItem n # ns @ store_items S"
  by (simp_all add: store_items_def)

lemma stores_over_next: "exts_only E \<Longrightarrow> stores_over (item_recs (store_items S) @ E)"
  by (cases S) (auto simp: stores_over_def exts_only_def)

lemma peekStore_Nil:
  assumes "at_stores s [] E"
  shows "\<exists>s'. peekStore s = Some (Ok (None, s')) \<and> at_stores s' [] E"
proof (cases E)
  case Nil
  then have rd: "reading s [] []" using assms by simp
  then show ?thesis using peek_reading_Nil [OF rd] reading_cur [OF rd] assms Nil
    by (simp add: peekStore_def) (subst peekStore_loop.simps, simp)
next
  case (Cons r rs)
  obtain t b where r: "r = (t, b)" by (cases r)
  have rd: "reading s [] ((t, b) # rs)" and t: "t = 3 \<or> t = 4" using assms Cons r by (auto simp: exts_only_def)
  from peek_reading [OF rd] obtain s' where s': "peekItem s = Ok (Some (of_nat t, b), s')" "reading s' [] ((t, b) # rs)" by blast
  have "peekStore s = Some (Ok (None, s'))"
    using s'(1) t reading_cur [OF rd] by (simp add: peekStore_def) (subst peekStore_loop.simps, auto)
  with s'(2) assms Cons r show ?thesis by simp
qed

lemma peekStore_Cons:
  assumes "at_stores s ((n, ns) # S) E"
  shows "\<exists>s'. peekStore s = Some (Ok (Some n, s')) \<and> at_stores s' ((n, ns) # S) E \<and> reading s' n (item_recs ns @ item_recs (store_items S) @ E)"
proof -
  have n: "n \<noteq> []" using assms by (simp add: stores_ok_def)
  consider (taken) "reading s n (item_recs (ns @ store_items S) @ E)" | (fresh) "reading s [] (item_recs (store_items ((n, ns) # S)) @ E)"
    using assms by auto
  then show ?thesis
  proof cases
    case taken
    then show ?thesis using n assms reading_cur [OF taken] by (simp add: peekStore_def)
  next
    case fresh
    then have rd: "reading s [] ((1, item_msg (StoreItem n)) # item_recs ns @ item_recs (store_items S) @ E)" by simp
    from peek_reading [OF rd] obtain s' where s': "peekItem s = Ok (Some (1, item_msg (StoreItem n)), s')"
      "reading (consumeItem s') [] (item_recs ns @ item_recs (store_items S) @ E)" by (metis of_nat_1)
    have "parseStoreName (item_msg (StoreItem n)) = Ok n" using reading_fits [OF rd] by (simp add: parse_names rec_fits_def)
    then have "peekStore s = Some (Ok (Some n, (consumeItem s')\<lparr>rd_curStore := n\<rparr>))"
      using s'(1) reading_cur [OF rd] by (simp add: peekStore_def) (subst peekStore_loop.simps, simp)
    moreover have "reading ((consumeItem s')\<lparr>rd_curStore := n\<rparr>) n (item_recs ns @ item_recs (store_items S) @ E)"
      using s'(2) by (simp add: reading_def)
    ultimately show ?thesis using assms by simp
  qed
qed

end
