(* ===== verification/DiffStream.thy ===== *)
theory DiffStream
  imports DiffSim
begin

unbundle bit_operations_syntax

text \<open>
  The differ on whole snapshots: the sections it writes for the stores and the extensions of two
  well-formed snapshots.
\<close>

section \<open>Stores\<close>

text \<open>The stores of two snapshots side by side, in the order of their names, with the leaves of each.\<close>

fun zip_stores :: "stores \<Rightarrow> stores \<Rightarrow> (bytes \<times> bytes list \<times> bytes list) list" where
  "zip_stores [] [] = []"
| "zip_stores [] ((tn, ts) # T) = (tn, [], leaf_msgs ts) # zip_stores [] T"
| "zip_stores ((bn, bs) # B) [] = (bn, leaf_msgs bs, []) # zip_stores B []"
| "zip_stores ((bn, bs) # B) ((tn, ts) # T) =
     (if bn < tn then (bn, leaf_msgs bs, []) # zip_stores B ((tn, ts) # T)
      else if tn < bn then (tn, [], leaf_msgs ts) # zip_stores ((bn, bs) # B) T
      else (bn, leaf_msgs bs, leaf_msgs ts) # zip_stores B T)"

definition store_sections :: "(bytes \<times> bytes list \<times> bytes list) list \<Rightarrow> (nat \<times> bytes) list" where
  "store_sections Z = concat (map (\<lambda>(n, bs, ts). store_section n bs ts) Z)"

lemma store_sections_simps [simp]:
  "store_sections [] = []" "store_sections ((n, bs, ts) # Z) = store_section n bs ts @ store_sections Z"
  by (simp_all add: store_sections_def)

text \<open>After \<open>diffStore\<close> the side that took part is before its next store.\<close>

lemma reading_at_stores:
  "exts_only E \<Longrightarrow> stores_ok S \<Longrightarrow> reading s [] (item_recs (store_items S) @ E) \<Longrightarrow> at_stores s S E"
  by (cases S) auto

lemma at_stores_ok: "at_stores s S E \<Longrightarrow> exts_only E \<and> stores_ok S"
  by (cases S) (auto simp: stores_ok_def)

lemma stores_ok_Cons: "stores_ok ((n, ns) # S) \<longleftrightarrow> n \<noteq> [] \<and> list_all is_node ns \<and> stores_ok S"
  by (simp add: stores_ok_def)

lemma computeStores_step:
  assumes "peekStore (sv_base v) = Some (Ok (bn, b))" and "peekStore (sv_target v) = Some (Ok (tn, t))"
    and "pickStore bn tn = Some (ub, ut, name)"
    and "side_start name (if ub then Some b else None) bns rb" and "side_start name (if ut then Some t else None) tns rt"
  shows "\<exists>v'. computeStores v = computeStores v' \<and> sv_out v' = sv_out v @ recs_wire (store_section name (leaf_msgs bns) (leaf_msgs tns)) \<and>
    (if ub then reading (sv_base v') [] rb else sv_base v' = b) \<and> (if ut then reading (sv_target v') [] rt else sv_target v' = t)"
proof -
  from diffStore_section [OF assms(4,5), of "sv_stats v" "sv_out v"] obtain d where
    d: "diffStore (sv_stats v) (sv_out v) (if ub then Some b else None) (if ut then Some t else None) name = Some (Ok d)"
    "dv_out d = sv_out v @ recs_wire (store_section name (leaf_msgs bns) (leaf_msgs tns))"
    "case (if ub then Some b else None) of None \<Rightarrow> dv_base d = None | Some _ \<Rightarrow> \<exists>s. dv_base d = Some s \<and> reading s [] rb"
    "case (if ut then Some t else None) of None \<Rightarrow> dv_target d = None | Some _ \<Rightarrow> \<exists>s. dv_target d = Some s \<and> reading s [] rt" by blast
  have "computeStores v = computeStores (afterStore (v\<lparr>sv_base := b, sv_target := t\<rparr>) d)"
    using assms(1-3) d(1) by (subst computeStores.simps) simp
  with d(2-4) show ?thesis by (intro exI [of _ "afterStore (v\<lparr>sv_base := b, sv_target := t\<rparr>) d"]) (auto simp: afterStore_def)
qed

lemma computeStores_sections:
  assumes "at_stores (sv_base v) B EB" and "at_stores (sv_target v) T ET"
  shows "\<exists>v'. computeStores v = Some (Ok v') \<and> sv_out v' = sv_out v @ recs_wire (store_sections (zip_stores B T)) \<and>
    reading (sv_base v') [] EB \<and> reading (sv_target v') [] ET"
  using assms
proof (induction B T arbitrary: v rule: zip_stores.induct)
  case 1
  from peekStore_Nil [OF "1.prems"(1)] peekStore_Nil [OF "1.prems"(2)] obtain b t where
    "peekStore (sv_base v) = Some (Ok (None, b))" "at_stores b [] EB" "peekStore (sv_target v) = Some (Ok (None, t))" "at_stores t [] ET" by blast
  then show ?case by (subst computeStores.simps) auto
next
  case (2 tn ts T)
  note ok = at_stores_ok [OF "2.prems"(2), unfolded stores_ok_Cons]
  from peekStore_Nil [OF "2.prems"(1)] peekStore_Cons [OF "2.prems"(2)] obtain b t where
    p: "peekStore (sv_base v) = Some (Ok (None, b))" "at_stores b [] EB" "peekStore (sv_target v) = Some (Ok (Some tn, t))"
      "reading t tn (item_recs ts @ item_recs (store_items T) @ ET)" by blast
  from computeStores_step [OF p(1,3), of False True tn "[]" "[]" ts] p(4) ok stores_over_next [of ET T] obtain v' where
    v': "computeStores v = computeStores v'" "sv_out v' = sv_out v @ recs_wire (store_section tn [] (leaf_msgs ts))" "sv_base v' = b"
      "reading (sv_target v') [] (item_recs (store_items T) @ ET)" by auto
  have "at_stores (sv_target v') T ET" using ok v'(4) reading_at_stores by blast
  with "2.IH" [of v'] v' p(2) show ?case by auto
next
  case (3 bn bs B)
  note ok = at_stores_ok [OF "3.prems"(1), unfolded stores_ok_Cons]
  from peekStore_Nil [OF "3.prems"(2)] peekStore_Cons [OF "3.prems"(1)] obtain b t where
    p: "peekStore (sv_base v) = Some (Ok (Some bn, b))" "reading b bn (item_recs bs @ item_recs (store_items B) @ EB)"
      "peekStore (sv_target v) = Some (Ok (None, t))" "at_stores t [] ET" by blast
  from computeStores_step [OF p(1,3), of True False bn bs _ "[]" "[]"] p(2) ok stores_over_next [of EB B] obtain v' where
    v': "computeStores v = computeStores v'" "sv_out v' = sv_out v @ recs_wire (store_section bn (leaf_msgs bs) [])" "sv_target v' = t"
      "reading (sv_base v') [] (item_recs (store_items B) @ EB)" by auto
  have "at_stores (sv_base v') B EB" using ok v'(4) reading_at_stores by blast
  with "3.IH" [of v'] v' p(4) show ?case by auto
next
  case (4 bn bs B tn ts T)
  note okb = at_stores_ok [OF "4.prems"(1), unfolded stores_ok_Cons] and okt = at_stores_ok [OF "4.prems"(2), unfolded stores_ok_Cons]
  from peekStore_Cons [OF "4.prems"(1)] peekStore_Cons [OF "4.prems"(2)] obtain b t where
    p: "peekStore (sv_base v) = Some (Ok (Some bn, b))" "reading b bn (item_recs bs @ item_recs (store_items B) @ EB)" "at_stores b ((bn, bs) # B) EB"
      "peekStore (sv_target v) = Some (Ok (Some tn, t))" "reading t tn (item_recs ts @ item_recs (store_items T) @ ET)" "at_stores t ((tn, ts) # T) ET"
    by blast
  note over = stores_over_next [of EB B] stores_over_next [of ET T]
  consider (less) "bn < tn" | (greater) "\<not> bn < tn" "tn < bn" | (same) "\<not> bn < tn" "\<not> tn < bn" by blast
  then show ?case
  proof cases
    case less
    from computeStores_step [OF p(1,4), of True False bn bs _ "[]" "[]"] p(2) okb over less obtain v' where
      v': "computeStores v = computeStores v'" "sv_out v' = sv_out v @ recs_wire (store_section bn (leaf_msgs bs) [])" "sv_target v' = t"
        "reading (sv_base v') [] (item_recs (store_items B) @ EB)" by auto
    have "at_stores (sv_base v') B EB" using okb v'(4) reading_at_stores by blast
    with "4.IH"(1) [of v'] v' p(6) less show ?thesis by auto
  next
    case greater
    from computeStores_step [OF p(1,4), of False True tn "[]" "[]" ts] p(5) okt over greater obtain v' where
      v': "computeStores v = computeStores v'" "sv_out v' = sv_out v @ recs_wire (store_section tn [] (leaf_msgs ts))" "sv_base v' = b"
        "reading (sv_target v') [] (item_recs (store_items T) @ ET)" by auto
    have "at_stores (sv_target v') T ET" using okt v'(4) reading_at_stores by blast
    with "4.IH"(2) [of v'] v' p(3) greater show ?thesis by auto
  next
    case same
    then have eq: "tn = bn" by simp
    from computeStores_step [OF p(1,4), of True True bn bs _ ts] p(2,5) okb okt over same eq obtain v' where
      v': "computeStores v = computeStores v'" "sv_out v' = sv_out v @ recs_wire (store_section bn (leaf_msgs bs) (leaf_msgs ts))"
        "reading (sv_base v') [] (item_recs (store_items B) @ EB)" "reading (sv_target v') [] (item_recs (store_items T) @ ET)" by auto
    have "at_stores (sv_base v') B EB" "at_stores (sv_target v') T ET" using okb okt v'(3,4) reading_at_stores by blast+
    with "4.IH"(3) [of v'] v' same show ?thesis by auto
  qed
qed

section \<open>Extensions\<close>

type_synonym exts = "(bytes \<times> u32 \<times> bytes list) list"

definition ext_items :: "exts \<Rightarrow> snapItem list" where
  "ext_items E = concat (map (\<lambda>(n, f, ps). ExtMeta n f # map (\<lambda>p. ExtPayload (Some p)) ps) E)"

definition ext_data :: "exts \<Rightarrow> (bytes \<times> extData) list" where
  "ext_data E = map (\<lambda>(n, f, ps). (n, \<lparr>ed_format = f, ed_payloads = ps\<rparr>)) E"

definition exts_ok :: "exts \<Rightarrow> bool" where
  "exts_ok E \<longleftrightarrow> distinct (map fst E) \<and> [] \<notin> fst ` set E"

lemma ext_simps [simp]:
  "ext_items [] = []" "ext_items ((n, f, ps) # E) = ExtMeta n f # map (\<lambda>p. ExtPayload (Some p)) ps @ ext_items E"
  "ext_data [] = []" "ext_data ((n, f, ps) # E) = (n, \<lparr>ed_format = f, ed_payloads = ps\<rparr>) # ext_data E"
  by (simp_all add: ext_items_def ext_data_def)

lemma ext_data_keys [simp]: "map fst (ext_data E) = map fst E"
  by (induction E) auto

lemma exts_only_items: "exts_only (item_recs (ext_items E))"
  by (cases E) (auto simp: exts_only_def)

lemma update_append: "n \<notin> fst ` set A \<Longrightarrow> AList.update n v (A @ xs) = A @ AList.update n v xs"
  by (induction A) auto

lemma map_of_last: "n \<notin> fst ` set A \<Longrightarrow> map_of (A @ [(n, x)]) n = Some x"
  by (simp add: map_add_def map_of_eq_None_iff [symmetric] split: option.splits)

lemma readAllExtensions_payloads:
  assumes "reads s (item_recs (map (\<lambda>p. ExtPayload (Some p)) ps) @ rest)" and "rd_extName s = n" "n \<noteq> []"
    and "rd_extAll s = A @ [(n, \<lparr>ed_format = f, ed_payloads = qs\<rparr>)]" "n \<notin> fst ` set A"
  shows "\<exists>s'. readAllExtensions s = readAllExtensions s' \<and> reads s' rest \<and> rd_extName s' = n \<and>
    rd_extAll s' = A @ [(n, \<lparr>ed_format = f, ed_payloads = qs @ ps\<rparr>)]"
  using assms
proof (induction ps arbitrary: s qs)
  case Nil
  then show ?case by auto
next
  case (Cons p ps)
  let ?rs = "item_recs (map (\<lambda>p. ExtPayload (Some p)) ps) @ rest" and ?m = "item_msg (ExtPayload (Some p))"
  have rd: "reads s ((4, ?m) # ?rs)" using Cons.prems(1) by simp
  have msg: "parseExtPayload ?m = Ok p" using rd parse_names(2) [of "Some p"] by (simp add: reads_def rec_fits_def nil_bytes_def)
  let ?s = "consumeItem (s\<lparr>rd_in := recs_wire ?rs, rd_cached := Some (4, ?m)\<rparr>)\<lparr>rd_extAll := A @ [(n, \<lparr>ed_format = f, ed_payloads = qs @ [p]\<rparr>)]\<rparr>"
  have "readAllExtensions s = readAllExtensions ?s"
    using peekItem_Cons [OF rd] msg Cons.prems(2-5) map_of_last [of n A]
    by (subst readAllExtensions.simps) (simp add: addPayload_def update_append)
  moreover have "reads ?s ?rs" using reads_after(1) [OF rd] by simp
  ultimately show ?case using Cons.IH [of ?s "qs @ [p]"] Cons.prems(2-5) by simp
qed

lemma readAllExtensions_from:
  assumes "reads s (item_recs (ext_items E))" and "exts_ok E" and "rd_extAll s = A" and "fst ` set A \<inter> fst ` set E = {}"
  shows "readAllExtensions s = Some (Ok (A @ ext_data E))"
  using assms
proof (induction E arbitrary: s A)
  case Nil
  then show ?case using peekItem_Nil [of s] by (subst readAllExtensions.simps) simp
next
  case (Cons e E)
  obtain n f ps where e: "e = (n, f, ps)" by (cases e)
  let ?rs = "item_recs (map (\<lambda>p. ExtPayload (Some p)) ps) @ item_recs (ext_items E)" and ?m = "item_msg (ExtMeta n f)"
  have rd: "reads s ((3, ?m) # ?rs)" using Cons.prems(1) e by simp
  have msg: "parseExtMeta ?m = Some (Ok (n, f))" using rd by (intro parse_ExtMeta) (simp add: reads_def rec_fits_def)
  have new: "n \<notin> fst ` set A" "n \<noteq> []" "map_of A n = None" using Cons.prems(2,4) e by (auto simp: exts_ok_def map_of_eq_None_iff)
  let ?s = "consumeItem (s\<lparr>rd_in := recs_wire ?rs, rd_cached := Some (3, ?m)\<rparr>)\<lparr>rd_extName := n, rd_extFormat := f,
    rd_extAll := A @ [(n, \<lparr>ed_format = f, ed_payloads = []\<rparr>)]\<rparr>"
  have step: "readAllExtensions s = readAllExtensions ?s"
    using peekItem_Cons [OF rd] msg Cons.prems(3) new update_append [of n A _ "[]"]
    by (subst readAllExtensions.simps) simp
  have "reads ?s ?rs" using reads_after(1) [OF rd] by simp
  from readAllExtensions_payloads [OF this _ new(2) _ new(1), of f "[]"] obtain s' where
    s': "readAllExtensions ?s = readAllExtensions s'" "reads s' (item_recs (ext_items E))" "rd_extAll s' = A @ [(n, \<lparr>ed_format = f, ed_payloads = ps\<rparr>)]"
    by auto
  have "readAllExtensions s' = Some (Ok ((A @ [(n, \<lparr>ed_format = f, ed_payloads = ps\<rparr>)]) @ ext_data E))"
    using s'(2,3) Cons.prems(2,4) e by (intro Cons.IH) (auto simp: exts_ok_def)
  with step s'(1) e show ?case by simp
qed

lemma readAllExtensions_data: "reading s [] (item_recs (ext_items E)) \<Longrightarrow> exts_ok E \<Longrightarrow> readAllExtensions s = Some (Ok (ext_data E))"
  using readAllExtensions_from [of s E "[]"] by (simp add: reading_def)

definition ext_section :: "(bytes list \<Rightarrow> bytes list) \<Rightarrow> bytes \<Rightarrow> extData option \<Rightarrow> extData option \<Rightarrow> (nat \<times> bytes) list" where
  "ext_section ord n b t = (tagExtEnter, encStringField 1 n @ encVarintField 2 (ucast (extFormat b t))) #
     map (\<lambda>p. (tagExtRemove, encBytesField 1 p)) (extRemoves ord (opt_payloads b) (opt_payloads t)) @
     map (\<lambda>p. (tagExtAdd, encBytesField 1 p)) (extAdds ord (opt_payloads b) (opt_payloads t)) @ [(tagExtLeave, [])]"

lemma foldl_emit:
  "foldl (\<lambda>out p. emitRecord out (buildOneOfMessage t [encBytesField 1 p])) out ps = out @ recs_wire (map (\<lambda>p. (t, encBytesField 1 p)) ps)"
  by (induction ps arbitrary: out) simp_all

lemma diffExtension_out: "snd (diffExtension ord n b t (st, out)) = out @ recs_wire (ext_section ord n b t)"
  by (simp add: diffExtension_def ext_section_def Let_def foldl_emit [simplified])

definition ext_names :: "exts \<Rightarrow> exts \<Rightarrow> bytes list" where
  "ext_names EB ET = sort (remdups (map fst EB @ map fst ET))"

definition ext_sections :: "(bytes list \<Rightarrow> bytes list) \<Rightarrow> exts \<Rightarrow> exts \<Rightarrow> (nat \<times> bytes) list" where
  "ext_sections ord EB ET = concat (map (\<lambda>n. ext_section ord n (map_of (ext_data EB) n) (map_of (ext_data ET) n)) (ext_names EB ET))"

lemma diffExtensions_out:
  "snd (diffExtensions ord (ext_data EB) (ext_data ET) (st, out)) = out @ recs_wire (ext_sections ord EB ET)"
proof -
  have "snd (foldl (\<lambda>so n. diffExtension ord n (f n) (g n) so) so ns) = snd so @ recs_wire (concat (map (\<lambda>n. ext_section ord n (f n) (g n)) ns))" for f g so ns
  proof (induction ns arbitrary: so)
    case (Cons n ns)
    then show ?case by (cases so) (simp add: diffExtension_out)
  qed simp
  then show ?thesis by (simp add: diffExtensions_def ext_sections_def ext_names_def)
qed

section \<open>Snapshots\<close>

type_synonym snapshot = "stores \<times> exts"

definition snap_recs :: "snapshot \<Rightarrow> (nat \<times> bytes) list" where
  "snap_recs S = item_recs (store_items (fst S) @ ext_items (snd S))"

definition snap_wire :: "snapshot \<Rightarrow> bytes" where
  "snap_wire S = recs_wire (snap_recs S)"

definition snap_ok :: "snapshot \<Rightarrow> bool" where
  "snap_ok S \<longleftrightarrow> stores_ok (fst S) \<and> exts_ok (snd S) \<and> 
     list_all (\<lambda>it. length (item_msg it) < 2 ^ 40) (store_items (fst S) @ ext_items (snd S))"

lemma snap_ok_item: "snap_ok S \<Longrightarrow> it \<in> set (store_items (fst S) @ ext_items (snd S)) \<Longrightarrow> length (item_msg it) < 2 ^ 40"
  by (auto simp: snap_ok_def list_all_iff)

lemma snap_recs_fit:
  assumes "snap_ok S"
  shows "list_all rec_fits (snap_recs S)"
proof -
  have "rec_fits (item_type it, item_msg it)" if "it \<in> set (store_items (fst S) @ ext_items (snd S))" for it
    using snap_ok_item [OF assms that] item_type_less(2) [of it] by (simp add: rec_fits_def msg_fits_def)
  then show ?thesis by (auto simp: snap_recs_def item_recs_def list_all_iff)
qed

definition diff_recs :: "(bytes list \<Rightarrow> bytes list) \<Rightarrow> snapshot \<Rightarrow> snapshot \<Rightarrow> (nat \<times> bytes) list" where
  "diff_recs ord B T = store_sections (zip_stores (fst B) (fst T)) @ ext_sections ord (snd B) (snd T)"

lemma snap_at_stores: "snap_ok S \<Longrightarrow> at_stores (newStoreReader (snap_wire S)) (fst S) (item_recs (ext_items (snd S)))"
  using snap_recs_fit [of S] reading_new [of "snap_recs S"]
  by (intro reading_at_stores) (simp_all add: snap_ok_def snap_wire_def snap_recs_def exts_only_items)

theorem computeStream_recs:
  assumes "snap_ok B" and "snap_ok T"
  shows "\<exists>st. computeStream ord (snap_wire B) (snap_wire T) stats = Some (Ok (st, recs_wire (diff_recs ord B T)))"
proof -
  let ?v = "\<lparr>sv_base = newStoreReader (snap_wire B), sv_target = newStoreReader (snap_wire T), sv_stats = stats, sv_out = []\<rparr>"
  have "at_stores (sv_base ?v) (fst B) (item_recs (ext_items (snd B)))" "at_stores (sv_target ?v) (fst T) (item_recs (ext_items (snd T)))"
    using assms snap_at_stores by simp_all
  from computeStores_sections [OF this] obtain v where
    v: "computeStores ?v = Some (Ok v)" "sv_out v = recs_wire (store_sections (zip_stores (fst B) (fst T)))"
      "reading (sv_base v) [] (item_recs (ext_items (snd B)))" "reading (sv_target v) [] (item_recs (ext_items (snd T)))" by auto
  have e: "readAllExtensions (sv_base v) = Some (Ok (ext_data (snd B)))" "readAllExtensions (sv_target v) = Some (Ok (ext_data (snd T)))"
    using assms v(3,4) by (simp_all add: readAllExtensions_data snap_ok_def)
  let ?r = "diffExtensions ord (ext_data (snd B)) (ext_data (snd T)) (sv_stats v, sv_out v)"
  have "snd ?r = recs_wire (diff_recs ord B T)" by (simp add: diffExtensions_out v(2) diff_recs_def)
  then have "?r = (fst ?r, recs_wire (diff_recs ord B T))" by (metis prod.collapse)
  with v(1) e show ?thesis by (auto simp: computeStream_def)
qed

end
