(* ===== verification/DiffApplySim.thy ===== *)
theory DiffApplySim
  imports DiffStream
begin

unbundle bit_operations_syntax

text \<open>
  \<open>Apply\<close> on the records of a diff: the reader's sections, the merge of a store with its changes,
  and the stores and extensions it writes.
\<close>

section \<open>The diff reader\<close>

lemma ReadUvarint_Nil: "ReadUvarint [] = Inl EOF"
  by (simp add: ReadUvarint_def ReadUvarint_loop.simps)

text \<open>What may follow the last whole record: nothing, or a record that is not all there.\<close>

definition cut_tail :: "bytes \<Rightarrow> bool" where
  "cut_tail tail \<longleftrightarrow> tail = [] \<or> (\<exists>n part. tail = PutUvarint n @ part \<and> n \<noteq> 0 \<and> n \<le> maxAlloc \<and> length part < unat n)"

definition dreads :: "diffReader \<Rightarrow> (nat \<times> bytes) list \<Rightarrow> bool" where
  "dreads d rs \<longleftrightarrow> list_all rec_fits rs \<and>
     (if df_eof d then rs = []
      else \<exists>tail. cut_tail tail \<and>
        (case df_pending d of
           None \<Rightarrow> df_in d = recs_wire rs @ tail
         | Some c \<Rightarrow> \<exists>t b rs'. rs = (t, b) # rs' \<and> c = (of_nat t, b) \<and> df_in d = recs_wire rs' @ tail))"

lemma dreads_new: "list_all rec_fits rs \<Longrightarrow> cut_tail tail \<Longrightarrow> dreads (newDiffReader (recs_wire rs @ tail)) rs"
  by (auto simp: dreads_def newDiffReader_def)

lemma peekRecord_Nil:
  assumes "dreads d []"
  obtains d' where "peekRecord d = Ok (None, d')" "dreads d' []"
proof -
  have "peekRecord d = Ok (None, d\<lparr>df_eof := True\<rparr>)"
  proof (cases "df_eof d")
    case False
    then have tail: "cut_tail (df_in d)" "df_pending d = None" using assms by (cases "df_pending d"; auto simp: dreads_def)+
    then consider "df_in d = []" | n part where "df_in d = PutUvarint n @ part" "n \<noteq> 0" "\<not> maxAlloc < n" "length part < unat n"
      by (auto simp: cut_tail_def not_less)
    then show ?thesis using False tail(2)
      by cases (subst peekRecord.simps, simp add: ReadUvarint_Nil ReadFull_def)+
  qed (subst peekRecord.simps, simp)
  then show ?thesis using that [of "d\<lparr>df_eof := True\<rparr>"] by (simp add: dreads_def)
qed

lemma peekRecord_Cons:
  assumes "dreads d ((t, b) # rs)"
  obtains d' where "peekRecord d = Ok (Some (of_nat t, b), d')" "dreads d' ((t, b) # rs)" "dreads (consumeRecord d') rs"
proof -
  have e: "\<not> df_eof d" and fits: "rec_fits (t, b)" "list_all rec_fits rs" using assms by (auto simp: dreads_def split: if_splits)
  from assms e obtain tail where tail: "cut_tail tail" "case df_pending d of None \<Rightarrow> df_in d = recs_wire ((t, b) # rs) @ tail
     | Some c \<Rightarrow> c = (of_nat t, b) \<and> df_in d = recs_wire rs @ tail"
    by (cases "df_pending d") (auto simp: dreads_def)
  let ?d = "d\<lparr>df_in := recs_wire rs @ tail, df_pending := Some (of_nat t, b)\<rparr>"
  have "peekRecord d = Ok (Some (of_nat t, b), ?d)"
  proof (cases "df_pending d")
    case None
    then have inp: "df_in d = recs_wire ((t, b) # rs) @ tail" using tail(2) by simp
    show ?thesis
      using one_rec_shape [OF fits(1)] item_length [OF one_rec_shape(7) [OF fits(1)]] None inp e
      by (subst peekRecord.simps) (simp add: ReadFull_def Let_def nat_add_distrib)
  next
    case (Some c)
    then have "?d = d" "c = (of_nat t, b)" using tail(2) by auto
    with Some e show ?thesis by (subst peekRecord.simps) simp
  qed
  moreover have "dreads ?d ((t, b) # rs)" "dreads (consumeRecord ?d) rs"
    using e fits tail(1) by (auto simp: dreads_def consumeRecord_def)
  ultimately show ?thesis by (rule that)
qed

lemma encBytesField_enc: "encBytesField n b = enc_field (BField n b)" "encStringField n b = enc_field (BField n b)"
  "encVarintField n v = enc_field (VField n v)"
  by (simp_all add: encBytesField_def encStringField_def encVarintField_def appendBytesField_def appendUvarintField_def)

lemma enc_one: "enc_fields [f] = enc_field f" "enc_fields [f, g] = enc_field f @ enc_field g"
  by (simp_all add: enc_fields_def)

lemma proto_one:
  assumes "msg_fits (encBytesField 1 k)"
  shows "protoBytes (encBytesField 1 k) 1 = Some (Ok k)"
  using parseProto_enc(1) [of "[BField 1 k]" 1] assms by (simp add: protoBytes_def encBytesField_enc enc_one nil_bytes_def)

lemma proto_two:
  assumes "msg_fits (encBytesField 1 k @ encBytesField 2 v)"
  shows "protoBytes (encBytesField 1 k @ encBytesField 2 v) 1 = Some (Ok k)" "protoBytes (encBytesField 1 k @ encBytesField 2 v) 2 = Some (Ok v)"
  using parseProto_enc(1) [of "[BField 1 k, BField 2 v]"] assms by (simp_all add: protoBytes_def encBytesField_enc enc_one nil_bytes_def)

lemma proto_meta:
  assumes "msg_fits (encStringField 1 n @ encVarintField 2 v)"
  shows "protoBytes (encStringField 1 n @ encVarintField 2 v) 1 = Some (Ok n)" "parseProtoVarint (encStringField 1 n @ encVarintField 2 v) 2 = Some (Ok v)"
  using parseProto_enc [of "[BField 1 n, VField 2 v]"] assms by (simp_all add: protoBytes_def encBytesField_enc enc_one nil_bytes_def)

lemma dreads_fits: "dreads d ((t, b) # rs) \<Longrightarrow> msg_fits b"
  by (simp add: dreads_def rec_fits_def)

lemma readStoreChanges_collects:
  assumes "dreads d (map change_rec M @ (tagStoreLeave, []) # rest)"
  shows "\<exists>d'. readStoreChanges_loop ch d = Some (Ok (collect ch M, d')) \<and> dreads d' rest"
  using assms
proof (induction M arbitrary: d ch)
  case Nil
  then have rd: "dreads d ((tagStoreLeave, []) # rest)" by simp
  from peekRecord_Cons [OF rd] obtain d' where d': "peekRecord d = Ok (Some (of_nat tagStoreLeave, []), d')" "dreads (consumeRecord d') rest" by blast
  then show ?case by (subst readStoreChanges_loop.simps) (simp add: tag_defs)
next
  case (Cons c M)
  obtain t b where c: "change_rec c = (t, b)" by (cases "change_rec c")
  have rd: "dreads d ((t, b) # map change_rec M @ (tagStoreLeave, []) # rest)" using Cons.prems c by simp
  from peekRecord_Cons [OF rd] obtain d' where
    d': "peekRecord d = Ok (Some (of_nat t, b), d')" "dreads (consumeRecord d') (map change_rec M @ (tagStoreLeave, []) # rest)" by blast
  have "readStoreChanges_loop ch d = readStoreChanges_loop (ch_step ch c) (consumeRecord d')"
    using d'(1) c dreads_fits [OF rd] proto_one proto_two
    by (cases c) (subst readStoreChanges_loop.simps; auto simp: tag_defs)+
  with Cons.IH [OF d'(2)] show ?case by simp
qed

lemma peekSection_store:
  assumes "dreads d (store_section n bs ts @ rest)"
  obtains d' where "peekSection d = Some (Ok (Some (SectionStore n), d'))" "dreads d' (store_section n bs ts @ rest)"
    "dreads (consumeRecord d') (map change_rec (merge_leaves rec_kv bs ts) @ (tagStoreLeave, []) # rest)"
proof -
  have rd: "dreads d ((tagStoreEnter, encStringField 1 n) # map change_rec (merge_leaves rec_kv bs ts) @ (tagStoreLeave, []) # rest)"
    using assms by (simp add: store_section_def)
  from peekRecord_Cons [OF rd] obtain d' where d': "peekRecord d = Ok (Some (of_nat tagStoreEnter, encStringField 1 n), d')"
    "dreads d' ((tagStoreEnter, encStringField 1 n) # map change_rec (merge_leaves rec_kv bs ts) @ (tagStoreLeave, []) # rest)"
    "dreads (consumeRecord d') (map change_rec (merge_leaves rec_kv bs ts) @ (tagStoreLeave, []) # rest)" by blast
  have "peekSection d = Some (Ok (Some (SectionStore n), d'))"
    using d'(1) proto_one [of n] dreads_fits [OF rd] by (subst peekSection.simps) (simp add: tag_defs encStringField_def)
  then show ?thesis using that d' by (simp add: store_section_def)
qed

section \<open>Applying the changes of a store\<close>

definition leaf_out :: "bytes \<times> bytes \<Rightarrow> nat \<times> bytes" where
  "leaf_out kv = (2, encBytesField 1 (fst kv) @ encBytesField 2 (snd kv))"

definition next_at :: "bytes \<Rightarrow> storeReader \<Rightarrow> (bytes \<times> bytes) option \<Rightarrow> bytes list \<Rightarrow> (nat \<times> bytes) list \<Rightarrow> bool" where
  "next_at name s cur bs rest \<longleftrightarrow> (\<exists>rec. side_at name s rec bs rest \<and> cur = map_option rec_kv rec)"

lemma nextBase_advance:
  assumes "advanceLeaf name s = Some (Ok (rec, s'))" and "side_at name s' rec bs rest"
  shows "nextBase name s = Some (Ok (map_option rec_kv rec, s'))" "next_at name s' (map_option rec_kv rec) bs rest"
  using assms by (auto simp: nextBase_def next_at_def side_at_def leaf_rec_def split: option.splits)

lemma next_at_cases:
  "next_at name s cur [] rest \<Longrightarrow> cur = None \<and> reading s [] rest"
  "next_at name s cur (b # bs) rest \<Longrightarrow> cur = Some (rec_kv b) \<and> (\<exists>cur' s'. nextBase name s = Some (Ok (cur', s')) \<and> next_at name s' cur' bs rest)"
proof -
  show "next_at name s cur [] rest \<Longrightarrow> cur = None \<and> reading s [] rest" by (auto simp: next_at_def side_at_def split: option.splits)
  assume "next_at name s cur (b # bs) rest"
  then have "cur = Some (rec_kv b)" "side_at name s (Some b) (b # bs) rest" by (auto simp: next_at_def side_at_def split: option.splits)
  with advanceLeaf_next [of name s b bs rest] nextBase_advance [of name s]
  show "cur = Some (rec_kv b) \<and> (\<exists>cur' s'. nextBase name s = Some (Ok (cur', s')) \<and> next_at name s' cur' bs rest)" by metis
qed

lemma emitLeaf_out [simp]: "snd (emitLeaf k v so) = snd so @ recs_wire [leaf_out (k, v)]"
  by (simp add: emitLeaf_def leaf_out_def case_prod_beta)

lemma emit_outs:
  "snd (processBaseItem ch k v so) = snd so @ recs_wire (map leaf_out (base_leaf ch k v))"
  "snd (emitInsertKey ch ik so) = snd so @ recs_wire [leaf_out (new_leaf ch ik)]"
  by (auto simp: processBaseItem_def emitInsertKey_def base_leaf_def new_leaf_def split: option.splits)

lemma emitStore_loop_weaves:
  assumes "next_at name s cur bs rest"
  shows "\<exists>s' so'. emitStore_loop name ch cur s ks so = Some (Ok (s', so')) \<and> reading s' [] rest \<and>
    snd so' = snd so @ recs_wire (map leaf_out (weave ch (map rec_kv bs) ks))"
  using assms
proof (induction ch "map rec_kv bs" ks arbitrary: bs s cur so rule: weave.induct)
  case (1 ch)
  then have bs: "bs = []" by simp
  then have "cur = None" "reading s [] rest" using "1.prems" next_at_cases(1) by blast+
  with bs show ?case by (subst emitStore_loop.simps) (cases so, simp)
next
  case (2 ch ik ks)
  then have bs: "bs = []" by simp
  then have "cur = None" using "2.prems" next_at_cases(1) by blast
  then have step: "emitStore_loop name ch cur s (ik # ks) so = emitStore_loop name ch cur s ks (emitInsertKey ch ik so)"
    by (subst emitStore_loop.simps) simp
  from "2.hyps"(1) [OF "2.hyps"(2) "2.prems", of "emitInsertKey ch ik so"] show ?case
    unfolding step bs by (simp add: emit_outs)
next
  case (3 ch k v bs')
  obtain b bs1 where bs: "bs = b # bs1" "rec_kv b = (k, v)" "bs' = map rec_kv bs1" using "3.hyps"(2) by (auto simp: Cons_eq_map_conv)
  from next_at_cases(2) [OF "3.prems" [unfolded bs(1)]] bs(2) obtain cur' s' where n: "cur = Some (k, v)" "nextBase name s = Some (Ok (cur', s'))" "next_at name s' cur' bs1 rest" by auto
  then have "emitStore_loop name ch cur s [] so = emitStore_loop name ch cur' s' [] (processBaseItem ch k v so)"
    by (subst emitStore_loop.simps) simp
  with "3.hyps"(1) [OF bs(3) n(3), of "processBaseItem ch k v so"] bs show ?case by (simp add: emit_outs)
next
  case (4 ch k v bs' ik ks)
  obtain b bs1 where bs: "bs = b # bs1" "rec_kv b = (k, v)" "bs' = map rec_kv bs1" using "4.hyps"(4) by (auto simp: Cons_eq_map_conv)
  from next_at_cases(2) [OF "4.prems" [unfolded bs(1)]] bs(2) obtain cur' s' where n: "cur = Some (k, v)" "nextBase name s = Some (Ok (cur', s'))" "next_at name s' cur' bs1 rest" by auto
  consider (less) "k < ik" | (greater) "\<not> k < ik" "ik < k" | (same) "\<not> k < ik" "\<not> ik < k" by blast
  then show ?case
  proof cases
    case less
    then have "emitStore_loop name ch cur s (ik # ks) so = emitStore_loop name ch cur' s' (ik # ks) (processBaseItem ch k v so)"
      using n by (subst emitStore_loop.simps) (simp add: bytesCompare_less)
    with "4.hyps"(1) [OF less bs(3) n(3), of "processBaseItem ch k v so"] bs less show ?thesis by (simp add: emit_outs)
  next
    case greater
    then have "emitStore_loop name ch cur s (ik # ks) so = emitStore_loop name ch cur s ks (emitInsertKey ch ik so)"
      using n by (subst emitStore_loop.simps) (simp add: bytesCompare_less bytesCompare_greater)
    with "4.hyps"(2) [OF greater _ "4.prems", of "emitInsertKey ch ik so"] bs greater show ?thesis by (simp add: emit_outs)
  next
    case same
    then have "emitStore_loop name ch cur s (ik # ks) so = emitStore_loop name ch cur' s' ks (emitInsertKey ch ik (processBaseItem ch k v so))"
      using n by (subst emitStore_loop.simps) (simp add: bytesCompare_less bytesCompare_greater)
    with "4.hyps"(3) [OF same bs(3) n(3), of "emitInsertKey ch ik (processBaseItem ch k v so)"] bs same show ?thesis by (simp add: emit_outs)
  qed
qed

definition out_store :: "bytes \<Rightarrow> bytes list \<Rightarrow> bytes list \<Rightarrow> (nat \<times> bytes) list" where
  "out_store n bs ts = (if bs = [] \<and> ts = [] then [] else (1, encStringField 1 n) # map (\<lambda>r. leaf_out (rec_kv r)) ts)"

definition leaves_sorted :: "bytes list \<Rightarrow> bool" where
  "leaves_sorted rs \<longleftrightarrow> sorted_wrt (<) (map (fst \<circ> rec_kv) rs)"

lemma emitStoreName_out [simp]: "snd (emitStoreName n so) = snd so @ recs_wire [(1, encStringField 1 n)]"
  by (simp add: emitStoreName_def case_prod_beta)

lemma merge_leaves_new:
  assumes "c \<in> set (merge_leaves kv [] ts)"
  shows "\<exists>t \<in> set ts. c = Ins (fst (kv t)) (snd (kv t))"
  using assms by (induction ts) auto

lemma collect_new:
  fixes kv :: "bytes \<Rightarrow> bytes \<times> bytes" and ts :: "bytes list"
  defines "ch \<equiv> collect newStoreChanges (merge_leaves kv [] ts)"
  shows "sc_deletes ch = []" "sc_updates ch = []" "sc_inserts ch = [] \<longleftrightarrow> ts = []"
proof -
  have "k \<notin> set (sc_deletes ch)" "map_of (sc_updates ch) k = None" for k
    unfolding ch_def collect_deletes collect_updates(2) about_def using merge_leaves_new by (fastforce simp: newStoreChanges_def)+
  then show "sc_deletes ch = []" "sc_updates ch = []"
    by (metis list.set_intros(1) neq_Nil_conv, metis map_of_eq_None_iff list.set_intros(1) neq_Nil_conv image_eqI option.discI)
  show "sc_inserts ch = [] \<longleftrightarrow> ts = []"
  proof (cases ts)
    case (Cons t ts')
    then have "map_of (sc_inserts ch) (fst (kv t)) \<noteq> None" unfolding ch_def collect_inserts(2) by (auto simp: about_def)
    with Cons show ?thesis by auto
  qed (simp add: ch_def newStoreChanges_def)
qed

lemma emitStoreFromBase_out:
  assumes rd: "reading s n (item_recs ns @ rest)" "list_all is_node ns" "stores_over rest"
    and "leaves_sorted (leaf_msgs ns)" "leaves_sorted ts"
  defines "ch \<equiv> collect newStoreChanges (merge_leaves rec_kv (leaf_msgs ns) ts)"
  shows "\<exists>s' so'. emitStoreFromBase n (Some ch) s so = Some (Ok (s', so')) \<and> reading s' [] rest \<and>
    snd so' = snd so @ recs_wire (out_store n (leaf_msgs ns) ts)"
proof -
  let ?ks = "sort (map fst (sc_inserts ch))"
  from advanceLeaf_side [OF rd] nextBase_advance obtain cur s1 where
    n: "nextBase n s = Some (Ok (cur, s1))" "next_at n s1 cur (leaf_msgs ns) rest" by metis
  have w: "weave (Some ch) (map rec_kv (leaf_msgs ns)) ?ks = map rec_kv ts"
    unfolding ch_def using assms(4,5) apply_merge [of rec_kv "leaf_msgs ns" ts] by (simp add: leaves_sorted_def)
  show ?thesis
  proof (cases "cur = None \<and> ?ks = []")
    case True
    have none: "leaf_msgs ns = []"
    proof (cases "leaf_msgs ns")
      case (Cons b bs)
      with next_at_cases(2) [of n s1 cur b bs rest] n(2) True show ?thesis by simp
    qed
    moreover have "ts = []" using True none w by simp
    moreover have "reading s1 [] rest" using n(2) none next_at_cases(1) by metis
    ultimately show ?thesis using True n(1) by (cases so) (simp add: emitStoreFromBase_def out_store_def)
  next
    case False
    from emitStore_loop_weaves [OF n(2), of "Some ch" ?ks "emitStoreName n so"] w obtain s' so' where
      l: "emitStore_loop n (Some ch) cur s1 ?ks (emitStoreName n so) = Some (Ok (s', so'))" "reading s' [] rest"
        "snd so' = snd (emitStoreName n so) @ recs_wire (map leaf_out (map rec_kv ts))" by auto
    have "leaf_msgs ns \<noteq> [] \<or> ts \<noteq> []"
    proof (rule ccontr)
      assume "\<not> ?thesis"
      then have "leaf_msgs ns = []" "?ks = []" using collect_new(3) [of rec_kv "[]"] by (simp_all add: ch_def newStoreChanges_def)
      with False n(2) next_at_cases(1) show False by metis
    qed
    then have "out_store n (leaf_msgs ns) ts = (1, encStringField 1 n) # map leaf_out (map rec_kv ts)" by (auto simp: out_store_def)
    with l(3) have "snd so' = snd so @ recs_wire (out_store n (leaf_msgs ns) ts)" by simp
    moreover have "emitStoreFromBase n (Some ch) s so = Some (Ok (s', so'))" using False n(1) l(1) by (auto simp: emitStoreFromBase_def)
    ultimately show ?thesis using l(2) by blast
  qed
qed

text \<open>Without changes the store comes out as it is.\<close>

lemma weave_unchanged: "weave None bs [] = bs"
  by (induction bs) (auto simp: base_leaf_def)

lemma emitStoreFromBase_unchanged:
  assumes rd: "reading s n (item_recs ns @ rest)" "list_all is_node ns" "stores_over rest"
  shows "\<exists>s' so'. emitStoreFromBase n None s so = Some (Ok (s', so')) \<and> reading s' [] rest \<and>
    snd so' = snd so @ recs_wire (out_store n (leaf_msgs ns) (leaf_msgs ns))"
proof -
  from advanceLeaf_side [OF rd] nextBase_advance obtain cur s1 where
    n: "nextBase n s = Some (Ok (cur, s1))" "next_at n s1 cur (leaf_msgs ns) rest" by metis
  show ?thesis
  proof (cases "leaf_msgs ns")
    case Nil
    then have "cur = None" "reading s1 [] rest" using n(2) next_at_cases(1) by metis+
    with Nil n(1) show ?thesis by (cases so) (simp add: emitStoreFromBase_def out_store_def)
  next
    case (Cons b bs)
    then have "cur \<noteq> None" using n(2) next_at_cases(2) by fastforce
    with emitStore_loop_weaves [OF n(2), of None "[]" "emitStoreName n so"] Cons n(1) show ?thesis
      by (auto simp: emitStoreFromBase_def out_store_def weave_unchanged comp_def)
  qed
qed

lemma weave_no_base: "weave ch [] ks = map (new_leaf ch) ks"
  by (induction ks) auto

lemma emitTargetOnlyStore_out:
  assumes "leaves_sorted ts"
  defines "ch \<equiv> collect newStoreChanges (merge_leaves rec_kv [] ts)"
  shows "snd (emitTargetOnlyStore n (sc_inserts ch) so) = snd so @ recs_wire (out_store n [] ts)"
proof (cases "ts = []")
  case True
  then show ?thesis using collect_new(3) [of rec_kv "[]"] by (simp add: ch_def emitTargetOnlyStore_def out_store_def newStoreChanges_def)
next
  case False
  let ?ks = "sort (map fst (sc_inserts ch))"
  have fold: "snd (foldl (\<lambda>so k. emitLeaf k (nil_bytes (map_of (sc_inserts ch) k)) so) so ks) = snd so @ recs_wire (map leaf_out (map (new_leaf (Some ch)) ks))" for ks so
    by (induction ks arbitrary: so) (simp_all add: new_leaf_def)
  have "sc_inserts ch \<noteq> []" using False collect_new(3) by (simp add: ch_def)
  moreover have "map (new_leaf (Some ch)) ?ks = map rec_kv ts"
    using apply_merge [of rec_kv "[]" ts] assms(1) weave_no_base [of "Some ch" ?ks] by (simp add: ch_def leaves_sorted_def)
  ultimately show ?thesis using False fold [of "emitStoreName n so" ?ks] by (simp add: emitTargetOnlyStore_def out_store_def comp_def)
qed

end
