(* ===== verification/DiffProps.thy ===== *)
theory DiffProps
  imports DiffApplySim
begin

unbundle bit_operations_syntax

text \<open>
  Logical diffs end to end: what \<open>Apply\<close> makes of a base snapshot and the diff that \<open>Compute\<close>
  wrote for it, and what it makes of a diff that was cut short.
\<close>

section \<open>The stores\<close>

definition out_stores :: "(bytes \<times> bytes list \<times> bytes list) list \<Rightarrow> (nat \<times> bytes) list" where
  "out_stores Z = concat (map (\<lambda>(n, bs, ts). out_store n bs ts) Z)"

lemma out_stores_simps [simp]: "out_stores [] = []" "out_stores ((n, bs, ts) # Z) = out_store n bs ts @ out_stores Z"
  by (simp_all add: out_stores_def)

definition no_store_next :: "diffReader \<Rightarrow> (nat \<times> bytes) list \<Rightarrow> bool" where
  "no_store_next d X \<longleftrightarrow> dreads d X \<and> (\<exists>sec d'. peekSection d = Some (Ok (sec, d')) \<and> dreads d' X \<and> (\<forall>n. sec \<noteq> Some (SectionStore n)))"

definition zip_sorted :: "(bytes \<times> bytes list \<times> bytes list) list \<Rightarrow> bool" where
  "zip_sorted Z \<longleftrightarrow> list_all (\<lambda>(n, bs, ts). leaves_sorted bs \<and> leaves_sorted ts) Z"

lemma zip_sorted_simps [simp]: "zip_sorted []" "zip_sorted ((n, bs, ts) # Z) \<longleftrightarrow> leaves_sorted bs \<and> leaves_sorted ts \<and> zip_sorted Z"
  by (simp_all add: zip_sorted_def)

text \<open>A store of the target only.\<close>

lemma applyStore_target_only:
  assumes base: "peekStore (av_base v) = Some (Ok (bn, b))" "bn = None \<or> n < the bn"
    and rd: "dreads (av_diff v) (store_section n [] ts @ rest)" and "leaves_sorted ts"
  shows "\<exists>v'. applyStores v = applyStores v' \<and> av_base v' = b \<and> dreads (av_diff v') rest \<and>
    snd (av_so v') = snd (av_so v) @ recs_wire (out_store n [] ts)"
proof -
  let ?ch = "collect newStoreChanges (merge_leaves rec_kv [] ts)"
  from peekSection_store [OF rd] obtain d where d: "peekSection (av_diff v) = Some (Ok (Some (SectionStore n), d))"
    "dreads (consumeRecord d) (map change_rec (merge_leaves rec_kv [] ts) @ (tagStoreLeave, []) # rest)" by blast
  from readStoreChanges_collects [OF d(2), of newStoreChanges] obtain d' where
    d': "readStoreChanges (consumeRecord d) = Some (Ok (?ch, d'))" "dreads d' rest" by (auto simp: readStoreChanges_def)
  let ?v = "v\<lparr>av_base := b, av_diff := d', av_so := emitTargetOnlyStore n (sc_inserts ?ch) (av_so v)\<rparr>"
  have "applyStore v = Some (Ok (Some ?v, v\<lparr>av_base := b, av_diff := d\<rparr>))"
    using base d(1) d'(1) collect_new(1,2) [of rec_kv ts] by (cases bn) (auto simp: applyStore_def Let_def)
  then have "applyStores v = applyStores ?v" by (subst applyStores.simps) simp
  with d'(2) emitTargetOnlyStore_out [OF assms(4)] show ?thesis by (intro exI [of _ ?v]) simp
qed

text \<open>A store of the base, with its section.\<close>

lemma applyStore_base:
  assumes base: "peekStore (av_base v) = Some (Ok (Some n, b))" "reading b n (item_recs ns @ R)" "list_all is_node ns" "stores_over R"
    and rd: "dreads (av_diff v) (store_section n (leaf_msgs ns) ts @ rest)" and sorted: "leaves_sorted (leaf_msgs ns)" "leaves_sorted ts"
  shows "\<exists>v'. applyStores v = applyStores v' \<and> reading (av_base v') [] R \<and> dreads (av_diff v') rest \<and>
    snd (av_so v') = snd (av_so v) @ recs_wire (out_store n (leaf_msgs ns) ts)"
proof -
  let ?M = "merge_leaves rec_kv (leaf_msgs ns) ts"
  from peekSection_store [OF rd] obtain d where d: "peekSection (av_diff v) = Some (Ok (Some (SectionStore n), d))"
    "dreads (consumeRecord d) (map change_rec ?M @ (tagStoreLeave, []) # rest)" by blast
  from readStoreChanges_collects [OF d(2), of newStoreChanges] obtain d' where
    d': "readStoreChanges (consumeRecord d) = Some (Ok (collect newStoreChanges ?M, d'))" "dreads d' rest" by (auto simp: readStoreChanges_def)
  from emitStoreFromBase_out [OF base(2-4) sorted, of "av_so v"] obtain s so where
    e: "emitStoreFromBase n (Some (collect newStoreChanges ?M)) b (av_so v) = Some (Ok (s, so))" "reading s [] R"
      "snd so = snd (av_so v) @ recs_wire (out_store n (leaf_msgs ns) ts)" by blast
  let ?v = "v\<lparr>av_base := s, av_diff := d', av_so := so\<rparr>"
  have "applyStore v = Some (Ok (Some ?v, v\<lparr>av_base := b, av_diff := d\<rparr>))"
    using base(1) d(1) d'(1) e(1) by (simp add: applyStore_def Let_def)
  then have "applyStores v = applyStores ?v" by (subst applyStores.simps) simp
  with d'(2) e(2,3) show ?thesis by (intro exI [of _ ?v]) simp
qed

lemma peekSection_end: "dreads d [] \<Longrightarrow> \<exists>d'. peekSection d = Some (Ok (None, d')) \<and> dreads d' []"
  by (erule peekRecord_Nil) (subst peekSection.simps, simp)

text \<open>A store of the base when the diff has no more sections.\<close>

lemma applyStore_untouched:
  assumes base: "peekStore (av_base v) = Some (Ok (Some n, b))" "reading b n (item_recs ns @ R)" "list_all is_node ns" "stores_over R"
    and rd: "dreads (av_diff v) []"
  shows "\<exists>v'. applyStores v = applyStores v' \<and> reading (av_base v') [] R \<and> dreads (av_diff v') [] \<and>
    snd (av_so v') = snd (av_so v) @ recs_wire (out_store n (leaf_msgs ns) (leaf_msgs ns))"
proof -
  from peekSection_end [OF rd] obtain d where d: "peekSection (av_diff v) = Some (Ok (None, d))" "dreads d []" by blast
  from emitStoreFromBase_unchanged [OF base(2-4), of "av_so v"] obtain s so where
    e: "emitStoreFromBase n None b (av_so v) = Some (Ok (s, so))" "reading s [] R"
      "snd so = snd (av_so v) @ recs_wire (out_store n (leaf_msgs ns) (leaf_msgs ns))" by blast
  let ?v = "v\<lparr>av_base := s, av_diff := d, av_so := so\<rparr>"
  have "applyStore v = Some (Ok (Some ?v, v\<lparr>av_base := b, av_diff := d\<rparr>))"
    using base(1) d(1) e(1) by (simp add: applyStore_def Let_def)
  then have "applyStores v = applyStores ?v" by (subst applyStores.simps) simp
  with d(2) e(2,3) show ?thesis by (intro exI [of _ ?v]) simp
qed

text \<open>The first \<open>j\<close> stores of the two sides changed, the others as in the base.\<close>

definition keep :: "bytes \<times> bytes list \<times> bytes list \<Rightarrow> bytes \<times> bytes list \<times> bytes list" where
  "keep z = (fst z, fst (snd z), fst (snd z))"

definition cut_zip :: "nat \<Rightarrow> (bytes \<times> bytes list \<times> bytes list) list \<Rightarrow> (bytes \<times> bytes list \<times> bytes list) list" where
  "cut_zip j Z = take j Z @ map keep (drop j Z)"

lemma cut_zip_simps [simp]:
  "cut_zip j [] = []" "cut_zip 0 Z = map keep Z" "cut_zip (Suc j) (z # Z) = z # cut_zip j Z" "keep (n, bs, ts) = (n, bs, bs)"
  by (simp_all add: cut_zip_def keep_def)

lemma cut_zip_all [simp]: "cut_zip (length Z) Z = Z"
  by (simp add: cut_zip_def)

lemma out_stores_keep: "out_stores (map keep (zip_stores B T)) = out_stores (map (\<lambda>(n, ns). (n, leaf_msgs ns, leaf_msgs ns)) B)"
  by (induction B T rule: zip_stores.induct) (simp_all add: out_store_def)

lemma applyStores_untouched:
  assumes "at_stores (av_base v) B EB" and "dreads (av_diff v) []"
  shows "\<exists>v'. applyStores v = Some (Ok v') \<and> reading (av_base v') [] EB \<and> dreads (av_diff v') [] \<and>
    snd (av_so v') = snd (av_so v) @ recs_wire (out_stores (map keep (zip_stores B T)))"
  unfolding out_stores_keep using assms
proof (induction B arbitrary: v)
  case Nil
  from peekStore_Nil [OF Nil(1)] obtain b where b: "peekStore (av_base v) = Some (Ok (None, b))" "at_stores b [] EB" by blast
  from peekSection_end [OF Nil(2)] obtain d where d: "peekSection (av_diff v) = Some (Ok (None, d))" "dreads d []" by blast
  have "applyStore v = Some (Ok (None, v\<lparr>av_base := b, av_diff := d\<rparr>))" using b(1) d(1) by (simp add: applyStore_def Let_def)
  then show ?case using b(2) d(2) by (subst applyStores.simps) simp
next
  case (Cons e B)
  obtain n ns where e: "e = (n, ns)" by (cases e)
  note ok = at_stores_ok [OF Cons.prems(1) [unfolded e], unfolded stores_ok_Cons]
  from peekStore_Cons [OF Cons.prems(1) [unfolded e]] obtain b where
    b: "peekStore (av_base v) = Some (Ok (Some n, b))" "reading b n (item_recs ns @ item_recs (store_items B) @ EB)" by blast
  from applyStore_untouched [OF b _ stores_over_next Cons.prems(2)] ok obtain v' where
    v': "applyStores v = applyStores v'" "reading (av_base v') [] (item_recs (store_items B) @ EB)" "dreads (av_diff v') []"
      "snd (av_so v') = snd (av_so v) @ recs_wire (out_store n (leaf_msgs ns) (leaf_msgs ns))" by auto
  have "at_stores (av_base v') B EB" using ok v'(2) reading_at_stores by blast
  with v' Cons.IH [of v'] e show ?case by simp
qed

lemma applyStores_out:
  assumes "at_stores (av_base v) B EB" and "dreads (av_diff v) (store_sections (take j (zip_stores B T)) @ X)" and "stores_ok T"
    and "zip_sorted (zip_stores B T)" and "length (zip_stores B T) \<le> j \<or> X = []" and "\<And>d. dreads d X \<Longrightarrow> no_store_next d X"
  shows "\<exists>v'. applyStores v = Some (Ok v') \<and> reading (av_base v') [] EB \<and> dreads (av_diff v') X \<and>
    snd (av_so v') = snd (av_so v) @ recs_wire (out_stores (cut_zip j (zip_stores B T)))"
  using assms(1-5)
proof (induction B T arbitrary: v j rule: zip_stores.induct)
  case 1
  from peekStore_Nil [OF "1.prems"(1)] obtain b where b: "peekStore (av_base v) = Some (Ok (None, b))" "at_stores b [] EB" by blast
  have "no_store_next (av_diff v) X" using "1.prems"(2) assms(6) by simp
  then obtain sec d where d: "peekSection (av_diff v) = Some (Ok (sec, d))" "dreads d X" "\<forall>n. sec \<noteq> Some (SectionStore n)"
    by (auto simp: no_store_next_def)
  have "applyStore v = Some (Ok (None, v\<lparr>av_base := b, av_diff := d\<rparr>))"
    using b(1) d(1,3) by (auto simp: applyStore_def Let_def split: option.split diffSection.split)
  then show ?case using b(2) d(2) by (subst applyStores.simps) simp
next
  case (2 tn ts T)
  show ?case
  proof (cases j)
    case 0
    with "2.prems"(2,5) have "dreads (av_diff v) []" and X: "X = []" by (auto split: if_splits)
    from applyStores_untouched [OF "2.prems"(1) this(1)] show ?thesis unfolding 0 cut_zip_simps X by blast
  next
    case (Suc k)
    from peekStore_Nil [OF "2.prems"(1)] obtain b where b: "peekStore (av_base v) = Some (Ok (None, b))" "at_stores b [] EB" by blast
    from applyStore_target_only [OF b(1), of tn "leaf_msgs ts" "store_sections (take k (zip_stores [] T)) @ X"] "2.prems"(2,4) Suc obtain v' where
      v': "applyStores v = applyStores v'" "av_base v' = b" "dreads (av_diff v') (store_sections (take k (zip_stores [] T)) @ X)"
        "snd (av_so v') = snd (av_so v) @ recs_wire (out_store tn [] (leaf_msgs ts))" by auto
    with "2.IH" [of v' k] b(2) "2.prems"(3-5) Suc show ?thesis by (simp add: stores_ok_Cons)
  qed
next
  case (3 bn bs B)
  show ?case
  proof (cases j)
    case 0
    with "3.prems"(2,5) have "dreads (av_diff v) []" and X: "X = []" by (auto split: if_splits)
    from applyStores_untouched [OF "3.prems"(1) this(1)] show ?thesis unfolding 0 cut_zip_simps X by blast
  next
    case (Suc k)
    note ok = at_stores_ok [OF "3.prems"(1), unfolded stores_ok_Cons]
    from peekStore_Cons [OF "3.prems"(1)] obtain b where
      b: "peekStore (av_base v) = Some (Ok (Some bn, b))" "reading b bn (item_recs bs @ item_recs (store_items B) @ EB)" by blast
    from applyStore_base [OF b _ stores_over_next, of "[]" "store_sections (take k (zip_stores B [])) @ X"] ok "3.prems"(2,4) Suc obtain v' where
      v': "applyStores v = applyStores v'" "reading (av_base v') [] (item_recs (store_items B) @ EB)" "dreads (av_diff v') (store_sections (take k (zip_stores B [])) @ X)"
        "snd (av_so v') = snd (av_so v) @ recs_wire (out_store bn (leaf_msgs bs) [])" by auto
    have "at_stores (av_base v') B EB" using ok v'(2) reading_at_stores by blast
    with v' "3.IH" [of v' k] "3.prems"(3-5) Suc show ?thesis by simp
  qed
next
  case (4 bn bs B tn ts T)
  show ?case
  proof (cases j)
    case 0
    with "4.prems"(2,5) have "dreads (av_diff v) []" and X: "X = []" by (auto split: if_splits)
    from applyStores_untouched [OF "4.prems"(1) this(1)] show ?thesis unfolding 0 cut_zip_simps X by blast
  next
    case (Suc k)
    note ok = at_stores_ok [OF "4.prems"(1), unfolded stores_ok_Cons]
    from peekStore_Cons [OF "4.prems"(1)] obtain b where
      b: "peekStore (av_base v) = Some (Ok (Some bn, b))" "reading b bn (item_recs bs @ item_recs (store_items B) @ EB)" "at_stores b ((bn, bs) # B) EB" by blast
    consider (less) "bn < tn" | (greater) "\<not> bn < tn" "tn < bn" | (same) "\<not> bn < tn" "\<not> tn < bn" by blast
    then show ?thesis
    proof cases
      case less
      from applyStore_base [OF b(1,2) _ stores_over_next, of "[]" "store_sections (take k (zip_stores B ((tn, ts) # T))) @ X"] ok "4.prems"(2,4) Suc less obtain v' where
        v': "applyStores v = applyStores v'" "reading (av_base v') [] (item_recs (store_items B) @ EB)"
          "dreads (av_diff v') (store_sections (take k (zip_stores B ((tn, ts) # T))) @ X)"
          "snd (av_so v') = snd (av_so v) @ recs_wire (out_store bn (leaf_msgs bs) [])" by auto
      have "at_stores (av_base v') B EB" using ok v'(2) reading_at_stores by blast
      with v' "4.IH"(1) [OF less, of v' k] "4.prems"(3-5) Suc less show ?thesis by simp
    next
      case greater
      from applyStore_target_only [OF b(1), of tn "leaf_msgs ts" "store_sections (take k (zip_stores ((bn, bs) # B) T)) @ X"] "4.prems"(2,4) Suc greater obtain v' where
        v': "applyStores v = applyStores v'" "av_base v' = b" "dreads (av_diff v') (store_sections (take k (zip_stores ((bn, bs) # B) T)) @ X)"
          "snd (av_so v') = snd (av_so v) @ recs_wire (out_store tn [] (leaf_msgs ts))" by auto
      with "4.IH"(2) [OF greater, of v' k] b(3) "4.prems"(3-5) Suc greater show ?thesis by (simp add: stores_ok_Cons)
    next
      case same
      from applyStore_base [OF b(1,2) _ stores_over_next, of "leaf_msgs ts" "store_sections (take k (zip_stores B T)) @ X"] ok "4.prems"(2,4) Suc same obtain v' where
        v': "applyStores v = applyStores v'" "reading (av_base v') [] (item_recs (store_items B) @ EB)" "dreads (av_diff v') (store_sections (take k (zip_stores B T)) @ X)"
          "snd (av_so v') = snd (av_so v) @ recs_wire (out_store bn (leaf_msgs bs) (leaf_msgs ts))" by auto
      have "at_stores (av_base v') B EB" using ok v'(2) reading_at_stores by blast
      with v' "4.IH"(3) [OF same, of v' k] "4.prems"(3-5) Suc same show ?thesis by (simp add: stores_ok_Cons)
    qed
  qed
qed

section \<open>The extensions\<close>

definition ext_change :: "(bytes list \<Rightarrow> bytes list) \<Rightarrow> extData option \<Rightarrow> extData option \<Rightarrow> extChangeSet" where
  "ext_change ord b t = \<lparr>ec_format = extFormat b t,
     ec_removes = foldl (\<lambda>hs p. List.insert (sha256 p) hs) [] (extRemoves ord (opt_payloads b) (opt_payloads t)),
     ec_adds = extAdds ord (opt_payloads b) (opt_payloads t)\<rparr>"

lemma readExtChanges_removes:
  assumes "dreads d (map (\<lambda>p. (tagExtRemove, encBytesField 1 p)) ps @ rest)"
  shows "\<exists>d'. readExtChanges_loop ch d = readExtChanges_loop (ch\<lparr>ec_removes := foldl (\<lambda>hs p. List.insert (sha256 p) hs) (ec_removes ch) ps\<rparr>) d' \<and> dreads d' rest"
  using assms
proof (induction ps arbitrary: d ch)
  case Nil
  then show ?case by auto
next
  case (Cons p ps)
  let ?rs = "map (\<lambda>p. (tagExtRemove, encBytesField 1 p)) ps @ rest"
  have rd: "dreads d ((tagExtRemove, encBytesField 1 p) # ?rs)" using Cons.prems by simp
  from peekRecord_Cons [OF rd] obtain d' where
    d': "peekRecord d = Ok (Some (of_nat tagExtRemove, encBytesField 1 p), d')" "dreads (consumeRecord d') ?rs" by blast
  let ?ch = "ch\<lparr>ec_removes := List.insert (sha256 p) (ec_removes ch)\<rparr>"
  have "readExtChanges_loop ch d = readExtChanges_loop ?ch (consumeRecord d')"
    using d'(1) proto_one [OF dreads_fits [OF rd]] by (subst readExtChanges_loop.simps) (simp add: tag_defs)
  with Cons.IH [OF d'(2), of ?ch] show ?case by simp
qed

lemma readExtChanges_adds:
  assumes "dreads d (map (\<lambda>p. (tagExtAdd, encBytesField 1 p)) ps @ (tagExtLeave, []) # rest)"
  shows "\<exists>d'. readExtChanges_loop ch d = Some (Ok (ch\<lparr>ec_adds := ec_adds ch @ ps\<rparr>, d')) \<and> dreads d' rest"
  using assms
proof (induction ps arbitrary: d ch)
  case Nil
  then have rd: "dreads d ((tagExtLeave, []) # rest)" by simp
  from peekRecord_Cons [OF rd] obtain d' where "peekRecord d = Ok (Some (of_nat tagExtLeave, []), d')" "dreads (consumeRecord d') rest" by blast
  then show ?case by (subst readExtChanges_loop.simps) (simp add: tag_defs)
next
  case (Cons p ps)
  let ?rs = "map (\<lambda>p. (tagExtAdd, encBytesField 1 p)) ps @ (tagExtLeave, []) # rest"
  have rd: "dreads d ((tagExtAdd, encBytesField 1 p) # ?rs)" using Cons.prems by simp
  from peekRecord_Cons [OF rd] obtain d' where
    d': "peekRecord d = Ok (Some (of_nat tagExtAdd, encBytesField 1 p), d')" "dreads (consumeRecord d') ?rs" by blast
  let ?ch = "ch\<lparr>ec_adds := ec_adds ch @ [p]\<rparr>"
  have "readExtChanges_loop ch d = readExtChanges_loop ?ch (consumeRecord d')"
    using d'(1) proto_one [OF dreads_fits [OF rd]] by (subst readExtChanges_loop.simps) (simp add: tag_defs)
  with Cons.IH [OF d'(2), of ?ch] show ?case by simp
qed

lemma peekSection_ext:
  assumes "dreads d (ext_section ord n b t @ rest)"
  shows "\<exists>d'. peekSection d = Some (Ok (Some (SectionExt n (extFormat b t)), d')) \<and> dreads d' (ext_section ord n b t @ rest) \<and>
    (\<exists>d''. readExtChanges (extFormat b t) (consumeRecord d') = Some (Ok (ext_change ord b t, d'')) \<and> dreads d'' rest)"
proof -
  let ?rs = "map (\<lambda>p. (tagExtRemove, encBytesField 1 p)) (extRemoves ord (opt_payloads b) (opt_payloads t)) @
     map (\<lambda>p. (tagExtAdd, encBytesField 1 p)) (extAdds ord (opt_payloads b) (opt_payloads t)) @ (tagExtLeave, []) # rest"
  let ?m = "encStringField 1 n @ encVarintField 2 (ucast (extFormat b t))"
  have sec: "ext_section ord n b t @ rest = (tagExtEnter, ?m) # ?rs" by (simp add: ext_section_def)
  then have rd: "dreads d ((tagExtEnter, ?m) # ?rs)" using assms by simp
  from peekRecord_Cons [OF rd] obtain d' where d': "peekRecord d = Ok (Some (of_nat tagExtEnter, ?m), d')"
    "dreads d' ((tagExtEnter, ?m) # ?rs)" "dreads (consumeRecord d') ?rs" by blast
  have "peekSection d = Some (Ok (Some (SectionExt n (extFormat b t)), d'))"
    using d'(1) proto_meta [OF dreads_fits [OF rd]] by (subst peekSection.simps) (simp add: tag_defs)
  moreover have "\<exists>d''. readExtChanges (extFormat b t) (consumeRecord d') = Some (Ok (ext_change ord b t, d'')) \<and> dreads d'' rest"
  proof -
    let ?ch = "\<lparr>ec_format = extFormat b t, ec_removes = [], ec_adds = []\<rparr>"
    from readExtChanges_removes [OF d'(3), of ?ch] obtain d1 where d1: "readExtChanges (extFormat b t) (consumeRecord d') =
        readExtChanges_loop ((ext_change ord b t)\<lparr>ec_adds := []\<rparr>) d1"
      "dreads d1 (map (\<lambda>p. (tagExtAdd, encBytesField 1 p)) (extAdds ord (opt_payloads b) (opt_payloads t)) @ (tagExtLeave, []) # rest)"
      by (auto simp: readExtChanges_def ext_change_def)
    from readExtChanges_adds [OF d1(2), of "(ext_change ord b t)\<lparr>ec_adds := []\<rparr>"] d1(1) show ?thesis by (auto simp: ext_change_def)
  qed
  ultimately show ?thesis using d'(2) sec by auto
qed

lemma ext_sections_no_store:
  assumes "dreads d (ext_sections ord EB ET)"
  shows "no_store_next d (ext_sections ord EB ET)"
proof (cases "ext_names EB ET")
  case Nil
  with assms peekSection_end [of d] show ?thesis by (force simp: no_store_next_def ext_sections_def)
next
  case (Cons n ns)
  let ?b = "map_of (ext_data EB) n" and ?t = "map_of (ext_data ET) n"
  have "ext_sections ord EB ET = ext_section ord n ?b ?t @ concat (map (\<lambda>n. ext_section ord n (map_of (ext_data EB) n) (map_of (ext_data ET) n)) ns)"
    using Cons by (simp add: ext_sections_def)
  with assms peekSection_ext [of d ord n ?b ?t] show ?thesis unfolding no_store_next_def by fastforce
qed

lemma readPerExt_changes:
  assumes "dreads d (concat (map (\<lambda>n. ext_section ord n (f n) (g n)) ns))" and "distinct ns" and "set ns \<inter> fst ` set A = {}"
  shows "readPerExt A d = Some (Ok (A @ map (\<lambda>n. (n, ext_change ord (f n) (g n))) ns))"
  using assms
proof (induction ns arbitrary: d A)
  case Nil
  then obtain d' where "peekSection d = Some (Ok (None, d'))" using peekSection_end by fastforce
  then show ?case by (subst readPerExt.simps) simp
next
  case (Cons n ns)
  let ?rs = "concat (map (\<lambda>n. ext_section ord n (f n) (g n)) ns)" and ?A = "A @ [(n, ext_change ord (f n) (g n))]"
  have "dreads d (ext_section ord n (f n) (g n) @ ?rs)" using Cons.prems(1) by simp
  from peekSection_ext [OF this] obtain d1 d2 where d: "peekSection d = Some (Ok (Some (SectionExt n (extFormat (f n) (g n))), d1))"
    "readExtChanges (extFormat (f n) (g n)) (consumeRecord d1) = Some (Ok (ext_change ord (f n) (g n), d2))" "dreads d2 ?rs" by blast
  have "n \<notin> fst ` set A" using Cons.prems(3) by auto
  then have "AList.update n (ext_change ord (f n) (g n)) A = ?A" using update_append [of n A _ "[]"] by simp
  then have "readPerExt A d = readPerExt ?A d2" using d by (subst readPerExt.simps) simp
  moreover have "readPerExt ?A d2 = Some (Ok (?A @ map (\<lambda>n. (n, ext_change ord (f n) (g n))) ns))"
    using Cons.prems(2,3) by (intro Cons.IH [OF d(3)]) auto
  ultimately show ?case by simp
qed

definition out_ext :: "bytes \<Rightarrow> u32 \<Rightarrow> bytes list \<Rightarrow> (nat \<times> bytes) list" where
  "out_ext n f ps = (if ps = [] then [] else
     (3, encStringField 1 n @ encVarintField 2 (ucast f)) # map (\<lambda>p. (4, encBytesField 1 p)) ps)"

lemma applyExtension_out:
  "snd (applyExtension n b (Some ch) so) = snd so @ recs_wire (out_ext n (ec_format ch) (extPayloads b (Some ch)))"
  by (cases so) (simp add: applyExtension_def out_ext_def Let_def foldl_emit [simplified])

text \<open>Go may range over a map in any order: \<open>ord\<close> lists the keys it is given.\<close>

definition map_order :: "(bytes list \<Rightarrow> bytes list) \<Rightarrow> bool" where
  "map_order ord \<longleftrightarrow> (\<forall>xs. set (ord xs) = set xs)"

lemma map_of_rev_hash:
  "h \<in> sha256 ` set ps \<Longrightarrow> \<exists>p \<in> set ps. map_of (rev (map (\<lambda>p. (sha256 p, p)) ps)) h = Some p \<and> sha256 p = h"
proof -
  assume "h \<in> sha256 ` set ps"
  then have "map_of (rev (map (\<lambda>p. (sha256 p, p)) ps)) h \<noteq> None" by (simp add: map_of_eq_None_iff image_image)
  then obtain p where "map_of (rev (map (\<lambda>p. (sha256 p, p)) ps)) h = Some p" by blast
  then show ?thesis using map_of_SomeD by fastforce
qed

lemma extRemoves_set:
  assumes "map_order ord" and "inj_on sha256 (set bp \<union> set tp)"
  shows "set (extRemoves ord bp tp) = set bp - set tp"
proof -
  have first: "set (take 1 (filter (\<lambda>q. sha256 q = sha256 p) bp)) = {p}" if "p \<in> set bp" for p
  proof -
    have "filter (\<lambda>q. sha256 q = sha256 p) bp \<noteq> []" "\<And>q. q \<in> set (filter (\<lambda>q. sha256 q = sha256 p) bp) \<Longrightarrow> q = p"
      using that assms(2) by (auto simp: filter_empty_conv dest: inj_onD)
    then show ?thesis by (cases "filter (\<lambda>q. sha256 q = sha256 p) bp") auto
  qed
  have none: "map_of (rev (map (\<lambda>p. (sha256 p, p)) tp)) (sha256 p) = None \<longleftrightarrow> p \<notin> set tp" if "p \<in> set bp" for p
    using that assms(2) by (auto simp: map_of_eq_None_iff image_image dest: inj_onD)
  have "set (extRemoves ord bp tp) = (\<Union>p \<in> set bp. if map_of (rev (map (\<lambda>p. (sha256 p, p)) tp)) (sha256 p) = None then {p} else {})"
    using assms(1) first by (auto simp: extRemoves_def map_order_def Let_def split: if_splits)
  also have "\<dots> = set bp - set tp" using none by (auto split: if_splits)
  finally show ?thesis .
qed

lemma extAdds_set:
  assumes "map_order ord" and "inj_on sha256 (set bp \<union> set tp)"
  shows "set (extAdds ord bp tp) = set tp - set bp"
proof -
  have the: "the (map_of (rev (map (\<lambda>p. (sha256 p, p)) tp)) (sha256 p)) = p" if "p \<in> set tp" for p
  proof -
    from that map_of_rev_hash [of "sha256 p" tp] obtain q where
      "q \<in> set tp" "map_of (rev (map (\<lambda>p. (sha256 p, p)) tp)) (sha256 p) = Some q" "sha256 q = sha256 p" by blast
    with that assms(2) show ?thesis by (auto dest: inj_onD)
  qed
  have "set (extAdds ord bp tp) = (\<Union>p \<in> set tp. if sha256 p \<in> sha256 ` set bp then {} else {p})"
    using assms(1) the by (auto simp: extAdds_def map_order_def Let_def split: if_splits)
  also have "\<dots> = set tp - set bp" using assms(2) by (auto split: if_splits dest: inj_onD)
  finally show ?thesis .
qed

lemma set_insert_hashes: "set (foldl (\<lambda>hs p. List.insert (sha256 p) hs) A ps) = set A \<union> sha256 ` set ps"
  by (induction ps arbitrary: A) auto

lemma extPayloads_target:
  assumes "map_order ord" and "inj_on sha256 (set (opt_payloads b) \<union> set (opt_payloads t))"
  shows "set (extPayloads b (Some (ext_change ord b t))) = set (opt_payloads t)"
proof -
  let ?B = "set (opt_payloads b)" and ?T = "set (opt_payloads t)"
  have "set (extPayloads b (Some (ext_change ord b t))) = {p \<in> ?B. sha256 p \<notin> sha256 ` (?B - ?T)} \<union> (?T - ?B)"
    by (simp add: extPayloads_def ext_change_def set_insert_hashes extRemoves_set [OF assms] extAdds_set [OF assms] Collect_conj_eq [symmetric])
  also have "{p \<in> ?B. sha256 p \<notin> sha256 ` (?B - ?T)} = ?B \<inter> ?T" using assms(2) by (auto dest: inj_onD)
  also have "?B \<inter> ?T \<union> (?T - ?B) = ?T" by blast
  finally show ?thesis .
qed

section \<open>The records of a diff fit\<close>

definition small :: "bytes \<Rightarrow> bool" where
  "small b \<longleftrightarrow> length b < 2 ^ 40"

lemma small_fits:
  "small k \<Longrightarrow> msg_fits (encBytesField n k)" "small k \<Longrightarrow> small v \<Longrightarrow> msg_fits (encBytesField n k @ encBytesField m v)"
  "small k \<Longrightarrow> msg_fits (encStringField n k)" "small k \<Longrightarrow> msg_fits (encStringField n k @ encVarintField m w)"
  using length_PutUvarint(2) [of "of_nat (length k)"] length_PutUvarint(2) [of "of_nat (length v)"] length_PutUvarint(2) [of w]
  by (simp_all add: small_def msg_fits_def encBytesField_def encStringField_def encVarintField_def)

lemma msg_fits_Nil [simp]: "msg_fits []"
  by (simp add: msg_fits_def)

definition small_leaf :: "bytes \<Rightarrow> bool" where
  "small_leaf r \<longleftrightarrow> small (fst (rec_kv r)) \<and> small (snd (rec_kv r))"

lemma change_recs_fit:
  "list_all small_leaf bs \<Longrightarrow> list_all small_leaf ts \<Longrightarrow> list_all rec_fits (map change_rec (merge_leaves rec_kv bs ts))"
proof (induction rec_kv bs ts rule: merge_leaves.induct)
  case (4 b bs t ts)
  then show ?case by (simp add: rec_fits_def tag_defs small_leaf_def small_fits)
qed (simp_all add: rec_fits_def tag_defs small_leaf_def small_fits)

lemma store_section_fits:
  "small n \<Longrightarrow> list_all small_leaf bs \<Longrightarrow> list_all small_leaf ts \<Longrightarrow> list_all rec_fits (store_section n bs ts)"
  using change_recs_fit by (simp add: store_section_def rec_fits_def tag_defs small_fits)

definition small_stores :: "stores \<Rightarrow> bool" where
  "small_stores S \<longleftrightarrow> list_all (\<lambda>(n, ns). small n \<and> list_all small_leaf (leaf_msgs ns)) S"

lemma store_sections_fit: "small_stores B \<Longrightarrow> small_stores T \<Longrightarrow> list_all rec_fits (store_sections (zip_stores B T))"
  by (induction B T rule: zip_stores.induct) (simp_all add: small_stores_def store_section_fits)

definition small_exts :: "exts \<Rightarrow> bool" where
  "small_exts E \<longleftrightarrow> list_all (\<lambda>(n, f, ps). small n \<and> list_all small ps) E"

lemma small_ext_payloads: "small_exts E \<Longrightarrow> list_all small (opt_payloads (map_of (ext_data E) n))"
  by (induction E) (auto simp: small_exts_def opt_payloads_def)

lemma ext_section_fits:
  assumes "map_order ord" and "small n" and "list_all small (opt_payloads b)" and "list_all small (opt_payloads t)"
  shows "list_all rec_fits (ext_section ord n b t)"
proof -
  have "set (extRemoves ord (opt_payloads b) (opt_payloads t)) \<subseteq> set (opt_payloads b)"
    by (auto simp: extRemoves_def Let_def split: if_splits dest: in_set_takeD)
  moreover have "set (extAdds ord (opt_payloads b) (opt_payloads t)) \<subseteq> set (opt_payloads t)"
    using assms(1) map_of_rev_hash [of _ "opt_payloads t"] by (fastforce simp: extAdds_def Let_def map_order_def split: if_splits)
  ultimately show ?thesis using assms(2-4) small_fits by (auto simp: ext_section_def list_all_iff rec_fits_def tag_defs)
qed

lemma ext_sections_fit:
  assumes "map_order ord" and "small_exts EB" and "small_exts ET"
  shows "list_all rec_fits (ext_sections ord EB ET)"
proof -
  have "small n" if "n \<in> set (ext_names EB ET)" for n
    using that assms(2,3) by (auto simp: ext_names_def small_exts_def list_all_iff)
  then have "list_all rec_fits (ext_section ord n (map_of (ext_data EB) n) (map_of (ext_data ET) n))" if "n \<in> set (ext_names EB ET)" for n
    using that by (intro ext_section_fits assms(1) small_ext_payloads assms(2,3))
  then show ?thesis by (auto simp: ext_sections_def list_all_iff)
qed

lemma length_item_name: "length n \<le> length (item_msg (StoreItem n))" "length n \<le> length (item_msg (ExtMeta n f))"
  "length p \<le> length (item_msg (ExtPayload (Some p)))"
  using length_opt_bytes [of n 1] length_opt_bytes [of p 1] by (simp_all add: item_msg_def enc_fields_def nil_bytes_def)

lemma snap_small:
  assumes "snap_ok S"
  shows "small_stores (fst S)" "small_exts (snd S)"
proof -
  have it: "length (item_msg it) < 2 ^ 40" if "it \<in> set (store_items (fst S)) \<union> set (ext_items (snd S))" for it
    using that snap_ok_item [OF assms] by simp
  show "small_exts (snd S)"
    unfolding small_exts_def list_all_iff
  proof (intro ballI, clarify)
    fix n f ps assume e: "(n, f, ps) \<in> set (snd S)"
    then have "ExtMeta n f \<in> set (ext_items (snd S))" "\<And>p. p \<in> set ps \<Longrightarrow> ExtPayload (Some p) \<in> set (ext_items (snd S))"
      by (force simp: ext_items_def)+
    with it length_item_name show "small n \<and> (\<forall>p \<in> set ps. small p)" unfolding small_def by (meson UnI2 order_le_less_trans)
  qed
  show "small_stores (fst S)"
    unfolding small_stores_def list_all_iff
  proof (intro ballI, clarify)
    fix n ns assume e: "(n, ns) \<in> set (fst S)"
    then have "StoreItem n \<in> set (store_items (fst S))" and ns: "\<And>x. x \<in> set ns \<Longrightarrow> x \<in> set (store_items (fst S))"
      by (force simp: store_items_def)+
    moreover have "small_leaf (item_msg x)" if x: "x \<in> set ns" for x
    proof -
      have node: "is_node x" using assms e x by (auto simp: snap_ok_def stores_ok_def list_all_iff)
      have "length (item_msg x) < 2 ^ 40" using it ns [OF x] by blast
      with length_rec_kv [OF node] show ?thesis by (simp add: small_leaf_def small_def msg_fits_def)
    qed
    ultimately show "small n \<and> (\<forall>r \<in> set (leaf_msgs ns). small_leaf r)"
      using it length_item_name(1) [of n] unfolding small_def leaf_msgs_def by force
  qed
qed

lemma diff_recs_fit: "map_order ord \<Longrightarrow> snap_ok B \<Longrightarrow> snap_ok T \<Longrightarrow> list_all rec_fits (diff_recs ord B T)"
  using snap_small store_sections_fit ext_sections_fit by (simp add: diff_recs_def)

section \<open>Stores by name\<close>

definition leaves_of :: "stores \<Rightarrow> bytes \<Rightarrow> bytes list" where
  "leaves_of S n = (case map_of S n of None \<Rightarrow> [] | Some ns \<Rightarrow> leaf_msgs ns)"

definition store_names :: "stores \<Rightarrow> stores \<Rightarrow> bytes list" where
  "store_names B T = sort (remdups (map fst B @ map fst T))"

lemma leaves_of_simps [simp]: "leaves_of [] n = []" "leaves_of ((m, ns) # S) n = (if m = n then leaf_msgs ns else leaves_of S n)"
  by (simp_all add: leaves_of_def)

lemma leaves_of_absent: "n \<notin> fst ` set S \<Longrightarrow> leaves_of S n = []"
  by (simp add: leaves_of_def map_of_eq_None_iff [symmetric])

lemma zip_stores_keys: "fst ` set (zip_stores B T) = fst ` set B \<union> fst ` set T"
  by (induction B T rule: zip_stores.induct) auto

lemma zip_stores_sorted:
  "sorted_wrt (<) (map fst B) \<Longrightarrow> sorted_wrt (<) (map fst T) \<Longrightarrow> sorted_wrt (<) (map fst (zip_stores B T))"
proof (induction B T rule: zip_stores.induct)
  case (4 bn bs B tn ts T)
  consider (less) "bn < tn" | (greater) "\<not> bn < tn" "tn < bn" | (same) "\<not> bn < tn" "\<not> tn < bn" by blast
  then show ?case
  proof cases
    case less
    have "bn < x" if "x \<in> fst ` set (zip_stores B ((tn, ts) # T))" for x
      using that less "4.prems" unfolding zip_stores_keys by (auto intro: less_trans)
    with less 4 show ?thesis by simp
  next
    case greater
    have "tn < x" if "x \<in> fst ` set (zip_stores ((bn, bs) # B) T)" for x
      using that greater "4.prems" unfolding zip_stores_keys by (auto intro: less_trans)
    with greater 4 show ?thesis by simp
  next
    case same
    have "bn < x" if "x \<in> fst ` set (zip_stores B T)" for x
      using that same "4.prems" unfolding zip_stores_keys by auto
    with same 4 show ?thesis by simp
  qed
next
  case (2 tn ts T)
  have "tn < x" if "x \<in> fst ` set (zip_stores [] T)" for x using that "2.prems" unfolding zip_stores_keys by auto
  with 2 show ?case by simp
next
  case (3 bn bs B)
  have "bn < x" if "x \<in> fst ` set (zip_stores B [])" for x using that "3.prems" unfolding zip_stores_keys by auto
  with 3 show ?case by simp
qed simp

lemma zip_stores_leaves:
  assumes "sorted_wrt (<) (map fst B)" "sorted_wrt (<) (map fst T)" "(n, bs, ts) \<in> set (zip_stores B T)"
  shows "bs = leaves_of B n \<and> ts = leaves_of T n"
  using assms
proof (induction B T rule: zip_stores.induct)
  case (4 bm bns B tm tns T)
  have key: "(n, bs, ts) \<in> set (zip_stores X Y) \<Longrightarrow> n \<in> fst ` set X \<union> fst ` set Y" for X Y
    using zip_stores_keys [of X Y] by force
  have abs: "bm \<notin> fst ` set B" "tm \<notin> fst ` set T" using "4.prems"(1,2) by auto
  consider (less) "bm < tm" | (greater) "\<not> bm < tm" "tm < bm" | (same) "\<not> bm < tm" "\<not> tm < bm" by blast
  then show ?case
  proof cases
    case less
    then have "bm \<notin> fst ` set ((tm, tns) # T)" using "4.prems"(2) by auto
    with less 4(1) "4.prems" abs key [of B "(tm, tns) # T"] show ?thesis by (auto simp: leaves_of_absent)
  next
    case greater
    then have "tm \<notin> fst ` set ((bm, bns) # B)" using "4.prems"(1) by auto
    with greater 4(2) "4.prems" abs key [of "(bm, bns) # B" T] show ?thesis by (auto simp: leaves_of_absent)
  next
    case same
    with 4(3) "4.prems" abs key [of B T] show ?thesis by (auto simp: leaves_of_absent)
  qed
next
  case (2 tm tns T)
  have "(n, bs, ts) \<in> set (zip_stores [] T) \<Longrightarrow> n \<in> fst ` set T" using zip_stores_keys [of "[]" T] by force
  with 2 show ?case by auto
next
  case (3 bm bns B)
  have "(n, bs, ts) \<in> set (zip_stores B []) \<Longrightarrow> n \<in> fst ` set B" using zip_stores_keys [of B "[]"] by force
  with 3 show ?case by auto
qed simp

lemma zip_stores_by_name:
  assumes "sorted_wrt (<) (map fst B)" "sorted_wrt (<) (map fst T)"
  shows "zip_stores B T = map (\<lambda>n. (n, leaves_of B n, leaves_of T n)) (store_names B T)"
proof -
  have "map (\<lambda>z. (fst z, leaves_of B (fst z), leaves_of T (fst z))) (zip_stores B T) = zip_stores B T"
    using zip_stores_leaves [OF assms] by (intro map_idI) auto
  then have "zip_stores B T = map (\<lambda>n. (n, leaves_of B n, leaves_of T n)) (map fst (zip_stores B T))" by (simp add: comp_def)
  moreover have "map fst (zip_stores B T) = store_names B T"
    using zip_stores_sorted [OF assms] zip_stores_keys [of B T]
    by (intro strict_sorted_equal) (auto simp: store_names_def strict_sorted_iff)
  ultimately show ?thesis by simp
qed

section \<open>Properties\<close>

definition payloads_of :: "exts \<Rightarrow> bytes \<Rightarrow> bytes list" where
  "payloads_of E n = opt_payloads (map_of (ext_data E) n)"

definition keys_sorted :: "stores \<Rightarrow> bool" where
  "keys_sorted S \<longleftrightarrow> sorted_wrt (<) (map fst S) \<and> (\<forall>n. leaves_sorted (leaves_of S n))"

definition out_snapshot :: "snapshot \<Rightarrow> snapshot \<Rightarrow> (bytes \<Rightarrow> bytes list) \<Rightarrow> (nat \<times> bytes) list" where
  "out_snapshot B T ps =
     concat (map (\<lambda>n. out_store n (leaves_of (fst B) n) (leaves_of (fst T) n)) (store_names (fst B) (fst T))) @
     concat (map (\<lambda>n. out_ext n (extFormat (map_of (ext_data (snd B)) n) (map_of (ext_data (snd T)) n)) (ps n)) (ext_names (snd B) (snd T)))"

lemma ext_names_sorted: "sort (remdups (map fst EB @ ext_names EB ET)) = ext_names EB ET"
  by (rule sorted_distinct_set_unique) (auto simp: ext_names_def)

lemma applyExtensions_out:
  fixes f :: "bytes \<Rightarrow> extChangeSet"
  assumes "E = map (\<lambda>n. (n, f n)) (ext_names EB ET)"
  shows "snd (applyExtensions (ext_data EB) E so) = snd so @
    recs_wire (concat (map (\<lambda>n. out_ext n (ec_format (f n)) (extPayloads (map_of (ext_data EB) n) (Some (f n)))) (ext_names EB ET)))"
proof -
  have keys: "map fst E = ext_names EB ET" by (simp add: assms comp_def)
  have val: "map_of E n = Some (f n)" if "n \<in> set (ext_names EB ET)" for n
    unfolding assms using that by (simp add: map_of_map_restrict)
  have "snd (foldl (\<lambda>so n. applyExtension n (map_of (ext_data EB) n) (map_of E n) so) so ns) = snd so @
      recs_wire (concat (map (\<lambda>n. out_ext n (ec_format (f n)) (extPayloads (map_of (ext_data EB) n) (Some (f n)))) ns))"
    if "set ns \<subseteq> set (ext_names EB ET)" for ns
    using that
  proof (induction ns arbitrary: so)
    case (Cons n ns)
    then show ?case using val [of n] by (simp add: applyExtension_out)
  qed simp
  then show ?thesis by (simp add: applyExtensions_def keys ext_names_sorted)
qed

lemma applyStream_out:
  assumes ok: "snap_ok B" "snap_ok T" and sorted: "keys_sorted (fst B)" "keys_sorted (fst T)" and ord: "map_order ord"
    and coll: "\<And>n. inj_on sha256 (set (payloads_of (snd B) n) \<union> set (payloads_of (snd T) n))"
  shows "\<exists>st ps. applyStream (snap_wire B) (recs_wire (diff_recs ord B T)) = Some (Ok (st, recs_wire (out_snapshot B T ps))) \<and>
    (\<forall>n. set (ps n) = set (payloads_of (snd T) n))"
proof -
  let ?Z = "zip_stores (fst B) (fst T)" and ?X = "ext_sections ord (snd B) (snd T)" and ?b = "\<lambda>n. map_of (ext_data (snd B)) n" and ?t = "\<lambda>n. map_of (ext_data (snd T)) n"
  let ?v = "\<lparr>av_base = newStoreReader (snap_wire B), av_diff = newDiffReader (recs_wire (diff_recs ord B T)), av_so = (zeroApplyStats, [])\<rparr>"
  define ps where "ps = (\<lambda>n. extPayloads (?b n) (Some (ext_change ord (?b n) (?t n))))"
  have Z: "?Z = map (\<lambda>n. (n, leaves_of (fst B) n, leaves_of (fst T) n)) (store_names (fst B) (fst T))"
    using sorted by (intro zip_stores_by_name) (simp_all add: keys_sorted_def)
  have zs: "zip_sorted ?Z" using sorted by (simp add: Z zip_sorted_def list_all_iff keys_sorted_def)
  have at: "at_stores (av_base ?v) (fst B) (item_recs (ext_items (snd B)))" using snap_at_stores [OF ok(1)] by simp
  have dr: "dreads (av_diff ?v) (store_sections (take (length ?Z) ?Z) @ ?X)"
    using dreads_new [OF diff_recs_fit [OF ord ok], of "[]"] by (simp add: diff_recs_def cut_tail_def)
  have okT: "stores_ok (fst T)" using ok(2) by (simp add: snap_ok_def)
  from applyStores_out [OF at dr okT zs disjI1 ext_sections_no_store] obtain v where
    v: "applyStores ?v = Some (Ok v)" "reading (av_base v) [] (item_recs (ext_items (snd B)))" "dreads (av_diff v) ?X"
      "snd (av_so v) = recs_wire (out_stores ?Z)" by auto
  have e: "readAllExtensions (av_base v) = Some (Ok (ext_data (snd B)))" using ok(1) v(2) by (simp add: readAllExtensions_data snap_ok_def)
  have r: "readPerExt [] (av_diff v) = Some (Ok (map (\<lambda>n. (n, ext_change ord (?b n) (?t n))) (ext_names (snd B) (snd T))))"
    using readPerExt_changes [of "av_diff v" ord ?b ?t "ext_names (snd B) (snd T)" "[]"] v(3) by (simp add: ext_sections_def ext_names_def)
  let ?r = "applyExtensions (ext_data (snd B)) (map (\<lambda>n. (n, ext_change ord (?b n) (?t n))) (ext_names (snd B) (snd T))) (av_so v)"
  have fmt: "ec_format (ext_change ord b t) = extFormat b t" for b t by (simp add: ext_change_def)
  have "snd ?r = recs_wire (out_snapshot B T ps)"
    unfolding applyExtensions_out [OF refl] v(4) by (simp add: out_snapshot_def out_stores_def Z comp_def fmt ps_def)
  then obtain st where st: "?r = (st, recs_wire (out_snapshot B T ps))" by (cases ?r) (simp only: snd_conv)
  have "applyStream (snap_wire B) (recs_wire (diff_recs ord B T)) = Some (Ok (st, recs_wire (out_snapshot B T ps)))"
    unfolding applyStream_def v(1) go_bind_simps e r st ..
  moreover have "set (ps n) = set (payloads_of (snd T) n)" for n
    unfolding ps_def payloads_of_def using ord coll [of n, unfolded payloads_of_def] by (rule extPayloads_target)
  ultimately show ?thesis by blast
qed

text \<open>Two small snapshots: one store with one leaf, whose value changes, and one extension.\<close>

definition sample_base :: snapshot where
  "sample_base = ([([98], [IAVLItem (Some [1]) (Some [2]) 5 0])], [([101], 1, [[7]])])"

definition sample_target :: snapshot where
  "sample_target = ([([98], [IAVLItem (Some [1]) (Some [3]) 6 0])], [([101], 1, [[7]])])"

lemmas sample_defs = sample_base_def sample_target_def

lemma sample_ok: "snap_ok sample_base" "snap_ok sample_target" "keys_sorted (fst sample_base)" "keys_sorted (fst sample_target)"
  by (simp_all add: sample_defs snap_ok_def stores_ok_def exts_ok_def is_node_def item_msg_def opt_defs enc_fields_def appendBytesField_def
      appendUvarintField_def PutUvarint_nat uv_nat.simps keys_sorted_def leaves_sorted_def)

text \<open>
  C15. Logical diffs reproduce the target's contents.  For two well-formed snapshots whose stores come in
  the order of their names and whose leaves come in the order of their keys, \<open>Compute\<close> writes a diff, and
  \<open>Apply\<close> on the base and that diff returns and writes: for every store name of either snapshot, in
  order, the store item followed by exactly the target's keys and values, in key order (nothing at all
  when the store has no leaves on either side), then for every extension the meta item and a list of
  payloads that as a set is the target's (nothing when it is empty).  The merge compares whole records, so
  it may report an unchanged key as deleted and inserted, and Go may range over its maps in any order:
  neither matters.  Assumed are no collision of SHA-256 among the payloads of an extension, working file
  operations, and that decompression undoes compression.
\<close>

theorem logical_diff_roundtrip:
  assumes "snap_ok B" and "snap_ok T" and "keys_sorted (fst B)" and "keys_sorted (fst T)" and "map_order ord"
    and "\<And>n. inj_on sha256 (set (payloads_of (snd B) n) \<union> set (payloads_of (snd T) n))"
    and "\<And>x. inflate (concat (zw x)) = Inr x" and "io_works io"
    and "length bh \<le> 2 ^ 20" and "length th \<le> 2 ^ 20" and "metaHash = None \<or> metaHash = Some bh"
  shows "\<exists>diff st res ps c. Compute ord zw (snap_wire B) (snap_wire T) bh th bH tH = Some (Ok (diff, st)) \<and>
    (Apply zw inflate io metaHash (snap_wire B) diff outDir :: (('e, 'z) apply_error, _) outcome option) = Some (Ok res) \<and>
    ar_out res = recs_wire (out_snapshot B T ps) \<and> (\<forall>n. set (ps n) = set (payloads_of (snd T) n)) \<and>
    chunkWrites io (newChunkWriter outDir (16 * 2 ^ 20)) (zw (ar_out res)) = Some (Inr c) \<and> ar_chunks res = c \<and> om_Height (ar_meta res) = tH"
proof -
  obtain st where st: "computeStream ord (snap_wire B) (snap_wire T) zeroStats = Some (Ok (st, recs_wire (diff_recs ord B T)))"
    using computeStream_recs [OF assms(1,2)] by blast
  from applyStream_out [OF assms(1-6)] obtain ast ps where
    ap: "applyStream (snap_wire B) (recs_wire (diff_recs ord B T)) = Some (Ok (ast, recs_wire (out_snapshot B T ps)))"
      "\<forall>n. set (ps n) = set (payloads_of (snd T) n)" by blast
  let ?h = "\<lparr>fh_BaseHeight = bH, fh_TargetHeight = tH, fh_BaseHashHex = bh, fh_TargetHashHex = th\<rparr>"
  have "0 < (16 * 2 ^ 20 :: nat)" by simp
  from chunkWriter_splits_state [OF assms(8) this] obtain c where
    c: "chunkWrites io (newChunkWriter outDir (16 * 2 ^ 20)) (zw (recs_wire (out_snapshot B T ps))) = Some (Inr c)" by blast
  have header: "ReadHeader (WriteHeader ?h @ r) = Inr (?h, r)" for r
    using assms(9,10) by (simp add: ReadHeader_def WriteHeader_def header_simps read_full_one)
  show ?thesis
    by (rule exI [of _ "WriteHeader ?h @ concat (zw (recs_wire (diff_recs ord B T)))"])
      (use st ap c assms(11) in \<open>auto simp: Compute_def Apply_def header assms(7)\<close>)
qed

theorem logical_diff_roundtrip_witness:
  "\<exists>diff st res. Compute id (\<lambda>x. [x]) (snap_wire sample_base) (snap_wire sample_target) [97] [98] 5 6 = Some (Ok (diff, st)) \<and>
    (Apply (\<lambda>x. [x]) Inr \<lparr>io_create = \<lambda>_. None, io_write = \<lambda>_ _. None, io_close = \<lambda>_. None\<rparr> None
      (snap_wire sample_base) diff Map.empty :: ((unit, unit) apply_error, _) outcome option) = Some (Ok res) \<and> om_Height (ar_meta res) = 6"
proof -
  have ord: "map_order id" by (simp add: map_order_def)
  have coll: "inj_on sha256 (set (payloads_of (snd sample_base) n) \<union> set (payloads_of (snd sample_target) n))" for n
    by (simp add: payloads_of_def opt_payloads_def sample_defs)
  show ?thesis
    using logical_diff_roundtrip [OF sample_ok ord coll, where zw = "\<lambda>x. [x]" and inflate = "Inr :: bytes \<Rightarrow> unit + bytes" and metaHash = None
        and io = "\<lparr>io_create = \<lambda>_. None, io_write = \<lambda>_ _. None, io_close = \<lambda>_. None\<rparr>" and bh = "[97]" and th = "[98]"
        and bH = 5 and tH = 6 and outDir = Map.empty]
    by (force simp: io_works_def)
qed

definition out_cut :: "nat \<Rightarrow> snapshot \<Rightarrow> snapshot \<Rightarrow> (nat \<times> bytes) list" where
  "out_cut j B T =
     concat (map (\<lambda>n. out_store n (leaves_of (fst B) n) (leaves_of (fst T) n)) (take j (store_names (fst B) (fst T)))) @
     concat (map (\<lambda>n. out_store n (leaves_of (fst B) n) (leaves_of (fst B) n)) (drop j (store_names (fst B) (fst T)))) @
     concat (map (\<lambda>n. out_ext n (extFormat (map_of (ext_data (snd B)) n) None) (payloads_of (snd B) n)) (sort (map fst (snd B))))"

lemma applyExtensions_unchanged:
  assumes "exts_ok E"
  shows "snd (applyExtensions (ext_data E) [] so) = snd so @
    recs_wire (concat (map (\<lambda>n. out_ext n (extFormat (map_of (ext_data E) n) None) (payloads_of E n)) (sort (map fst E))))"
proof -
  have one: "snd (applyExtension n (map_of (ext_data E) n) None so) = snd so @ recs_wire (out_ext n (extFormat (map_of (ext_data E) n) None) (payloads_of E n))" for n so
    by (cases so; cases "map_of (ext_data E) n")
      (simp_all add: applyExtension_def out_ext_def extPayloads_def payloads_of_def opt_payloads_def extFormat_def Let_def foldl_emit [simplified])
  have fold: "snd (foldl (\<lambda>so n. applyExtension n (map_of (ext_data E) n) None so) so ns) = snd so @
      recs_wire (concat (map (\<lambda>n. out_ext n (extFormat (map_of (ext_data E) n) None) (payloads_of E n)) ns))" for ns
    by (induction ns arbitrary: so) (simp_all add: one)
  have "remdups (map fst E) = map fst E" using assms by (simp add: exts_ok_def distinct_remdups_id)
  then show ?thesis using fold [of "sort (map fst E)"] by (simp only: applyExtensions_def ext_data_keys list.map append_Nil2 map_of.simps)
qed

text \<open>
  C29. A diff that was cut short is applied without an error.  If what is left of the diff's body is the
  sections of the first \<open>j\<close> stores and possibly the beginning of one more record, \<open>Apply\<close> returns and
  writes a mixture: the first \<open>j\<close> stores of the target, the other stores and all extensions of the base;
  the metadata names the target's height.  The reader takes \<open>io.ErrUnexpectedEOF\<close> for the end of the diff
  and nothing is compared with the target's hash in the header.
\<close>

theorem diff_truncation_unnoticed:
  assumes ok: "snap_ok B" "snap_ok T" and sorted: "keys_sorted (fst B)" "keys_sorted (fst T)" and tail: "cut_tail tail"
    and inflate: "inflate zbody = Inr (recs_wire (store_sections (take j (zip_stores (fst B) (fst T)))) @ tail)" and io: "io_works io"
    and hdr: "length bh \<le> 2 ^ 20" "length th \<le> 2 ^ 20" and meta: "metaHash = None \<or> metaHash = Some bh"
  shows "\<exists>res. (Apply zw inflate io metaHash (snap_wire B)
      (WriteHeader \<lparr>fh_BaseHeight = bH, fh_TargetHeight = tH, fh_BaseHashHex = bh, fh_TargetHashHex = th\<rparr> @ zbody) outDir ::
      (('e, 'z) apply_error, _) outcome option) = Some (Ok res) \<and>
    ar_out res = recs_wire (out_cut j B T) \<and> om_Height (ar_meta res) = tH"
proof -
  let ?Z = "zip_stores (fst B) (fst T)" and ?body = "recs_wire (store_sections (take j (zip_stores (fst B) (fst T)))) @ tail"
  let ?v = "\<lparr>av_base = newStoreReader (snap_wire B), av_diff = newDiffReader ?body, av_so = (zeroApplyStats, [])\<rparr>"
  have Z: "?Z = map (\<lambda>n. (n, leaves_of (fst B) n, leaves_of (fst T) n)) (store_names (fst B) (fst T))"
    using sorted by (intro zip_stores_by_name) (simp_all add: keys_sorted_def)
  have zs: "zip_sorted ?Z" using sorted by (simp add: Z zip_sorted_def list_all_iff keys_sorted_def)
  have "list_all rec_fits (store_sections ?Z)" using store_sections_fit snap_small ok by blast
  then have "list_all rec_fits (store_sections (take j ?Z))"
    by (auto simp: list_all_iff store_sections_def dest!: in_set_takeD)
  then have dr: "dreads (av_diff ?v) (store_sections (take j ?Z) @ [])" using dreads_new [OF _ tail] by simp
  have at: "at_stores (av_base ?v) (fst B) (item_recs (ext_items (snd B)))" using snap_at_stores [OF ok(1)] by simp
  have okT: "stores_ok (fst T)" using ok(2) by (simp add: snap_ok_def)
  have last: "dreads d [] \<Longrightarrow> no_store_next d []" for d using peekSection_end [of d] by (auto simp: no_store_next_def)
  from applyStores_out [OF at dr okT zs disjI2 last] obtain v where
    v: "applyStores ?v = Some (Ok v)" "reading (av_base v) [] (item_recs (ext_items (snd B)))" "dreads (av_diff v) []"
      "snd (av_so v) = recs_wire (out_stores (cut_zip j ?Z))" by auto
  have e: "readAllExtensions (av_base v) = Some (Ok (ext_data (snd B)))" using ok(1) v(2) by (simp add: readAllExtensions_data snap_ok_def)
  have r: "readPerExt [] (av_diff v) = Some (Ok [])" using readPerExt_changes [of "av_diff v" id _ _ "[]" "[]"] v(3) by simp
  let ?r = "applyExtensions (ext_data (snd B)) [] (av_so v)"
  have "exts_ok (snd B)" using ok(1) by (simp add: snap_ok_def)
  then have "snd ?r = recs_wire (out_cut j B T)"
    by (simp add: applyExtensions_unchanged v(4) out_cut_def out_stores_def cut_zip_def Z take_map drop_map comp_def)
  then obtain st where st: "?r = (st, recs_wire (out_cut j B T))" by (cases ?r) (simp only: snd_conv)
  have stream: "applyStream (snap_wire B) ?body = Some (Ok (st, recs_wire (out_cut j B T)))"
    unfolding applyStream_def v(1) go_bind_simps e r st ..
  let ?h = "\<lparr>fh_BaseHeight = bH, fh_TargetHeight = tH, fh_BaseHashHex = bh, fh_TargetHashHex = th\<rparr>"
  have "0 < (16 * 2 ^ 20 :: nat)" by simp
  from chunkWriter_splits_state [OF io this] obtain c where
    c: "chunkWrites io (newChunkWriter outDir (16 * 2 ^ 20)) (zw (recs_wire (out_cut j B T))) = Some (Inr c)" by blast
  have header: "ReadHeader (WriteHeader ?h @ r) = Inr (?h, r)" for r
    using hdr by (simp add: ReadHeader_def WriteHeader_def header_simps read_full_one)
  show ?thesis using meta stream c by (auto simp: Apply_def header inflate)
qed

theorem diff_truncation_unnoticed_witness:
  "\<exists>res. (Apply (\<lambda>x. [x]) Inr \<lparr>io_create = \<lambda>_. None, io_write = \<lambda>_ _. None, io_close = \<lambda>_. None\<rparr> None (snap_wire sample_base)
      (WriteHeader \<lparr>fh_BaseHeight = 5, fh_TargetHeight = 6, fh_BaseHashHex = [97], fh_TargetHashHex = [98]\<rparr> @ []) Map.empty ::
      ((unit, unit) apply_error, _) outcome option) = Some (Ok res) \<and>
    ar_out res = recs_wire (out_cut 0 sample_base sample_target) \<and> om_Height (ar_meta res) = 6"
  by (rule diff_truncation_unnoticed [OF sample_ok, where tail = "[]"]) (simp_all add: cut_tail_def io_works_def)

end
