(* ===== verification/DiffVerify.thy ===== *)
theory DiffVerify
  imports DiffProps
begin

unbundle bit_operations_syntax

text \<open>
  Comparing two snapshots (\<open>internal/snapshotdiff/verify.go\<close>): the walk over both, its counters, and
  that all of them are zero exactly when the snapshots have the same contents.
\<close>

section \<open>The comparison\<close>

record VerifyStoreStats =
  vs_ItemsA :: u64
  vs_ItemsB :: u64
  vs_ExtraInA :: u64
  vs_ExtraInB :: u64
  vs_ValueDiffs :: u64

record VerifyResult =
  vr_Stores :: nat
  vr_ItemsCompared :: u64
  vr_ExtraInA :: u64
  vr_ExtraInB :: u64
  vr_ValueDiffs :: u64
  vr_ExtensionDiff :: nat
  vr_PerStore :: "bytes \<rightharpoonup> VerifyStoreStats"

text \<open>
  The variables of \<open>compareStore\<close>: a side that lacks the store has no reader, \<open>cv_curA\<close> is \<open>keyA\<close>, \<open>valA\<close>
  when \<open>hasA\<close>.  \<open>advA\<close> and \<open>advB\<close> take the next leaf as \<^const>\<open>nextBase\<close> does and count it.
\<close>

record cmpVars =
  cv_A :: "storeReader option"
  cv_B :: "storeReader option"
  cv_curA :: "(bytes \<times> bytes) option"
  cv_curB :: "(bytes \<times> bytes) option"
  cv_ss :: VerifyStoreStats

definition advA :: "bytes \<Rightarrow> cmpVars \<Rightarrow> (diff_error, cmpVars) outcome option" where
  "advA name c =
     (case cv_A c of
        None \<Rightarrow> Some (Ok c)
      | Some r \<Rightarrow> go_bind (nextBase name r) (\<lambda>(cur, r).
          Some (Ok (c\<lparr>cv_A := Some r, cv_curA := cur,
            cv_ss := (if cur = None then cv_ss c else (cv_ss c)\<lparr>vs_ItemsA := vs_ItemsA (cv_ss c) + 1\<rparr>)\<rparr>))))"

definition advB :: "bytes \<Rightarrow> cmpVars \<Rightarrow> (diff_error, cmpVars) outcome option" where
  "advB name c =
     (case cv_B c of
        None \<Rightarrow> Some (Ok c)
      | Some r \<Rightarrow> go_bind (nextBase name r) (\<lambda>(cur, r).
          Some (Ok (c\<lparr>cv_B := Some r, cv_curB := cur,
            cv_ss := (if cur = None then cv_ss c else (cv_ss c)\<lparr>vs_ItemsB := vs_ItemsB (cv_ss c) + 1\<rparr>)\<rparr>))))"

definition extraA :: "cmpVars \<Rightarrow> cmpVars" where
  "extraA c = c\<lparr>cv_ss := (cv_ss c)\<lparr>vs_ExtraInA := vs_ExtraInA (cv_ss c) + 1\<rparr>\<rparr>"

definition extraB :: "cmpVars \<Rightarrow> cmpVars" where
  "extraB c = c\<lparr>cv_ss := (cv_ss c)\<lparr>vs_ExtraInB := vs_ExtraInB (cv_ss c) + 1\<rparr>\<rparr>"

definition valueDiff :: "cmpVars \<Rightarrow> cmpVars" where
  "valueDiff c = c\<lparr>cv_ss := (cv_ss c)\<lparr>vs_ValueDiffs := vs_ValueDiffs (cv_ss c) + 1\<rparr>\<rparr>"

partial_function (option) compareStore_loop :: "bytes \<Rightarrow> cmpVars \<Rightarrow> (diff_error, cmpVars) outcome option" where
  "compareStore_loop name c =
     (case (cv_curA c, cv_curB c) of
        (None, None) \<Rightarrow> Some (Ok c)
      | (Some _, None) \<Rightarrow> go_bind (advA name (extraA c)) (compareStore_loop name)
      | (None, Some _) \<Rightarrow> go_bind (advB name (extraB c)) (compareStore_loop name)
      | (Some (keyA, valA), Some (keyB, valB)) \<Rightarrow>
          if bytesCompare keyA keyB < 0 then go_bind (advA name (extraA c)) (compareStore_loop name)
          else if bytesCompare keyA keyB > 0 then go_bind (advB name (extraB c)) (compareStore_loop name)
          else go_bind (advA name (if valA \<noteq> valB then valueDiff c else c)) (\<lambda>c. go_bind (advB name c) (compareStore_loop name)))"

definition compareStore :: "bytes \<Rightarrow> storeReader option \<Rightarrow> storeReader option \<Rightarrow> (diff_error, cmpVars) outcome option" where
  "compareStore name rA rB =
     (let c = \<lparr>cv_A = rA, cv_B = rB, cv_curA = None, cv_curB = None,
               cv_ss = \<lparr>vs_ItemsA = 0, vs_ItemsB = 0, vs_ExtraInA = 0, vs_ExtraInB = 0, vs_ValueDiffs = 0\<rparr>\<rparr>
      in go_bind (advA name c) (\<lambda>c. go_bind (advB name c) (compareStore_loop name)))"

definition addStore :: "bytes \<Rightarrow> VerifyStoreStats \<Rightarrow> VerifyResult \<Rightarrow> VerifyResult" where
  "addStore name ss res = res\<lparr>vr_Stores := vr_Stores res + 1, vr_PerStore := (vr_PerStore res)(name \<mapsto> ss),
     vr_ExtraInA := vr_ExtraInA res + vs_ExtraInA ss, vr_ExtraInB := vr_ExtraInB res + vs_ExtraInB ss,
     vr_ValueDiffs := vr_ValueDiffs res + vs_ValueDiffs ss,
     vr_ItemsCompared := vr_ItemsCompared res + (vs_ItemsA ss + vs_ItemsB ss)\<rparr>"

text \<open>The switch on the two store names is that of \<open>computeStream\<close>.\<close>

partial_function (option) verifyStores :: "storeReader \<Rightarrow> storeReader \<Rightarrow> VerifyResult \<Rightarrow>
    (diff_error, storeReader \<times> storeReader \<times> VerifyResult) outcome option" where
  "verifyStores rA rB res =
     go_bind (peekStore rA) (\<lambda>(sA, rA).
     go_bind (peekStore rB) (\<lambda>(sB, rB).
       case pickStore sA sB of
         None \<Rightarrow> Some (Ok (rA, rB, res))
       | Some (inA, inB, name) \<Rightarrow>
           go_bind (compareStore name (if inA then Some rA else None) (if inB then Some rB else None)) (\<lambda>c.
             verifyStores (case cv_A c of None \<Rightarrow> rA | Some r \<Rightarrow> r) (case cv_B c of None \<Rightarrow> rB | Some r \<Rightarrow> r)
               (addStore name (cv_ss c) res))))"

definition compareExtensions :: "(bytes \<times> extData) list \<Rightarrow> (bytes \<times> extData) list \<Rightarrow> nat" where
  "compareExtensions a b =
     sum_list (map (\<lambda>n.
       let setA = remdups (map sha256 (opt_payloads (map_of a n))); setB = remdups (map sha256 (opt_payloads (map_of b n)))
       in length (filter (\<lambda>h. h \<notin> set setB) setA) + length (filter (\<lambda>h. h \<notin> set setA) setB))
       (remdups (map fst a @ map fst b)))"

definition VerifyEquivalent :: "bytes \<Rightarrow> bytes \<Rightarrow> (diff_error, VerifyResult) outcome option" where
  "VerifyEquivalent a b =
     go_bind (verifyStores (newStoreReader a) (newStoreReader b)
       \<lparr>vr_Stores = 0, vr_ItemsCompared = 0, vr_ExtraInA = 0, vr_ExtraInB = 0, vr_ValueDiffs = 0, vr_ExtensionDiff = 0,
        vr_PerStore = Map.empty\<rparr>) (\<lambda>(rA, rB, res).
     go_bind (readAllExtensions rA) (\<lambda>extA.
     go_bind (readAllExtensions rB) (\<lambda>extB.
       Some (Ok (res\<lparr>vr_ExtensionDiff := compareExtensions extA extB\<rparr>)))))"

section \<open>Counting differences\<close>

text \<open>Keys of the first list only, of the second only, and keys of both with different values.\<close>

fun count_diffs :: "(bytes \<times> bytes) list \<Rightarrow> (bytes \<times> bytes) list \<Rightarrow> nat \<times> nat \<times> nat" where
  "count_diffs [] [] = (0, 0, 0)"
| "count_diffs (a # as) [] = (let (x, y, z) = count_diffs as [] in (Suc x, y, z))"
| "count_diffs [] (b # bs) = (let (x, y, z) = count_diffs [] bs in (x, Suc y, z))"
| "count_diffs (a # as) (b # bs) =
     (if fst a < fst b then let (x, y, z) = count_diffs as (b # bs) in (Suc x, y, z)
      else if fst b < fst a then let (x, y, z) = count_diffs (a # as) bs in (x, Suc y, z)
      else let (x, y, z) = count_diffs as bs in (x, y, if snd a \<noteq> snd b then Suc z else z))"

lemma count_diffs_zero: "count_diffs as bs = (0, 0, 0) \<longleftrightarrow> as = bs"
  by (induction as bs rule: count_diffs.induct) (auto simp: prod_eq_iff case_prod_beta Let_def split: if_splits)

lemma count_diffs_bound: "fst (count_diffs as bs) + fst (snd (count_diffs as bs)) + snd (snd (count_diffs as bs)) \<le> length as + length bs"
  by (induction as bs rule: count_diffs.induct) (auto simp: case_prod_beta Let_def)

section \<open>The walk\<close>

fun next_opt :: "bytes \<Rightarrow> storeReader option \<Rightarrow> (bytes \<times> bytes) option \<Rightarrow> bytes list \<Rightarrow> (nat \<times> bytes) list \<Rightarrow> bool" where
  "next_opt name None cur ls rest = (cur = None \<and> ls = [])"
| "next_opt name (Some s) cur ls rest = next_at name s cur ls rest"

definition cmp_at :: "bytes \<Rightarrow> cmpVars \<Rightarrow> bytes list \<Rightarrow> bytes list \<Rightarrow> (nat \<times> bytes) list \<Rightarrow> (nat \<times> bytes) list \<Rightarrow> bool" where
  "cmp_at name c as bs ra rb \<longleftrightarrow> next_opt name (cv_A c) (cv_curA c) as ra \<and> next_opt name (cv_B c) (cv_curB c) bs rb"

definition cmp_kept :: "cmpVars \<Rightarrow> cmpVars \<Rightarrow> bool" where
  "cmp_kept c c' \<longleftrightarrow> (cv_A c = None \<longleftrightarrow> cv_A c' = None) \<and> (cv_B c = None \<longleftrightarrow> cv_B c' = None)"

definition diffs :: "VerifyStoreStats \<Rightarrow> u64 \<times> u64 \<times> u64" where
  "diffs ss = (vs_ExtraInA ss, vs_ExtraInB ss, vs_ValueDiffs ss)"

definition plus_diffs :: "u64 \<times> u64 \<times> u64 \<Rightarrow> nat \<times> nat \<times> nat \<Rightarrow> u64 \<times> u64 \<times> u64" where
  "plus_diffs d n = (fst d + of_nat (fst n), fst (snd d) + of_nat (fst (snd n)), snd (snd d) + of_nat (snd (snd n)))"

lemma next_opt_cases:
  "next_opt name r cur [] rest \<Longrightarrow> cur = None"
  "next_opt name r cur (l # ls) rest \<Longrightarrow> cur = Some (rec_kv l) \<and> (\<exists>s cur' s'. r = Some s \<and> nextBase name s = Some (Ok (cur', s')) \<and> next_at name s' cur' ls rest)"
  using next_at_cases by (cases r; force)+

lemma advA_next:
  assumes "cmp_at name c (a # as) bs ra rb"
  shows "\<exists>c'. advA name c = Some (Ok c') \<and> cmp_at name c' as bs ra rb \<and> cmp_kept c c' \<and> diffs (cv_ss c') = diffs (cv_ss c)"
  using assms next_opt_cases(2) [of name "cv_A c" "cv_curA c" a as ra] by (auto simp: advA_def cmp_at_def cmp_kept_def diffs_def)

lemma advB_next:
  assumes "cmp_at name c as (b # bs) ra rb"
  shows "\<exists>c'. advB name c = Some (Ok c') \<and> cmp_at name c' as bs ra rb \<and> cmp_kept c c' \<and> diffs (cv_ss c') = diffs (cv_ss c)"
  using assms next_opt_cases(2) [of name "cv_B c" "cv_curB c" b bs rb] by (auto simp: advB_def cmp_at_def cmp_kept_def diffs_def)

lemma count_frame [simp]:
  "cmp_at name (extraA c) as bs ra rb = cmp_at name c as bs ra rb" "cmp_kept (extraA c) c' = cmp_kept c c'"
  "cmp_at name (extraB c) as bs ra rb = cmp_at name c as bs ra rb" "cmp_kept (extraB c) c' = cmp_kept c c'"
  "cmp_at name (valueDiff c) as bs ra rb = cmp_at name c as bs ra rb" "cmp_kept (valueDiff c) c' = cmp_kept c c'"
  "diffs (cv_ss (extraA c)) = plus_diffs (diffs (cv_ss c)) (1, 0, 0)" "diffs (cv_ss (extraB c)) = plus_diffs (diffs (cv_ss c)) (0, 1, 0)"
  "diffs (cv_ss (valueDiff c)) = plus_diffs (diffs (cv_ss c)) (0, 0, 1)"
  by (simp_all add: cmp_at_def cmp_kept_def extraA_def extraB_def valueDiff_def diffs_def plus_diffs_def)

lemma cmp_kept_trans: "cmp_kept a b \<Longrightarrow> cmp_kept b c \<Longrightarrow> cmp_kept a c"
  by (simp add: cmp_kept_def)

lemma plus_diffs_simps:
  "plus_diffs d (0, 0, 0) = d" "plus_diffs (plus_diffs d (1, 0, 0)) (x, y, z) = plus_diffs d (Suc x, y, z)"
  "plus_diffs (plus_diffs d (0, 1, 0)) (x, y, z) = plus_diffs d (x, Suc y, z)" "plus_diffs (plus_diffs d (0, 0, 1)) (x, y, z) = plus_diffs d (x, y, Suc z)"
  by (simp_all add: plus_diffs_def)

lemma compareStore_loop_counts:
  assumes "cmp_at name c as bs ra rb"
  shows "\<exists>c'. compareStore_loop name c = Some (Ok c') \<and> cmp_at name c' [] [] ra rb \<and> cmp_kept c c' \<and>
    diffs (cv_ss c') = plus_diffs (diffs (cv_ss c)) (count_diffs (map rec_kv as) (map rec_kv bs))"
  using assms
proof (induction "length as + length bs" arbitrary: as bs c rule: less_induct)
  case less
  have goA: ?case if as: "as = a # as'" and step: "compareStore_loop name c = go_bind (advA name (extraA c)) (compareStore_loop name)"
    and cnt: "count_diffs (map rec_kv as) (map rec_kv bs) = (let (x, y, z) = count_diffs (map rec_kv as') (map rec_kv bs) in (Suc x, y, z))" for a as'
  proof -
    from advA_next [of name "extraA c" a as' bs ra rb] less.prems as obtain c1 where
      c1: "advA name (extraA c) = Some (Ok c1)" "cmp_at name c1 as' bs ra rb" "cmp_kept c c1" "diffs (cv_ss c1) = plus_diffs (diffs (cv_ss c)) (1, 0, 0)" by auto
    from less.hyps [OF _ c1(2)] as obtain c2 where c2: "compareStore_loop name c1 = Some (Ok c2)" "cmp_at name c2 [] [] ra rb" "cmp_kept c1 c2"
      "diffs (cv_ss c2) = plus_diffs (diffs (cv_ss c1)) (count_diffs (map rec_kv as') (map rec_kv bs))" by auto
    obtain x y z where n: "count_diffs (map rec_kv as') (map rec_kv bs) = (x, y, z)" by (metis prod_cases3)
    have "compareStore_loop name c = Some (Ok c2)" unfolding step c1(1) go_bind_simps by (rule c2(1))
    moreover have "diffs (cv_ss c2) = plus_diffs (diffs (cv_ss c)) (count_diffs (map rec_kv as) (map rec_kv bs))"
      unfolding c2(4) c1(4) cnt n by (simp add: plus_diffs_def)
    ultimately show ?thesis using c2(2) cmp_kept_trans [OF c1(3) c2(3)] by blast
  qed
  have goB: ?case if bs: "bs = b # bs'" and step: "compareStore_loop name c = go_bind (advB name (extraB c)) (compareStore_loop name)"
    and cnt: "count_diffs (map rec_kv as) (map rec_kv bs) = (let (x, y, z) = count_diffs (map rec_kv as) (map rec_kv bs') in (x, Suc y, z))" for b bs'
  proof -
    from advB_next [of name "extraB c" as b bs' ra rb] less.prems bs obtain c1 where
      c1: "advB name (extraB c) = Some (Ok c1)" "cmp_at name c1 as bs' ra rb" "cmp_kept c c1" "diffs (cv_ss c1) = plus_diffs (diffs (cv_ss c)) (0, 1, 0)" by auto
    from less.hyps [OF _ c1(2)] bs obtain c2 where c2: "compareStore_loop name c1 = Some (Ok c2)" "cmp_at name c2 [] [] ra rb" "cmp_kept c1 c2"
      "diffs (cv_ss c2) = plus_diffs (diffs (cv_ss c1)) (count_diffs (map rec_kv as) (map rec_kv bs'))" by auto
    obtain x y z where n: "count_diffs (map rec_kv as) (map rec_kv bs') = (x, y, z)" by (metis prod_cases3)
    have "compareStore_loop name c = Some (Ok c2)" unfolding step c1(1) go_bind_simps by (rule c2(1))
    moreover have "diffs (cv_ss c2) = plus_diffs (diffs (cv_ss c)) (count_diffs (map rec_kv as) (map rec_kv bs))"
      unfolding c2(4) c1(4) cnt n by (simp add: plus_diffs_def)
    ultimately show ?thesis using c2(2) cmp_kept_trans [OF c1(3) c2(3)] by blast
  qed
  have curA: "cv_curA c = (case as of [] \<Rightarrow> None | a # _ \<Rightarrow> Some (rec_kv a))" and curB: "cv_curB c = (case bs of [] \<Rightarrow> None | b # _ \<Rightarrow> Some (rec_kv b))"
    using less.prems next_opt_cases by (auto simp: cmp_at_def split: list.split)
  consider (none) "as = []" "bs = []" | (a) a as' where "as = a # as'" "bs = []" | (b) b bs' where "as = []" "bs = b # bs'"
    | (both) a as' b bs' where "as = a # as'" "bs = b # bs'" by (meson neq_Nil_conv)
  then show ?case
  proof cases
    case none
    with curA curB less.prems show ?thesis by (subst compareStore_loop.simps) (simp add: cmp_kept_def plus_diffs_simps)
  next
    case a
    show ?thesis
    proof (rule goA [OF a(1)])
      show "compareStore_loop name c = go_bind (advA name (extraA c)) (compareStore_loop name)"
        using curA curB a by (subst compareStore_loop.simps) (simp add: case_prod_beta)
    qed (simp add: a)
  next
    case b
    show ?thesis
    proof (rule goB [OF b(2)])
      show "compareStore_loop name c = go_bind (advB name (extraB c)) (compareStore_loop name)"
        using curA curB b by (subst compareStore_loop.simps) simp
    qed (simp add: b)
  next
    case both
    consider (lt) "fst (rec_kv a) < fst (rec_kv b)" | (gt) "\<not> fst (rec_kv a) < fst (rec_kv b)" "fst (rec_kv b) < fst (rec_kv a)"
      | (eq) "\<not> fst (rec_kv a) < fst (rec_kv b)" "\<not> fst (rec_kv b) < fst (rec_kv a)" by blast
    then show ?thesis
    proof cases
      case lt
      show ?thesis
      proof (rule goA [OF both(1)])
        show "compareStore_loop name c = go_bind (advA name (extraA c)) (compareStore_loop name)"
          using curA curB both lt by (subst compareStore_loop.simps) (simp add: case_prod_beta bytesCompare_less)
      qed (simp add: both lt)
    next
      case gt
      show ?thesis
      proof (rule goB [OF both(2)])
        show "compareStore_loop name c = go_bind (advB name (extraB c)) (compareStore_loop name)"
          using curA curB both gt by (subst compareStore_loop.simps) (simp add: case_prod_beta bytesCompare_less bytesCompare_greater)
      qed (simp add: both gt)
    next
      case eq
      define c0 where "c0 = (if snd (rec_kv a) \<noteq> snd (rec_kv b) then valueDiff c else c)"
      have c0: "cmp_at name c0 (a # as') (b # bs') ra rb" "cmp_kept c0 d = cmp_kept c d"
        "diffs (cv_ss c0) = plus_diffs (diffs (cv_ss c)) (0, 0, if snd (rec_kv a) \<noteq> snd (rec_kv b) then 1 else 0)" for d
        using less.prems both by (simp_all add: c0_def plus_diffs_simps)
      from advA_next [OF c0(1)] obtain c1 where c1: "advA name c0 = Some (Ok c1)" "cmp_at name c1 as' (b # bs') ra rb" "cmp_kept c c1"
        "diffs (cv_ss c1) = diffs (cv_ss c0)" using c0(2) by blast
      from advB_next [OF c1(2)] obtain c2 where c2: "advB name c1 = Some (Ok c2)" "cmp_at name c2 as' bs' ra rb" "cmp_kept c1 c2"
        "diffs (cv_ss c2) = diffs (cv_ss c0)" using c1(4) by auto
      from less.hyps [OF _ c2(2)] both obtain c3 where c3: "compareStore_loop name c2 = Some (Ok c3)" "cmp_at name c3 [] [] ra rb" "cmp_kept c2 c3"
        "diffs (cv_ss c3) = plus_diffs (diffs (cv_ss c2)) (count_diffs (map rec_kv as') (map rec_kv bs'))" by auto
      have "compareStore_loop name c = Some (Ok c3)"
        using curA curB both eq c1(1) c2(1) c3(1)
        by (subst compareStore_loop.simps) (simp add: case_prod_beta bytesCompare_less bytesCompare_greater c0_def [symmetric])
      moreover have "diffs (cv_ss c3) = plus_diffs (diffs (cv_ss c)) (count_diffs (map rec_kv as) (map rec_kv bs))"
        unfolding c3(4) c2(4) c0(3) using both eq
        by (cases "count_diffs (map rec_kv as') (map rec_kv bs')") (simp add: plus_diffs_def)
      ultimately show ?thesis using c3(2) cmp_kept_trans [OF c1(3) cmp_kept_trans [OF c2(3) c3(3)]] by blast
    qed
  qed
qed

lemma compareStore_counts:
  assumes "side_start name rA ans ra" and "side_start name rB bns rb"
  shows "\<exists>c. compareStore name rA rB = Some (Ok c) \<and>
    diffs (cv_ss c) = plus_diffs (0, 0, 0) (count_diffs (map rec_kv (leaf_msgs ans)) (map rec_kv (leaf_msgs bns))) \<and>
    (case rA of None \<Rightarrow> cv_A c = None | Some _ \<Rightarrow> \<exists>s. cv_A c = Some s \<and> reading s [] ra) \<and>
    (case rB of None \<Rightarrow> cv_B c = None | Some _ \<Rightarrow> \<exists>s. cv_B c = Some s \<and> reading s [] rb)"
proof -
  define c0 where "c0 = \<lparr>cv_A = rA, cv_B = rB, cv_curA = None, cv_curB = None,
    cv_ss = \<lparr>vs_ItemsA = 0, vs_ItemsB = 0, vs_ExtraInA = 0, vs_ExtraInB = 0, vs_ValueDiffs = 0\<rparr>\<rparr>"
  have start: "\<exists>cur s'. nextBase name s = Some (Ok (cur, s')) \<and> next_at name s' cur (leaf_msgs ns) rest" if "side_start name (Some s) ns rest" for s ns rest
    using that advanceLeaf_side [of s name ns rest] nextBase_advance by (metis side_start.simps(2))
  have "\<exists>c1. advA name c0 = Some (Ok c1) \<and> next_opt name (cv_A c1) (cv_curA c1) (leaf_msgs ans) ra \<and> (rA = None \<longleftrightarrow> cv_A c1 = None) \<and>
      cv_B c1 = rB \<and> cv_curB c1 = None \<and> diffs (cv_ss c1) = (0, 0, 0)"
  proof (cases rA)
    case None
    with assms(1) show ?thesis by (simp add: advA_def c0_def diffs_def)
  next
    case (Some s)
    with start assms(1) obtain cur s' where "nextBase name s = Some (Ok (cur, s'))" "next_at name s' cur (leaf_msgs ans) ra" by blast
    with Some show ?thesis by (simp add: advA_def c0_def diffs_def)
  qed
  then obtain c1 where c1: "advA name c0 = Some (Ok c1)" "next_opt name (cv_A c1) (cv_curA c1) (leaf_msgs ans) ra" "rA = None \<longleftrightarrow> cv_A c1 = None"
    "cv_B c1 = rB" "cv_curB c1 = None" "diffs (cv_ss c1) = (0, 0, 0)" by (elim exE conjE) (rule that)
  have "\<exists>c2. advB name c1 = Some (Ok c2) \<and> cmp_at name c2 (leaf_msgs ans) (leaf_msgs bns) ra rb \<and> (rA = None \<longleftrightarrow> cv_A c2 = None) \<and>
      (rB = None \<longleftrightarrow> cv_B c2 = None) \<and> diffs (cv_ss c2) = (0, 0, 0)"
  proof (cases rB)
    case None
    with assms(2) c1 show ?thesis by (simp add: advB_def cmp_at_def)
  next
    case (Some s)
    with start assms(2) obtain cur s' where "nextBase name s = Some (Ok (cur, s'))" "next_at name s' cur (leaf_msgs bns) rb" by blast
    with Some c1 show ?thesis by (simp add: advB_def cmp_at_def diffs_def)
  qed
  then obtain c2 where c2: "advB name c1 = Some (Ok c2)" "cmp_at name c2 (leaf_msgs ans) (leaf_msgs bns) ra rb" "rA = None \<longleftrightarrow> cv_A c2 = None"
    "rB = None \<longleftrightarrow> cv_B c2 = None" "diffs (cv_ss c2) = (0, 0, 0)" by (elim exE conjE) (rule that)
  from compareStore_loop_counts [OF c2(2)] obtain c where c: "compareStore_loop name c2 = Some (Ok c)" "cmp_at name c [] [] ra rb" "cmp_kept c2 c"
    "diffs (cv_ss c) = plus_diffs (0, 0, 0) (count_diffs (map rec_kv (leaf_msgs ans)) (map rec_kv (leaf_msgs bns)))" using c2(5) by auto
  have "compareStore name rA rB = Some (Ok c)"
    unfolding compareStore_def Let_def c0_def [symmetric] c1(1) go_bind_simps c2(1) by (rule c(1))
  moreover have "case rA of None \<Rightarrow> cv_A c = None | Some _ \<Rightarrow> \<exists>s. cv_A c = Some s \<and> reading s [] ra"
    using c(2,3) c2(3) by (cases rA; cases "cv_A c") (auto simp: cmp_at_def cmp_kept_def dest: next_at_cases)
  moreover have "case rB of None \<Rightarrow> cv_B c = None | Some _ \<Rightarrow> \<exists>s. cv_B c = Some s \<and> reading s [] rb"
    using c(2,3) c2(4) by (cases rB; cases "cv_B c") (auto simp: cmp_at_def cmp_kept_def dest: next_at_cases)
  ultimately show ?thesis using c(4) by blast
qed

section \<open>All stores\<close>

definition totals :: "VerifyResult \<Rightarrow> u64 \<times> u64 \<times> u64" where
  "totals res = (vr_ExtraInA res, vr_ExtraInB res, vr_ValueDiffs res)"

fun zip_diffs :: "(bytes \<times> bytes list \<times> bytes list) list \<Rightarrow> nat \<times> nat \<times> nat" where
  "zip_diffs [] = (0, 0, 0)"
| "zip_diffs ((n, as, bs) # Z) =
     (let (x, y, z) = count_diffs (map rec_kv as) (map rec_kv bs); (x', y', z') = zip_diffs Z in (x + x', y + y', z + z'))"

lemma totals_addStore:
  "diffs ss = plus_diffs (0, 0, 0) (count_diffs (map rec_kv as) (map rec_kv bs)) \<Longrightarrow>
   plus_diffs (totals (addStore n ss res)) (zip_diffs Z) = plus_diffs (totals res) (zip_diffs ((n, as, bs) # Z))"
  by (simp add: totals_def addStore_def diffs_def plus_diffs_def case_prod_beta Let_def)

lemma verifyStores_step:
  assumes "peekStore rA = Some (Ok (an, a))" and "peekStore rB = Some (Ok (bn, b))" and "pickStore an bn = Some (inA, inB, name)"
    and "side_start name (if inA then Some a else None) ans ra" and "side_start name (if inB then Some b else None) bns rb"
  shows "\<exists>a' b' res'. verifyStores rA rB res = verifyStores a' b' res' \<and>
    (if inA then reading a' [] ra else a' = a) \<and> (if inB then reading b' [] rb else b' = b) \<and>
    (\<forall>Z. plus_diffs (totals res') (zip_diffs Z) = plus_diffs (totals res) (zip_diffs ((name, leaf_msgs ans, leaf_msgs bns) # Z)))"
proof -
  from compareStore_counts [OF assms(4,5)] obtain c where
    c: "compareStore name (if inA then Some a else None) (if inB then Some b else None) = Some (Ok c)"
      "diffs (cv_ss c) = plus_diffs (0, 0, 0) (count_diffs (map rec_kv (leaf_msgs ans)) (map rec_kv (leaf_msgs bns)))"
      "case (if inA then Some a else None) of None \<Rightarrow> cv_A c = None | Some _ \<Rightarrow> \<exists>s. cv_A c = Some s \<and> reading s [] ra"
      "case (if inB then Some b else None) of None \<Rightarrow> cv_B c = None | Some _ \<Rightarrow> \<exists>s. cv_B c = Some s \<and> reading s [] rb" by blast
  let ?a = "case cv_A c of None \<Rightarrow> a | Some r \<Rightarrow> r" and ?b = "case cv_B c of None \<Rightarrow> b | Some r \<Rightarrow> r" and ?res = "addStore name (cv_ss c) res"
  have "verifyStores rA rB res = verifyStores ?a ?b ?res" using assms(1-3) c(1) by (subst verifyStores.simps) simp
  moreover have "if inA then reading ?a [] ra else ?a = a" "if inB then reading ?b [] rb else ?b = b" using c(3,4) by (auto split: if_splits)
  ultimately show ?thesis using totals_addStore [OF c(2)] by blast
qed

lemma verifyStores_counts:
  assumes "at_stores rA A EA" and "at_stores rB B EB"
  shows "\<exists>a b res'. verifyStores rA rB res = Some (Ok (a, b, res')) \<and> reading a [] EA \<and> reading b [] EB \<and>
    totals res' = plus_diffs (totals res) (zip_diffs (zip_stores A B))"
  using assms
proof (induction A B arbitrary: rA rB res rule: zip_stores.induct)
  case 1
  from peekStore_Nil [OF "1.prems"(1)] peekStore_Nil [OF "1.prems"(2)] obtain a b where
    "peekStore rA = Some (Ok (None, a))" "at_stores a [] EA" "peekStore rB = Some (Ok (None, b))" "at_stores b [] EB" by blast
  then show ?case by (subst verifyStores.simps) (simp add: plus_diffs_simps)
next
  case (2 tn ts T)
  note ok = at_stores_ok [OF "2.prems"(2), unfolded stores_ok_Cons]
  from peekStore_Nil [OF "2.prems"(1)] peekStore_Cons [OF "2.prems"(2)] obtain a b where
    p: "peekStore rA = Some (Ok (None, a))" "at_stores a [] EA" "peekStore rB = Some (Ok (Some tn, b))"
      "reading b tn (item_recs ts @ item_recs (store_items T) @ EB)" by blast
  from verifyStores_step [OF p(1,3), of False True tn "[]" "[]" ts "item_recs (store_items T) @ EB" res] p(4) ok stores_over_next [of EB T] obtain b' res' where
    v: "verifyStores rA rB res = verifyStores a b' res'" "reading b' [] (item_recs (store_items T) @ EB)"
      "\<And>Z. plus_diffs (totals res') (zip_diffs Z) = plus_diffs (totals res) (zip_diffs ((tn, [], leaf_msgs ts) # Z))" by (auto simp del: zip_diffs.simps)
  have "at_stores b' T EB" using ok v(2) reading_at_stores by blast
  from "2.IH" [OF p(2) this, of res'] show ?case unfolding v(1) zip_stores.simps v(3) .
next
  case (3 bn bs B)
  note ok = at_stores_ok [OF "3.prems"(1), unfolded stores_ok_Cons]
  from peekStore_Nil [OF "3.prems"(2)] peekStore_Cons [OF "3.prems"(1)] obtain a b where
    p: "peekStore rA = Some (Ok (Some bn, a))" "reading a bn (item_recs bs @ item_recs (store_items B) @ EA)"
      "peekStore rB = Some (Ok (None, b))" "at_stores b [] EB" by blast
  from verifyStores_step [OF p(1,3), of True False bn bs "item_recs (store_items B) @ EA" "[]" "[]" res] p(2) ok stores_over_next [of EA B] obtain a' res' where
    v: "verifyStores rA rB res = verifyStores a' b res'" "reading a' [] (item_recs (store_items B) @ EA)"
      "\<And>Z. plus_diffs (totals res') (zip_diffs Z) = plus_diffs (totals res) (zip_diffs ((bn, leaf_msgs bs, []) # Z))" by (auto simp del: zip_diffs.simps)
  have "at_stores a' B EA" using ok v(2) reading_at_stores by blast
  from "3.IH" [OF this p(4), of res'] show ?case unfolding v(1) zip_stores.simps v(3) .
next
  case (4 bn bs B tn ts T)
  note okb = at_stores_ok [OF "4.prems"(1), unfolded stores_ok_Cons] and okt = at_stores_ok [OF "4.prems"(2), unfolded stores_ok_Cons]
  from peekStore_Cons [OF "4.prems"(1)] peekStore_Cons [OF "4.prems"(2)] obtain a b where
    p: "peekStore rA = Some (Ok (Some bn, a))" "reading a bn (item_recs bs @ item_recs (store_items B) @ EA)" "at_stores a ((bn, bs) # B) EA"
      "peekStore rB = Some (Ok (Some tn, b))" "reading b tn (item_recs ts @ item_recs (store_items T) @ EB)" "at_stores b ((tn, ts) # T) EB"
    by blast
  note over = stores_over_next [of EA B] stores_over_next [of EB T]
  consider (less) "bn < tn" | (greater) "\<not> bn < tn" "tn < bn" | (same) "\<not> bn < tn" "\<not> tn < bn" by blast
  then show ?case
  proof cases
    case less
    from verifyStores_step [OF p(1,4), of True False bn bs "item_recs (store_items B) @ EA" "[]" "[]" res] p(2) okb over less obtain a' res' where
      v: "verifyStores rA rB res = verifyStores a' b res'" "reading a' [] (item_recs (store_items B) @ EA)"
        "\<And>Z. plus_diffs (totals res') (zip_diffs Z) = plus_diffs (totals res) (zip_diffs ((bn, leaf_msgs bs, []) # Z))" by (auto simp del: zip_diffs.simps)
    have "at_stores a' B EA" using okb v(2) reading_at_stores by blast
    from "4.IH"(1) [OF less this p(6), of res'] show ?thesis unfolding v(1) zip_stores.simps if_P [OF less] v(3) .
  next
    case greater
    from verifyStores_step [OF p(1,4), of False True tn "[]" "[]" ts "item_recs (store_items T) @ EB" res] p(5) okt over greater obtain b' res' where
      v: "verifyStores rA rB res = verifyStores a b' res'" "reading b' [] (item_recs (store_items T) @ EB)"
        "\<And>Z. plus_diffs (totals res') (zip_diffs Z) = plus_diffs (totals res) (zip_diffs ((tn, [], leaf_msgs ts) # Z))" by (auto simp del: zip_diffs.simps)
    have "at_stores b' T EB" using okt v(2) reading_at_stores by blast
    from "4.IH"(2) [OF greater p(3) this, of res'] show ?thesis unfolding v(1) zip_stores.simps if_not_P [OF greater(1)] if_P [OF greater(2)] v(3) .
  next
    case same
    then have eq: "tn = bn" by simp
    from verifyStores_step [OF p(1,4), of True True bn bs "item_recs (store_items B) @ EA" ts "item_recs (store_items T) @ EB" res] p(2,5) okb okt over same eq obtain a' b' res' where
      v: "verifyStores rA rB res = verifyStores a' b' res'" "reading a' [] (item_recs (store_items B) @ EA)" "reading b' [] (item_recs (store_items T) @ EB)"
        "\<And>Z. plus_diffs (totals res') (zip_diffs Z) = plus_diffs (totals res) (zip_diffs ((bn, leaf_msgs bs, leaf_msgs ts) # Z))" by (auto simp del: zip_diffs.simps)
    have "at_stores a' B EA" "at_stores b' T EB" using okb okt v(2,3) reading_at_stores by blast+
    from "4.IH"(3) [OF same this, of res'] show ?thesis unfolding v(1) zip_stores.simps if_not_P [OF same(1)] if_not_P [OF same(2)] v(4) .
  qed
qed

section \<open>Properties\<close>

definition leaf_count :: "stores \<Rightarrow> nat" where
  "leaf_count S = sum_list (map (\<lambda>(n, ns). length (leaf_msgs ns)) S)"

lemma zip_diffs_zero: "zip_diffs Z = (0, 0, 0) \<longleftrightarrow> (\<forall>(n, as, bs) \<in> set Z. map rec_kv as = map rec_kv bs)"
proof (induction Z)
  case (Cons e Z)
  obtain n as bs where e: "e = (n, as, bs)" by (cases e)
  have "zip_diffs (e # Z) = (0, 0, 0) \<longleftrightarrow> count_diffs (map rec_kv as) (map rec_kv bs) = (0, 0, 0) \<and> zip_diffs Z = (0, 0, 0)"
    by (auto simp: e Let_def prod_eq_iff case_prod_beta)
  with Cons.IH show ?case by (simp add: e count_diffs_zero)
qed simp

lemma zip_diffs_bound:
  "fst (zip_diffs (zip_stores A B)) + fst (snd (zip_diffs (zip_stores A B))) + snd (snd (zip_diffs (zip_stores A B))) \<le> leaf_count A + leaf_count B"
proof -
  have "fst (zip_diffs Z) + fst (snd (zip_diffs Z)) + snd (snd (zip_diffs Z)) \<le> sum_list (map (\<lambda>(n, as, bs). length as + length bs) Z)" for Z
  proof (induction Z)
    case (Cons e Z)
    obtain n as bs where e: "e = (n, as, bs)" by (cases e)
    show ?case using Cons count_diffs_bound [of "map rec_kv as" "map rec_kv bs"] by (simp add: e Let_def case_prod_beta)
  qed simp
  moreover have "sum_list (map (\<lambda>(n, as, bs). length as + length bs) (zip_stores A B)) = leaf_count A + leaf_count B"
    by (induction A B rule: zip_stores.induct) (auto simp: leaf_count_def)
  ultimately show ?thesis by metis
qed

lemma compareExtensions_zero:
  "compareExtensions (ext_data EA) (ext_data EB) = 0 \<longleftrightarrow> (\<forall>n. sha256 ` set (payloads_of EA n) = sha256 ` set (payloads_of EB n))"
proof -
  have none: "payloads_of E n = []" if "n \<notin> fst ` set E" for E n
    using that map_of_eq_None_iff [of "ext_data E" n] by (metis ext_data_keys image_set opt_payloads_def option.simps(4) payloads_of_def)
  have sets: "length (filter (\<lambda>h. h \<notin> set (remdups ys)) (remdups xs)) + length (filter (\<lambda>h. h \<notin> set (remdups xs)) (remdups ys)) = 0 \<longleftrightarrow> set xs = set ys"
    for xs ys :: "bytes list" by (auto simp: filter_empty_conv)
  have "compareExtensions (ext_data EA) (ext_data EB) = 0 \<longleftrightarrow>
      (\<forall>n \<in> fst ` set EA \<union> fst ` set EB. sha256 ` set (payloads_of EA n) = sha256 ` set (payloads_of EB n))"
    unfolding compareExtensions_def Let_def sum_list_eq_0_iff set_map ball_simps ext_data_keys sets
    by (simp only: payloads_of_def set_remdups set_append set_map)
  then show ?thesis using none by (metis UnCI)
qed

text \<open>
  C17. \<open>VerifyEquivalent\<close> decides equality of contents.  On two well-formed snapshots whose stores come in
  the order of their names (with fewer than \<open>2\<^sup>6\<^sup>4\<close> leaves together, so that no counter wraps) it returns,
  and its four difference counters are all zero exactly when every store has the same keys and values in
  both and every extension has the same set of payload hashes.  A store without leaves and an absent store
  count as equal, as do an extension without payloads and an absent one.
\<close>

theorem verify_equivalent_iff:
  assumes ok: "snap_ok A" "snap_ok B" and names: "sorted_wrt (<) (map fst (fst A))" "sorted_wrt (<) (map fst (fst B))"
    and few: "leaf_count (fst A) + leaf_count (fst B) < 2 ^ 64"
  shows "\<exists>res. VerifyEquivalent (snap_wire A) (snap_wire B) = Some (Ok res) \<and>
    (vr_ExtraInA res = 0 \<and> vr_ExtraInB res = 0 \<and> vr_ValueDiffs res = 0 \<and> vr_ExtensionDiff res = 0 \<longleftrightarrow>
     (\<forall>n. map rec_kv (leaves_of (fst A) n) = map rec_kv (leaves_of (fst B) n)) \<and>
     (\<forall>n. sha256 ` set (payloads_of (snd A) n) = sha256 ` set (payloads_of (snd B) n)))"
proof -
  let ?Z = "zip_stores (fst A) (fst B)"
  let ?res = "\<lparr>vr_Stores = 0, vr_ItemsCompared = 0, vr_ExtraInA = 0, vr_ExtraInB = 0, vr_ValueDiffs = 0, vr_ExtensionDiff = 0, vr_PerStore = Map.empty\<rparr>"
  from verifyStores_counts [OF snap_at_stores [OF ok(1)] snap_at_stores [OF ok(2)], of ?res] obtain a b res where
    v: "verifyStores (newStoreReader (snap_wire A)) (newStoreReader (snap_wire B)) ?res = Some (Ok (a, b, res))"
      "reading a [] (item_recs (ext_items (snd A)))" "reading b [] (item_recs (ext_items (snd B)))"
      "totals res = plus_diffs (0, 0, 0) (zip_diffs ?Z)" by (auto simp: totals_def)
  have e: "readAllExtensions a = Some (Ok (ext_data (snd A)))" "readAllExtensions b = Some (Ok (ext_data (snd B)))"
    using ok v(2,3) by (simp_all add: readAllExtensions_data snap_ok_def)
  have zero: "(of_nat n :: u64) = 0 \<longleftrightarrow> n = 0" if "n \<le> leaf_count (fst A) + leaf_count (fst B)" for n
    using unat_u64_of_nat [of n] that few by (auto simp flip: unat_eq_0)
  obtain x y z where xyz: "zip_diffs ?Z = (x, y, z)" by (metis prod_cases3)
  have "x + y + z \<le> leaf_count (fst A) + leaf_count (fst B)" using zip_diffs_bound [of "fst A" "fst B"] by (simp add: xyz)
  then have "vr_ExtraInA res = 0 \<and> vr_ExtraInB res = 0 \<and> vr_ValueDiffs res = 0 \<longleftrightarrow> zip_diffs ?Z = (0, 0, 0)"
    using v(4) zero [of x] zero [of y] zero [of z] by (simp add: totals_def plus_diffs_def xyz)
  also have "\<dots> \<longleftrightarrow> (\<forall>n \<in> set (store_names (fst A) (fst B)). map rec_kv (leaves_of (fst A) n) = map rec_kv (leaves_of (fst B) n))"
    unfolding zip_diffs_zero zip_stores_by_name [OF names] by auto
  also have "\<dots> \<longleftrightarrow> (\<forall>n. map rec_kv (leaves_of (fst A) n) = map rec_kv (leaves_of (fst B) n))"
    using leaves_of_absent by (fastforce simp: store_names_def)
  finally have stores: "vr_ExtraInA res = 0 \<and> vr_ExtraInB res = 0 \<and> vr_ValueDiffs res = 0 \<longleftrightarrow>
      (\<forall>n. map rec_kv (leaves_of (fst A) n) = map rec_kv (leaves_of (fst B) n))" .
  have "VerifyEquivalent (snap_wire A) (snap_wire B) = Some (Ok (res\<lparr>vr_ExtensionDiff := compareExtensions (ext_data (snd A)) (ext_data (snd B))\<rparr>))"
    unfolding VerifyEquivalent_def v(1) go_bind_simps prod.case e ..
  with stores compareExtensions_zero [of "snd A" "snd B"] show ?thesis
    by (intro exI [of _ "res\<lparr>vr_ExtensionDiff := compareExtensions (ext_data (snd A)) (ext_data (snd B))\<rparr>"]) auto
qed

theorem verify_equivalent_iff_witness:
  "\<exists>res. VerifyEquivalent (snap_wire sample_base) (snap_wire sample_target) = Some (Ok res) \<and>
    \<not> (vr_ExtraInA res = 0 \<and> vr_ExtraInB res = 0 \<and> vr_ValueDiffs res = 0 \<and> vr_ExtensionDiff res = 0)"
proof -
  have names: "sorted_wrt (<) (map fst (fst sample_base))" "sorted_wrt (<) (map fst (fst sample_target))" by (simp_all add: sample_defs)
  have few: "leaf_count (fst sample_base) + leaf_count (fst sample_target) < 2 ^ 64" by (simp add: leaf_count_def sample_defs is_leaf_def)
  have "msg_fits (item_msg (IAVLItem (Some [1]) (Some [2]) 5 0))" "msg_fits (item_msg (IAVLItem (Some [1]) (Some [3]) 6 0))"
    using snap_ok_item [OF sample_ok(1), of "IAVLItem (Some [1]) (Some [2]) 5 0"] snap_ok_item [OF sample_ok(2), of "IAVLItem (Some [1]) (Some [3]) 6 0"]
    by (simp_all add: msg_fits_def sample_defs)
  then have "map rec_kv (leaves_of (fst sample_base) [98]) = [([1], [2])]" "map rec_kv (leaves_of (fst sample_target) [98]) = [([1], [3])]"
    by (simp_all add: sample_defs is_leaf_def rec_kv_def nil_bytes_def parse_IAVLItem)
  then have "map rec_kv (leaves_of (fst sample_base) [98]) \<noteq> map rec_kv (leaves_of (fst sample_target) [98])" by simp
  then have ne: "\<not> (\<forall>n. map rec_kv (leaves_of (fst sample_base) n) = map rec_kv (leaves_of (fst sample_target) n))" by blast
  show ?thesis using verify_equivalent_iff [OF sample_ok(1,2) names few] ne by blast
qed

end
