(* ===== verification/ConnManager.thy ===== *)
theory ConnManager
  imports GoStrings
begin

text \<open>
  The dial manager of \<open>internal/connect/manager.go\<close>: pins, bans, the redial schedule, warm-fill and
  the bookkeeping of dials.  A tick runs as a sequence of lock regions, between which other goroutines
  run theirs.  The p2p switch, the address book and the parser of addresses are third-party code: what
  they answer is an argument of the operation that asks, and the calls that change them are logged.
\<close>

section \<open>Configuration\<close>

text \<open>\<open>time.Duration\<close> is an \<open>int64\<close> of nanoseconds; an instant is an integer of nanoseconds.\<close>

type_synonym duration = i64

record config =
  cf_WarmTarget :: int
  cf_DialBatch :: int
  cf_RefreshTick :: duration
  cf_BookBias :: int
  cf_Backoff :: duration
  cf_MaxBackoff :: duration
  cf_MaxRedials :: nat
  cf_StabilityWindow :: duration
  cf_MaxDialFailures :: nat
  cf_BookDisabled :: bool
  cf_BanDuration :: duration
  cf_hasBook :: bool
  cf_hasBanlist :: bool

definition second :: duration where
  "second = 1000000000"

definition defaults :: "config \<Rightarrow> config" where
  "defaults c =
     (let c = (if cf_DialBatch c = 0 then c\<lparr>cf_DialBatch := 4\<rparr> else c);
          c = (if cf_RefreshTick c = 0 then c\<lparr>cf_RefreshTick := 2 * second\<rparr> else c);
          c = (if cf_Backoff c = 0 then c\<lparr>cf_Backoff := 5 * second\<rparr> else c);
          c = (if cf_MaxBackoff c = 0 then c\<lparr>cf_MaxBackoff := 5 * 60 * second\<rparr> else c);
          c = (if cf_BookBias c = 0 then c\<lparr>cf_BookBias := 50\<rparr> else c);
          c = (if cf_BanDuration c = 0 then c\<lparr>cf_BanDuration := 3600 * second\<rparr> else c)
      in if cf_StabilityWindow c = 0 then c\<lparr>cf_StabilityWindow := 30 * second\<rparr> else c)"

definition computeBackoff :: "config \<Rightarrow> nat \<Rightarrow> duration" where
  "computeBackoff cf disconnects =
     (if disconnects \<le> 1 then cf_Backoff cf
      else let shift = min 10 (disconnects - 1); d = push_bit shift (cf_Backoff cf) in
        if sint d \<le> 0 \<or> sint (cf_MaxBackoff cf) < sint d then cf_MaxBackoff cf else d)"

section \<open>State\<close>

text \<open>A parsed address, with the string that \<open>String()\<close> gives.\<close>

record netAddr =
  na_ID :: bytes
  na_String :: bytes

record peerBackoff =
  bo_disconnects :: nat
  bo_nextDialAt :: int
  bo_connectedSince :: "int option"

text \<open>
  Go maps: \<open>pinned\<close> and \<open>banReasons\<close> as association lists, \<open>banned\<close> as the list of its keys.  \<open>mg_calls\<close> logs the
  calls to the switch, the book and the banlist.
\<close>

datatype call =
    DialPeer netAddr
  | MarkBad netAddr duration
  | MarkAttempt netAddr
  | RemoveAddress netAddr
  | BanlistAdd bytes bytes

record Manager =
  mg_pinned :: "(bytes \<times> bytes) list"
  mg_backoffs :: "bytes \<rightharpoonup> peerBackoff"
  mg_banned :: "bytes list"
  mg_banReasons :: "(bytes \<times> bytes) list"
  mg_dialFail :: "bytes \<Rightarrow> nat"
  mg_pool :: "bytes list"
  mg_cursor :: nat
  mg_dialsFired :: nat
  mg_dialSuccesses :: nat
  mg_dialFailures :: nat
  mg_addrBans :: nat
  mg_peerBans :: nat
  mg_manualBans :: nat
  mg_kicked :: bool
  mg_calls :: "call list"

text \<open>\<open>shuffle\<close> is the permutation that \<open>rand.Shuffle\<close> happens to make of the entries that are not bootstrap peers.\<close>

definition buildPool :: "(bytes list \<Rightarrow> bytes list) \<Rightarrow> (bytes \<times> bool) list \<Rightarrow> bytes list" where
  "buildPool shuffle pool = map fst (takeWhile snd pool) @ shuffle (map fst (dropWhile snd pool))"

definition newManager :: "bytes list \<Rightarrow> Manager" where
  "newManager pool = \<lparr>mg_pinned = [], mg_backoffs = Map.empty, mg_banned = [], mg_banReasons = [], mg_dialFail = \<lambda>_. 0,
     mg_pool = pool, mg_cursor = 0, mg_dialsFired = 0, mg_dialSuccesses = 0, mg_dialFailures = 0, mg_addrBans = 0, mg_peerBans = 0,
     mg_manualBans = 0, mg_kicked = False, mg_calls = []\<rparr>"

record mgrStats =
  sm_DialsFired :: nat
  sm_DialSuccesses :: nat
  sm_DialFailures :: nat
  sm_AddrBans :: nat
  sm_PeerBans :: nat
  sm_ManualBans :: nat
  sm_Pinned :: nat
  sm_Banned :: nat

definition managerStats :: "Manager \<Rightarrow> mgrStats" where
  "managerStats m = \<lparr>sm_DialsFired = mg_dialsFired m, sm_DialSuccesses = mg_dialSuccesses m, sm_DialFailures = mg_dialFailures m,
     sm_AddrBans = mg_addrBans m, sm_PeerBans = mg_peerBans m, sm_ManualBans = mg_manualBans m,
     sm_Pinned = length (mg_pinned m), sm_Banned = length (mg_banned m)\<rparr>"

section \<open>Operations of the callers\<close>

definition Kick :: "Manager \<Rightarrow> Manager" where
  "Kick m = m\<lparr>mg_kicked := True\<rparr>"

definition Pin :: "bytes \<Rightarrow> bytes \<Rightarrow> Manager \<Rightarrow> Manager" where
  "Pin pid addr m = (if pid = [] \<or> addr = [] then m else m\<lparr>mg_pinned := AList.update pid addr (mg_pinned m)\<rparr>)"

definition Unpin :: "bytes \<Rightarrow> Manager \<Rightarrow> Manager" where
  "Unpin pid m = m\<lparr>mg_pinned := AList.delete pid (mg_pinned m), mg_backoffs := (mg_backoffs m)(pid := None)\<rparr>"

definition Ban :: "bytes \<Rightarrow> bytes \<Rightarrow> Manager \<Rightarrow> Manager" where
  "Ban pid reason m =
     (if pid \<in> set (mg_banned m) then m
      else m\<lparr>mg_banned := List.insert pid (mg_banned m), mg_banReasons := AList.update pid reason (mg_banReasons m),
             mg_manualBans := mg_manualBans m + 1,
             mg_pinned := AList.delete pid (mg_pinned m), mg_backoffs := (mg_backoffs m)(pid := None)\<rparr>)"

definition IsBanned :: "bytes \<Rightarrow> Manager \<Rightarrow> bool" where
  "IsBanned pid m \<longleftrightarrow> pid \<in> set (mg_banned m)"

definition BanReason :: "bytes \<Rightarrow> Manager \<Rightarrow> bytes" where
  "BanReason pid m = (case map_of (mg_banReasons m) pid of None \<Rightarrow> [] | Some r \<Rightarrow> r)"

definition logCall :: "call \<Rightarrow> Manager \<Rightarrow> Manager" where
  "logCall c m = m\<lparr>mg_calls := mg_calls m @ [c]\<rparr>"

section \<open>A tick\<close>

text \<open>
  One pinned peer of the snapshot a tick works on; \<open>connected\<close> is whether the switch has the peer.
  The result says which dial is launched.
\<close>

definition markBadByAddr :: "config \<Rightarrow> (bytes \<Rightarrow> netAddr option) \<Rightarrow> bytes \<Rightarrow> Manager \<Rightarrow> Manager" where
  "markBadByAddr cf parse addr m =
     (if \<not> cf_hasBook cf \<or> addr = [] then m
      else case parse addr of None \<Rightarrow> m | Some na \<Rightarrow> logCall (MarkBad na (cf_BanDuration cf)) m)"

definition observeConnected :: "config \<Rightarrow> int \<Rightarrow> bytes \<Rightarrow> bytes \<Rightarrow> Manager \<Rightarrow> Manager" where
  "observeConnected cf now pid addr m =
     (case mg_backoffs m pid of
        None \<Rightarrow> m\<lparr>mg_dialFail := (mg_dialFail m)(addr := 0)\<rparr>
      | Some bo \<Rightarrow>
          let since = (case bo_connectedSince bo of None \<Rightarrow> now | Some t \<Rightarrow> t);
              m = m\<lparr>mg_backoffs := (mg_backoffs m)(pid \<mapsto> bo\<lparr>bo_connectedSince := Some since\<rparr>)\<rparr>
          in if sint (cf_StabilityWindow cf) \<le> now - since
             then m\<lparr>mg_backoffs := (mg_backoffs m)(pid := None), mg_dialFail := (mg_dialFail m)(addr := 0)\<rparr>
             else m)"

definition redialPeer :: "config \<Rightarrow> (bytes \<Rightarrow> netAddr option) \<Rightarrow> int \<Rightarrow> bool \<Rightarrow> bytes \<Rightarrow> bytes \<Rightarrow> Manager \<Rightarrow> Manager \<times> netAddr list" where
  "redialPeer cf parse now connected pid addr m =
     (if connected then (observeConnected cf now pid addr m, [])
      else
        let bo = map_option (\<lambda>b. b\<lparr>bo_connectedSince := None\<rparr>) (mg_backoffs m pid);
            m = m\<lparr>mg_backoffs := (mg_backoffs m)(pid := bo)\<rparr> in
        if bo \<noteq> None \<and> now < bo_nextDialAt (the bo) then (m, [])
        else if 0 < cf_MaxRedials cf \<and> bo \<noteq> None \<and> cf_MaxRedials cf \<le> bo_disconnects (the bo) then
          (markBadByAddr cf parse addr
             (m\<lparr>mg_pinned := AList.delete pid (mg_pinned m), mg_backoffs := (mg_backoffs m)(pid := None),
                mg_banned := List.insert pid (mg_banned m), mg_banReasons := AList.update pid (go_string ''max-redials'') (mg_banReasons m),
                mg_peerBans := mg_peerBans m + 1\<rparr>), [])
        else
          let n = (case bo of None \<Rightarrow> 0 | Some b \<Rightarrow> bo_disconnects b) + 1;
              since = (case bo of None \<Rightarrow> None | Some b \<Rightarrow> bo_connectedSince b) in
          (m\<lparr>mg_backoffs := (mg_backoffs m)(pid \<mapsto>
               \<lparr>bo_disconnects = n, bo_nextDialAt = now + sint (computeBackoff cf n), bo_connectedSince = since\<rparr>)\<rparr>,
           case parse addr of None \<Rightarrow> [] | Some na \<Rightarrow> [na]))"

text \<open>How many dials the warm-fill may launch, and the share of the pool.\<close>

definition warmNeed :: "config \<Rightarrow> int \<Rightarrow> int \<Rightarrow> int" where
  "warmNeed cf out dialing =
     (if cf_WarmTarget cf \<le> out + dialing then 0 else min (cf_WarmTarget cf - out - dialing) (cf_DialBatch cf))"

definition poolShare :: "config \<Rightarrow> int \<Rightarrow> int" where
  "poolShare cf need = (if cf_BookDisabled cf then need else need - need div 2)"

definition dialable :: "(bytes \<Rightarrow> bool) \<Rightarrow> Manager \<Rightarrow> netAddr \<Rightarrow> bool" where
  "dialable conn m na \<longleftrightarrow> na_ID na \<notin> set (mg_banned m) \<and> map_of (mg_pinned m) (na_ID na) = None \<and> \<not> conn (na_ID na)"

text \<open>The loop of \<open>dialFromPool\<close>, one lock region; \<open>tries\<close> counts down.\<close>

fun dialFromPool_loop :: "(bytes \<Rightarrow> netAddr option) \<Rightarrow> (bytes \<Rightarrow> bool) \<Rightarrow> int \<Rightarrow> nat \<Rightarrow> netAddr list \<Rightarrow> Manager \<Rightarrow> Manager \<times> netAddr list" where
  "dialFromPool_loop parse conn need 0 cands m = (m, cands)"
| "dialFromPool_loop parse conn need (Suc tries) cands m =
     (if \<not> int (length cands) < need then (m, cands)
      else let s = mg_pool m ! mg_cursor m; m = m\<lparr>mg_cursor := (mg_cursor m + 1) mod length (mg_pool m)\<rparr> in
        case parse s of
          None \<Rightarrow> dialFromPool_loop parse conn need tries cands m
        | Some na \<Rightarrow> dialFromPool_loop parse conn need tries (if dialable conn m na then cands @ [na] else cands) m)"

definition dialFromPool :: "(bytes \<Rightarrow> netAddr option) \<Rightarrow> (bytes \<Rightarrow> bool) \<Rightarrow> int \<Rightarrow> Manager \<Rightarrow> Manager \<times> netAddr list" where
  "dialFromPool parse conn need m =
     (if mg_pool m = [] then (m, []) else dialFromPool_loop parse conn need (length (mg_pool m)) [] m)"

text \<open>One try of \<open>dialFromBook\<close> with the address the book picked; \<open>busy\<close> is \<open>IsDialingOrExistingAddress\<close>.\<close>

definition dialFromBook_try :: "bool \<Rightarrow> netAddr \<Rightarrow> Manager \<Rightarrow> Manager \<times> netAddr list" where
  "dialFromBook_try busy na m =
     (if busy \<or> na_ID na \<in> set (mg_banned m) \<or> map_of (mg_pinned m) (na_ID na) \<noteq> None then (m, [])
      else (logCall (MarkAttempt na) m, [na]))"

section \<open>Dials\<close>

text \<open>The goroutine of one dial: counting and calling the switch, then its result.\<close>

definition dialStart :: "netAddr \<Rightarrow> Manager \<Rightarrow> Manager" where
  "dialStart na m = logCall (DialPeer na) (m\<lparr>mg_dialsFired := mg_dialsFired m + 1\<rparr>)"

definition dialSuccess :: "netAddr \<Rightarrow> Manager \<Rightarrow> Manager" where
  "dialSuccess na m = m\<lparr>mg_dialSuccesses := mg_dialSuccesses m + 1, mg_dialFail := (mg_dialFail m)(na_String na := 0)\<rparr>"

text \<open>The two lock regions of \<open>recordDialFail\<close>; the first says whether the second follows.\<close>

definition recordDialFail :: "config \<Rightarrow> netAddr \<Rightarrow> Manager \<Rightarrow> Manager \<times> bool" where
  "recordDialFail cf na m =
     (let count = mg_dialFail m (na_String na) + 1 in
      (m\<lparr>mg_dialFail := (mg_dialFail m)(na_String na := count), mg_dialFailures := mg_dialFailures m + 1\<rparr>,
       0 < cf_MaxDialFailures cf \<and> cf_MaxDialFailures cf \<le> count))"

definition evictAddr :: "config \<Rightarrow> netAddr \<Rightarrow> Manager \<Rightarrow> Manager" where
  "evictAddr cf na m =
     (let m = (if cf_hasBook cf then logCall (RemoveAddress na) m else m);
          m = (if cf_hasBanlist cf then logCall (BanlistAdd (na_String na) (go_string ''max-dial-failures'')) m else m)
      in m\<lparr>mg_dialFail := (mg_dialFail m)(na_String na := 0), mg_addrBans := mg_addrBans m + 1\<rparr>)"

section \<open>Interleavings\<close>

text \<open>
  Where the dial loop is: waiting, at the pinned peers that are left of the snapshot (in any order,
  as Go ranges over a map), before the warm-fill, or drawing from the book with \<open>need\<close> dials to launch,
  the tries and the dials launched so far.
\<close>

datatype loopPC =
    LIdle
  | LRedial int "(bytes \<times> bytes) list"
  | LWarm
  | LBook int nat int

text \<open>
  Beside the manager: dial goroutines that have not called the switch, those that have, and those
  that are about to evict their address.
\<close>

record mgrState =
  ms_mgr :: Manager
  ms_pc :: loopPC
  ms_spawned :: "netAddr list"
  ms_dialing :: "netAddr list"
  ms_evicting :: "netAddr list"

datatype label = LPin bytes bytes | LOther

definition startState :: "bytes list \<Rightarrow> mgrState" where
  "startState pool = \<lparr>ms_mgr = newManager pool, ms_pc = LIdle, ms_spawned = [], ms_dialing = [], ms_evicting = []\<rparr>"

inductive mgr_step :: "config \<Rightarrow> (bytes \<Rightarrow> netAddr option) \<Rightarrow> mgrState \<Rightarrow> label \<Rightarrow> mgrState \<Rightarrow> bool"
  for cf parse where
  pin: "mgr_step cf parse s (LPin pid addr) (s\<lparr>ms_mgr := Pin pid addr (ms_mgr s)\<rparr>)"
| unpin: "mgr_step cf parse s LOther (s\<lparr>ms_mgr := Unpin pid (ms_mgr s)\<rparr>)"
| ban: "mgr_step cf parse s LOther (s\<lparr>ms_mgr := Ban pid reason (ms_mgr s)\<rparr>)"
| kick: "mgr_step cf parse s LOther (s\<lparr>ms_mgr := Kick (ms_mgr s)\<rparr>)"
| tick: "ms_pc s = LIdle \<Longrightarrow>
    mgr_step cf parse s LOther (s\<lparr>ms_pc := LRedial now (mg_pinned (ms_mgr s)), ms_mgr := (ms_mgr s)\<lparr>mg_kicked := k\<rparr>\<rparr>)"
| redial: "ms_pc s = LRedial now ps \<Longrightarrow> (pid, addr) \<in> set ps \<Longrightarrow> redialPeer cf parse now connected pid addr (ms_mgr s) = (m, ds) \<Longrightarrow>
    mgr_step cf parse s LOther (s\<lparr>ms_mgr := m, ms_pc := LRedial now (remove1 (pid, addr) ps), ms_spawned := ms_spawned s @ ds\<rparr>)"
| redialed: "ms_pc s = LRedial now [] \<Longrightarrow> mgr_step cf parse s LOther (s\<lparr>ms_pc := LWarm\<rparr>)"
| enough: "ms_pc s = LWarm \<Longrightarrow> warmNeed cf out dialing \<le> 0 \<Longrightarrow> mgr_step cf parse s LOther (s\<lparr>ms_pc := LIdle\<rparr>)"
| warm: "ms_pc s = LWarm \<Longrightarrow> need = warmNeed cf out dialing \<Longrightarrow> 0 < need \<Longrightarrow>
    dialFromPool parse conn (poolShare cf need) (ms_mgr s) = (m, ds) \<Longrightarrow>
    mgr_step cf parse s LOther (s\<lparr>ms_mgr := m, ms_spawned := ms_spawned s @ ds,
      ms_pc := (if cf_hasBook cf \<and> \<not> cf_BookDisabled cf then LBook (need - int (length ds)) 0 0 else LIdle)\<rparr>)"
| book: "ms_pc s = LBook need tries fired \<Longrightarrow> int tries < need * 4 \<Longrightarrow> fired < need \<Longrightarrow> dialFromBook_try busy na (ms_mgr s) = (m, ds) \<Longrightarrow>
    mgr_step cf parse s LOther (s\<lparr>ms_mgr := m, ms_spawned := ms_spawned s @ ds, ms_pc := LBook need (tries + 1) (fired + int (length ds))\<rparr>)"
| booked: "ms_pc s = LBook need tries fired \<Longrightarrow> mgr_step cf parse s LOther (s\<lparr>ms_pc := LIdle\<rparr>)"
| dial: "na \<in> set (ms_spawned s) \<Longrightarrow>
    mgr_step cf parse s LOther (s\<lparr>ms_mgr := dialStart na (ms_mgr s), ms_spawned := remove1 na (ms_spawned s), ms_dialing := na # ms_dialing s\<rparr>)"
| succeeds: "na \<in> set (ms_dialing s) \<Longrightarrow>
    mgr_step cf parse s LOther (s\<lparr>ms_mgr := dialSuccess na (ms_mgr s), ms_dialing := remove1 na (ms_dialing s)\<rparr>)"
| exists: "na \<in> set (ms_dialing s) \<Longrightarrow> mgr_step cf parse s LOther (s\<lparr>ms_dialing := remove1 na (ms_dialing s)\<rparr>)"
| fails: "na \<in> set (ms_dialing s) \<Longrightarrow> recordDialFail cf na (ms_mgr s) = (m, evict) \<Longrightarrow>
    mgr_step cf parse s LOther (s\<lparr>ms_mgr := m, ms_dialing := remove1 na (ms_dialing s),
      ms_evicting := (if evict then na # ms_evicting s else ms_evicting s)\<rparr>)"
| evict: "na \<in> set (ms_evicting s) \<Longrightarrow>
    mgr_step cf parse s LOther (s\<lparr>ms_mgr := evictAddr cf na (ms_mgr s), ms_evicting := remove1 na (ms_evicting s)\<rparr>)"

text \<open>A run, with the calls of \<open>Pin\<close> in it.\<close>

inductive mgr_run :: "config \<Rightarrow> (bytes \<Rightarrow> netAddr option) \<Rightarrow> mgrState \<Rightarrow> label list \<Rightarrow> mgrState \<Rightarrow> bool"
  for cf parse where
  none: "mgr_run cf parse s [] s"
| snoc: "mgr_run cf parse s ls s' \<Longrightarrow> mgr_step cf parse s' l s'' \<Longrightarrow> mgr_run cf parse s (ls @ [l]) s''"


section \<open>Invariants of runs\<close>

text \<open>What every step keeps, given that its label is allowed, every run keeps.\<close>

lemma mgr_run_invariant:
  assumes "\<And>s l s'. mgr_step cf parse s l s' \<Longrightarrow> I s \<Longrightarrow> ok l \<Longrightarrow> I s'"
    and "mgr_run cf parse s ls s'" and "I s" and "\<forall>l \<in> set ls. ok l"
  shows "I s'"
  using assms(2-4) by (induction rule: mgr_run.induct) (auto dest: assms(1))

subsection \<open>Well-formed managers\<close>

definition backoffs_wf :: "config \<Rightarrow> Manager \<Rightarrow> bool" where
  "backoffs_wf cf m \<longleftrightarrow>
     (\<forall>bo \<in> ran (mg_backoffs m). 1 \<le> bo_disconnects bo \<and> (0 < cf_MaxRedials cf \<longrightarrow> bo_disconnects bo \<le> cf_MaxRedials cf))"

definition tables_wf :: "Manager \<Rightarrow> bool" where
  "tables_wf m \<longleftrightarrow>
     distinct (map fst (mg_pinned m)) \<and> (\<forall>(pid, addr) \<in> set (mg_pinned m). pid \<noteq> [] \<and> addr \<noteq> []) \<and>
     distinct (mg_banned m) \<and> distinct (map fst (mg_banReasons m)) \<and> fst ` set (mg_banReasons m) = set (mg_banned m) \<and>
     length (mg_banned m) \<le> mg_peerBans m + mg_manualBans m \<and>
     (mg_pool m \<noteq> [] \<longrightarrow> mg_cursor m < length (mg_pool m))"

definition is_dial :: "call \<Rightarrow> bool" where
  "is_dial c = (case c of DialPeer _ \<Rightarrow> True | _ \<Rightarrow> False)"

text \<open>The counters account for every dial and every eviction.\<close>

definition counters_wf :: "mgrState \<Rightarrow> bool" where
  "counters_wf s \<longleftrightarrow> (let m = ms_mgr s in
     mg_dialsFired m = length (filter is_dial (mg_calls m)) \<and>
     mg_dialSuccesses m + mg_dialFailures m + length (ms_dialing s) \<le> mg_dialsFired m \<and>
     mg_addrBans m + length (ms_evicting s) \<le> mg_dialFailures m)"

lemma backoffs_wf_upd:
  assumes "backoffs_wf cf m"
    and "case b of None \<Rightarrow> True | Some bo \<Rightarrow>
      1 \<le> bo_disconnects bo \<and> (0 < cf_MaxRedials cf \<longrightarrow> bo_disconnects bo \<le> cf_MaxRedials cf)"
    and "mg_backoffs m' = (mg_backoffs m)(pid := b)"
  shows "backoffs_wf cf m'"
  using assms by (auto simp: backoffs_wf_def ran_def split: option.splits if_splits)

lemma backoffs_wf_same: "backoffs_wf cf m \<Longrightarrow> mg_backoffs m' = mg_backoffs m \<Longrightarrow> backoffs_wf cf m'"
  by (simp add: backoffs_wf_def)

lemma backoffs_wfD:
  "backoffs_wf cf m \<Longrightarrow> mg_backoffs m pid = Some bo \<Longrightarrow>
   1 \<le> bo_disconnects bo \<and> (0 < cf_MaxRedials cf \<longrightarrow> bo_disconnects bo \<le> cf_MaxRedials cf)"
  by (auto simp: backoffs_wf_def ran_def)

lemma logCall_simps [simp, frame_simps]:
  "mg_pinned (logCall c m) = mg_pinned m" "mg_backoffs (logCall c m) = mg_backoffs m"
  "mg_banned (logCall c m) = mg_banned m" "mg_banReasons (logCall c m) = mg_banReasons m"
  "mg_pool (logCall c m) = mg_pool m" "mg_cursor (logCall c m) = mg_cursor m"
  "mg_dialsFired (logCall c m) = mg_dialsFired m" "mg_dialSuccesses (logCall c m) = mg_dialSuccesses m"
  "mg_dialFailures (logCall c m) = mg_dialFailures m" "mg_addrBans (logCall c m) = mg_addrBans m"
  "mg_peerBans (logCall c m) = mg_peerBans m" "mg_manualBans (logCall c m) = mg_manualBans m"
  "mg_calls (logCall c m) = mg_calls m @ [c]" "mg_dialFail (logCall c m) = mg_dialFail m"
  by (simp_all add: logCall_def)

text \<open>\<open>redialPeer\<close> either leaves pins and bans alone or bans the peer for good.\<close>

lemma redialPeer_cases:
  assumes "redialPeer cf parse now connected pid addr m = (m', ds)"
  obtains (keep) "mg_pinned m' = mg_pinned m" "mg_banned m' = mg_banned m" "mg_banReasons m' = mg_banReasons m"
      "mg_peerBans m' = mg_peerBans m" "mg_calls m' = mg_calls m" "ds = [] \<or> parse addr = Some (hd ds) \<and> ds = [hd ds]"
    | (banned) "mg_pinned m' = AList.delete pid (mg_pinned m)" "mg_banned m' = List.insert pid (mg_banned m)"
      "mg_banReasons m' = AList.update pid (go_string ''max-redials'') (mg_banReasons m)"
      "mg_peerBans m' = mg_peerBans m + 1" "filter is_dial (mg_calls m') = filter is_dial (mg_calls m)" "ds = []"
  using assms
  by (auto simp: redialPeer_def observeConnected_def markBadByAddr_def is_dial_def Let_def
      split: if_splits option.splits)

lemma redialPeer_frame:
  assumes "redialPeer cf parse now connected pid addr m = (m', ds)"
  shows "mg_pool m' = mg_pool m \<and> mg_cursor m' = mg_cursor m \<and> mg_manualBans m' = mg_manualBans m \<and>
    mg_dialsFired m' = mg_dialsFired m \<and> mg_dialSuccesses m' = mg_dialSuccesses m \<and>
    mg_dialFailures m' = mg_dialFailures m \<and> mg_addrBans m' = mg_addrBans m"
  using assms
  by (auto simp: redialPeer_def observeConnected_def markBadByAddr_def Let_def split: if_splits option.splits)

lemma redialPeer_backoffs:
  assumes "redialPeer cf parse now connected pid addr m = (m', ds)"
  shows "mg_backoffs m' = (mg_backoffs m)(pid := mg_backoffs m' pid)"
  using assms
  by (auto simp: redialPeer_def observeConnected_def markBadByAddr_def Let_def fun_eq_iff split: if_splits option.splits)

lemma redialPeer_backoff_wf:
  assumes "redialPeer cf parse now connected pid addr m = (m', ds)" and "backoffs_wf cf m"
  shows "case mg_backoffs m' pid of None \<Rightarrow> True | Some bo \<Rightarrow>
      1 \<le> bo_disconnects bo \<and> (0 < cf_MaxRedials cf \<longrightarrow> bo_disconnects bo \<le> cf_MaxRedials cf)"
  using assms(1) backoffs_wfD [OF assms(2), of pid]
  by (cases "mg_backoffs m pid")
    (auto simp: redialPeer_def observeConnected_def markBadByAddr_def Let_def split: if_splits option.splits)

lemma dialFromPool_loop_frame:
  "dialFromPool_loop parse conn need tries cands m = (m', ds) \<Longrightarrow>
   (\<exists>c. m' = m\<lparr>mg_cursor := c\<rparr>) \<and> (mg_pool m \<noteq> [] \<longrightarrow> mg_cursor m < length (mg_pool m) \<longrightarrow> mg_cursor m' < length (mg_pool m)) \<and>
   (\<forall>na \<in> set ds. na \<in> set cands \<or> na_ID na \<notin> set (mg_banned m))"
proof (induction parse conn need tries cands m arbitrary: m' ds rule: dialFromPool_loop.induct)
  case (1 parse conn need cands m)
  then show ?case by (auto intro: exI [of _ "mg_cursor m"])
next
  case (2 parse conn need tries cands m)
  show ?case
  proof (cases "int (length cands) < need")
    case False
    with "2.prems" show ?thesis by (auto intro: exI [of _ "mg_cursor m"])
  next
    case True
    let ?m = "m\<lparr>mg_cursor := (mg_cursor m + 1) mod length (mg_pool m)\<rparr>"
    have c: "mg_pool m \<noteq> [] \<Longrightarrow> mg_cursor ?m < length (mg_pool m)" by simp
    show ?thesis
    proof (cases "parse (mg_pool m ! mg_cursor m)")
      case None
      with True "2.prems" have "dialFromPool_loop parse conn need tries cands ?m = (m', ds)" by (simp add: Let_def)
      from "2.IH"(1) [OF _ refl refl None this] True c show ?thesis by auto
    next
      case (Some na)
      with True "2.prems" have
        "dialFromPool_loop parse conn need tries (if dialable conn ?m na then cands @ [na] else cands) ?m = (m', ds)"
        by (simp add: Let_def)
      from "2.IH"(2) [OF _ refl refl Some this] True c show ?thesis
        by (auto simp: dialable_def split: if_splits)
    qed
  qed
qed

lemma dialFromPool_frame:
  assumes "dialFromPool parse conn need m = (m', ds)"
  shows "(\<exists>c. m' = m\<lparr>mg_cursor := c\<rparr>) \<and> (mg_pool m \<noteq> [] \<longrightarrow> mg_cursor m < length (mg_pool m) \<longrightarrow> mg_cursor m' < length (mg_pool m)) \<and>
   (\<forall>na \<in> set ds. na_ID na \<notin> set (mg_banned m))"
  using assms dialFromPool_loop_frame [of parse conn need "length (mg_pool m)" "[]" m m' ds]
  by (cases "mg_pool m = []") (auto simp: dialFromPool_def intro: exI [of _ "mg_cursor m"])

lemma dialFromBook_try_frame:
  assumes "dialFromBook_try busy na m = (m', ds)"
  shows "(m' = m \<or> m' = logCall (MarkAttempt na) m) \<and> (\<forall>na \<in> set ds. na_ID na \<notin> set (mg_banned m))"
  using assms by (auto simp: dialFromBook_try_def split: if_splits)

lemma set_AList_update: "set (AList.update k v al) \<subseteq> insert (k, v) (set al)"
  by (induction al) auto

lemma set_AList_delete: "set (AList.delete k al) \<subseteq> set al"
  by (auto simp: AList.delete_eq)

lemma length_List_insert: "length (List.insert x xs) \<le> length xs + 1"
  by (simp add: List.insert_def)

text \<open>A ban recorded in both tables.\<close>

lemma tables_wf_ban:
  assumes "tables_wf m" and "mg_pinned m' = AList.delete pid (mg_pinned m)" and "mg_banned m' = List.insert pid (mg_banned m)"
    and "mg_banReasons m' = AList.update pid reason (mg_banReasons m)"
    and "mg_peerBans m' + mg_manualBans m' = mg_peerBans m + mg_manualBans m + 1"
    and "mg_pool m' = mg_pool m" and "mg_cursor m' = mg_cursor m"
  shows "tables_wf m'"
  using assms distinct_delete [of "mg_pinned m" pid] set_AList_delete [of pid "mg_pinned m"]
    distinct_update [of "mg_banReasons m" pid reason] dom_update [of pid reason "mg_banReasons m"]
    length_List_insert [of pid "mg_banned m"]
  by (auto simp: tables_wf_def)

lemma tables_wf_Pin:
  assumes "tables_wf m"
  shows "tables_wf (Pin pid addr m)"
  using assms distinct_update [of "mg_pinned m" pid addr] set_AList_update [of pid addr "mg_pinned m"]
  by (auto simp: Pin_def tables_wf_def)

lemma tables_wf_Unpin: "tables_wf m \<Longrightarrow> tables_wf (Unpin pid m)"
  using distinct_delete [of "mg_pinned m" pid] set_AList_delete [of pid "mg_pinned m"]
  by (auto simp: Unpin_def tables_wf_def)

lemma tables_wf_Ban: "tables_wf m \<Longrightarrow> tables_wf (Ban pid reason m)"
  by (cases "pid \<in> set (mg_banned m)") (auto simp: Ban_def intro: tables_wf_ban)

lemma tables_wf_redialPeer:
  assumes "tables_wf m" and "redialPeer cf parse now connected pid addr m = (m', ds)"
  shows "tables_wf m'"
  using assms(2)
proof (cases rule: redialPeer_cases)
  case keep
  then show ?thesis using assms redialPeer_frame [OF assms(2)] by (simp add: tables_wf_def)
next
  case banned
  show ?thesis by (rule tables_wf_ban [OF assms(1) banned(1-3)]) (use banned redialPeer_frame [OF assms(2)] in auto)
qed

lemmas op_defs = Unpin_def Ban_def Kick_def dialStart_def dialSuccess_def recordDialFail_def evictAddr_def Let_def

lemma tables_wf_frame [simp, frame_simps]:
  "tables_wf (m\<lparr>mg_kicked := k\<rparr>) = tables_wf m" "tables_wf (m\<lparr>mg_dialFail := f\<rparr>) = tables_wf m"
  "tables_wf (m\<lparr>mg_dialsFired := n\<rparr>) = tables_wf m" "tables_wf (m\<lparr>mg_dialSuccesses := n\<rparr>) = tables_wf m"
  "tables_wf (m\<lparr>mg_dialFailures := n\<rparr>) = tables_wf m" "tables_wf (m\<lparr>mg_addrBans := n\<rparr>) = tables_wf m"
  "tables_wf (logCall c m) = tables_wf m"
  by (simp_all add: tables_wf_def)

lemma tables_wf_step:
  assumes "mgr_step cf parse s l s'" and "tables_wf (ms_mgr s)"
  shows "tables_wf (ms_mgr s')"
  using assms(1)
proof cases
  case (warm need out dialing conn m ds)
  then show ?thesis using dialFromPool_frame [OF warm(6)] assms(2)
    by (elim conjE exE) (simp add: tables_wf_def)
next
  case (book need tries fired busy na m ds)
  then show ?thesis using dialFromBook_try_frame [OF book(6)] assms(2)
    by (elim conjE disjE) (simp_all add: tables_wf_def)
qed (use assms(2) in \<open>auto simp: tables_wf_Pin tables_wf_Unpin tables_wf_Ban Kick_def dialStart_def dialSuccess_def
    recordDialFail_def evictAddr_def Let_def intro: tables_wf_redialPeer\<close>)

lemma backoffs_wf_step:
  assumes "mgr_step cf parse s l s'" and "backoffs_wf cf (ms_mgr s)"
  shows "backoffs_wf cf (ms_mgr s')"
  using assms(1)
proof cases
  case (redial now ps pid addr connected m ds)
  then show ?thesis using redialPeer_backoff_wf [OF redial(5) assms(2)] redialPeer_backoffs [OF redial(5)] assms(2)
    by (auto intro: backoffs_wf_upd)
next
  case (warm need out dialing conn m ds)
  then show ?thesis using dialFromPool_frame [OF warm(6)] assms(2) by (auto simp: backoffs_wf_def)
next
  case (book need tries fired busy na m ds)
  then show ?thesis using dialFromBook_try_frame [OF book(6)] assms(2) by (auto simp: backoffs_wf_def)
qed (use assms(2) in \<open>auto simp: Pin_def op_defs elim: backoffs_wf_same intro: backoffs_wf_upd [where b = None]\<close>)

lemma length_remove1_in: "x \<in> set xs \<Longrightarrow> length xs = Suc (length (remove1 x xs))"
  using length_pos_if_in_set [of x xs] by (simp add: length_remove1)

lemma counters_wf_step:
  assumes "mgr_step cf parse s l s'" and "counters_wf s"
  shows "counters_wf s'"
  using assms(1)
proof cases
  case (redial now ps pid addr connected m ds)
  have "filter is_dial (mg_calls m) = filter is_dial (mg_calls (ms_mgr s))"
    using redial(5) by (cases rule: redialPeer_cases) auto
  then show ?thesis using redial redialPeer_frame [OF redial(5)] assms(2) by (auto simp: counters_wf_def Let_def)
next
  case (warm need out dialing conn m ds)
  then show ?thesis using dialFromPool_frame [OF warm(6)] assms(2) by (auto simp: counters_wf_def Let_def)
next
  case (book need tries fired busy na m ds)
  then show ?thesis using dialFromBook_try_frame [OF book(6)] assms(2) by (auto simp: counters_wf_def Let_def is_dial_def)
qed (use assms(2) in \<open>auto simp: counters_wf_def Pin_def op_defs is_dial_def split: if_splits dest: length_remove1_in\<close>)

subsection \<open>Banned peers\<close>

text \<open>Nothing pinned, snapshotted or spawned leads to a dial of \<open>pid\<close>, which is banned.\<close>

definition names :: "(bytes \<Rightarrow> netAddr option) \<Rightarrow> bytes \<Rightarrow> bytes \<Rightarrow> bool" where
  "names parse pid addr \<longleftrightarrow> (case parse addr of None \<Rightarrow> False | Some na \<Rightarrow> na_ID na = pid)"

fun snapshot :: "loopPC \<Rightarrow> (bytes \<times> bytes) list" where
  "snapshot (LRedial now ps) = ps"
| "snapshot _ = []"

definition shunned :: "(bytes \<Rightarrow> netAddr option) \<Rightarrow> bytes \<Rightarrow> mgrState \<Rightarrow> bool" where
  "shunned parse pid s \<longleftrightarrow>
     pid \<in> set (mg_banned (ms_mgr s)) \<and>
     (\<forall>(q, addr) \<in> set (mg_pinned (ms_mgr s)) \<union> set (snapshot (ms_pc s)). \<not> names parse pid addr) \<and>
     (\<forall>na \<in> set (ms_spawned s). na_ID na \<noteq> pid)"

definition dials_of :: "bytes \<Rightarrow> mgrState \<Rightarrow> call list" where
  "dials_of pid s = filter (\<lambda>c. case c of DialPeer na \<Rightarrow> na_ID na = pid | _ \<Rightarrow> False) (mg_calls (ms_mgr s))"

fun pins_peer :: "(bytes \<Rightarrow> netAddr option) \<Rightarrow> bytes \<Rightarrow> label \<Rightarrow> bool" where
  "pins_peer parse pid (LPin q addr) = names parse pid addr"
| "pins_peer parse pid LOther = False"

lemma redialPeer_shunned:
  assumes "redialPeer cf parse now connected q addr m = (m', ds)"
  shows "set (mg_banned m) \<subseteq> set (mg_banned m')" "set (mg_pinned m') \<subseteq> set (mg_pinned m)"
    "\<forall>na \<in> set ds. names parse (na_ID na) addr"
    "filter (\<lambda>c. case c of DialPeer na \<Rightarrow> na_ID na = pid | _ \<Rightarrow> False) (mg_calls m') =
     filter (\<lambda>c. case c of DialPeer na \<Rightarrow> na_ID na = pid | _ \<Rightarrow> False) (mg_calls m)"
  using assms set_AList_delete [of q "mg_pinned m"]
  by (auto simp: redialPeer_def observeConnected_def markBadByAddr_def names_def Let_def split: if_splits option.splits)

lemma shunned_step:
  assumes "mgr_step cf parse s l s'" and "shunned parse pid s" and "\<not> pins_peer parse pid l"
  shows "shunned parse pid s' \<and> dials_of pid s' = dials_of pid s"
  using assms(1)
proof cases
  case (pin q addr)
  then show ?thesis using assms(2,3) set_AList_update [of q addr "mg_pinned (ms_mgr s)"]
    by (auto simp: shunned_def dials_of_def Pin_def)
next
  case (redial now ps q addr connected m ds)
  note r = redialPeer_shunned [OF redial(5)]
  have "\<not> names parse pid addr" using assms(2) redial(3,4) by (auto simp: shunned_def)
  then have "\<forall>na \<in> set ds. na_ID na \<noteq> pid" using r(3) by auto
  moreover have "snapshot (LRedial now (remove1 (q, addr) ps)) = remove1 (q, addr) ps" by simp
  moreover have "set (remove1 (q, addr) ps) \<subseteq> set (snapshot (ms_pc s))" using redial(3) set_remove1_subset by fastforce
  ultimately show ?thesis using assms(2) r(1,2) r(4) [of pid] redial(2)
    by (auto simp: shunned_def dials_of_def)
next
  case (warm need out dialing conn m ds)
  then show ?thesis using dialFromPool_frame [OF warm(6)] assms(2) by (auto simp: shunned_def dials_of_def)
next
  case (book need tries fired busy na m ds)
  then show ?thesis using dialFromBook_try_frame [OF book(6)] assms(2) by (auto simp: shunned_def dials_of_def)
next
  case (dial na)
  then show ?thesis using assms(2) set_remove1_subset [of na "ms_spawned s"]
    by (auto simp: shunned_def dials_of_def dialStart_def)
next
  case (unpin q)
  then show ?thesis using assms(2) set_AList_delete [of q "mg_pinned (ms_mgr s)"]
    by (auto simp: shunned_def dials_of_def Unpin_def)
next
  case (ban q reason)
  then show ?thesis using assms(2) set_AList_delete [of q "mg_pinned (ms_mgr s)"]
    by (auto simp: shunned_def dials_of_def Ban_def)
qed (use assms(2) in \<open>auto simp: shunned_def dials_of_def op_defs\<close>)

subsection \<open>The redial budget\<close>

lemma computeBackoff_range:
  assumes "0 < sint (cf_Backoff cf)" and "sint (cf_Backoff cf) \<le> sint (cf_MaxBackoff cf)" and "sint (cf_Backoff cf) < 2 ^ 53"
  shows "sint (cf_Backoff cf) \<le> sint (computeBackoff cf n) \<and> sint (computeBackoff cf n) \<le> sint (cf_MaxBackoff cf)"
proof (cases "n \<le> 1")
  case False
  define k where "k = min 10 (n - 1)"
  let ?b = "sint (cf_Backoff cf)"
  have k: "(2::int) ^ k \<le> 2 ^ 10" unfolding k_def by (intro power_increasing) auto
  have lo: "?b * 1 \<le> ?b * 2 ^ k" using assms(1) by (intro mult_left_mono) auto
  have "?b * 2 ^ k \<le> ?b * 2 ^ 10" using assms(1) k by (intro mult_left_mono) auto
  also have "\<dots> < 2 ^ 53 * 2 ^ 10" using assms(3) by (intro mult_strict_right_mono) auto
  finally have hi: "?b * 2 ^ k < 2 ^ 63" by simp
  have "push_bit k (cf_Backoff cf) = of_int (?b * 2 ^ k)" by (simp add: push_bit_eq_mult)
  then have "sint (push_bit k (cf_Backoff cf)) = signed_take_bit 63 (?b * 2 ^ k)" by (simp only: signed_of_int) simp
  also have "\<dots> = ?b * 2 ^ k"
    using hi lo assms(1) by (intro signed_take_bit_int_eq_self) linarith+
  finally show ?thesis using False lo assms(2) by (auto simp: computeBackoff_def Let_def k_def)
qed (use assms in \<open>simp add: computeBackoff_def\<close>)

text \<open>The visits of a pinned peer that is never found connected, at the given times.\<close>

fun visits :: "config \<Rightarrow> (bytes \<Rightarrow> netAddr option) \<Rightarrow> bytes \<Rightarrow> bytes \<Rightarrow> int list \<Rightarrow> Manager \<Rightarrow> Manager \<times> netAddr list list" where
  "visits cf parse pid addr [] m = (m, [])"
| "visits cf parse pid addr (t # ts) m =
     (let (m, ds) = redialPeer cf parse t False pid addr m; (m, dss) = visits cf parse pid addr ts m in (m, ds # dss))"

definition tried :: "bytes \<Rightarrow> Manager \<Rightarrow> nat" where
  "tried pid m = (case mg_backoffs m pid of None \<Rightarrow> 0 | Some bo \<Rightarrow> bo_disconnects bo)"

definition due :: "bytes \<Rightarrow> Manager \<Rightarrow> int \<Rightarrow> bool" where
  "due pid m t \<longleftrightarrow> (case mg_backoffs m pid of None \<Rightarrow> True | Some bo \<Rightarrow> bo_nextDialAt bo \<le> t)"

lemma visits_append:
  "visits cf parse pid addr (ts @ us) m =
     (let (m, dss) = visits cf parse pid addr ts m; (m, ess) = visits cf parse pid addr us m in (m, dss @ ess))"
  by (induction ts arbitrary: m) (auto simp: Let_def split: prod.splits)

lemma redialPeer_fires:
  assumes "parse addr = Some na" and "due pid m t" and "0 < cf_MaxRedials cf" and "tried pid m < cf_MaxRedials cf"
  shows "\<exists>m'. redialPeer cf parse t False pid addr m = (m', [na]) \<and> tried pid m' = Suc (tried pid m) \<and>
    (\<forall>u. t + sint (computeBackoff cf (Suc (tried pid m))) \<le> u \<longrightarrow> due pid m' u) \<and>
    mg_pinned m' = mg_pinned m \<and> mg_peerBans m' = mg_peerBans m"
  using assms by (auto simp: redialPeer_def tried_def due_def Let_def split: option.splits)

lemma visits_fire:
  assumes "parse addr = Some na" and "0 < cf_MaxRedials cf"
    and "\<And>n. sint (computeBackoff cf n) \<le> b"
  shows "sorted_wrt (\<lambda>t u. t + b \<le> u) ts \<Longrightarrow> \<forall>t \<in> set ts. due pid m t \<Longrightarrow> tried pid m + length ts \<le> cf_MaxRedials cf \<Longrightarrow>
    \<exists>m'. visits cf parse pid addr ts m = (m', replicate (length ts) [na]) \<and> tried pid m' = tried pid m + length ts \<and>
      mg_peerBans m' = mg_peerBans m \<and>
      (\<forall>u. (if ts = [] then due pid m u else last ts + b \<le> u) \<longrightarrow> due pid m' u)"
proof (induction ts arbitrary: m)
  case (Cons t ts)
  from redialPeer_fires [where parse = parse and addr = addr and na = na and pid = pid and m = m and t = t and cf = cf] Cons.prems assms(1,2) obtain m1 where
    m1: "redialPeer cf parse t False pid addr m = (m1, [na])" "tried pid m1 = Suc (tried pid m)"
      "\<forall>u. t + sint (computeBackoff cf (Suc (tried pid m))) \<le> u \<longrightarrow> due pid m1 u" "mg_peerBans m1 = mg_peerBans m" by auto
  have due: "t + b \<le> u \<Longrightarrow> due pid m1 u" for u using m1(3) assms(3) [of "Suc (tried pid m)"] by auto
  from Cons.IH [of m1] Cons.prems m1(2) due obtain m2 where
    m2: "visits cf parse pid addr ts m1 = (m2, replicate (length ts) [na])" "tried pid m2 = tried pid m1 + length ts"
      "mg_peerBans m2 = mg_peerBans m1" "\<forall>u. (if ts = [] then due pid m1 u else last ts + b \<le> u) \<longrightarrow> due pid m2 u" by auto
  then show ?case using m1 due by (intro exI [of _ m2]) auto
qed simp

lemma redialPeer_gives_up:
  assumes "due pid m t" and "0 < cf_MaxRedials cf" and "tried pid m = cf_MaxRedials cf"
  shows "\<exists>m'. redialPeer cf parse t False pid addr m = (m', []) \<and> IsBanned pid m' \<and>
    BanReason pid m' = go_string ''max-redials'' \<and> map_of (mg_pinned m') pid = None \<and> mg_peerBans m' = mg_peerBans m + 1"
  using assms
  by (auto simp: redialPeer_def tried_def due_def IsBanned_def BanReason_def markBadByAddr_def Let_def update_conv' delete_conv'
      split: option.splits)

section \<open>Properties\<close>

text \<open>
  C31. Whatever the interleaving of the dial loop, the dial goroutines and the callers, the manager's
  state stays well-formed: pinned peers and addresses are non-empty and no peer is pinned twice; the
  banned peers are exactly those with a ban reason, and are accounted for by \<open>peerBans\<close> and
  \<open>manualBans\<close>; the pool cursor stays inside the pool; a backoff schedule counts between one and
  \<open>MaxRedials\<close> redials; every call of \<open>DialPeerWithAddress\<close> is counted, as is every result of one.
\<close>

theorem manager_wellformed:
  assumes "mgr_run cf parse (startState pool) ls s"
  shows "tables_wf (ms_mgr s) \<and> backoffs_wf cf (ms_mgr s) \<and> counters_wf s"
proof (rule mgr_run_invariant [OF _ assms, where ok = "\<lambda>_. True"])
  show "tables_wf (ms_mgr (startState pool)) \<and> backoffs_wf cf (ms_mgr (startState pool)) \<and> counters_wf (startState pool)"
    by (simp add: startState_def newManager_def tables_wf_def backoffs_wf_def counters_wf_def)
qed (auto intro: tables_wf_step backoffs_wf_step counters_wf_step)

text \<open>
  C30. Once a peer is banned and neither a pin nor a tick in progress nor a spawned dial leads to it, it
  stays banned and the switch is never asked to dial it again, whatever the manager and its callers do
  afterwards, as long as nobody calls \<open>Pin\<close> with an address of that peer.
\<close>

theorem banned_never_redialed:
  assumes "mgr_run cf parse s ls s'" and "shunned parse pid s" and "\<forall>l \<in> set ls. \<not> pins_peer parse pid l"
  shows "IsBanned pid (ms_mgr s') \<and> dials_of pid s' = dials_of pid s"
proof -
  have "shunned parse pid s' \<and> dials_of pid s' = dials_of pid s"
  proof (rule mgr_run_invariant [OF _ assms(1)])
    show "mgr_step cf parse t l t' \<Longrightarrow> shunned parse pid t \<and> dials_of pid t = dials_of pid s \<Longrightarrow> \<not> pins_peer parse pid l \<Longrightarrow>
        shunned parse pid t' \<and> dials_of pid t' = dials_of pid s" for t l t'
      using shunned_step [of cf parse t l t' pid] by simp
  qed (use assms in auto)
  then show ?thesis by (simp add: shunned_def IsBanned_def)
qed

text \<open>
  C32. The redial budget: a pinned peer that is never found connected, visited by ticks at least
  \<open>MaxBackoff\<close> apart, is dialled at each of the first \<open>MaxRedials\<close> visits; the next visit dials
  nothing, bans it with reason \<open>max-redials\<close> and unpins it.  The base \<open>Backoff\<close> must be positive,
  at most \<open>MaxBackoff\<close> and below \<open>2\<^sup>5\<^sup>3\<close> nanoseconds, so that the shift cannot overflow.
\<close>

theorem pinned_peer_redial_budget:
  assumes "0 < cf_MaxRedials cf" and "0 < sint (cf_Backoff cf)" and "sint (cf_Backoff cf) \<le> sint (cf_MaxBackoff cf)"
    and "sint (cf_Backoff cf) < 2 ^ 53" and "parse addr = Some na" and "mg_backoffs m pid = None"
    and "length ts = cf_MaxRedials cf" and "sorted_wrt (\<lambda>t u. t + sint (cf_MaxBackoff cf) \<le> u) (ts @ [t'])"
  shows "\<exists>m'. visits cf parse pid addr (ts @ [t']) m = (m', replicate (cf_MaxRedials cf) [na] @ [[]]) \<and>
    IsBanned pid m' \<and> BanReason pid m' = go_string ''max-redials'' \<and> map_of (mg_pinned m') pid = None \<and>
    mg_peerBans m' = mg_peerBans m + 1"
proof -
  have b: "sint (computeBackoff cf n) \<le> sint (cf_MaxBackoff cf)" for n using computeBackoff_range assms(2-4) by blast
  have start: "\<forall>t \<in> set ts. due pid m t" "tried pid m = 0" using assms(6) by (simp_all add: due_def tried_def)
  from visits_fire [where parse = parse and addr = addr and cf = cf and b = "sint (cf_MaxBackoff cf)", OF assms(5,1) b, of ts pid m] assms(7,8) start obtain m1 where
    m1: "visits cf parse pid addr ts m = (m1, replicate (length ts) [na])" "tried pid m1 = length ts"
      "mg_peerBans m1 = mg_peerBans m" "\<forall>u. (if ts = [] then due pid m u else last ts + sint (cf_MaxBackoff cf) \<le> u) \<longrightarrow> due pid m1 u"
    by (auto simp: sorted_wrt_append)
  have "ts \<noteq> []" using assms(1,7) by auto
  then have "due pid m1 t'" using m1(4) assms(8) by (auto simp: sorted_wrt_append)
  from redialPeer_gives_up [OF this assms(1)] m1(2) assms(7) obtain m2 where
    "redialPeer cf parse t' False pid addr m1 = (m2, [])" "IsBanned pid m2" "BanReason pid m2 = go_string ''max-redials''"
    "map_of (mg_pinned m2) pid = None" "mg_peerBans m2 = mg_peerBans m1 + 1" by metis
  with m1 assms(7) show ?thesis by (auto simp: visits_append)
qed


subsection \<open>Witnesses\<close>

definition ex_config :: config where
  "ex_config = defaults \<lparr>cf_WarmTarget = 1, cf_DialBatch = 0, cf_RefreshTick = 0, cf_BookBias = 0, cf_Backoff = 0, cf_MaxBackoff = 0,
     cf_MaxRedials = 2, cf_StabilityWindow = 0, cf_MaxDialFailures = 3, cf_BookDisabled = True, cf_BanDuration = 0,
     cf_hasBook = False, cf_hasBanlist = False\<rparr>"

definition ex_parse :: "bytes \<Rightarrow> netAddr option" where
  "ex_parse addr = (if addr = [] then None else Some \<lparr>na_ID = [hd addr], na_String = addr\<rparr>)"

lemma ex_config_simps [simp]:
  "cf_MaxRedials ex_config = 2" "sint (cf_Backoff ex_config) = 5000000000" "sint (cf_MaxBackoff ex_config) = 300000000000"
  "cf_hasBook ex_config = False"
  by (simp_all add: ex_config_def defaults_def second_def)

text \<open>A ban, then a pin, and a tick that dials the banned peer.\<close>

definition ex_banned :: mgrState where
  "ex_banned = (startState [])\<lparr>ms_mgr := Ban [7] [1] (newManager [])\<rparr>"

lemma ex_ban_run: "mgr_run ex_config ex_parse (startState []) [LOther] ex_banned"
proof -
  have "mgr_step ex_config ex_parse (startState []) LOther ((startState [])\<lparr>ms_mgr := Ban [7] [1] (ms_mgr (startState []))\<rparr>)"
    by (rule mgr_step.ban)
  then show ?thesis using mgr_run.snoc [OF mgr_run.none] by (fastforce simp: ex_banned_def startState_def)
qed

theorem manager_wellformed_witness:
  "tables_wf (ms_mgr ex_banned) \<and> backoffs_wf ex_config (ms_mgr ex_banned) \<and> counters_wf ex_banned"
  by (rule manager_wellformed [OF ex_ban_run])

theorem banned_never_redialed_witness:
  "IsBanned [7] (ms_mgr (ex_banned\<lparr>ms_mgr := Pin [8] [8] (ms_mgr ex_banned)\<rparr>)) \<and>
   dials_of [7] (ex_banned\<lparr>ms_mgr := Pin [8] [8] (ms_mgr ex_banned)\<rparr>) = dials_of [7] ex_banned"
proof (rule banned_never_redialed [of ex_config ex_parse ex_banned "[LPin [8] [8]]"])
  show "mgr_run ex_config ex_parse ex_banned [LPin [8] [8]] (ex_banned\<lparr>ms_mgr := Pin [8] [8] (ms_mgr ex_banned)\<rparr>)"
    using mgr_run.snoc [OF mgr_run.none mgr_step.pin] by fastforce
qed (simp_all add: shunned_def ex_banned_def startState_def newManager_def Ban_def names_def ex_parse_def)

theorem pinned_peer_redial_budget_witness:
  "\<exists>m'. visits ex_config ex_parse [7] [7] [0, 300000000000, 600000000000] (newManager []) =
     (m', [[\<lparr>na_ID = [7], na_String = [7]\<rparr>], [\<lparr>na_ID = [7], na_String = [7]\<rparr>], []]) \<and> IsBanned [7] m'"
  using pinned_peer_redial_budget [of ex_config ex_parse "[7]" "\<lparr>na_ID = [7], na_String = [7]\<rparr>" "newManager []" "[7]"
      "[0, 300000000000]" 600000000000]
  by (auto simp: ex_parse_def newManager_def numeral_2_eq_2)

text \<open>
  \<open>Pin\<close> does not look at \<open>banned\<close>, and neither does the redial of pinned peers: after \<open>Ban\<close>, a later
  \<open>Pin\<close> has the next tick dial the peer.
\<close>

lemma pin_lifts_ban:
  assumes "pid \<noteq> []" and "addr \<noteq> []" and "parse addr = Some na" and "mg_backoffs m pid = None"
    and "redialPeer cf parse now False pid addr (Pin pid addr (Ban pid reason m)) = (m', ds)"
  shows "IsBanned pid m' \<and> ds = [na]"
  using assms by (auto simp: redialPeer_def Pin_def Ban_def IsBanned_def Let_def split: if_splits option.splits)

end
