(* ===== verification/ParallelImport.thy ===== *)
theory ParallelImport
  imports ImportDriver IndexProps ChunkRing
begin

text \<open>
  \<open>ImportParallel\<close> of \<open>internal/snapshotimport/parallel.go\<close>: stage 1 indexes the stream into the
  ring, stage 2 runs a worker per store with its own batch, async batch writer and ingester, stage 3
  writes the extension tail, and a last batch holds commit info and latest version.  The stores'
  synchronous path is modelled (\<open>WaveParallel\<close> off; the wave-parallel pool has its own theories).

  Workers share the database only: a worker commits batches and ingests a table, and never reads.
  So a worker is the list of its database operations, and a run is an interleaving of these lists.
\<close>

section \<open>Options\<close>

record parOptions =
  po_SnapshotDir :: bytes
  po_OutDir :: bytes
  po_Height :: i64
  po_ChunkMB :: i64
  po_NoExtensions :: bool
  po_FastIngest :: bool
  po_AllowIncomplete :: bool

definition ringChunkSize :: int where
  "ringChunkSize = 4 * 2 ^ 20"

definition ringMaxBytes :: "i64 \<Rightarrow> i64" where
  "ringMaxBytes chunkMB =
     (let chunkMB = (if sint chunkMB \<le> 0 then 512 else chunkMB); b = push_bit 20 chunkMB in
      if sint b < ringChunkSize then word_of_int ringChunkSize else b)"

text \<open>Whatever \<open>ChunkMB\<close> is, a shift that overflows included, the ring can be built.\<close>

lemma ring_can_be_built: "newChunkRing ringChunkSize (sint (ringMaxBytes chunkMB)) \<noteq> Panic"
  by (auto simp: newChunkRing_def ringMaxBytes_def ringChunkSize_def Let_def)

section \<open>Stage 1\<close>

text \<open>
  The callbacks keep the stores whose \<open>EndCh\<close> is open and the entries sent to \<open>storeCh\<close>; the end of a
  store reaches its entry through \<open>EndCh\<close>.  Pinning a reader for the entry is the ring's \<open>NewReader\<close>,
  whose error (a start the ring has evicted) is left out: the readers of earlier stores keep their
  pins at or before the item at which they stop, and a ring without readers evicts nothing.
\<close>

record stage1State =
  s1_ends :: "bytes list"
  s1_emitted :: "StoreEntry list"

datatype stage1_error = UnknownStore bytes

definition stage1Callbacks :: "(stage1State, stage1_error) indexCallbacks" where
  "stage1Callbacks =
     \<lparr>onOpen = Some (\<lambda>c s. Inr (c\<lparr>s1_ends := List.insert (se_Name s) (s1_ends c), s1_emitted := s1_emitted c @ [s]\<rparr>)),
      onClose = Some (\<lambda>c name end.
        if name \<notin> set (s1_ends c) then Inl (UnknownStore name)
        else Inr (c\<lparr>s1_ends := remove1 name (s1_ends c),
                    s1_emitted := updLast (\<lambda>s. s\<lparr>se_DecompressedEnd := end\<rparr>) (s1_emitted c)\<rparr>))\<rparr>"

definition stage1WriteRingAndIndex :: "'x io_reader \<Rightarrow> ('x, stage1_error) index_error + SnapshotIndex \<times> stage1State" where
  "stage1WriteRingAndIndex r = buildIndexFromReader r stage1Callbacks \<lparr>s1_ends = [], s1_emitted = []\<rparr>"

text \<open>
  What the reader of a store delivers from the ring's bytes: it starts at the store's first byte with
  no limit, and \<open>SetEnd\<close> comes when it has read up to offset \<open>reached\<close>.  A limit behind the
  reader's position ends the stream where the reader stands.
\<close>

definition segmentBytes :: "bytes \<Rightarrow> StoreEntry \<Rightarrow> nat \<Rightarrow> bytes" where
  "segmentBytes bs e reached =
     take (max reached (nat (se_DecompressedEnd e)) - nat (se_DecompressedStart e)) (drop (nat (se_DecompressedStart e)) bs)"

section \<open>Stage 2\<close>

datatype ('b, 'f) dbOp = CommitOp 'b | IngestOp 'f

text \<open>
  The database a worker sees: \<open>submit\<close> hands a batch to the \<open>asyncBatchWriter\<close>, whose goroutine commits
  them in order, and the table is ingested after \<open>drain\<close>.  Batches are made from the open database.
\<close>

definition queued :: "('db, 'b, 'w, 'f, 'e) pebble_ops \<Rightarrow> 'db \<Rightarrow> (('b, 'f) dbOp list, 'b, 'w, 'f, 'e) pebble_ops" where
  "queued P db =
     \<lparr>NewBatch = (\<lambda>q. NewBatch P db), BatchSet = BatchSet P, Commit = (\<lambda>b sync q. Inr (q @ [CommitOp b])),
      CreateWriter = CreateWriter P, WriterSet = WriterSet P, WriterClose = WriterClose P,
      Ingest = (\<lambda>q f. Inr (q @ [IngestOp f]))\<rparr>"

datatype 'e seg_error =
    SegOpenFast "'e ingest_error"
  | SegReadItem snap_error
  | SegWrongName bytes
  | SegFirstNotStore
  | SegAddNode "'e sink_error import_error"
  | SegFinalize "'e sink_error import_error"
  | SegFlush 'e
  | SegDrain 'e
  | SegIngest "'e ingest_error"

definition segSetFast :: "('db, 'b, 'w, 'f, 'e) pebble_ops \<Rightarrow> bool \<Rightarrow> (('db, 'b, 'w) sink, 'e sink_error) setter" where
  "segSetFast P fast = (if fast then runSetFast P else runSet P)"

text \<open>The loop over the items of a segment: it ends at \<open>io.EOF\<close> or at the first item of what follows.\<close>

function segLoop :: "('db, 'b, 'w, 'f, 'e) pebble_ops \<Rightarrow> bool \<Rightarrow> bytes \<Rightarrow> snapReader \<Rightarrow> bool \<Rightarrow> u64 \<Rightarrow> storeImporter \<Rightarrow>
    ('db, 'b, 'w) sink \<Rightarrow> ('e seg_error, storeImporter \<times> ('db, 'b, 'w) sink \<times> u64) outcome option" where
  "segLoop P fast name sr first items si k =
     (case Next sr of
        None \<Rightarrow> None
      | Some (NextEOF, _) \<Rightarrow> Some (Ok (si, k, items))
      | Some (NextErr e, _) \<Rightarrow> Some (Fail (SegReadItem e))
      | Some (NextPanic, _) \<Rightarrow> Some Panic
      | Some (Item (StoreItem n), sr') \<Rightarrow>
          if first
          then if n \<noteq> name then Some (Fail (SegWrongName n)) else segLoop P fast name sr' False (items + 1) si k
          else Some (Ok (si, k, items))
      | Some (Item (IAVLItem key v version h), sr') \<Rightarrow>
          if first then Some (Fail SegFirstNotStore)
          else (case addNode (runSet P) (segSetFast P fast) si k h version (nil_bytes key) (nil_bytes v) of
              Inl e \<Rightarrow> Some (Fail (SegAddNode e))
            | Inr (si, k) \<Rightarrow> segLoop P fast name sr' False (items + 1) si k)
      | Some (Item _, _) \<Rightarrow> Some (Ok (si, k, items)))"
  by pat_completeness auto
termination
  by (relation "measure (\<lambda>(_, _, _, sr, _). length (sr_in sr))") (auto dest: Next_shrinks)

declare segLoop.simps [simp del]

definition segEnd :: "('db, 'b, 'w, 'f, 'e) pebble_ops \<Rightarrow> bool \<Rightarrow> bytes \<Rightarrow> storeImporter \<times> ('db, 'b, 'w) sink \<times> u64 \<Rightarrow>
    ('e seg_error, bytes \<times> u64 \<times> 'db) outcome" where
  "segEnd P fast name r = (case r of (si, k, items) \<Rightarrow>
     (case finalize (runSet P) si k of
        Inl e \<Rightarrow> Fail (SegFinalize e)
      | Inr (hash, k) \<Rightarrow>
          (case flush P k of
             Inl e \<Rightarrow> Fail (SegFlush e)
           | Inr k \<Rightarrow>
               if fast
               then (case ingestStore P (sk_ing k) (sk_db k) name of
                   Inl e \<Rightarrow> Fail (SegIngest e)
                 | Inr (i, db) \<Rightarrow> Ok (hash, items, db))
               else Ok (hash, items, sk_db k))))"

definition segStart :: "('db, 'b, 'w, 'f, 'e) pebble_ops \<Rightarrow> bytes \<Rightarrow> 'db \<Rightarrow> ('db, 'b, 'w) sink" where
  "segStart P tmp db = \<lparr>sk_db = db, sk_batch = NewBatch P db, sk_batchBytes = 0, sk_ing = newFastIngester tmp\<rparr>"

definition processStoreSegment :: "('db, 'b, 'w, 'f, 'e) pebble_ops \<Rightarrow> bool \<Rightarrow> bytes \<Rightarrow> i64 \<Rightarrow> bytes \<Rightarrow> 'db \<Rightarrow> bytes \<Rightarrow>
    ('e seg_error, bytes \<times> u64 \<times> 'db) outcome option" where
  "processStoreSegment P fast tmp height name db input =
     (let k = segStart P tmp db in
      case (if fast then openStore P (sk_ing k) name else Inr (sk_ing k)) of
        Inl e \<Rightarrow> Some (Fail (SegOpenFast e))
      | Inr i \<Rightarrow>
          map_option (\<lambda>res. bind_outcome res (segEnd P fast name))
            (segLoop P fast name (newSnapReader input True) True 0 (newStoreImporter name height) (k\<lparr>sk_ing := i\<rparr>)))"

text \<open>
  The database operations of all workers in the order in which they happen: \<open>sched\<close> names the worker
  that acts next, and what is left when it is used up follows store by store.
\<close>

fun interleave :: "nat list \<Rightarrow> 'a list list \<Rightarrow> (nat \<times> 'a) list" where
  "interleave [] qs = concat (map (\<lambda>(i, q). map (Pair i) q) (enumerate 0 qs))"
| "interleave (i # is) qs =
     (if i < length qs \<and> qs ! i \<noteq> [] then (i, hd (qs ! i)) # interleave is (qs[i := tl (qs ! i)])
      else interleave is qs)"

text \<open>
  Performing them.  The async writer of a store keeps the first error of its commits and goes on with
  the batches behind it; \<open>drain\<close> reports that error before the table is ingested.  A worker that sees
  the error at a \<open>submit\<close> already then stops earlier, with the same result: its store fails.
\<close>

fun execOps :: "('db, 'b, 'w, 'f, 'e) pebble_ops \<Rightarrow> (nat \<times> ('b, 'f) dbOp) list \<Rightarrow> (nat \<Rightarrow> 'e seg_error option) \<Rightarrow> 'db \<Rightarrow>
    (nat \<Rightarrow> 'e seg_error option) \<times> 'db" where
  "execOps P [] errs db = (errs, db)"
| "execOps P ((i, op) # ops) errs db =
     (case op of
        CommitOp b \<Rightarrow>
          (case Commit P b False db of
             Inl e \<Rightarrow> execOps P ops (if errs i = None then errs(i \<mapsto> SegDrain e) else errs) db
           | Inr db \<Rightarrow> execOps P ops errs db)
      | IngestOp f \<Rightarrow>
          if errs i \<noteq> None then execOps P ops errs db
          else (case Ingest P db f of
             Inl e \<Rightarrow> execOps P ops (errs(i \<mapsto> SegIngest (IngestErr e))) db
           | Inr db \<Rightarrow> execOps P ops errs db))"

datatype ('x, 'e) par_error =
    SnapshotDirRequired | OutDirRequired | HeightRequired | NotComplete
  | Stage1 "('x, stage1_error) index_error"
  | Stage2 bytes "'e seg_error"
  | Stage3Reader new_reader_error | Stage3 'e | Stage3Read snap_error | Stage3Item
  | FinalSet 'e | FinalCommit 'e

text \<open>The first error in the order in which the results arrive, or all of them.\<close>

fun collectResults :: "(bytes \<times> 'e seg_error) + StoreInfo list \<Rightarrow> ((bytes \<times> 'e seg_error) + StoreInfo) list \<Rightarrow>
    (bytes \<times> 'e seg_error) + StoreInfo list" where
  "collectResults acc [] = acc"
| "collectResults acc (r # rs) =
     collectResults
       (case acc of
          Inl e \<Rightarrow> Inl e
        | Inr infos \<Rightarrow> (case r of Inl e \<Rightarrow> Inl e | Inr info \<Rightarrow> Inr (infos @ [info]))) rs"

text \<open>
  One worker's result: its segment, and what became of its database operations.  Stage 2 has excluded
  \<open>Panic\<close> before it asks.
\<close>

definition workerResult :: "(nat \<Rightarrow> 'e seg_error option) \<Rightarrow> nat \<times> bytes \<times> ('e seg_error, bytes \<times> u64 \<times> 'q) outcome \<Rightarrow>
    (bytes \<times> 'e seg_error) + StoreInfo" where
  "workerResult errs r = (case r of (i, name, res) \<Rightarrow>
     (case res of
        Ok (hash, items, q) \<Rightarrow>
          (case errs i of Some e \<Rightarrow> Inl (name, e) | None \<Rightarrow> Inr \<lparr>si_Name = name, si_Hash = hash\<rparr>)
      | Fail e \<Rightarrow> Inl (name, e)
      | Panic \<Rightarrow> Inl (name, SegFirstNotStore)))"

definition segmentOps :: "('e seg_error, bytes \<times> u64 \<times> 'op list) outcome \<Rightarrow> 'op list" where
  "segmentOps res = (case res of Ok (hash, items, q) \<Rightarrow> q | _ \<Rightarrow> [])"

text \<open>
  \<open>order\<close> is the order in which the results reach the collecting loop.  A worker that panics takes
  the process down; one that does not return keeps stage 2 waiting.
\<close>

definition stage2RunWorkersFromChan :: "('db, 'b, 'w, 'f, 'e) pebble_ops \<Rightarrow> bool \<Rightarrow> bytes \<Rightarrow> i64 \<Rightarrow> nat list \<Rightarrow>
    (((bytes \<times> 'e seg_error) + StoreInfo) list \<Rightarrow> ((bytes \<times> 'e seg_error) + StoreInfo) list) \<Rightarrow>
    (bytes \<times> bytes) list \<Rightarrow> 'db \<Rightarrow> (bytes \<times> 'e seg_error, StoreInfo list \<times> 'db) outcome option" where
  "stage2RunWorkersFromChan P fast tmp height sched order segs db =
     (let results = map (\<lambda>(name, input). processStoreSegment (queued P db) fast tmp height name [] input) segs in
      if None \<in> set results then None
      else if Some Panic \<in> set results then Some Panic
      else
        let results = map the results;
            (errs, db) = execOps P (interleave sched (map segmentOps results)) Map.empty db
        in Some (case collectResults (Inr []) (order (map (workerResult errs) (enumerate 0 (zip (map fst segs) results)))) of
            Inl e \<Rightarrow> Fail e
          | Inr infos \<Rightarrow> Ok (infos, db)))"

section \<open>Stage 3 and the whole import\<close>

function stage3Loop :: "('fs, 'e) file_ops \<Rightarrow> snapReader \<Rightarrow> extensionWriter \<Rightarrow> 'fs \<Rightarrow> (('x, 'e) par_error, 'fs) outcome option" where
  "stage3Loop X sr e fs =
     (case Next sr of
        None \<Rightarrow> None
      | Some (NextEOF, _) \<Rightarrow> Some (Ok fs)
      | Some (NextErr err, _) \<Rightarrow> Some (Fail (Stage3Read err))
      | Some (NextPanic, _) \<Rightarrow> Some Panic
      | Some (Item (ExtMeta name format), sr') \<Rightarrow>
          (case openMeta X e fs name format of Inl err \<Rightarrow> Some (Fail (Stage3 err)) | Inr (e, fs) \<Rightarrow> stage3Loop X sr' e fs)
      | Some (Item (ExtPayload p), sr') \<Rightarrow>
          (case writePayload X e fs (nil_bytes p) of Inl err \<Rightarrow> Some (Fail (Stage3 err)) | Inr (e, fs) \<Rightarrow> stage3Loop X sr' e fs)
      | Some (Item _, _) \<Rightarrow> Some (Fail Stage3Item))"
  by pat_completeness auto
termination
  by (relation "measure (\<lambda>(_, sr, _). length (sr_in sr))") (auto dest: Next_shrinks)

declare stage3Loop.simps [simp del]

text \<open>
  Stage 3 opens a reader on the ring as stage 1 and the workers left it: the ring and the bytes
  written to it.  Its number is free, since every worker has closed its reader.
\<close>

definition stage3ExtensionsFromRing :: "('fs, 'e) file_ops \<Rightarrow> bytes \<Rightarrow> 'z chunkRing \<times> bytes \<Rightarrow> int \<Rightarrow> int \<Rightarrow> 'fs \<Rightarrow>
    (('x, 'e) par_error, 'fs) outcome option" where
  "stage3ExtensionsFromRing X extDir ring extStart extEnd fs =
     (case NewReader (fst ring) 0 extStart extEnd of
        Inl e \<Rightarrow> Some (Fail (Stage3Reader e))
      | Inr _ \<Rightarrow>
          stage3Loop X (newSnapReader (take (nat extEnd - nat extStart) (drop (nat extStart) (snd ring))) True)
            (newExtensionWriter extDir) fs)"

definition writeFinal :: "('db, 'b, 'w, 'f, 'e) pebble_ops \<Rightarrow> i64 \<Rightarrow> StoreInfo list \<Rightarrow> 'db \<Rightarrow> (('x, 'e) par_error, 'db) outcome" where
  "writeFinal P height infos db =
     (case BatchSet P (NewBatch P db) (commitInfoKey height) (commitInfoBytes height infos) of
        Inl e \<Rightarrow> Fail (FinalSet e)
      | Inr b \<Rightarrow>
          (case BatchSet P b latestVersionKey (latestVersionBytes height) of
             Inl e \<Rightarrow> Fail (FinalSet e)
           | Inr b \<Rightarrow> (case Commit P b True db of Inl e \<Rightarrow> Fail (FinalCommit e) | Inr db \<Rightarrow> Ok db)))"

definition validateParallel :: "parOptions \<Rightarrow> bool \<Rightarrow> ('x, 'e) par_error option" where
  "validateParallel opts complete =
     (if po_SnapshotDir opts = [] then Some SnapshotDirRequired
      else if po_OutDir opts = [] then Some OutDirRequired
      else if po_Height opts = 0 then Some HeightRequired
      else if \<not> po_AllowIncomplete opts \<and> \<not> complete then Some NotComplete
      else None)"

text \<open>
  The arguments beside the options: whether the directory has its \<open>.complete\<close> marker, the results of
  the decompressed source's reads, the ring when stage 1 has returned and the workers are done, with
  all bytes the tee has put into it, how far each store's reader was when its end became known, the
  schedule and the order of results.  A ring that never takes all bytes keeps stage 1, and so the
  import, from returning: there is no such state of the ring then.  When stage 1 fails the import
  fails with its error, whatever stage 2 reports beside it.
\<close>

definition ImportParallel :: "('db, 'b, 'w, 'f, 'e) pebble_ops \<Rightarrow> ('fs, 'e) file_ops \<Rightarrow> parOptions \<Rightarrow> bool \<Rightarrow> 'x io_reader \<Rightarrow> 'z chunkRing \<times> bytes \<Rightarrow>
    (nat \<Rightarrow> nat) \<Rightarrow> nat list \<Rightarrow> (((bytes \<times> 'e seg_error) + StoreInfo) list \<Rightarrow> ((bytes \<times> 'e seg_error) + StoreInfo) list) \<Rightarrow>
    'db \<Rightarrow> 'fs \<Rightarrow> (('x, 'e) par_error, StoreInfo list \<times> 'db \<times> 'fs) outcome option" where
  "ImportParallel P X opts complete r ring reached sched order db fs =
     (case validateParallel opts complete of
        Some e \<Rightarrow> Some (Fail e)
      | None \<Rightarrow>
        let extDir = (if po_NoExtensions opts then [] else Join [po_OutDir opts, go_string ''extensions'']);
            tmp = Join [po_OutDir opts, go_string ''ingest-tmp'']
        in case stage1WriteRingAndIndex r of
            Inl e \<Rightarrow> Some (Fail (Stage1 e))
          | Inr (idx, c) \<Rightarrow>
              (case stage2RunWorkersFromChan P (po_FastIngest opts) tmp (po_Height opts) sched order
                  (map (\<lambda>(i, e). (se_Name e, segmentBytes (snd ring) e (reached i))) (enumerate 0 (s1_emitted c))) db of
                 None \<Rightarrow> None
               | Some Panic \<Rightarrow> Some Panic
               | Some (Fail (name, e)) \<Rightarrow> Some (Fail (Stage2 name e))
               | Some (Ok (stores, db)) \<Rightarrow>
                   let stores = sort_key si_Name stores in
                   map_option (\<lambda>res. bind_outcome res (\<lambda>fs.
                       bind_outcome (writeFinal P (po_Height opts) stores db) (\<lambda>db. Ok (stores, db, fs))))
                     (if \<not> po_NoExtensions opts \<and> 0 < sx_ExtStart idx
                      then stage3ExtensionsFromRing X extDir ring (sx_ExtStart idx) (sx_TotalBytes idx) fs
                      else Some (Ok fs))))"

end
