(* ===== verification/ParallelProps.thy ===== *)
theory ParallelProps
  imports ParallelImport "HOL-Library.Multiset"
begin

text \<open>
  The parallel import gives the output of the sequential one, under every schedule of the workers and
  every order of their results, as long as no store's reader is caught inside the first item of what
  follows the store; a reader caught there fails the import.
\<close>

section \<open>A worker's database\<close>

fun op_entries :: "('b \<Rightarrow> (bytes \<times> bytes) list) \<Rightarrow> ('f \<Rightarrow> (bytes \<times> bytes) list) \<Rightarrow> ('b, 'f) dbOp \<Rightarrow> (bytes \<times> bytes) list" where
  "op_entries batch_of file_of (CommitOp b) = batch_of b"
| "op_entries batch_of file_of (IngestOp f) = file_of f"

definition opsMap :: "('b \<Rightarrow> (bytes \<times> bytes) list) \<Rightarrow> ('f \<Rightarrow> (bytes \<times> bytes) list) \<Rightarrow> ('b, 'f) dbOp list \<Rightarrow> bytes \<Rightarrow> bytes option" where
  "opsMap batch_of file_of ops = foldl (\<lambda>m op. m ++ map_of (op_entries batch_of file_of op)) Map.empty ops"

lemma opsMap_simps [simp]:
  "opsMap bo fo [] = Map.empty"
  "opsMap bo fo (ops @ [op]) = opsMap bo fo ops ++ map_of (op_entries bo fo op)"
  by (simp_all add: opsMap_def)

lemma pebble_live_queued:
  assumes "pebble_live P db_content batch_of writer_of file_of X"
  shows "pebble_live (queued P db) (opsMap batch_of file_of) batch_of writer_of file_of X"
proof -
  from assms have "pebble P db_content batch_of writer_of file_of" by (simp add: pebble_live_def)
  then have "pebble (queued P db) (opsMap batch_of file_of) batch_of writer_of file_of"
    by (auto simp: pebble_def queued_def)
  with assms show ?thesis by (simp add: pebble_live_def pebble_live_axioms_def queued_def)
qed

section \<open>Fast storage through the batch\<close>

text \<open>With \<open>FastIngest\<close> off every entry goes to the batch, and the ingester stays closed.\<close>

definition plain_sound :: "('b \<Rightarrow> (bytes \<times> bytes) list) \<Rightarrow> ('db, 'b, 'w) sink \<Rightarrow> bool" where
  "plain_sound batch_of k \<longleftrightarrow> sk_batchBytes k = batch_size (batch_of (sk_batch k)) \<and> ig_curWriter (sk_ing k) = None"

lemma batch_size_zero:
  assumes "batch_size es = 0" and "[] \<notin> fst ` set es"
  shows "es = []"
proof (cases es)
  case (Cons a es')
  obtain k v where a: "a = (k, v)" by (cases a)
  with assms(2) Cons have "0 < length k" by auto
  with assms(1) Cons a show ?thesis by (simp add: batch_size_def)
qed simp

context pebble
begin

lemma plain_flush:
  assumes "plain_sound batch_of k" and "flush P k = Inr k'"
  shows "plain_sound batch_of k' \<and> content k' = content k \<and> sk_ing k' = sk_ing k"
  using assms Commit_law [of "sk_batch k" False "sk_db k"]
  by (auto simp: flush_def case_sum_Inr_iff plain_sound_def sink_content_def NewBatch_law batch_size_def split: if_splits)

lemma plain_runSet:
  assumes "plain_sound batch_of k" and "runSet P k key v = Inr k'"
  shows "plain_sound batch_of k' \<and> content k' = (content k)(key \<mapsto> v)"
proof -
  from assms(2) obtain b where b: "BatchSet P (sk_batch k) key v = Inr b" by (auto simp: runSet_def case_sum_Inr_iff)
  let ?k = "k\<lparr>sk_batch := b, sk_batchBytes := sk_batchBytes k + int (length key) + int (length v)\<rparr>"
  have ps: "plain_sound batch_of ?k" using assms(1) BatchSet_law [OF b] by (auto simp: plain_sound_def batch_size_def)
  have "content ?k = (content k)(key \<mapsto> v)"
    using BatchSet_law [OF b] assms(1) by (simp add: sink_content_def writer_entries_def plain_sound_def)
  moreover from assms(2) b have "k' = ?k \<or> flush P ?k = Inr k'"
    by (auto simp: runSet_def Let_def case_sum_Inr_iff split: if_splits)
  ultimately show ?thesis using ps plain_flush [OF ps, of k'] by auto
qed

end

sublocale pebble_live \<subseteq> plain: kv_sink_live "runSet P" "runSet P" "sink_content db_content batch_of writer_of"
    "plain_sound batch_of" fastKeys "\<lambda>_ _. True"
  by unfold_locales (use plain_runSet runSet_live in blast)+

section \<open>One segment\<close>

context pebble_live
begin

lemma flush_live: "\<exists>k'. flush P k = Inr k'"
  using Commit_live [of "sk_batch k" False "sk_db k"] by (auto simp: flush_def)

text \<open>What a segment's loop and its end do, once the loop is known to feed the store's nodes.\<close>

lemma plain_segment:
  assumes "slash \<notin> set name" and "wf_store t" and "sorted_wrt (<) (store_keys t)" and "db_content db = Map.empty"
  shows "\<exists>si k. addNodes (runSet P) (runSet P) (newStoreImporter name height) (segStart P tmp db) (store_stream t) = Inr (si, k) \<and>
    (\<forall>items. \<exists>db'. segEnd P False name (si, k, items) = Ok (store_hash t, items, db') \<and>
      db_content db' = map_of (storeLog name height (store_stream t)))"
proof -
  note routes = routes_fastKeys [OF assms(1)]
  let ?k = "segStart P tmp db"
  have k0: "plain_sound batch_of ?k" "content ?k = Map.empty"
    using assms(4)
    by (simp_all add: segStart_def plain_sound_def NewBatch_law batch_size_def newFastIngester_def sink_content_def writer_entries_def)
  from plain.importStore_ok [OF assms(2,3) k0(1) routes] obtain h k2 where
    run: "importStore (runSet P) (runSet P) name height ?k (store_stream t) = Inr (h, k2)" by blast
  note imp = plain.importStore_store [OF run assms(2) k0(1) routes]
  note log = plain.importStore_log [OF run k0(1) routes]
  from run obtain si k1 where
    a: "addNodes (runSet P) (runSet P) (newStoreImporter name height) ?k (store_stream t) = Inr (si, k1)" and
    f: "finalize (runSet P) si k1 = Inr (h, k2)" by (auto simp: importStore_def case_sum_Inr_iff)
  obtain k3 where k3: "flush P k2 = Inr k3" using flush_live by blast
  note c3 = plain_flush [OF log(1) k3]
  have "content k2 [] = None" using imp k0(2) by (simp add: storePrefix_def go_string_def)
  then have key: "[] \<notin> fst ` set (batch_of (sk_batch k2))"
    using log(1) by (simp add: sink_content_def plain_sound_def writer_entries_def map_of_eq_None_iff)
  have "batch_of (sk_batch k3) = []"
  proof (cases "sk_batchBytes k2 = 0")
    case True
    with log(1) key have "batch_of (sk_batch k2) = []"
      by (intro batch_size_zero) (simp_all add: plain_sound_def)
    with True k3 show ?thesis by (simp add: flush_def)
  qed (use k3 in \<open>auto simp: flush_def case_sum_Inr_iff NewBatch_law\<close>)
  then have "db_content (sk_db k3) = map_of (storeLog name height (store_stream t))"
    using c3 log(2) k0(2) by (elim conjE) (simp add: sink_content_def plain_sound_def writer_entries_def)
  with a f k3 imp show ?thesis by (auto simp: segEnd_def)
qed

text \<open>The same with the fast-storage ingester, from the opened table to its ingestion.\<close>

lemma fast_segment:
  assumes "slash \<notin> set name" and "wf_store t" and "sorted_wrt (<) (store_keys t)" and "db_content db = Map.empty"
  shows "\<exists>i si k. openStore P (sk_ing (segStart P tmp db)) name = Inr i \<and>
    addNodes (runSet P) (runSetFast P) (newStoreImporter name height) ((segStart P tmp db)\<lparr>sk_ing := i\<rparr>) (store_stream t) = Inr (si, k) \<and>
    (\<forall>items. \<exists>db'. segEnd P True name (si, k, items) = Ok (store_hash t, items, db') \<and>
      db_content db' = map_of (storeLog name height (store_stream t)))"
proof -
  note routes = routes_fastKeys [OF assms(1)]
  let ?k = "segStart P tmp db"
  have k0: "sound ?k" "content ?k = Map.empty" "ig_curWriter (sk_ing ?k) = None"
    using assms(4)
    by (simp_all add: segStart_def sink_sound_def NewBatch_law batch_size_def newFastIngester_def sink_content_def writer_entries_def)
  from openStore_live [OF k0(3,1)] obtain i where
    i: "openStore P (sk_ing ?k) name = Inr i" "sound (?k\<lparr>sk_ing := i\<rparr>)" "content (?k\<lparr>sk_ing := i\<rparr>) = content ?k"
      "\<forall>key. writer_admits writer_of (?k\<lparr>sk_ing := i\<rparr>) key" "ig_curName i = name" by blast
  from kvl.importStore_ok [OF assms(2,3) i(2) routes] i(4) obtain h k2 where
    run: "importStore (runSet P) (runSetFast P) name height (?k\<lparr>sk_ing := i\<rparr>) (store_stream t) = Inr (h, k2)" by blast
  note imp = kv.importStore_store [OF run assms(2) i(2) routes]
  note log = kv.importStore_log [OF run i(2) routes]
  from run obtain si k1 where
    a: "addNodes (runSet P) (runSetFast P) (newStoreImporter name height) (?k\<lparr>sk_ing := i\<rparr>) (store_stream t) = Inr (si, k1)" and
    f: "finalize (runSet P) si k1 = Inr (h, k2)" by (auto simp: importStore_def case_sum_Inr_iff)
  have "ig_curName (sk_ing k1) = name"
    using addNodes_keeps [where Q = "\<lambda>k. ig_curName (sk_ing k) = name", OF run_keeps_name a] i(5) by simp
  then have name: "ig_curName (sk_ing k2) = name"
    using finalize_keeps [where Q = "\<lambda>k. ig_curName (sk_ing k) = name", OF run_keeps_name(1) f] by simp
  obtain k3 where k3: "flush P k2 = Inr k3" using flush_live by blast
  note c3 = flush_content [OF log(1) k3]
  from ingestStore_live [of k3 name] c3 name obtain i4 db4 where
    g: "ingestStore P (sk_ing k3) (sk_db k3) name = Inr (i4, db4)" "ig_curWriter i4 = None"
      "content (k3\<lparr>sk_ing := i4, sk_db := db4\<rparr>) = content k3" by auto
  have "batch_of (sk_batch k3) = []"
  proof (cases "sk_batchBytes k2 = 0")
    case True
    then show ?thesis using sound_batch_empty [OF log(1)] k3 by (simp add: flush_def)
  qed (use k3 in \<open>auto simp: flush_def case_sum_Inr_iff NewBatch_law\<close>)
  then have "db_content db4 = content k3" using g by (simp add: sink_content_def writer_entries_def)
  then have "db_content db4 = map_of (storeLog name height (store_stream t))" using c3 log(2) i(3) k0(2) by simp
  with a f k3 g i(1) imp show ?thesis by (auto simp: segEnd_def)
qed

end

section \<open>The reader of a segment\<close>

lemma Next_item:
  assumes "item_ok it" and "item_small it" and "sr_in s = item_wire it @ rest"
  shows "\<exists>s'. Next s = Some (Item it, s') \<and> sr_in s' = rest"
proof -
  let ?s = "if sr_pinner s \<and> 0 < sr_lastItemBytes s then (advancePin (sr_lastItemBytes s) s)\<lparr>sr_lastItemBytes := 0\<rparr> else s"
  have "sr_in ?s = item_wire it @ rest" using assms(3) by (simp add: advancePin_def)
  from Next_loop_item [OF assms(1,2) this] show ?thesis by (simp add: Next_def)
qed

lemma Next_end:
  assumes "sr_in s = []"
  shows "\<exists>s'. Next s = Some (NextEOF, s')"
  using assms by (auto simp: Next_def Next_loop.simps advancePin_def ReadUvarint_def ReadUvarint_loop.simps)

lemma ReadUvarint_loop_short:
  "ReadUvarint_loop i x s (pre @ rest) = Inr (v, rest) \<Longrightarrow> j < length pre \<Longrightarrow>
   ReadUvarint_loop i x s (take j pre) = Inl (if 0 < i \<or> 0 < j then UnexpectedEOF else EOF)"
proof (induction pre arbitrary: i x s j)
  case (Cons b pre)
  from Cons.prems have i: "i < 10" by (auto simp: ReadUvarint_loop.simps [of i] split: if_splits)
  show ?case
  proof (cases j)
    case (Suc j')
    have "\<not> b < 128"
    proof
      assume "b < 128"
      with Cons.prems i have "pre @ rest = rest" by (auto simp: ReadUvarint_loop.simps [of i] split: if_splits)
      with Cons.prems Suc show False by simp
    qed
    with Cons.prems Suc i Cons.IH [of "Suc i" _ _ j'] show ?thesis
      by (simp add: ReadUvarint_loop.simps [of i] split: if_splits)
  qed (use i in \<open>simp add: ReadUvarint_loop.simps [of i]\<close>)
qed simp

lemma ReadUvarint_short:
  assumes "0 < j" and "j < length (PutUvarint x)"
  shows "ReadUvarint (take j (PutUvarint x)) = Inl UnexpectedEOF"
proof -
  have "ReadUvarint_loop 0 0 0 (PutUvarint x @ []) = Inr (x, [])"
    using ReadUvarint_PutUvarint [of x "[]"] unfolding ReadUvarint_def .
  from ReadUvarint_loop_short [OF this assms(2)] assms(1) show ?thesis by (simp add: ReadUvarint_def)
qed

lemma Next_short:
  assumes "item_small it" and "sr_in s = take j (item_wire it)" and "0 < j" and "j < length (item_wire it)"
  shows "\<exists>e s'. Next s = Some (NextErr e, s')"
proof -
  let ?s = "if sr_pinner s \<and> 0 < sr_lastItemBytes s then (advancePin (sr_lastItemBytes s) s)\<lparr>sr_lastItemBytes := 0\<rparr> else s"
  let ?n = "of_nat (length (item_body it)) :: u64"
  have s: "sr_in ?s = take j (item_wire it)" using assms(2) by (simp add: advancePin_def)
  have un: "unat ?n = length (item_body it)" using assms(1) by (intro unat_u64_of_nat) (simp add: item_small_def)
  have n: "?n \<noteq> 0" "\<not> maxEnvelopeBytes < ?n"
    using un length_item_body assms(1) by (auto simp: item_small_def maxEnvelopeBytes_def word_less_nat_alt simp flip: unat_eq_0)
  have "\<exists>e s'. Next_loop ?s = Some (NextErr e, s')"
  proof (cases "j < length (PutUvarint ?n)")
    case True
    then have "ReadUvarint (sr_in ?s) = Inl UnexpectedEOF" using ReadUvarint_short [OF assms(3) True] s by (simp add: item_wire_def)
    then show ?thesis by (simp add: Next_loop.simps [of ?s])
  next
    case False
    then have "sr_in ?s = PutUvarint ?n @ take (j - length (PutUvarint ?n)) (item_body it)" using s by (simp add: item_wire_def)
    moreover have "j - length (PutUvarint ?n) < length (item_body it)" using False assms(4) by (simp add: item_wire_def)
    ultimately show ?thesis using n un by (simp add: Next_loop.simps [of ?s] ReadFull_def)
  qed
  then show ?thesis by (simp add: Next_def)
qed

text \<open>Where a segment may stop: at its end, or with the whole first item of what follows.\<close>

definition boundary :: "bytes \<Rightarrow> bool" where
  "boundary rest \<longleftrightarrow> rest = [] \<or> (\<exists>it more. rest = item_wire it @ more \<and> item_ok it \<and> item_small it \<and> \<not> is_iavl it)"

lemma segLoop_boundary:
  assumes "boundary (sr_in sr)"
  shows "segLoop P fast name sr False items si k = Some (Ok (si, k, items))"
proof -
  from assms consider "sr_in sr = []" | it more where "sr_in sr = item_wire it @ more" "item_ok it" "item_small it" "\<not> is_iavl it"
    by (auto simp: boundary_def)
  then show ?thesis
  proof cases
    case 1
    with Next_end [of sr] show ?thesis by (auto simp: segLoop.simps [of P fast name sr])
  next
    case (2 it more)
    with Next_item [OF 2(2,3,1)] show ?thesis by (cases it) (auto simp: segLoop.simps [of P fast name sr])
  qed
qed

lemma segLoop_short:
  assumes "sr_in sr = take j (item_wire it)" and "0 < j" and "j < length (item_wire it)" and "item_small it"
  shows "\<exists>e. segLoop P fast name sr False items si k = Some (Fail (SegReadItem e))"
  using Next_short [OF assms(4,1-3)] by (auto simp: segLoop.simps [of P fast name sr])

lemma item_ok_iavl [simp]: "item_ok (iavl_item n)"
  by (cases n) auto

lemma segLoop_nodes:
  assumes "sr_in sr = items_wire (map iavl_item ns) @ rest" and "list_all item_small (map iavl_item ns)"
  shows "\<exists>sr'. sr_in sr' = rest \<and> segLoop P fast name sr False items si k =
    (case addNodes (runSet P) (segSetFast P fast) si k ns of
       Inl e \<Rightarrow> Some (Fail (SegAddNode e))
     | Inr (si, k) \<Rightarrow> segLoop P fast name sr' False (items + of_nat (length ns)) si k)"
  using assms
proof (induction ns arbitrary: sr si k items)
  case Nil
  then show ?case by auto
next
  case (Cons a ns)
  obtain h v key x where a: "a = (h, v, key, x)" by (cases a)
  from Cons.prems have small: "item_small (iavl_item a)" and wire: "sr_in sr = item_wire (iavl_item a) @ items_wire (map iavl_item ns) @ rest"
    by simp_all
  from Next_item [OF item_ok_iavl small wire] obtain sr1 where
    sr1: "Next sr = Some (Item (iavl_item a), sr1)" "sr_in sr1 = items_wire (map iavl_item ns) @ rest" by blast
  show ?case
  proof (cases "addNode (runSet P) (segSetFast P fast) si k h v key x")
    case (Inl e)
    then show ?thesis using sr1 a
      by (intro exI [of _ "sr\<lparr>sr_in := rest\<rparr>"]) (simp add: segLoop.simps [of P fast name sr])
  next
    case (Inr sk)
    obtain si1 k1 where sk: "sk = (si1, k1)" by (cases sk)
    from Cons.IH [OF sr1(2), of "items + 1" si1 k1] Cons.prems(2) obtain sr2 where
      sr2: "sr_in sr2 = rest" "segLoop P fast name sr1 False (items + 1) si1 k1 =
        (case addNodes (runSet P) (segSetFast P fast) si1 k1 ns of
           Inl e \<Rightarrow> Some (Fail (SegAddNode e))
         | Inr (si, k) \<Rightarrow> segLoop P fast name sr2 False (items + 1 + of_nat (length ns)) si k)" by auto
    moreover have len: "items + of_nat (length (a # ns)) = items + 1 + of_nat (length ns)" by simp
    ultimately show ?thesis using sr1 a Inr sk unfolding len
      by (intro exI [of _ sr2]) (simp add: segLoop.simps [of P fast name sr])
  qed
qed

lemma segLoop_store:
  assumes "input = items_wire (store_items (name, t)) @ rest" and "list_all item_small (store_items (name, t))"
  shows "\<exists>sr n. sr_in sr = rest \<and> segLoop P fast name (newSnapReader input True) True 0 si k =
    (case addNodes (runSet P) (segSetFast P fast) si k (store_stream t) of
       Inl e \<Rightarrow> Some (Fail (SegAddNode e))
     | Inr (si, k) \<Rightarrow> segLoop P fast name sr False n si k)"
proof -
  let ?sr = "newSnapReader input True"
  have wire: "sr_in ?sr = item_wire (StoreItem name) @ items_wire (map iavl_item (store_stream t)) @ rest"
    using assms(1) by (simp add: newSnapReader_def)
  have small: "item_small (StoreItem name)" using assms(2) by simp
  from Next_item [OF _ small wire] obtain sr1 where
    sr1: "Next ?sr = Some (Item (StoreItem name), sr1)" "sr_in sr1 = items_wire (map iavl_item (store_stream t)) @ rest" by auto
  from segLoop_nodes [OF sr1(2), of P fast name 1 si k] assms(2) obtain sr2 where
    "sr_in sr2 = rest" "segLoop P fast name sr1 False 1 si k =
    (case addNodes (runSet P) (segSetFast P fast) si k (store_stream t) of
       Inl e \<Rightarrow> Some (Fail (SegAddNode e))
     | Inr (si, k) \<Rightarrow> segLoop P fast name sr2 False (1 + of_nat (length (store_stream t))) si k)" by auto
  with sr1 show ?thesis by (intro exI [of _ sr2] exI) (auto simp: segLoop.simps [of P fast name ?sr])
qed

context pebble_live
begin

lemma segment_run:
  assumes "slash \<notin> set name" and "wf_store t" and "sorted_wrt (<) (store_keys t)" and "db_content db = Map.empty"
    and "input = items_wire (store_items (name, t)) @ rest" and "list_all item_small (store_items (name, t))"
  shows "\<exists>i si k sr n. (if fast then openStore P (sk_ing (segStart P tmp db)) name else Inr (sk_ing (segStart P tmp db))) = Inr i \<and>
    segLoop P fast name (newSnapReader input True) True 0 (newStoreImporter name height) ((segStart P tmp db)\<lparr>sk_ing := i\<rparr>) =
      segLoop P fast name sr False n si k \<and> sr_in sr = rest \<and>
    (\<exists>db'. segEnd P fast name (si, k, n) = Ok (store_hash t, n, db') \<and> db_content db' = map_of (storeLog name height (store_stream t)))"
proof (cases fast)
  case True
  from fast_segment [OF assms(1-4), of tmp height] obtain i si k where
    i: "openStore P (sk_ing (segStart P tmp db)) name = Inr i"
      "addNodes (runSet P) (runSetFast P) (newStoreImporter name height) ((segStart P tmp db)\<lparr>sk_ing := i\<rparr>) (store_stream t) = Inr (si, k)"
      "\<forall>items. \<exists>db'. segEnd P True name (si, k, items) = Ok (store_hash t, items, db') \<and>
        db_content db' = map_of (storeLog name height (store_stream t))" by blast
  from segLoop_store [OF assms(5,6), of P True "newStoreImporter name height" "(segStart P tmp db)\<lparr>sk_ing := i\<rparr>"] i(2) obtain sr n where
    "sr_in sr = rest" "segLoop P True name (newSnapReader input True) True 0 (newStoreImporter name height)
      ((segStart P tmp db)\<lparr>sk_ing := i\<rparr>) = segLoop P True name sr False n si k" by (auto simp: segSetFast_def)
  with True i(1) i(3) [rule_format, of n] show ?thesis
    by (intro exI [of _ i] exI [of _ si] exI [of _ k] exI [of _ sr] exI [of _ n]) simp
next
  case False
  from plain_segment [OF assms(1-4), of height tmp] obtain si k where
    i: "addNodes (runSet P) (runSet P) (newStoreImporter name height) (segStart P tmp db) (store_stream t) = Inr (si, k)"
      "\<forall>items. \<exists>db'. segEnd P False name (si, k, items) = Ok (store_hash t, items, db') \<and>
        db_content db' = map_of (storeLog name height (store_stream t))" by blast
  from segLoop_store [OF assms(5,6), of P False "newStoreImporter name height" "segStart P tmp db"] i(1) obtain sr n where
    "sr_in sr = rest" "segLoop P False name (newSnapReader input True) True 0 (newStoreImporter name height)
      (segStart P tmp db) = segLoop P False name sr False n si k" by (auto simp: segSetFast_def)
  with False i(2) [rule_format, of n] show ?thesis
    by (intro exI [of _ "sk_ing (segStart P tmp db)"] exI [of _ si] exI [of _ k] exI [of _ sr] exI [of _ n]) simp
qed

lemma segment_ok:
  assumes "slash \<notin> set name" and "wf_store t" and "sorted_wrt (<) (store_keys t)" and "db_content db = Map.empty"
    and "input = items_wire (store_items (name, t)) @ rest" and "list_all item_small (store_items (name, t))" and "boundary rest"
  shows "\<exists>n db'. processStoreSegment P fast tmp height name db input = Some (Ok (store_hash t, n, db')) \<and>
    db_content db' = map_of (storeLog name height (store_stream t))"
  using segment_run [OF assms(1-6), of fast tmp height] assms(7)
  by (elim exE conjE) (simp add: processStoreSegment_def Let_def segLoop_boundary)

lemma segment_short:
  assumes "slash \<notin> set name" and "wf_store t" and "sorted_wrt (<) (store_keys t)" and "db_content db = Map.empty"
    and "input = items_wire (store_items (name, t)) @ take j (item_wire it)" and "list_all item_small (store_items (name, t))"
    and "0 < j" and "j < length (item_wire it)" and "item_small it"
  shows "\<exists>e. processStoreSegment P fast tmp height name db input = Some (Fail (SegReadItem e))"
proof -
  from segment_run [OF assms(1-6), of fast tmp height] obtain i si k sr n where
    "(if fast then openStore P (sk_ing (segStart P tmp db)) name else Inr (sk_ing (segStart P tmp db))) = Inr i"
    "segLoop P fast name (newSnapReader input True) True 0 (newStoreImporter name height) ((segStart P tmp db)\<lparr>sk_ing := i\<rparr>) =
      segLoop P fast name sr False n si k" "sr_in sr = take j (item_wire it)" by blast
  with segLoop_short [OF this(3) assms(7-9), of P fast name n si k] show ?thesis
    by (auto simp: processStoreSegment_def Let_def)
qed

end

section \<open>Interleavings\<close>

lemma filter_enumerate:
  "filter (\<lambda>p. fst p = i) (concat (map (\<lambda>(j, q). map (Pair j) q) (enumerate n qs))) =
   (if n \<le> i \<and> i < n + length qs then map (Pair i) (qs ! (i - n)) else [])"
proof (induction qs arbitrary: n)
  case (Cons q qs)
  have "filter (\<lambda>p. fst p = i) (map (Pair n) q) = (if n = i then map (Pair i) q else [])" by (induction q) auto
  moreover have "n < i \<Longrightarrow> (q # qs) ! (i - n) = qs ! (i - Suc n)" using Suc_diff_Suc [of n i] nth_Cons_Suc [of q qs "i - Suc n"] by simp
  ultimately show ?case using Cons.IH [of "Suc n"] by (cases "n < i") auto
qed auto

lemma filter_interleave:
  "filter (\<lambda>p. fst p = i) (interleave sched qs) = (if i < length qs then map (Pair i) (qs ! i) else [])"
proof (induction sched qs rule: interleave.induct)
  case (1 qs)
  then show ?case using filter_enumerate [of i 0 qs] by simp
next
  case (2 j sched qs)
  then show ?case by (cases "qs ! j") (auto simp: nth_list_update)
qed

text \<open>Operations on a database seen as a map; only those that touch \<open>k\<close> matter at \<open>k\<close>.\<close>

definition runMap :: "('a \<Rightarrow> (bytes \<times> bytes) list) \<Rightarrow> (bytes \<Rightarrow> bytes option) \<Rightarrow> (nat \<times> 'a) list \<Rightarrow> bytes \<Rightarrow> bytes option" where
  "runMap ent m ops = foldl (\<lambda>m p. m ++ map_of (ent (snd p))) m ops"

lemma runMap_simps [simp]:
  "runMap ent m [] = m" "runMap ent m (p # ops) = runMap ent (m ++ map_of (ent (snd p))) ops"
  "runMap ent m (xs @ ys) = runMap ent (runMap ent m xs) ys"
  by (simp_all add: runMap_def)

lemma runMap_cong: "m k = m' k \<Longrightarrow> runMap ent m ops k = runMap ent m' ops k"
proof (induction ops arbitrary: m m')
  case (Cons p ops)
  from Cons.prems have "(m ++ map_of (ent (snd p))) k = (m' ++ map_of (ent (snd p))) k" by (simp only: map_add_def)
  from Cons.IH [where m = "m ++ map_of (ent (snd p))" and m' = "m' ++ map_of (ent (snd p))", OF this] show ?case by simp
qed simp

lemma runMap_filter:
  assumes "\<forall>p \<in> set ops. \<not> Q p \<longrightarrow> k \<notin> fst ` set (ent (snd p))"
  shows "runMap ent m ops k = runMap ent m (filter Q ops) k"
  using assms
proof (induction ops arbitrary: m)
  case (Cons p ops)
  show ?case
  proof (cases "Q p")
    case False
    with Cons.prems have "(m ++ map_of (ent (snd p))) k = m k" by (simp add: map_add_def map_of_eq_None_iff [symmetric])
    then have "runMap ent (m ++ map_of (ent (snd p))) ops k = runMap ent m ops k" by (rule runMap_cong)
    with Cons False show ?thesis by simp
  qed (use Cons in auto)
qed simp

lemma runMap_none: "\<forall>p \<in> set ops. k \<notin> fst ` set (ent (snd p)) \<Longrightarrow> runMap ent m ops k = m k"
  using runMap_filter [of ops "\<lambda>_. False" k ent m] by simp

lemma set_interleave: "p \<in> set (interleave sched qs) \<longleftrightarrow> fst p < length qs \<and> snd p \<in> set (qs ! fst p)"
proof -
  have "p \<in> set (interleave sched qs) \<longleftrightarrow> p \<in> set (filter (\<lambda>q. fst q = fst p) (interleave sched qs))" by simp
  then show ?thesis unfolding filter_interleave by (cases p) auto
qed

text \<open>Workers with disjoint keys: every interleaving has the effect of running them one by one.\<close>

lemma runMap_interleave:
  assumes "\<And>i j op op' k. i < length qs \<Longrightarrow> j < length qs \<Longrightarrow> op \<in> set (qs ! i) \<Longrightarrow> op' \<in> set (qs ! j) \<Longrightarrow>
      k \<in> fst ` set (ent op) \<Longrightarrow> k \<in> fst ` set (ent op') \<Longrightarrow> i = j"
  shows "runMap ent m (interleave sched qs) = runMap ent m (interleave [] qs)"
proof
  fix k
  show "runMap ent m (interleave sched qs) k = runMap ent m (interleave [] qs) k"
  proof (cases "\<exists>i op. i < length qs \<and> op \<in> set (qs ! i) \<and> k \<in> fst ` set (ent op)")
    case True
    then obtain i op where i: "i < length qs" "op \<in> set (qs ! i)" "k \<in> fst ` set (ent op)" by blast
    have "\<forall>p \<in> set (interleave s qs). \<not> fst p = i \<longrightarrow> k \<notin> fst ` set (ent (snd p))" for s
    proof (intro ballI impI notI)
      fix p assume "p \<in> set (interleave s qs)" "fst p \<noteq> i" "k \<in> fst ` set (ent (snd p))"
      then show False using assms [OF i(1) _ i(2) _ i(3)] set_interleave [of p s qs] by metis
    qed
    from runMap_filter [OF this, of m] show ?thesis using i(1) by (simp add: filter_interleave del: interleave.simps)
  next
    case False
    then have "\<forall>p \<in> set (interleave s qs). k \<notin> fst ` set (ent (snd p))" for s by (metis set_interleave)
    from runMap_none [OF this] show ?thesis by (simp del: interleave.simps)
  qed
qed

lemma runMap_opsMap: "runMap (op_entries bo fo) m (map (Pair i) ops) = m ++ opsMap bo fo ops"
  by (induction ops rule: rev_induct) simp_all

lemma runMap_sequential:
  "runMap (op_entries bo fo) m (concat (map (\<lambda>(i, q). map (Pair i) q) (enumerate n qs))) =
   foldl (\<lambda>m q. m ++ opsMap bo fo q) m qs"
  by (induction qs arbitrary: n m) (simp_all add: runMap_opsMap)

lemma opsMap_dom: "op \<in> set ops \<Longrightarrow> k \<in> fst ` set (op_entries bo fo op) \<Longrightarrow> opsMap bo fo ops k \<noteq> None"
  by (induction ops rule: rev_induct) (auto simp: map_add_None map_of_eq_None_iff)

context pebble_live
begin

lemma execOps_live:
  "\<exists>db'. execOps P ops Map.empty db = (Map.empty, db') \<and> db_content db' = runMap (op_entries batch_of file_of) (db_content db) ops"
proof (induction ops arbitrary: db)
  case (Cons p ops)
  obtain i op where p: "p = (i, op)" by (cases p)
  show ?case
  proof (cases op)
    case (CommitOp b)
    obtain db1 where db1: "Commit P b False db = Inr db1" using Commit_live by blast
    from Cons.IH [of db1] Commit_law [OF db1] show ?thesis using p CommitOp db1 by simp
  next
    case (IngestOp f)
    obtain db1 where db1: "Ingest P db f = Inr db1" using Ingest_live by blast
    from Cons.IH [of db1] Ingest_law [OF db1] show ?thesis using p IngestOp db1 by simp
  qed
qed simp

end

section \<open>Stage 2\<close>

abbreviation info_of :: "bytes \<times> tree option \<Rightarrow> StoreInfo" where
  "info_of x \<equiv> \<lparr>si_Name = fst x, si_Hash = store_hash (snd x)\<rparr>"

definition store_ok :: "bytes \<times> tree option \<Rightarrow> bool" where
  "store_ok x \<longleftrightarrow> slash \<notin> set (fst x) \<and> wf_store (snd x) \<and> sorted_wrt (<) (store_keys (snd x)) \<and> list_all item_small (store_items x)"

definition segment_of :: "bytes \<times> tree option \<Rightarrow> bytes \<times> bytes \<Rightarrow> bool" where
  "segment_of x seg \<longleftrightarrow> fst seg = fst x \<and> (\<exists>rest. snd seg = items_wire (store_items x) @ rest \<and> boundary rest)"

definition seg_result :: "('b \<Rightarrow> (bytes \<times> bytes) list) \<Rightarrow> ('f \<Rightarrow> (bytes \<times> bytes) list) \<Rightarrow> i64 \<Rightarrow> bytes \<times> tree option \<Rightarrow>
    bytes \<times> u64 \<times> ('b, 'f) dbOp list \<Rightarrow> bool" where
  "seg_result bo fo height x r \<longleftrightarrow>
     fst r = store_hash (snd x) \<and> opsMap bo fo (snd (snd r)) = map_of (storeLog (fst x) height (store_stream (snd x)))"

lemma segmentOps_Ok: "segmentOps \<circ> Ok = snd \<circ> snd"
  by (auto simp: fun_eq_iff segmentOps_def)

lemma collectResults_Inr: "collectResults (Inr acc) (map Inr infos) = Inr (acc @ infos)"
  by (induction infos arbitrary: acc) simp_all

lemma collectResults_perm:
  assumes "mset rs = mset (map Inr infos)"
  shows "\<exists>infos'. collectResults (Inr []) rs = Inr infos' \<and> mset infos' = mset infos"
proof -
  have "set rs = Inr ` set infos" using mset_eq_setD [OF assms] by simp
  then have rs: "rs = map Inr (map projr rs)" by (intro nth_equalityI) (auto, metis imageE nth_mem sum.sel(2))
  have "collectResults (Inr []) rs = Inr (map projr rs)" by (subst rs) (simp add: collectResults_Inr del: map_map)
  moreover have "mset (map projr rs) = mset infos"
    using arg_cong [OF assms, of "image_mset projr"] by (simp add: multiset.map_comp comp_def)
  ultimately show ?thesis by blast
qed

lemma runMap_stores:
  "list_all2 (seg_result bo fo height) ss res \<Longrightarrow>
   foldl (\<lambda>m q. m ++ opsMap bo fo q) m (map (snd \<circ> snd) res) = m ++ map_of (storesLog height ss)"
proof (induction ss res arbitrary: m rule: list_all2_induct)
  case (Cons x xs y ys)
  then show ?case by (auto simp: seg_result_def storesLog_def split: prod.splits)
qed (simp add: storesLog_def)

lemma seg_results_disjoint:
  assumes "list_all2 (seg_result bo fo height) ss res" and "list_all store_ok ss" and "distinct (map fst ss)"
    and "i < length res" and "j < length res"
    and "op \<in> set (snd (snd (res ! i)))" and "op' \<in> set (snd (snd (res ! j)))"
    and "k \<in> fst ` set (op_entries bo fo op)" and "k \<in> fst ` set (op_entries bo fo op')"
  shows "i = j"
proof -
  have len: "length ss = length res" using assms(1) by (simp add: list_all2_lengthD)
  have pre: "take (length (storePrefix (fst (ss ! n)))) k = storePrefix (fst (ss ! n))"
    if "n < length res" "o' \<in> set (snd (snd (res ! n)))" "k \<in> fst ` set (op_entries bo fo o')" for n o'
  proof -
    have "seg_result bo fo height (ss ! n) (res ! n)" using assms(1) that(1) by (simp add: list_all2_conv_all_nth)
    with opsMap_dom [OF that(2,3)] have "k \<in> fst ` set (storeLog (fst (ss ! n)) height (store_stream (snd (ss ! n))))"
      by (metis map_of_eq_None_iff seg_result_def)
    moreover have "store_ok (ss ! n)" using assms(2) that(1) len by (simp add: list_all_length)
    ultimately show ?thesis using storeLog_prefix routes_fastKeys by (metis store_ok_def)
  qed
  let ?a = "fst (ss ! i)" and ?b = "fst (ss ! j)"
  have "storePrefix ?a @ drop (length (storePrefix ?a)) k = storePrefix ?b @ drop (length (storePrefix ?b)) k"
    using pre [OF assms(4,6,8)] pre [OF assms(5,7,9)] by (metis append_take_drop_id)
  moreover have "slash \<notin> set ?a" "slash \<notin> set ?b" using assms(2,4,5) len by (simp_all add: list_all_length store_ok_def)
  ultimately have "?a = ?b" using storePrefix_disjoint [of ?a ?b] by blast
  with assms(3-5) len show ?thesis by (simp add: distinct_conv_nth) (metis nth_map)
qed

context pebble_live
begin

lemma segments_ok:
  assumes "list_all2 segment_of ss segs" and "list_all store_ok ss"
  shows "\<exists>res. map (\<lambda>(name, input). processStoreSegment (queued P db) fast tmp height name [] input) segs = map (Some \<circ> Ok) res \<and>
    list_all2 (seg_result batch_of file_of height) ss res"
  using assms
proof (induction rule: list_all2_induct)
  case (Cons x xs seg segs)
  from Cons.prems have "list_all store_ok xs" by simp
  from Cons.IH [OF this] obtain res where
    res: "map (\<lambda>(name, input). processStoreSegment (queued P db) fast tmp height name [] input) segs = map (Some \<circ> Ok) res"
      "list_all2 (seg_result batch_of file_of height) xs res" by blast
  obtain name t where x: "x = (name, t)" by (cases x)
  from Cons.hyps(1) x obtain input rest where seg: "seg = (name, input)" "input = items_wire (store_items (name, t)) @ rest" "boundary rest"
    by (cases seg) (auto simp: segment_of_def)
  note q = pebble_live_queued [OF pebble_live_axioms, of db]
  from pebble_live.segment_ok [OF q, of name t "[]" input rest fast tmp height] seg Cons.prems x obtain n q where
    "processStoreSegment (queued P db) fast tmp height name [] input = Some (Ok (store_hash t, n, q))"
    "seg_result batch_of file_of height x (store_hash t, n, q)" by (auto simp: store_ok_def seg_result_def)
  with res seg(1) x show ?case by (intro exI [of _ "(store_hash t, n, q) # res"]) simp
qed simp

lemma stage2_ok:
  assumes "list_all2 segment_of ss segs" and "list_all store_ok ss" and "distinct (map fst ss)" and "\<And>rs. mset (order rs) = mset rs"
  shows "\<exists>infos db'. stage2RunWorkersFromChan P fast tmp height sched order segs db = Some (Ok (infos, db')) \<and>
    mset infos = mset (map info_of ss) \<and> db_content db' = db_content db ++ map_of (storesLog height ss)"
proof -
  from segments_ok [OF assms(1,2), of db fast tmp height] obtain res where
    run: "map (\<lambda>(name, input). processStoreSegment (queued P db) fast tmp height name [] input) segs = map (Some \<circ> Ok) res" and
    res: "list_all2 (seg_result batch_of file_of height) ss res" by blast
  let ?qs = "map (snd \<circ> snd) res"
  obtain db' where db': "execOps P (interleave sched ?qs) Map.empty db = (Map.empty, db')"
    "db_content db' = runMap (op_entries batch_of file_of) (db_content db) (interleave sched ?qs)"
    using execOps_live by blast
  have "runMap (op_entries batch_of file_of) (db_content db) (interleave sched ?qs) =
      runMap (op_entries batch_of file_of) (db_content db) (interleave [] ?qs)"
    by (rule runMap_interleave) (use seg_results_disjoint [OF res assms(2,3)] in auto)
  also have "\<dots> = db_content db ++ map_of (storesLog height ss)"
    using runMap_stores [OF res] by (simp add: runMap_sequential)
  finally have content: "db_content db' = db_content db ++ map_of (storesLog height ss)" using db'(2) by simp
  have len: "length segs = length ss" "length res = length ss" using assms(1) res by (simp_all add: list_all2_lengthD [symmetric])
  define rs where "rs = map (workerResult (Map.empty :: nat \<Rightarrow> 'e seg_error option)) (enumerate 0 (zip (map fst segs) (map Ok res)))"
  have "rs = map Inr (map info_of ss)"
  proof (rule nth_equalityI)
    fix i assume "i < length rs"
    then have i: "i < length ss" using len by (simp add: rs_def)
    then have "fst (res ! i) = store_hash (snd (ss ! i))" "fst (segs ! i) = fst (ss ! i)"
      using res assms(1) len by (auto simp: list_all2_conv_all_nth seg_result_def segment_of_def)
    then show "rs ! i = map Inr (map info_of ss) ! i"
      using i len by (simp add: rs_def nth_enumerate_eq workerResult_def case_prod_beta)
  qed (use len in \<open>simp add: rs_def\<close>)
  then have "mset (order rs) = mset (map Inr (map info_of ss))" by (simp only: assms(4))
  from collectResults_perm [OF this] obtain infos where
    infos: "collectResults (Inr []) (order rs) = Inr infos" "mset infos = mset (map info_of ss)" by blast
  have the: "map the (map (Some \<circ> Ok) res) = map Ok res" by simp
  have "stage2RunWorkersFromChan P fast tmp height sched order segs db = Some (Ok (infos, db'))"
    using db'(1) infos(1) unfolding stage2RunWorkersFromChan_def run Let_def the rs_def [symmetric] by (auto simp: rs_def segmentOps_Ok)
  with infos(2) content show ?thesis by blast
qed

end

end
