(* ===== verification/SegmentReader.thy ===== *)
theory SegmentReader
  imports ParallelImport
begin

text \<open>
  The reader of a store over the chunk ring: stage 1 opens it at the store's first byte without a
  limit, the worker reads, the producer and the other readers go on in any order, and at some moment
  another goroutine calls \<open>SetEnd\<close>.  Whatever the interleaving, what the worker has been given when it
  is told \<open>io.EOF\<close> is \<open>segmentBytes\<close> for the offset it had reached at that moment.
\<close>

section \<open>The life of a reader\<close>

text \<open>
  The ring with the bytes written to it, what the reader has delivered, and the offset it had
  reached when \<open>SetEnd\<close> came.
\<close>

inductive seg_reader :: "nat \<Rightarrow> nat \<Rightarrow> nat \<Rightarrow> 'e chunkRing \<times> bytes \<Rightarrow> bytes \<Rightarrow> nat option \<Rightarrow> bool"
  for i start e where
  opened: "ring_reachable (r, w) \<Longrightarrow> i \<notin> fst ` set (cr_readers r) \<Longrightarrow> NewReader r i (int start) (- 1) = Inr r' \<Longrightarrow>
    seg_reader i start e (r', w) [] None"
| others: "seg_reader i start e (r, w) out c \<Longrightarrow> ring_step (r, w) (r', w') \<Longrightarrow>
    map_of (cr_readers r) i = Some rd \<Longrightarrow> map_of (cr_readers r') i = Some rd' \<Longrightarrow>
    rr_pos rd' = rr_pos rd \<Longrightarrow> rr_endLimit rd' = rr_endLimit rd \<Longrightarrow> seg_reader i start e (r', w') out c"
| reads: "seg_reader i start e (r, w) out c \<Longrightarrow> map_of (cr_readers r) i = Some rd \<Longrightarrow>
    Read r i rd k = (GotBytes xs, r') \<Longrightarrow> seg_reader i start e (r', w) (out @ xs) c"
| ended: "seg_reader i start e (r, w) out None \<Longrightarrow> map_of (cr_readers r) i = Some rd \<Longrightarrow>
    seg_reader i start e (SetEnd r i rd (int e), w) out (Some (start + length out))"

section \<open>Its invariant\<close>

definition reader_limit :: "nat \<Rightarrow> nat \<Rightarrow> nat option \<Rightarrow> chunkRingReader \<Rightarrow> bool" where
  "reader_limit e pos c rd \<longleftrightarrow> (case c of
     None \<Rightarrow> rr_endLimit rd = - 1
   | Some n \<Rightarrow> rr_endLimit rd = int e \<and> n \<le> pos \<and> pos \<le> max n e)"

lemma map_of_setReader:
  "map_of (cr_readers r) i = Some rd \<Longrightarrow> map_of (cr_readers (setReader r i rd')) i = Some rd'"
proof -
  have "map_of rs i = Some rd \<Longrightarrow> map_of (map (\<lambda>(j, x). (j, if j = i then rd' else x)) rs) i = Some rd'" for rs
    by (induction rs) auto
  then show "map_of (cr_readers r) i = Some rd \<Longrightarrow> map_of (cr_readers (setReader r i rd')) i = Some rd'"
    by (simp add: setReader_def)
qed

lemma ring_step_grows: "ring_step s s' \<Longrightarrow> \<exists>u. snd s' = snd s @ u"
  by (induction rule: ring_step.induct) auto

lemma Read_GotBytes:
  assumes "ring_inv (r, w)" and "(i, rd) \<in> set (cr_readers r)" and "Read r i rd k = (GotBytes xs, r')"
  shows "rr_pos rd < cr_tail r" and "rr_endLimit rd < 0 \<or> rr_pos rd < rr_endLimit rd"
proof -
  from assms(3) show "rr_endLimit rd < 0 \<or> rr_pos rd < rr_endLimit rd"
    by (auto simp: Read_def split: if_splits)
  from assms(3) have "findChunkLocked r (rr_pos rd) \<noteq> None"
    by (auto simp: Read_def split: if_splits option.splits)
  then show "rr_pos rd < cr_tail r"
    using chunk_run_find_None [of "cr_chunkSize r" "cr_head r" "cr_chunks r" "cr_tail r" "rr_pos rd"] assms(1)
    by (force simp: findChunkLocked_def)
qed

lemma seg_reader_inv:
  "seg_reader i start e s out c \<Longrightarrow>
   ring_reachable s \<and> out = take (length out) (drop start (snd s)) \<and>
   (\<exists>rd. map_of (cr_readers (fst s)) i = Some rd \<and> rr_pos rd = int (start + length out) \<and> reader_limit e (start + length out) c rd)"
proof (induction rule: seg_reader.induct)
  case (opened r w r')
  from opened(2) have "map_of (cr_readers r) i = None" by (simp add: map_of_eq_None_iff)
  moreover have "ring_reachable (r', w)" using opened ring_more ring_step.new_reader by blast
  ultimately show ?case using opened(3) by (auto simp: NewReader_def reader_limit_def map_add_def split: if_splits)
next
  case (others r w out c r' w' rd rd')
  from ring_step_grows [OF others(2)] obtain u where u: "w' = w @ u" by auto
  have "length out \<le> length (drop start w)" using others.IH by (metis length_take min.cobounded1 snd_conv)
  then have "take (length out) (drop start w') = take (length out) (drop start w)" by (simp add: u)
  with others show ?case by (auto intro: ring_more simp: reader_limit_def split: option.splits)
next
  case (reads r w out c rd k xs r')
  have inv: "ring_inv (r, w)" using reads.IH ring_reachable_inv by blast
  have mem: "(i, rd) \<in> set (cr_readers r)" using reads(2) by (rule map_of_SomeD)
  note gb = Read_GotBytes [OF inv mem reads(3)]
  from Read_stream [OF inv mem gb, of k] obtain n where
    n: "GotBytes xs = (GotBytes (take n (drop (nat (rr_pos rd)) w)) :: 'a read_result)" "nat (rr_pos rd) + n \<le> length w"
      "0 \<le> rr_endLimit rd \<longrightarrow> rr_pos rd + int n \<le> rr_endLimit rd"
      "r' = evictLocked (setReader r i (rd\<lparr>rr_pos := rr_pos rd + int n\<rparr>))" unfolding reads(3) fst_conv snd_conv by blast
  have pos: "rr_pos rd = int (start + length out)" and lim: "reader_limit e (start + length out) c rd"
    and out: "out = take (length out) (drop start w)" using reads.IH reads(2) by auto
  have xs: "xs = take n (drop (nat (rr_pos rd)) w)" using n(1) by simp
  then have len: "length xs = n" using n(2) by simp
  have "take (length out + n) (drop start w) = take (length out) (drop start w) @ take n (drop (start + length out) w)"
    unfolding take_add drop_drop by (simp add: add.commute)
  also have "\<dots> = out @ xs" using out xs pos by (metis nat_int)
  finally have "take (length (out @ xs)) (drop start w) = out @ xs" by (simp add: len)
  moreover have "ring_reachable (r', w)"
    using reads(3) reads.IH ring_step.read_some [OF mem, of w k] by (auto intro: ring_more)
  moreover have "map_of (cr_readers r') i = Some (rd\<lparr>rr_pos := rr_pos rd + int n\<rparr>)"
    using map_of_setReader [OF reads(2), of "rd\<lparr>rr_pos := rr_pos rd + int n\<rparr>"] by (auto simp: n(4) evictLocked_def)
  ultimately show ?case using pos lim len n(3) by (auto simp: reader_limit_def split: option.splits)
next
  case (ended r w out rd)
  have mem: "(i, rd) \<in> set (cr_readers r)" using ended(2) by (rule map_of_SomeD)
  have "ring_reachable (SetEnd r i rd (int e), w)"
    using ended ring_step.set_end [OF mem, of w "int e"] by (auto intro: ring_more)
  with ended map_of_setReader [OF ended(2)] show ?case by (auto simp: SetEnd_def reader_limit_def)
qed

section \<open>What it delivers\<close>

lemma seg_reader_delivers:
  assumes "seg_reader i (nat (se_DecompressedStart ent)) (nat (se_DecompressedEnd ent)) (r, w) out (Some reached)"
    and "map_of (cr_readers r) i = Some rd" and "fst (Read r i rd k) = GotEOF"
    and "nat (se_DecompressedEnd ent) \<le> length w"
  shows "out = segmentBytes w ent reached"
proof -
  let ?start = "nat (se_DecompressedStart ent)" and ?e = "nat (se_DecompressedEnd ent)"
  note inv = seg_reader_inv [OF assms(1)]
  have pos: "rr_pos rd = int (?start + length out)" and lim: "reader_limit ?e (?start + length out) (Some reached) rd"
    and out: "out = take (length out) (drop ?start w)" using inv assms(2) by auto
  have ring: "ring_inv (r, w)" using inv ring_reachable_inv by blast
  have tail: "cr_tail r = int (length w)" using ring by simp
  have "?e \<le> ?start + length out"
  proof (rule ccontr)
    assume "\<not> ?e \<le> ?start + length out"
    with pos lim tail assms(4) have "rr_pos rd < cr_tail r" "rr_endLimit rd < 0 \<or> rr_pos rd < rr_endLimit rd"
      by (auto simp: reader_limit_def)
    from Read_stream [OF ring map_of_SomeD [OF assms(2)] this, of k] assms(3) show False by auto
  qed
  with lim have "?start + length out = max reached ?e" by (auto simp: reader_limit_def)
  then have "length out = max reached ?e - ?start" by simp
  with out show ?thesis by (simp add: segmentBytes_def)
qed

section \<open>Stage 1 after the last reader\<close>

text \<open>The rounds of one \<open>Write\<close>: the ring and the bytes still to be written.\<close>

inductive writing :: "'e chunkRing \<times> bytes \<Rightarrow> 'e chunkRing \<times> bytes \<Rightarrow> bool" for s where
  writing_start: "writing s s"
| writing_round: "writing s (r, p) \<Longrightarrow> writeRound r p = (Wrote n, r') \<Longrightarrow> writing s (r', drop n p)"

text \<open>What the rounds keep: the ring's sizes, its head as long as it has no readers, and the sum of tail and rest.\<close>

definition write_frame :: "'e chunkRing \<times> bytes \<Rightarrow> 'e chunkRing \<times> bytes \<Rightarrow> bool" where
  "write_frame s s' \<longleftrightarrow> (case (s, s') of ((r, p), (r', p')) \<Rightarrow>
     cr_readers r' = cr_readers r \<and> cr_closed r' = cr_closed r \<and> cr_maxBytes r' = cr_maxBytes r \<and> cr_head r' = cr_head r \<and>
     cr_tail r' + int (length p') = cr_tail r + int (length p) \<and> (\<exists>w. ring_inv (r', w)))"

lemma writeRound_frame:
  assumes "ring_inv (r, w)" and "writeRound r p = (Wrote n, r')"
  shows "write_frame (r, p) (r', drop n p)"
proof -
  have "cr_readers r' = cr_readers r \<and> cr_closed r' = cr_closed r \<and> cr_maxBytes r' = cr_maxBytes r \<and> cr_head r' = cr_head r"
    using assms(2) by (auto simp: writeRound_def Let_def split: if_split_asm)
  moreover have inv: "ring_inv (r', w @ take n p)" using assms by (rule writeRound_inv)
  moreover have "cr_tail r' + int (length (drop n p)) = cr_tail r + int (length p)" using assms(1) inv by auto
  ultimately show ?thesis unfolding write_frame_def by (auto simp del: ring_inv.simps)
qed

lemma writing_frame:
  assumes "writing s s'" and "ring_inv (fst s, w)"
  shows "write_frame s s'"
  using assms
proof (induction rule: writing.induct)
  case writing_start
  then show ?case by (cases s) (auto simp: write_frame_def simp del: ring_inv.simps)
next
  case (writing_round r p n r')
  from writing_round.IH [OF writing_round.prems] obtain v where f: "write_frame s (r, p)" "ring_inv (r, v)"
    by (cases s) (auto simp: write_frame_def simp del: ring_inv.simps)
  from writeRound_frame [OF f(2) writing_round.hyps(2)] f(1) show ?case by (cases s) (auto simp: write_frame_def simp del: ring_inv.simps)
qed

lemma writeRound_progress:
  assumes "ring_inv (r, w)" and "\<not> cr_closed r" and "p \<noteq> []" and "cr_tail r - cr_head r < cr_maxBytes r"
  shows "\<exists>n r'. writeRound r p = (Wrote n, r') \<and> 0 < n"
proof -
  have "0 < cr_chunkSize r" and "0 < length p" using assms by simp_all
  with assms(2,4) show ?thesis unfolding writeRound_def Let_def clip_min by (auto simp: min_def)
qed

lemma writing_blocks:
  assumes "ring_inv (r, w)" and "\<not> cr_closed r" and "cr_maxBytes r < cr_tail r - cr_head r + int (length p)"
    and "writing s (r, p)"
  shows "\<exists>r' p'. writing s (r', p') \<and> writeRound r' p' = (WriteBlocked, r')"
  using assms
proof (induction "length p" arbitrary: r w p rule: less_induct)
  case less
  have p: "p \<noteq> []" using less.prems(1,3) by auto
  show ?case
  proof (cases "cr_tail r - cr_head r < cr_maxBytes r")
    case True
    from writeRound_progress [OF less.prems(1,2) p True] obtain n r' where n: "writeRound r p = (Wrote n, r')" "0 < n" by blast
    have f: "write_frame (r, p) (r', drop n p)" using less.prems(1) n(1) by (rule writeRound_frame)
    then obtain v where v: "ring_inv (r', v)" by (auto simp: write_frame_def simp del: ring_inv.simps)
    have "\<not> cr_closed r'" "cr_maxBytes r' < cr_tail r' - cr_head r' + int (length (drop n p))"
      using f less.prems(2,3) by (auto simp: write_frame_def)
    moreover have "length (drop n p) < length p" using p n(2) by simp
    ultimately show ?thesis using less.hyps [OF _ v] writing_round [OF less.prems(4) n(1)] by blast
  next
    case False
    then have "writeRound r p = (WriteBlocked, r)" using less.prems(2) p by (simp add: writeRound_def)
    with less.prems(4) show ?thesis by blast
  qed
qed

text \<open>
  C34. A ring without readers evicts nothing, whatever is written to it.  When the last worker has
  closed its reader and more bytes are to come than the ring has room for, as in a long extension
  tail, no run of \<open>Write\<close> ends: it comes to a round in which it waits, nothing is left that could wake
  it, and the import, which waits for stage 1 before it opens the reader of stage 3, never returns.
\<close>

theorem extension_tail_hangs:
  assumes "ring_reachable (r, w)" and "cr_readers r = []" and "\<not> cr_closed r"
    and "cr_maxBytes r < cr_tail r - cr_head r + int (length p)"
  shows "(\<exists>r' p'. writing (r, p) (r', p') \<and> writeRound r' p' = (WriteBlocked, r')) \<and>
    (\<forall>r' p'. writing (r, p) (r', p') \<longrightarrow> p' \<noteq> [] \<and> cr_readers r' = [] \<and> (\<forall>i. closeReader r' i = r'))"
proof -
  note inv = ring_reachable_inv [OF assms(1)]
  have "p' \<noteq> [] \<and> cr_readers r' = [] \<and> (\<forall>i. closeReader r' i = r')" if "writing (r, p) (r', p')" for r' p'
  proof -
    have "write_frame (r, p) (r', p')" by (rule writing_frame [OF that]) (unfold fst_conv, rule inv)
    then obtain v where f: "cr_readers r' = []" "cr_maxBytes r' = cr_maxBytes r" "cr_head r' = cr_head r"
      "cr_tail r' + int (length p') = cr_tail r + int (length p)" "ring_inv (r', v)"
      using assms(2) by (auto simp: write_frame_def simp del: ring_inv.simps)
    then have "p' \<noteq> []" using assms(4) by auto
    with f(1) show ?thesis by (simp add: closeReader_def evictLocked_def)
  qed
  with writing_blocks [OF inv assms(3,4) writing_start] show ?thesis by blast
qed

text \<open>A fresh ring takes a stream of at most one chunk in one round.\<close>

definition filledRing :: "int \<Rightarrow> int \<Rightarrow> bytes \<Rightarrow> 'e chunkRing" where
  "filledRing S M bs = \<lparr>cr_chunkSize = S, cr_maxBytes = M, cr_chunks = [\<lparr>ce_start = 0, ce_data = bs\<rparr>], cr_tail = int (length bs),
     cr_head = 0, cr_closed = False, cr_err = None, cr_readers = [], cr_freeBufs = 0, cr_maxChunks = M div S\<rparr>"

lemma filledRing_reachable:
  assumes "bs \<noteq> []" and "int (length bs) \<le> S" and "S \<le> M"
  shows "ring_reachable (filledRing S M bs, bs)"
proof -
  let ?r = "\<lparr>cr_chunkSize = S, cr_maxBytes = M, cr_chunks = [], cr_tail = 0, cr_head = 0, cr_closed = False,
    cr_err = None, cr_readers = [], cr_freeBufs = 0, cr_maxChunks = M div S\<rparr>"
  have "0 < int (length bs)" using assms(1) by simp
  then have S: "0 < S" "0 < M" using assms(2,3) by linarith+
  then have "ring_reachable (?r, [])" using assms(3) by (intro ring_new [of S M]) (simp add: newChunkRing_def)
  moreover have "writeRound ?r bs = (Wrote (length bs), filledRing S M bs)"
    using assms S by (auto simp: writeRound_def filledRing_def allocBufLocked_def)
  then have "ring_step (?r, []) (filledRing S M bs, [] @ take (length bs) bs)" by (rule write_some)
  ultimately show ?thesis by (auto intro: ring_more)
qed

theorem extension_tail_hangs_witness:
  "\<exists>(r :: unit chunkRing) p'. writing (filledRing 4 6 [1, 2, 3], [4, 5, 6, 7]) (r, p') \<and> writeRound r p' = (WriteBlocked, r)"
proof -
  have "ring_reachable (filledRing 4 6 [1, 2, 3] :: unit chunkRing, [1, 2, 3])" by (rule filledRing_reachable) simp_all
  from extension_tail_hangs [OF this, of "[4, 5, 6, 7]"] show ?thesis by (auto simp: filledRing_def)
qed

end
