(* ===== verification/ParallelTop.thy ===== *)
theory ParallelTop
  imports ParallelProps SegmentReader
begin

text \<open>
  The whole parallel import: what stage 1 hands to the workers, what a worker's reader delivers, the
  extension tail, and the two properties of \<open>ImportParallel\<close>.
\<close>

section \<open>Stage 1\<close>

definition bare_entry :: "StoreEntry \<Rightarrow> StoreEntry" where
  "bare_entry e = (newEntry (se_Name e) (se_DecompressedStart e))\<lparr>se_DecompressedEnd := se_DecompressedEnd e\<rparr>"

lemma run_events_stage1:
  "run_events stage1Callbacks (concat (map entry_events es)) \<lparr>s1_ends = [], s1_emitted = em\<rparr> =
     Inr \<lparr>s1_ends = [], s1_emitted = em @ map bare_entry es\<rparr>"
proof (induction es arbitrary: em)
  case (Cons e es)
  from Cons.IH [of "em @ [bare_entry e]"] show ?case
    by (simp add: entry_events_def stage1Callbacks_def bare_entry_def updLast_def newEntry_def)
qed simp

definition secs :: "(bytes \<times> tree option) list \<Rightarrow> section_ list" where
  "secs ss = map (\<lambda>x. (fst x, map iavl_item (store_stream (snd x)))) ss"

lemma secs_simps [simp]:
  "secs [] = []" "secs (x # ss) = (fst x, map iavl_item (store_stream (snd x))) # secs ss"
  by (simp_all add: secs_def)

lemma section_items_sec [simp]: "section_items (fst x, map iavl_item (store_stream (snd x))) = store_items x"
  by (cases x) (simp add: section_items_def)

lemma sections_wire_secs: "sections_wire (secs ss) = items_wire (concat (map store_items ss))"
  by (induction ss) (simp_all add: sections_wire_def)

lemma is_iavl_item [simp]: "is_iavl (iavl_item n)"
  by (cases n) simp

lemma secs_ok: "list_all store_ok ss \<Longrightarrow> list_all section_ok (secs ss)"
  by (induction ss) (auto simp: section_ok_def store_ok_def list_all_iff)

definition storeStart :: "(bytes \<times> tree option) list \<Rightarrow> nat \<Rightarrow> nat" where
  "storeStart ss i = length (items_wire (concat (map store_items (take i ss))))"

lemma entries_secs:
  "i < length ss \<Longrightarrow> entries_of p (secs ss) ! i = entry_of (p + int (storeStart ss i)) (secs ss ! i)"
proof (induction ss arbitrary: i p)
  case (Cons x ss)
  show ?case
  proof (cases i)
    case (Suc i')
    with Cons.IH [of i' "p + int (length (items_wire (store_items x)))"] Cons.prems show ?thesis
      by (simp add: storeStart_def add.assoc)
  qed (simp add: storeStart_def)
qed simp

lemma length_entries: "length (entries_of p xs) = length xs"
  by (induction xs arbitrary: p) simp_all

lemma emitted_entry:
  assumes "i < length ss"
  shows "map bare_entry (entries_of 0 (secs ss)) ! i =
    (newEntry (fst (ss ! i)) (int (storeStart ss i)))\<lparr>se_DecompressedEnd := int (storeStart ss (Suc i))\<rparr>"
proof -
  have "storeStart ss (Suc i) = storeStart ss i + length (items_wire (store_items (ss ! i)))"
    using assms by (simp add: storeStart_def take_Suc_conv_app_nth)
  then show ?thesis using assms entries_secs [OF assms, of 0]
    by (simp add: length_entries secs_def bare_entry_def entry_of_def)
qed

section \<open>What a worker's reader delivers\<close>

text \<open>The length of the envelope that starts a stream.\<close>

definition envelopeLen :: "bytes \<Rightarrow> nat" where
  "envelopeLen bs = (case ReadUvarint bs of Inl e \<Rightarrow> 0 | Inr (n, rest) \<Rightarrow> length bs - length rest + unat n)"

lemma envelopeLen_item:
  assumes "item_small it"
  shows "envelopeLen (item_wire it @ rest) = length (item_wire it)"
proof -
  have "unat (of_nat (length (item_body it)) :: u64) = length (item_body it)"
    using assms by (intro unat_u64_of_nat) (simp add: item_small_def)
  then show ?thesis by (simp add: envelopeLen_def item_wire_def)
qed

text \<open>
  A reader that stood at \<open>reached\<close> when the end of its store became known had not begun the envelope
  after the store, or had all of it.
\<close>

definition read_ahead_ok :: "bytes \<Rightarrow> nat \<Rightarrow> nat \<Rightarrow> bool" where
  "read_ahead_ok bs end reached \<longleftrightarrow> reached \<le> end \<or> end + envelopeLen (drop end bs) \<le> reached"

definition tail_items :: "(bytes \<times> tree option) list \<Rightarrow> snapItem list \<Rightarrow> nat \<Rightarrow> snapItem list" where
  "tail_items ss exts i = concat (map store_items (drop (Suc i) ss)) @ exts"

lemma stream_split:
  assumes "i < length ss"
  shows "items_wire (concat (map store_items ss) @ exts) =
    items_wire (concat (map store_items (take i ss))) @ items_wire (store_items (ss ! i)) @ items_wire (tail_items ss exts i)"
    and "drop (storeStart ss (Suc i)) (items_wire (concat (map store_items ss) @ exts)) = items_wire (tail_items ss exts i)"
proof -
  have "ss = take i ss @ ss ! i # drop (Suc i) ss" using assms by (rule id_take_nth_drop)
  then have "concat (map store_items ss) = concat (map store_items (take i ss)) @ store_items (ss ! i) @ concat (map store_items (drop (Suc i) ss))"
    by (metis concat.simps(2) concat_append list.simps(9) map_append)
  then show eq: "items_wire (concat (map store_items ss) @ exts) =
    items_wire (concat (map store_items (take i ss))) @ items_wire (store_items (ss ! i)) @ items_wire (tail_items ss exts i)"
    by (simp add: tail_items_def)
  show "drop (storeStart ss (Suc i)) (items_wire (concat (map store_items ss) @ exts)) = items_wire (tail_items ss exts i)"
    unfolding eq using assms by (simp add: storeStart_def take_Suc_conv_app_nth)
qed

lemma segmentBytes_store:
  assumes "i < length ss"
  shows "segmentBytes (items_wire (concat (map store_items ss) @ exts)) (map bare_entry (entries_of 0 (secs ss)) ! i) c =
    items_wire (store_items (ss ! i)) @ take (c - storeStart ss (Suc i)) (items_wire (tail_items ss exts i))"
proof -
  have s: "storeStart ss (Suc i) = storeStart ss i + length (items_wire (store_items (ss ! i)))"
    using assms by (simp add: storeStart_def take_Suc_conv_app_nth)
  then have "max c (storeStart ss (Suc i)) - storeStart ss i =
      length (items_wire (store_items (ss ! i))) + (c - storeStart ss (Suc i))" by simp
  then show ?thesis unfolding segmentBytes_def emitted_entry [OF assms] stream_split(1) [OF assms]
    by (simp add: storeStart_def newEntry_def)
qed

text \<open>Items that may follow a store: none of them a node.\<close>

lemma tail_items_head:
  assumes "list_all is_ext exts" and "tail_items ss exts i = it # its"
  shows "\<not> is_iavl it"
proof (cases "drop (Suc i) ss")
  case Nil
  with assms show ?thesis using ext_not_iavl by (simp add: tail_items_def)
next
  case (Cons x xs)
  with assms(2) show ?thesis by (cases x) (auto simp: tail_items_def)
qed

lemma tail_items_ok:
  assumes "list_all store_ok ss" and "list_all item_ok exts" and "list_all item_small exts"
  shows "list_all item_ok (tail_items ss exts i)" "list_all item_small (tail_items ss exts i)"
proof -
  have "item_ok it" if "it \<in> set (store_items x)" for it x using that by (cases x) auto
  then show "list_all item_ok (tail_items ss exts i)" using assms by (auto simp: tail_items_def list_all_iff)
  show "list_all item_small (tail_items ss exts i)"
    using assms by (auto simp: tail_items_def list_all_iff store_ok_def dest: in_set_dropD)
qed

lemma tail_boundary:
  assumes "list_all store_ok ss" and "list_all item_ok exts" and "list_all item_small exts" and "list_all is_ext exts"
    and "i < length ss" and "read_ahead_ok (items_wire (concat (map store_items ss) @ exts)) (storeStart ss (Suc i)) c"
  shows "boundary (take (c - storeStart ss (Suc i)) (items_wire (tail_items ss exts i)))"
proof (cases "tail_items ss exts i")
  case (Cons it its)
  note ok = tail_items_ok [OF assms(1-3), of i]
  have small: "item_small it" "item_ok it" using ok Cons by simp_all
  have "c \<le> storeStart ss (Suc i) \<or> storeStart ss (Suc i) + length (item_wire it) \<le> c"
    using assms(6) unfolding read_ahead_ok_def stream_split(2) [OF assms(5)] by (simp add: Cons envelopeLen_item [OF small(1)])
  then show ?thesis
  proof
    assume "storeStart ss (Suc i) + length (item_wire it) \<le> c"
    then show ?thesis using Cons small tail_items_head [OF assms(4) Cons] by (auto simp: boundary_def)
  qed (simp add: boundary_def)
qed (simp add: boundary_def)

section \<open>The extension tail and the last batch\<close>

lemma stage3Loop_items:
  "readItems sr = Some (its, NextEOF) \<Longrightarrow> list_all is_ext its \<Longrightarrow>
   stage3Loop X sr e fs = Some (case runExts X e fs its of Inl err \<Rightarrow> Fail (Stage3 err) | Inr (e, fs) \<Rightarrow> Ok fs)"
proof (induction sr arbitrary: its e fs rule: readItems.induct)
  case (1 sr)
  from "1.prems"(1) consider s' where "Next sr = Some (NextEOF, s')" "its = []"
    | it s' its' where "Next sr = Some (Item it, s')" "readItems s' = Some (its', NextEOF)" "its = it # its'"
    by (auto simp: readItems.simps [of sr] split: option.splits next_result.splits)
  then show ?case
  proof cases
    case 1
    then show ?thesis by (simp add: stage3Loop.simps [of X sr])
  next
    case (2 it s' its')
    note ih = "1.IH" [OF 2(1) refl refl 2(2)]
    from 2 "1.prems"(2) show ?thesis
      by (cases it) (auto simp: stage3Loop.simps [of X sr] ih split: sum.splits)
  qed
qed

lemma runExts_nodir:
  "runExts X e fs its = Inr (e', fs') \<Longrightarrow> ex_extDir e = [] \<Longrightarrow> fs' = fs"
  by (induction X e fs its arbitrary: e' fs' rule: runExts.induct) (auto simp: openMeta_def writePayload_def Let_def)

lemma sort_infos:
  assumes "sorted_wrt (<) (map fst ss)" and "mset infos = mset (map info_of ss)"
  shows "sort_key si_Name infos = map info_of ss"
proof (rule sort_key_inj_key_eq)
  have names: "map si_Name (map info_of ss) = map fst ss" by simp
  show "sorted (map si_Name (map info_of ss))" unfolding names by (rule strict_sorted_imp_sorted) (rule assms(1))
  have "distinct (map si_Name (map info_of ss))" unfolding names using assms(1) strict_sorted_iff by blast
  then have "inj_on si_Name (set (map info_of ss))" unfolding distinct_map by (rule conjunct2)
  then show "inj_on si_Name (set infos)" using mset_eq_setD [OF assms(2)] by simp
qed (rule assms(2))

context pebble_live
begin

lemma runExts_live: "\<exists>e' fs'. runExts X e fs its = Inr (e', fs')"
proof (induction its arbitrary: e fs)
  case (Cons it its)
  show ?case
  proof (cases it)
    case (ExtMeta name format)
    obtain e1 fs1 where "openMeta X e fs name format = Inr (e1, fs1)" using ext_live(1) by blast
    with ExtMeta Cons [of e1 fs1] show ?thesis by simp
  next
    case (ExtPayload p)
    obtain e1 fs1 where "writePayload X e fs (nil_bytes p) = Inr (e1, fs1)" using ext_live(2) by blast
    with ExtPayload Cons [of e1 fs1] show ?thesis by simp
  qed (use Cons in auto)
qed simp

lemma writeFinal_live:
  "\<exists>db'. writeFinal P height infos db = Ok db' \<and> db_content db' = (db_content db)
     (commitInfoKey height \<mapsto> commitInfoBytes height infos, latestVersionKey \<mapsto> latestVersionBytes height)"
proof -
  obtain b where b: "BatchSet P (NewBatch P db) (commitInfoKey height) (commitInfoBytes height infos) = Inr b" using BatchSet_live by blast
  obtain b' where b': "BatchSet P b latestVersionKey (latestVersionBytes height) = Inr b'" using BatchSet_live by blast
  obtain db' where db': "Commit P b' True db = Inr db'" using Commit_live by blast
  have "db_content db' = (db_content db)
     (commitInfoKey height \<mapsto> commitInfoBytes height infos, latestVersionKey \<mapsto> latestVersionBytes height)"
    using Commit_law [OF db'] BatchSet_law [OF b'] BatchSet_law [OF b] commitInfoKey_latest
    by (simp add: NewBatch_law fun_upd_twist)
  with b b' db' show ?thesis by (simp add: writeFinal_def)
qed

end

section \<open>Properties\<close>

definition valid_opts :: "parOptions \<Rightarrow> bool \<Rightarrow> bool" where
  "valid_opts opts complete \<longleftrightarrow> po_SnapshotDir opts \<noteq> [] \<and> po_OutDir opts \<noteq> [] \<and> po_Height opts \<noteq> 0 \<and>
     (po_AllowIncomplete opts \<or> complete)"

lemma ext_items_ok:
  assumes "it \<in> set (concat (map ext_items es))"
  shows "is_ext it" and "item_ok it"
  using assms by (auto split: if_splits)

text \<open>What both theorems assume of the stream, and stage 1's answer to it.\<close>

definition stream_ok :: "(bytes \<times> tree option) list \<Rightarrow> (bytes \<times> u32 \<times> bytes list) list \<Rightarrow> snapItem list \<Rightarrow> bool" where
  "stream_ok ss es its \<longleftrightarrow>
     its = concat (map store_items ss) @ concat (map ext_items es) \<and> ss \<noteq> [] \<and> sorted_wrt (<) (map fst ss) \<and>
     list_all store_ok ss \<and> list_all item_small its \<and> int (length (items_wire its)) < 2 ^ 63"

lemma stream_okD:
  assumes "stream_ok ss es its"
  shows "list_all store_ok ss" "distinct (map fst ss)" "list_all is_ext (concat (map ext_items es))"
    "list_all item_ok (concat (map ext_items es))" "list_all item_small (concat (map ext_items es))"
proof -
  show "distinct (map fst ss)" using assms strict_sorted_iff unfolding stream_ok_def by blast
qed (use assms ext_items_ok in \<open>auto simp: stream_ok_def list_all_iff\<close>)

lemma stage1_stream:
  assumes "stream_ok ss es its" and "delivered r = Some (items_wire its)"
  shows "\<exists>idx. stage1WriteRingAndIndex r = Inr (idx, \<lparr>s1_ends = [], s1_emitted = map bare_entry (entries_of 0 (secs ss))\<rparr>) \<and>
    sx_ExtStart idx = (if concat (map ext_items es) = [] then 0 else int (storeStart ss (length ss))) \<and>
    sx_TotalBytes idx = int (length (items_wire its))"
proof -
  let ?x = "concat (map ext_items es)"
  have bs: "items_wire its = sections_wire (secs ss) @ items_wire ?x" using assms(1) by (simp add: stream_ok_def sections_wire_secs)
  have "secs ss \<noteq> []" using assms(1) by (simp add: stream_ok_def secs_def)
  note ix = indexFrom_stream [of r "secs ss" ?x stage1Callbacks "\<lparr>s1_ends = [], s1_emitted = []\<rparr>"]
  show ?thesis
    using ix assms stream_okD [OF assms(1)] secs_ok bs \<open>secs ss \<noteq> []\<close>
    by (simp add: stage1WriteRingAndIndex_def buildIndexFromReader_def run_events_stage1 stream_ok_def sortStores_def
        storeStart_def sections_wire_secs)
qed

abbreviation ext_dir :: "parOptions \<Rightarrow> bytes" where
  "ext_dir opts \<equiv> if po_NoExtensions opts then [] else Join [po_OutDir opts, go_string ''extensions'']"

abbreviation tmp_dir :: "parOptions \<Rightarrow> bytes" where
  "tmp_dir opts \<equiv> Join [po_OutDir opts, go_string ''ingest-tmp'']"

text \<open>
  The ring at the end of stage 1, of the size \<open>ImportParallel\<close> gives it: it has taken the whole stream
  and holds what follows the last store.  The pins of the item readers keep the latter (the worker
  never commits the item at which it stops); a tail that does not fit keeps the former from happening.
\<close>

definition ring_took :: "parOptions \<Rightarrow> (bytes \<times> tree option) list \<Rightarrow> snapItem list \<Rightarrow> 'z chunkRing \<times> bytes \<Rightarrow> bool" where
  "ring_took opts ss its ring \<longleftrightarrow> ring_reachable ring \<and> cr_chunkSize (fst ring) = ringChunkSize \<and>
     cr_maxBytes (fst ring) = sint (ringMaxBytes (po_ChunkMB opts)) \<and> snd ring = items_wire its \<and>
     cr_head (fst ring) \<le> int (storeStart ss (length ss))"

definition segs_of :: "(bytes \<times> tree option) list \<Rightarrow> bytes \<Rightarrow> (nat \<Rightarrow> nat) \<Rightarrow> (bytes \<times> bytes) list" where
  "segs_of ss bs reached =
     map (\<lambda>(i, e). (se_Name e, segmentBytes bs e (reached i))) (enumerate 0 (map bare_entry (entries_of 0 (secs ss))))"

lemma nth_map_enumerate: "i < length xs \<Longrightarrow> map (\<lambda>(i, e). f i e) (enumerate 0 xs) ! i = f i (xs ! i)"
  by (simp add: nth_enumerate_eq)

lemma segs_of_nth:
  assumes "stream_ok ss es its" and "i < length ss"
  shows "segs_of ss (items_wire its) reached ! i = (fst (ss ! i), items_wire (store_items (ss ! i)) @
      take (reached i - storeStart ss (Suc i)) (items_wire (tail_items ss (concat (map ext_items es)) i)))"
proof -
  let ?E = "map bare_entry (entries_of 0 (secs ss))"
  have i: "i < length ?E" using assms(2) by (simp add: length_entries secs_def)
  have its: "its = concat (map store_items ss) @ concat (map ext_items es)" using assms(1) by (simp add: stream_ok_def)
  have name: "se_Name (?E ! i) = fst (ss ! i)" unfolding emitted_entry [OF assms(2)] by (simp add: newEntry_def)
  show ?thesis unfolding segs_of_def its nth_map_enumerate [OF i] name segmentBytes_store [OF assms(2)] ..
qed

lemma tail_stage:
  assumes "stream_ok ss es its" and "runExts X (newExtensionWriter (ext_dir opts)) fs its = Inr (e, fs')"
    and "extStart = (if concat (map ext_items es) = [] then 0 else int (storeStart ss (length ss)))" and "ring_took opts ss its ring"
  shows "(if \<not> po_NoExtensions opts \<and> 0 < extStart
      then stage3ExtensionsFromRing X (ext_dir opts) ring extStart (int (length (items_wire its))) fs
      else Some (Ok fs)) = Some (Ok fs')"
proof (cases "po_NoExtensions opts")
  case True
  then show ?thesis using runExts_nodir [OF assms(2)] by (simp add: newExtensionWriter_def)
next
  case False
  define x where "x = concat (map ext_items es)"
  have its: "its = concat (map store_items ss) @ x" using assms(1) by (simp add: stream_ok_def x_def)
  have run: "runExts X (newExtensionWriter (ext_dir opts)) fs x = Inr (e, fs')" using assms(2) unfolding its runExts_stores .
  have start: "extStart = (if x = [] then 0 else int (storeStart ss (length ss)))" using assms(3) unfolding x_def .
  show ?thesis
  proof (cases "x = []")
    case True
    with run show ?thesis using start by simp
  next
    case x: False
    have "0 < storeStart ss (length ss)"
      using assms(1) length_PutUvarint(1) by (cases ss) (auto simp: stream_ok_def storeStart_def item_wire_def)
    moreover have "drop (storeStart ss (length ss)) (items_wire its) = items_wire x"
        "length (items_wire its) - storeStart ss (length ss) = length (items_wire x)"
      by (simp_all add: its storeStart_def)
    moreover have rd: "readItems (newSnapReader (items_wire x) True) = Some (x, NextEOF)"
      using stream_okD(4,5) [OF assms(1)] unfolding x_def by (rule readItems_wire)
    ultimately show ?thesis
      using False x run start assms(4)
      by (simp add: ring_took_def NewReader_def stage3ExtensionsFromRing_def stage3Loop_items [OF rd stream_okD(3) [OF assms(1), folded x_def]])
  qed
qed

context pebble_live
begin

lemma ImportParallel_ok:
  fixes r :: "'y io_reader"
  assumes "stream_ok ss es its" and "delivered r = Some (items_wire its)" and "valid_opts opts complete"
    and "\<forall>i < length ss. read_ahead_ok (items_wire its) (storeStart ss (Suc i)) (reached i)" and "\<And>rs. mset (order rs) = mset rs"
    and "ring_took opts ss its ring"
  shows "\<exists>db' e fs'. ImportParallel P X opts complete r ring reached sched order db fs = Some (Ok (map info_of ss, db', fs')) \<and>
    db_content db' = (db_content db ++ map_of (storesLog (po_Height opts) ss))
      (commitInfoKey (po_Height opts) \<mapsto> commitInfoBytes (po_Height opts) (map info_of ss),
       latestVersionKey \<mapsto> latestVersionBytes (po_Height opts)) \<and>
    runExts X (newExtensionWriter (ext_dir opts)) fs its = Inr (e, fs')"
proof -
  let ?x = "concat (map ext_items es)" and ?segs = "segs_of ss (items_wire its) reached"
  note D = stream_okD [OF assms(1)]
  have its: "its = concat (map store_items ss) @ ?x" and sorted: "sorted_wrt (<) (map fst ss)"
    using assms(1) by (simp_all add: stream_ok_def)
  from stage1_stream [OF assms(1,2)] obtain idx where
    s1: "stage1WriteRingAndIndex r = Inr (idx, \<lparr>s1_ends = [], s1_emitted = map bare_entry (entries_of 0 (secs ss))\<rparr>)"
      "sx_ExtStart idx = (if ?x = [] then 0 else int (storeStart ss (length ss)))" "sx_TotalBytes idx = int (length (items_wire its))"
    by blast
  have "list_all2 segment_of ss ?segs"
    unfolding list_all2_conv_all_nth
  proof (intro conjI allI impI)
    show "length ss = length ?segs" by (simp add: segs_of_def length_entries secs_def)
    fix i assume i: "i < length ss"
    have "boundary (take (reached i - storeStart ss (Suc i)) (items_wire (tail_items ss ?x i)))"
      using tail_boundary [OF D(1,4,5,3) i] assms(4) i its by simp
    then show "segment_of (ss ! i) (?segs ! i)" by (auto simp: segment_of_def segs_of_nth [OF assms(1) i])
  qed
  from stage2_ok [where order = order, OF this D(1,2) assms(5), of "po_FastIngest opts" "tmp_dir opts" "po_Height opts" sched db] obtain infos db1 where
    s2: "stage2RunWorkersFromChan P (po_FastIngest opts) (tmp_dir opts) (po_Height opts) sched order ?segs db = Some (Ok (infos, db1))"
      "mset infos = mset (map info_of ss)" "db_content db1 = db_content db ++ map_of (storesLog (po_Height opts) ss)" by blast
  note sort = sort_infos [OF sorted s2(2)]
  obtain db2 where db2: "writeFinal P (po_Height opts) (map info_of ss) db1 = (Ok db2 :: (('y, 'e) par_error, 'db) outcome)"
    "db_content db2 = (db_content db1)(commitInfoKey (po_Height opts) \<mapsto> commitInfoBytes (po_Height opts) (map info_of ss),
       latestVersionKey \<mapsto> latestVersionBytes (po_Height opts))" using writeFinal_live by blast
  obtain e fs' where ext: "runExts X (newExtensionWriter (ext_dir opts)) fs its = Inr (e, fs')" using runExts_live by blast
  have took: "snd ring = items_wire its" using assms(6) by (simp add: ring_took_def)
  note tail = tail_stage [OF assms(1) ext s1(2) assms(6)]
  have "ImportParallel P X opts complete r ring reached sched order db fs = Some (Ok (map info_of ss, db2, fs'))"
    unfolding ImportParallel_def s1(1) Let_def sum.case prod.case stage1State.simps segs_of_def [symmetric] s2(1)
      option.case outcome.case sort s1(3) tail took
    using assms(3) by (simp add: valid_opts_def validateParallel_def db2(1))
  with db2(2) s2(3) ext show ?thesis by (intro exI [of _ db2] exI [of _ e] exI [of _ fs']) simp
qed

end

section \<open>A reader caught inside the next envelope\<close>

lemma collectResults_Inl: "collectResults (Inl e) rs = Inl e"
  by (induction rs) simp_all

lemma collectResults_fails:
  "Inl e \<in> set rs \<Longrightarrow> \<exists>e. collectResults acc rs = Inl e"
proof (induction rs arbitrary: acc)
  case (Cons x rs)
  then show ?case
    by (cases acc; cases x) (auto simp: collectResults_Inl)
qed simp

context pebble_live
begin

text \<open>A worker whose reader was stopped anywhere behind the store's end finishes or reports an error.\<close>

lemma segment_any:
  assumes "store_ok x" and "list_all item_ok its" and "list_all item_small its" and "its = [] \<or> \<not> is_iavl (hd its)"
    and "input = items_wire (store_items x) @ take j (items_wire its)" and "db_content db = Map.empty"
  shows "(\<exists>res. processStoreSegment P fast tmp height (fst x) db input = Some (Ok res)) \<or>
    (\<exists>e. processStoreSegment P fast tmp height (fst x) db input = Some (Fail e))"
    and "0 < j \<Longrightarrow> its \<noteq> [] \<Longrightarrow> j < length (item_wire (hd its)) \<Longrightarrow>
      \<exists>e. processStoreSegment P fast tmp height (fst x) db input = Some (Fail e)"
proof -
  obtain name t where x: "x = (name, t)" by (cases x)
  have ok: "slash \<notin> set name" "wf_store t" "sorted_wrt (<) (store_keys t)" "list_all item_small (store_items (name, t))"
    using assms(1) by (simp_all add: store_ok_def x)
  have short: "\<exists>e. processStoreSegment P fast tmp height (fst x) db input = Some (Fail e)"
    if "0 < j" "its \<noteq> []" "j < length (item_wire (hd its))"
  proof -
    note h = that
    obtain it its' where its: "its = it # its'" using h(2) by (cases its) auto
    with assms(5) h x have "input = items_wire (store_items (name, t)) @ take j (item_wire it)" by simp
    from segment_short [OF ok(1-3) assms(6) this ok(4), of fast tmp height] h its assms(3) show ?thesis unfolding x by auto
  qed
  then show "0 < j \<Longrightarrow> its \<noteq> [] \<Longrightarrow> j < length (item_wire (hd its)) \<Longrightarrow>
      \<exists>e. processStoreSegment P fast tmp height (fst x) db input = Some (Fail e)" .
  show "(\<exists>res. processStoreSegment P fast tmp height (fst x) db input = Some (Ok res)) \<or>
    (\<exists>e. processStoreSegment P fast tmp height (fst x) db input = Some (Fail e))"
  proof (cases "0 < j \<and> its \<noteq> [] \<and> j < length (item_wire (hd its))")
    case False
    then have "boundary (take j (items_wire its))"
      using assms(2-4) by (cases its; cases "j = 0") (auto simp: boundary_def)
    from segment_ok [OF ok(1-3) assms(6) assms(5) [unfolded x] ok(4) this, of fast tmp height] show ?thesis unfolding x by auto
  qed (use short in blast)
qed

lemma stage2_fails:
  assumes "\<forall>(name, input) \<in> set segs. (\<exists>res. processStoreSegment (queued P db) fast tmp height name [] input = Some (Ok res)) \<or>
      (\<exists>e. processStoreSegment (queued P db) fast tmp height name [] input = Some (Fail e))"
    and "i < length segs" and "processStoreSegment (queued P db) fast tmp height (fst (segs ! i)) [] (snd (segs ! i)) = Some (Fail e)"
    and "\<And>rs. mset (order rs) = mset rs"
  shows "\<exists>p. stage2RunWorkersFromChan P fast tmp height sched order segs db = Some (Fail p)"
proof -
  let ?res = "map (\<lambda>(name, input). processStoreSegment (queued P db) fast tmp height name [] input) segs"
  have none: "None \<notin> set ?res" "Some Panic \<notin> set ?res" using assms(1) by fastforce+
  obtain errs db1 where ex: "execOps P (interleave sched (map segmentOps (map the ?res))) Map.empty db = (errs, db1)" by fastforce
  let ?rs = "map (workerResult errs) (enumerate 0 (zip (map fst segs) (map the ?res)))"
  have i: "i < length ?rs" using assms(2) by simp
  have "?rs ! i = Inl (fst (segs ! i), e)"
    using assms(2,3) by (simp add: nth_enumerate_eq workerResult_def case_prod_beta)
  then have "Inl (fst (segs ! i), e) \<in> set ?rs" using nth_mem [OF i] by simp
  then have "Inl (fst (segs ! i), e) \<in> set (order ?rs)" using mset_eq_setD [OF assms(4) [of ?rs]] by blast
  from collectResults_fails [OF this, of "Inr []"] obtain p where p: "collectResults (Inr []) (order ?rs) = Inl p" by blast
  show ?thesis
    unfolding stage2RunWorkersFromChan_def Let_def ex prod.case p sum.case using none by (simp del: set_map)
qed

end

text \<open>
  Whatever the other workers do, a reader stopped inside the first envelope behind its store makes
  stage 2 fail.
\<close>

lemma reader_race_fails:
  assumes "pebble_live P db_content batch_of writer_of file_of X"
    and "stream_ok ss es its" and "delivered r = Some (items_wire its)" and "valid_opts opts complete"
    and "i < length ss" and "storeStart ss (Suc i) < reached i"
    and "reached i < storeStart ss (Suc i) + envelopeLen (drop (storeStart ss (Suc i)) (items_wire its))"
    and "\<And>rs. mset (order rs) = mset rs" and "ring_took opts ss its ring"
  shows "\<exists>name e. ImportParallel P X opts complete r ring reached sched order db fs = Some (Fail (Stage2 name e))"
proof -
  let ?x = "concat (map ext_items es)" and ?segs = "segs_of ss (items_wire its) reached" and ?fast = "po_FastIngest opts"
  note D = stream_okD [OF assms(2)] and q = pebble_live_queued [OF assms(1), of db]
  have its: "its = concat (map store_items ss) @ ?x" using assms(2) unfolding stream_ok_def by blast
  from stage1_stream [OF assms(2,3)] obtain idx where
    s1: "stage1WriteRingAndIndex r = Inr (idx, \<lparr>s1_ends = [], s1_emitted = map bare_entry (entries_of 0 (secs ss))\<rparr>)" by blast
  have took: "snd ring = items_wire its" using assms(9) by (simp add: ring_took_def)
  have len: "length ?segs = length ss" by (simp add: segs_of_def length_entries secs_def)
  have head: "tail_items ss ?x j = [] \<or> \<not> is_iavl (hd (tail_items ss ?x j))" for j
    using tail_items_head [OF D(3)] by (cases "tail_items ss ?x j") auto
  have st: "store_ok (ss ! j)" if "j < length ss" for j using D(1) that by (simp add: list_all_length)
  note any = pebble_live.segment_any [OF q _ tail_items_ok [OF D(1,4,5)] head]
  have all: "\<forall>(name, input) \<in> set ?segs.
      (\<exists>res. processStoreSegment (queued P db) ?fast (tmp_dir opts) (po_Height opts) name [] input = Some (Ok res)) \<or>
      (\<exists>e. processStoreSegment (queued P db) ?fast (tmp_dir opts) (po_Height opts) name [] input = Some (Fail e))"
  proof (intro ballI)
    fix seg assume "seg \<in> set ?segs"
    then obtain j where j: "j < length ss" "seg = ?segs ! j" using len by (metis in_set_conv_nth)
    from any(1) [OF st [OF j(1)] refl, of "[]" ?fast "tmp_dir opts" "po_Height opts"] show "case seg of (name, input) \<Rightarrow>
      (\<exists>res. processStoreSegment (queued P db) ?fast (tmp_dir opts) (po_Height opts) name [] input = Some (Ok res)) \<or>
      (\<exists>e. processStoreSegment (queued P db) ?fast (tmp_dir opts) (po_Height opts) name [] input = Some (Fail e))"
      unfolding j(2) segs_of_nth [OF assms(2) j(1)] by simp
  qed
  have R: "drop (storeStart ss (Suc i)) (items_wire its) = items_wire (tail_items ss ?x i)" unfolding its by (rule stream_split(2) [OF assms(5)])
  have "tail_items ss ?x i \<noteq> []" using assms(6,7) unfolding R by (auto simp: envelopeLen_def ReadUvarint_def ReadUvarint_loop.simps)
  then obtain it rest where tl: "tail_items ss ?x i = it # rest" by (cases "tail_items ss ?x i") auto
  have "reached i - storeStart ss (Suc i) < length (item_wire it)"
    using assms(6,7) tail_items_ok(2) [OF D(1,4,5), of i] unfolding R by (simp add: tl envelopeLen_item)
  with any(2) [OF st [OF assms(5)] refl, of "[]" "reached i - storeStart ss (Suc i)" i ?fast "tmp_dir opts" "po_Height opts"] assms(6) tl obtain e where
    e: "processStoreSegment (queued P db) ?fast (tmp_dir opts) (po_Height opts) (fst (?segs ! i)) [] (snd (?segs ! i)) = Some (Fail e)"
    unfolding segs_of_nth [OF assms(2,5)] by auto
  from pebble_live.stage2_fails [OF assms(1) all _ e assms(8)] len assms(5) obtain n e' where
    "stage2RunWorkersFromChan P ?fast (tmp_dir opts) (po_Height opts) sched order ?segs db = Some (Fail (n, e'))" by force
  then have "ImportParallel P X opts complete r ring reached sched order db fs = Some (Fail (Stage2 n e'))"
    unfolding ImportParallel_def s1 Let_def sum.case prod.case stage1State.simps took segs_of_def [symmetric]
    using assms(4) by (simp add: valid_opts_def validateParallel_def)
  then show ?thesis by blast
qed

text \<open>
  C33. The end of a store reaches its reader through \<open>SetEnd\<close> from another goroutine.  When this happens
  while the reader has taken part of the first envelope behind the store, but not all of it, the next
  read gives \<open>io.EOF\<close> in the middle of that envelope: the worker reports an error and the import
  fails, on a well-formed stream, a working pebble and file system, and whatever the other workers do.
\<close>

theorem segment_reader_race:
  assumes "pebble_live P db_content batch_of writer_of file_of X"
    and "stream_ok ss es its" and "delivered r = Some (items_wire its)" and "valid_opts opts complete"
    and "i < length ss" and "storeStart ss (Suc i) < reached i"
    and "reached i < storeStart ss (Suc i) + envelopeLen (drop (storeStart ss (Suc i)) (items_wire its))"
    and "\<And>rs. mset (order rs) = mset rs" and "ring_took opts ss its ring"
  shows "\<exists>name e. ImportParallel P X opts complete r ring reached sched order db fs = Some (Fail (Stage2 name e))"
  using assms(8) by (intro reader_race_fails [OF assms(1-5), of reached, OF assms(6,7) _ assms(9)])

section \<open>Parallel and sequential import\<close>


section \<open>Witnesses\<close>

definition ex_stores :: "(bytes \<times> tree option) list" where
  "ex_stores = [([0x61], Some (Leaf 3 [1] [9])), ([0x62], None)]"

definition ex_items :: "snapItem list" where
  "ex_items = [StoreItem [0x61], IAVLItem (Some [1]) (Some [9]) 3 0, StoreItem [0x62]]"

definition ex_opts :: parOptions where
  "ex_opts = \<lparr>po_SnapshotDir = [0x73], po_OutDir = [0x6f], po_Height = 7, po_ChunkMB = 0, po_NoExtensions = False, po_FastIngest = True, po_AllowIncomplete = False\<rparr>"

lemma ex_items_wire: "items_wire ex_items = [5, 10, 3, 10, 1, 97, 10, 18, 8, 10, 1, 1, 18, 1, 9, 24, 3, 5, 10, 3, 10, 1, 98]"
  by (simp add: ex_items_def item_wire_def item_body_def appendBytesField_def appendUvarintField_def enc_fields_def opt_defs
      field_tag_def PutUvarint.simps)

lemma ex_stream_ok: "stream_ok ex_stores [] ex_items"
  by (simp add: stream_ok_def ex_items_wire) (simp add: ex_items_def ex_stores_def store_ok_def item_small_def item_body_def
      appendBytesField_def appendUvarintField_def enc_fields_def opt_defs PutUvarint.simps)

definition ex_ring :: "unit chunkRing \<times> bytes" where
  "ex_ring = (filledRing ringChunkSize (sint (ringMaxBytes 0)) (items_wire ex_items), items_wire ex_items)"

lemma ex_ring_took: "ring_took ex_opts ex_stores ex_items ex_ring"
proof -
  have "ring_reachable ex_ring" unfolding ex_ring_def
    by (rule filledRing_reachable) (simp_all add: ex_items_wire ringChunkSize_def ringMaxBytes_def Let_def)
  then show ?thesis by (simp add: ring_took_def ex_ring_def ex_opts_def filledRing_def)
qed

lemma ex_storeStart: "storeStart ex_stores (Suc 0) = 17"
  using ex_items_wire
  by (simp add: storeStart_def ex_stores_def ex_items_def item_wire_def item_body_def appendBytesField_def appendUvarintField_def
      enc_fields_def opt_defs field_tag_def PutUvarint.simps)


theorem segment_reader_race_witness:
  "\<exists>name e. ImportParallel mem_pebble mem_files ex_opts True [(items_wire ex_items, Some (IoEOF :: unit io_error))] ex_ring
      (\<lambda>_. 18) [] (\<lambda>rs. rs) Map.empty Map.empty = Some (Fail (Stage2 name e))"
proof -
  have "envelopeLen (drop 17 (items_wire ex_items)) = 6"
    by (simp add: ex_items_wire envelopeLen_def ReadUvarint_def ReadUvarint_loop.simps)
  with segment_reader_race [OF mem.pebble_live_axioms ex_stream_ok, where r = "[(items_wire ex_items, Some (IoEOF :: unit io_error))]"
      and opts = ex_opts and complete = True and i = 0 and reached = "\<lambda>_. 18" and order = "\<lambda>rs. rs" and sched = "[]"
      and db = Map.empty and fs = Map.empty]
  show ?thesis using ex_ring_took by (simp add: valid_opts_def ex_opts_def ex_storeStart ex_stores_def [THEN arg_cong [of _ _ length]])
qed

end
