(* ===== verification/SnapMeta.thy ===== *)
theory SnapMeta
  imports ChunkWriter
begin

unbundle bit_operations_syntax

text \<open>
  The snapshot metadata blob, \<open>repeated bytes chunk_hashes = 1\<close>: the two hand-rolled decoders,
  \<open>parseChunkHashes\<close> of \<open>internal/snapfetch/helpers.go\<close> and \<open>ParseChunkHashes\<close> of
  \<open>internal/snapshotinspect/inspect.go\<close>, against the encoder of the differ, and \<open>encoding/hex\<close>.
\<close>

section \<open>Hexadecimal\<close>

text \<open>\<open>hex.DecodeString\<close>: \<open>None\<close> for an odd length or a byte that is no digit.\<close>

definition fromHexChar :: "byte \<Rightarrow> byte option" where
  "fromHexChar c =
     (if 48 \<le> c \<and> c \<le> 57 then Some (c - 48)
      else if 97 \<le> c \<and> c \<le> 102 then Some (c - 87)
      else if 65 \<le> c \<and> c \<le> 70 then Some (c - 55)
      else None)"

fun hex_decode :: "bytes \<Rightarrow> bytes option" where
  "hex_decode [] = Some []"
| "hex_decode [c] = None"
| "hex_decode (c # d # cs) =
     (case (fromHexChar c, fromHexChar d, hex_decode cs) of
        (Some a, Some b, Some bs) \<Rightarrow> Some ((push_bit 4 a OR b) # bs)
      | _ \<Rightarrow> None)"

lemma hex_digits_table: "list_all (\<lambda>n. fromHexChar (hex_digit (of_nat n)) = Some (of_nat n)) [0..<16]"
  by code_simp

lemma fromHexChar_hex_digit: "d < 16 \<Longrightarrow> fromHexChar (hex_digit d) = Some d"
proof -
  assume "d < 16"
  then have "unat d < 16" by (simp add: word_less_nat_alt)
  then have "fromHexChar (hex_digit (of_nat (unat d))) = Some (of_nat (unat d))"
    using hex_digits_table unfolding list_all_iff set_upt by (metis atLeastLessThan_iff zero_le)
  then show ?thesis by simp
qed

lemma nibbles:
  fixes b :: byte
  shows "drop_bit 4 b < 16" and "take_bit 4 b < 16" and "push_bit 4 (drop_bit 4 b) OR take_bit 4 b = b"
proof -
  have "unat b < 256" using unsigned_less [of b, where ?'a = nat] by simp
  then have "unat (drop_bit 4 b) < 16" by (simp only: unat_drop_bit_eq) (simp add: drop_bit_eq_div)
  then show "drop_bit 4 b < 16" by (simp add: word_less_nat_alt)
  have "unat (take_bit 4 b) < 16" by (simp only: unsigned_take_bit_eq) (simp add: take_bit_eq_mod)
  then show "take_bit 4 b < 16" by (simp add: word_less_nat_alt)
  show "push_bit 4 (drop_bit 4 b) OR take_bit 4 b = b" by (auto intro!: bit_word_eqI simp: bit_simps)
qed

lemma hex_roundtrip [simp]: "hex_decode (hex_encode bs) = Some bs"
proof (induction bs)
  case (Cons b bs)
  then show ?case by (simp add: hex_encode_def fromHexChar_hex_digit nibbles)
qed (simp add: hex_encode_def)

section \<open>The two decoders\<close>

datatype meta_error = UnexpectedTag byte nat | BadVarint nat | HashExtends

text \<open>
  One record from offset \<open>i\<close>: its hash and the offset behind it.  \<open>int(length)\<close> is negative from \<open>2 ^ 63\<close>
  on and the sum with \<open>i\<close> wraps, so the bounds check can pass with an end before the start; the slice
  expression of one decoder and the \<open>make\<close> of the other panic then.
\<close>

definition chunkHashAt :: "bytes \<Rightarrow> nat \<Rightarrow> (meta_error, bytes \<times> nat) outcome" where
  "chunkHashAt md i =
     (if md ! i \<noteq> 0x0A then Fail (UnexpectedTag (md ! i) i)
      else let i = i + 1; (len, n) = Uvarint (drop i md) in
        if n \<le> 0 then Fail (BadVarint i)
        else let i = i + nat n; e = wrap64 (int i + sint len) in
          if int (length md) < e then Fail HashExtends
          else if e < int i then Panic
          else Ok (take (nat e - i) (drop i md), nat e))"

lemma chunkHashAt_bounds:
  assumes "chunkHashAt md i = Ok (h, e)" and "i < length md"
  shows "i < e" and "e \<le> length md"
proof -
  obtain len n where u: "Uvarint (drop (i + 1) md) = (len, n)" by (cases "Uvarint (drop (i + 1) md)")
  with assms(1) show "i < e" "e \<le> length md" by (auto simp: chunkHashAt_def Let_def split: if_splits)
qed

function parseChunkHashes_loop :: "bytes \<Rightarrow> nat \<Rightarrow> bytes list \<Rightarrow> (meta_error, bytes list) outcome" where
  "parseChunkHashes_loop md i out =
     (if length md \<le> i then Ok out
      else case chunkHashAt md i of
          Fail e \<Rightarrow> Fail e
        | Panic \<Rightarrow> Panic
        | Ok (h, i) \<Rightarrow> parseChunkHashes_loop md i (out @ [h]))"
  by pat_completeness auto
termination
  by (relation "measure (\<lambda>(md, i, _). length md - i)") (auto dest: chunkHashAt_bounds)

text \<open>\<open>ParseChunkHashes\<close> has a record parser of its own, which slices and encodes in one expression.\<close>

definition hexHashAt :: "bytes \<Rightarrow> nat \<Rightarrow> (meta_error, bytes \<times> nat) outcome" where
  "hexHashAt metadata i =
     (if metadata ! i \<noteq> 0x0A then Fail (UnexpectedTag (metadata ! i) i)
      else let i = i + 1 in
        case Uvarint (drop i metadata) of (len, n) \<Rightarrow>
          if n \<le> 0 then Fail (BadVarint i)
          else let i = i + nat n; end = wrap64 (int i + sint len) in
            if int (length metadata) < end then Fail HashExtends
            else if end < int i then Panic
            else Ok (hex_encode (take (nat end - i) (drop i metadata)), nat end))"

lemma hexHashAt_eq: "hexHashAt md i = map_outcome (\<lambda>e. e) (\<lambda>(h, e). (hex_encode h, e)) (chunkHashAt md i)"
  by (auto simp: hexHashAt_def chunkHashAt_def Let_def split: prod.split)

lemma hexHashAt_bounds:
  assumes "hexHashAt md i = Ok (h, e)" and "i < length md"
  shows "i < e" and "e \<le> length md"
proof -
  from assms(1) obtain h' where "chunkHashAt md i = Ok (h', e)"
    unfolding hexHashAt_eq by (cases "chunkHashAt md i") auto
  then show "i < e" "e \<le> length md" using chunkHashAt_bounds assms(2) by blast+
qed

function ParseChunkHashes_loop :: "bytes \<Rightarrow> nat \<Rightarrow> bytes list \<Rightarrow> (meta_error, bytes list) outcome" where
  "ParseChunkHashes_loop md i out =
     (if length md \<le> i then Ok out
      else case hexHashAt md i of
          Fail e \<Rightarrow> Fail e
        | Panic \<Rightarrow> Panic
        | Ok (h, i) \<Rightarrow> ParseChunkHashes_loop md i (out @ [h]))"
  by pat_completeness auto
termination
  by (relation "measure (\<lambda>(md, i, _). length md - i)") (auto dest: hexHashAt_bounds)

declare parseChunkHashes_loop.simps [simp del] ParseChunkHashes_loop.simps [simp del]

definition parseChunkHashes :: "bytes \<Rightarrow> (meta_error, bytes list) outcome" where
  "parseChunkHashes metadata = parseChunkHashes_loop metadata 0 []"

definition ParseChunkHashes :: "bytes \<Rightarrow> (meta_error, bytes list) outcome" where
  "ParseChunkHashes metadata = ParseChunkHashes_loop metadata 0 []"

section \<open>Agreement and round trip\<close>

lemma parsers_loop_agree:
  "ParseChunkHashes_loop md i (hexHashes out) = map_outcome (\<lambda>e. e) hexHashes (parseChunkHashes_loop md i out)"
proof (induction md i out rule: parseChunkHashes_loop.induct)
  case (1 md i out)
  show ?case
  proof (cases "length md \<le> i")
    case False
    have "ParseChunkHashes_loop md e (hexHashes out @ [hex_encode h]) = map_outcome (\<lambda>e. e) hexHashes (parseChunkHashes_loop md e (out @ [h]))"
      if "chunkHashAt md i = Ok (h, e)" for h e
      using "1.IH" [OF False that refl] by (metis hexHashes_def list.simps(8,9) map_append)
    with False show ?thesis
      by (cases "chunkHashAt md i")
        (auto simp: parseChunkHashes_loop.simps [of md i] ParseChunkHashes_loop.simps [of md i] hexHashAt_eq)
  qed (simp add: parseChunkHashes_loop.simps [of md i] ParseChunkHashes_loop.simps [of md i])
qed

definition hash_record :: "bytes \<Rightarrow> bytes" where
  "hash_record h = 0x0a # PutUvarint (of_nat (length h)) @ h"

lemma encodeMetadataProto_simps [simp]:
  "encodeMetadataProto [] = []" "encodeMetadataProto (h # hs) = hash_record h @ encodeMetadataProto hs"
  by (simp_all add: encodeMetadataProto_def hash_record_def)

lemma length_hash_record: "length (hash_record h) = Suc (length (PutUvarint (of_nat (length h))) + length h)"
  by (simp add: hash_record_def)

lemma chunkHashAt_record:
  assumes "int (length (pre @ hash_record h @ rest)) < 2 ^ 63"
  shows "chunkHashAt (pre @ hash_record h @ rest) (length pre) = Ok (h, length pre + length (hash_record h))"
proof -
  let ?u = "PutUvarint (of_nat (length h))" and ?md = "pre @ hash_record h @ rest"
  have len: "int (length h) < 2 ^ 63" using assms by (simp add: length_hash_record)
  then have s: "sint (of_nat (length h) :: u64) = int (length h)"
    by (simp add: sint_of_nat_u64)
  have pos: "0 < length ?u" by (rule length_PutUvarint(1))
  let ?i = "length pre + 1 + length ?u"
  have w: "wrap64 (int ?i + int (length h)) = int (?i + length h)"
    using assms by (subst wrap64_id) (simp_all add: length_hash_record)
  have "drop (Suc (length pre)) ?md = ?u @ h @ rest" and "drop ?i ?md = h @ rest"
    by (simp_all add: hash_record_def)
  moreover have "length ?md = ?i + length h + length rest" by (simp add: length_hash_record)
  moreover have "?md ! length pre = 0x0A" by (simp add: hash_record_def)
  ultimately show ?thesis
    using s w pos by (simp add: chunkHashAt_def Let_def length_hash_record)
qed

lemma parse_encoded_from:
  assumes "int (length (pre @ encodeMetadataProto hs)) < 2 ^ 63"
  shows "parseChunkHashes_loop (pre @ encodeMetadataProto hs) (length pre) out = Ok (out @ hs)"
  using assms
proof (induction hs arbitrary: pre out)
  case Nil
  then show ?case by (simp add: parseChunkHashes_loop.simps)
next
  case (Cons h hs)
  let ?md = "pre @ hash_record h @ encodeMetadataProto hs"
  have at: "chunkHashAt ?md (length pre) = Ok (h, length pre + length (hash_record h))"
    using Cons.prems by (intro chunkHashAt_record) simp
  have "parseChunkHashes_loop ((pre @ hash_record h) @ encodeMetadataProto hs) (length (pre @ hash_record h)) (out @ [h]) = Ok ((out @ [h]) @ hs)"
    using Cons.prems by (intro Cons.IH) simp
  with at show ?case by (simp add: parseChunkHashes_loop.simps [of ?md "length pre"] length_hash_record)
qed

lemma parse_encoded: "int (length (encodeMetadataProto hs)) < 2 ^ 63 \<Longrightarrow> parseChunkHashes (encodeMetadataProto hs) = Ok hs"
  using parse_encoded_from [of "[]" hs "[]"] by (simp add: parseChunkHashes_def)

lemma ParseChunkHashes_eq: "ParseChunkHashes md = map_outcome (\<lambda>e. e) hexHashes (parseChunkHashes md)"
  using parsers_loop_agree [of md 0 "[]"] by (simp add: ParseChunkHashes_def parseChunkHashes_def hexHashes_def)

section \<open>Properties\<close>

text \<open>
  C37. The two decoders of the snapshot metadata agree on every input, up to the hexadecimal form one of
  them returns, and read back what the differ's encoder writes.
\<close>

theorem chunk_hash_parsers_agree:
  "ParseChunkHashes md = map_outcome (\<lambda>e. e) hexHashes (parseChunkHashes md) \<and>
   (int (length (encodeMetadataProto hs)) < 2 ^ 63 \<longrightarrow>
      parseChunkHashes (encodeMetadataProto hs) = Ok hs \<and> ParseChunkHashes (encodeMetadataProto hs) = Ok (hexHashes hs))"
  using ParseChunkHashes_eq parse_encoded [of hs] by (auto simp: ParseChunkHashes_eq [of "encodeMetadataProto hs"])

theorem chunk_hash_parsers_agree_witness:
  "ParseChunkHashes (encodeMetadataProto [[1, 2], [3]]) = Ok (hexHashes [[1, 2], [3]])"
proof -
  have "int (length (encodeMetadataProto [[1, 2], [3]])) < 2 ^ 63" by (simp add: hash_record_def PutUvarint.simps)
  with chunk_hash_parsers_agree [of "[]" "[[1, 2], [3]]"] show ?thesis by blast
qed

text \<open>
  C38. A record whose length field is \<open>2 ^ 63\<close> or more makes both decoders panic, whatever records stand
  before it and whatever bytes follow.  The blob comes from a peer's snapshot offer.
\<close>

theorem metadata_length_panics:
  assumes "sint len < 0" and "int (length (encodeMetadataProto hs @ 0x0a # PutUvarint len @ rest)) < 2 ^ 63"
  shows "parseChunkHashes (encodeMetadataProto hs @ 0x0a # PutUvarint len @ rest) = Panic \<and>
    ParseChunkHashes (encodeMetadataProto hs @ 0x0a # PutUvarint len @ rest) = Panic"
proof -
  have "parseChunkHashes_loop (pre @ encodeMetadataProto hs @ 0x0a # PutUvarint len @ rest) (length pre) out = Panic"
    if "int (length (pre @ encodeMetadataProto hs @ 0x0a # PutUvarint len @ rest)) < 2 ^ 63" for pre out
    using that
  proof (induction hs arbitrary: pre out)
    case Nil
    let ?md = "pre @ 0x0a # PutUvarint len @ rest" and ?i = "length pre + 1 + length (PutUvarint len)"
    have "- (2 ^ 63) \<le> sint len" using sint_greater_eq [of len] by simp
    then have w: "wrap64 (int ?i + sint len) = int ?i + sint len" using Nil.prems assms(1) by (intro wrap64_id) simp_all
    have "chunkHashAt ?md (length pre) = Panic"
      using assms(1) w length_PutUvarint(1) [of len] Nil.prems by (simp add: chunkHashAt_def Let_def)
    then show ?case by (simp add: parseChunkHashes_loop.simps [of ?md])
  next
    case (Cons h hs)
    let ?rest = "encodeMetadataProto hs @ 0x0a # PutUvarint len @ rest"
    have at: "chunkHashAt (pre @ hash_record h @ ?rest) (length pre) = Ok (h, length pre + length (hash_record h))"
      using Cons.prems by (intro chunkHashAt_record) simp
    have "parseChunkHashes_loop ((pre @ hash_record h) @ ?rest) (length (pre @ hash_record h)) (out @ [h]) = Panic"
      using Cons.prems by (intro Cons.IH) simp
    with at show ?case by (simp add: parseChunkHashes_loop.simps [of "pre @ hash_record h @ ?rest" "length pre"] length_hash_record)
  qed
  from this [of "[]" "[]"] assms(2) have "parseChunkHashes (encodeMetadataProto hs @ 0x0a # PutUvarint len @ rest) = Panic"
    by (simp add: parseChunkHashes_def)
  then show ?thesis by (simp add: ParseChunkHashes_eq)
qed

theorem metadata_length_panics_witness:
  "parseChunkHashes (encodeMetadataProto [[7]] @ 0x0a # PutUvarint (2 ^ 63) @ []) = Panic"
  using metadata_length_panics [of "2 ^ 63" "[[7]]" "[]"] length_PutUvarint(2) [of "2 ^ 63"]
  by (simp add: length_hash_record PutUvarint.simps)

end
