(* ===== verification/SnapServe.thy ===== *)
theory SnapServe
  imports SnapMeta ChunkSched
begin

text \<open>
  Serving snapshots: the store of \<open>internal/snapserve/store.go\<close>, the catalogue that rescans a root
  directory (\<open>catalog.go\<close>), the reactor's side of it (\<open>internal/statesync/reactor.go\<close>), and the checks
  of \<open>internal/snapfetch\<close> on the other end of the wire (\<open>helpers.go\<close>, \<open>session.go\<close>).
  \<open>json.Unmarshal\<close> into \<open>metaJSON\<close> is an argument, as is what the file system answers.
\<close>

section \<open>Snapshot directories\<close>

datatype stat = Exists | NotExist | StatError

text \<open>A directory as the store sees it; \<open>sf_files\<close> has the files that can be read.\<close>

record snapFS =
  sf_isDir :: bool
  sf_complete :: stat
  sf_files :: "bytes \<rightharpoonup> bytes"

record loadedSnapshot =
  ld_Dir :: bytes
  ld_ChainID :: bytes
  ld_Height :: u64
  ld_Format :: u32
  ld_Chunks :: u32
  ld_Hash :: bytes
  ld_Metadata :: bytes

record metaJSON =
  mj_ChainID :: bytes
  mj_Height :: u64
  mj_Format :: u32
  mj_Chunks :: u32
  mj_HashHex :: bytes
  mj_MetadataLen :: int

datatype VerifyMode = VerifyMetadataOnly | VerifyAggregateHash | VerifyPerChunkHash

datatype load_error =
    MissingComplete | StatComplete | ReadMetadata | ParseMetadata meta_error | ReadMeta | ParseMeta | ZeroChunks
  | CountMismatch | MetadataLenMismatch | DecodeHash | HashSize | DecodeChunkHash nat
  | ReadChunk nat | ChunkMismatch nat | AggregateMismatch

section \<open>Loading\<close>

text \<open>The loop feeds the aggregate hasher and, in the strict mode, compares each chunk's own hash.\<close>

fun verifyChunks_loop :: "VerifyMode \<Rightarrow> (bytes \<rightharpoonup> bytes) \<Rightarrow> bytes list \<Rightarrow> nat list \<Rightarrow> bytes \<Rightarrow> (load_error, bytes) outcome" where
  "verifyChunks_loop mode files perChunk [] agg = Ok agg"
| "verifyChunks_loop mode files perChunk (i # is) agg =
     (case files (chunkFile i) of
        None \<Rightarrow> Fail (ReadChunk i)
      | Some b \<Rightarrow>
          if mode = VerifyPerChunkHash then
            if length perChunk \<le> i then Panic
            else if sha256 b \<noteq> perChunk ! i then Fail (ChunkMismatch i)
            else verifyChunks_loop mode files perChunk is (agg @ b)
          else verifyChunks_loop mode files perChunk is (agg @ b))"

definition verifyChunks :: "(bytes \<rightharpoonup> bytes) \<Rightarrow> u32 \<Rightarrow> bytes \<Rightarrow> bytes list \<Rightarrow> VerifyMode \<Rightarrow> (load_error, unit) outcome" where
  "verifyChunks files totalChunks wantAggregate perChunk mode =
     bind_outcome (verifyChunks_loop mode files perChunk [0..<unat totalChunks] [])
       (\<lambda>agg. if sha256 agg \<noteq> wantAggregate then Fail AggregateMismatch else Ok ())"

fun decodeHashes :: "nat \<Rightarrow> bytes list \<Rightarrow> (load_error, bytes list) outcome" where
  "decodeHashes i [] = Ok []"
| "decodeHashes i (h # hs) =
     (case hex_decode h of
        None \<Rightarrow> Fail (DecodeChunkHash i)
      | Some b \<Rightarrow> bind_outcome (decodeHashes (i + 1) hs) (\<lambda>bs. Ok (b # bs)))"

text \<open>The checks on \<open>meta.json\<close> against the decoded metadata, and the decoded hashes.\<close>

definition checkMeta :: "metaJSON \<Rightarrow> bytes \<Rightarrow> bytes list \<Rightarrow> (load_error, bytes \<times> bytes list) outcome" where
  "checkMeta meta md hexes =
     (if mj_Chunks meta = 0 then Fail ZeroChunks
      else if of_nat (length hexes) \<noteq> mj_Chunks meta then Fail CountMismatch
      else if mj_MetadataLen meta \<noteq> 0 \<and> mj_MetadataLen meta \<noteq> int (length md) then Fail MetadataLenMismatch
      else case hex_decode (mj_HashHex meta) of
          None \<Rightarrow> Fail DecodeHash
        | Some expected \<Rightarrow>
            if length expected \<noteq> 32 then Fail HashSize
            else bind_outcome (decodeHashes 0 hexes) (\<lambda>chunkHashes. Ok (expected, chunkHashes)))"

definition loadOne :: "(bytes \<Rightarrow> metaJSON option) \<Rightarrow> (bytes \<Rightarrow> snapFS) \<Rightarrow> bytes \<Rightarrow> VerifyMode \<Rightarrow> (load_error, loadedSnapshot) outcome" where
  "loadOne unmarshal fs dir mode =
     (case sf_complete (fs dir) of
        NotExist \<Rightarrow> Fail MissingComplete
      | StatError \<Rightarrow> Fail StatComplete
      | Exists \<Rightarrow>
          (case sf_files (fs dir) (go_string ''metadata.bin'') of
             None \<Rightarrow> Fail ReadMetadata
           | Some md \<Rightarrow>
               (case ParseChunkHashes md of
                  Panic \<Rightarrow> Panic
                | Fail e \<Rightarrow> Fail (ParseMetadata e)
                | Ok hexes \<Rightarrow>
                    (case sf_files (fs dir) (go_string ''meta.json'') of
                       None \<Rightarrow> Fail ReadMeta
                     | Some raw \<Rightarrow>
                         (case unmarshal raw of
                            None \<Rightarrow> Fail ParseMeta
                          | Some meta \<Rightarrow>
                              bind_outcome (checkMeta meta md hexes) (\<lambda>(expected, chunkHashes).
                              bind_outcome
                                (if mode \<noteq> VerifyMetadataOnly
                                 then verifyChunks (sf_files (fs dir)) (mj_Chunks meta) expected chunkHashes mode
                                 else Ok ())
                                (\<lambda>_. Ok \<lparr>ld_Dir = dir, ld_ChainID = mj_ChainID meta, ld_Height = mj_Height meta,
                                   ld_Format = mj_Format meta, ld_Chunks = mj_Chunks meta, ld_Hash = expected,
                                   ld_Metadata = md\<rparr>)))))))"

section \<open>The store\<close>

type_synonym Store = "loadedSnapshot list"

definition storeKey :: "u64 \<Rightarrow> u32 \<Rightarrow> bytes" where
  "storeKey height format = fmt_nat (unat height) @ go_string ''_'' @ fmt_nat (unat format)"

text \<open>\<open>sort.Slice\<close> leaves the order of equal heights open; here they keep theirs.\<close>

definition newStore :: "loadedSnapshot list \<Rightarrow> Store" where
  "newStore loaded = sort_key (\<lambda>s. - int (unat (ld_Height s))) loaded"

datatype store_error = NoDirs | AtDir bytes load_error | WrongChain bytes bytes | DuplicateKey bytes bytes | ScanRoot

fun LoadStore_loop :: "(bytes \<Rightarrow> metaJSON option) \<Rightarrow> (bytes \<Rightarrow> snapFS) \<Rightarrow> bytes \<Rightarrow> VerifyMode \<Rightarrow> bytes list \<Rightarrow>
    (bytes \<rightharpoonup> bytes) \<Rightarrow> loadedSnapshot list \<Rightarrow> (store_error, loadedSnapshot list) outcome" where
  "LoadStore_loop unmarshal fs chainID mode [] seen loaded = Ok loaded"
| "LoadStore_loop unmarshal fs chainID mode (dir # dirs) seen loaded =
     (case loadOne unmarshal fs dir mode of
        Panic \<Rightarrow> Panic
      | Fail e \<Rightarrow> Fail (AtDir dir e)
      | Ok s \<Rightarrow>
          if chainID \<noteq> [] \<and> ld_ChainID s \<noteq> chainID then Fail (WrongChain dir (ld_ChainID s))
          else let key = storeKey (ld_Height s) (ld_Format s) in
            (case seen key of
               Some prior \<Rightarrow> Fail (DuplicateKey prior dir)
             | None \<Rightarrow> LoadStore_loop unmarshal fs chainID mode dirs (seen(key \<mapsto> dir)) (loaded @ [s])))"

definition LoadStore :: "(bytes \<Rightarrow> metaJSON option) \<Rightarrow> (bytes \<Rightarrow> snapFS) \<Rightarrow> bytes list \<Rightarrow> bytes \<Rightarrow> VerifyMode \<Rightarrow>
    (store_error, Store) outcome" where
  "LoadStore unmarshal fs dirs chainID mode =
     (if dirs = [] then Fail NoDirs
      else bind_outcome (LoadStore_loop unmarshal fs chainID mode dirs Map.empty []) (\<lambda>loaded. Ok (newStore loaded)))"

text \<open>The scan of a root directory skips what it cannot serve.\<close>

fun LoadStoreFromRoot_loop :: "(bytes \<Rightarrow> metaJSON option) \<Rightarrow> (bytes \<Rightarrow> snapFS) \<Rightarrow> bytes \<Rightarrow> VerifyMode \<Rightarrow> bytes list \<Rightarrow>
    (bytes \<rightharpoonup> bytes) \<Rightarrow> loadedSnapshot list \<Rightarrow> (store_error, loadedSnapshot list) outcome" where
  "LoadStoreFromRoot_loop unmarshal fs chainID mode [] seen loaded = Ok loaded"
| "LoadStoreFromRoot_loop unmarshal fs chainID mode (dir # dirs) seen loaded =
     (if \<not> sf_isDir (fs dir) then LoadStoreFromRoot_loop unmarshal fs chainID mode dirs seen loaded
      else if sf_complete (fs dir) \<noteq> Exists then LoadStoreFromRoot_loop unmarshal fs chainID mode dirs seen loaded
      else case loadOne unmarshal fs dir mode of
          Panic \<Rightarrow> Panic
        | Fail e \<Rightarrow> LoadStoreFromRoot_loop unmarshal fs chainID mode dirs seen loaded
        | Ok s \<Rightarrow>
            if chainID \<noteq> [] \<and> ld_ChainID s \<noteq> chainID then LoadStoreFromRoot_loop unmarshal fs chainID mode dirs seen loaded
            else let key = storeKey (ld_Height s) (ld_Format s) in
              (case seen key of
                 Some prior \<Rightarrow> LoadStoreFromRoot_loop unmarshal fs chainID mode dirs seen loaded
               | None \<Rightarrow> LoadStoreFromRoot_loop unmarshal fs chainID mode dirs (seen(key \<mapsto> dir)) (loaded @ [s])))"

text \<open>\<open>entries\<close> is what \<open>os.ReadDir\<close> gives for the root, each name joined to it.\<close>

definition LoadStoreFromRoot :: "(bytes \<Rightarrow> metaJSON option) \<Rightarrow> (bytes \<Rightarrow> snapFS) \<Rightarrow> bytes list option \<Rightarrow> bytes \<Rightarrow> VerifyMode \<Rightarrow>
    (store_error, Store) outcome" where
  "LoadStoreFromRoot unmarshal fs entries chainID mode =
     (case entries of
        None \<Rightarrow> Fail ScanRoot
      | Some dirs \<Rightarrow>
          bind_outcome (LoadStoreFromRoot_loop unmarshal fs chainID mode dirs Map.empty []) (\<lambda>loaded. Ok (newStore loaded)))"

record Snapshot =
  sn_Height :: u64
  sn_Format :: u32
  sn_Chunks :: u32
  sn_Hash :: bytes
  sn_Metadata :: bytes

definition ListSnapshots :: "Store \<Rightarrow> Snapshot list" where
  "ListSnapshots store =
     map (\<lambda>ls. \<lparr>sn_Height = ld_Height ls, sn_Format = ld_Format ls, sn_Chunks = ld_Chunks ls, sn_Hash = ld_Hash ls,
       sn_Metadata = ld_Metadata ls\<rparr>) store"

datatype chunk_result = ChunkFound bytes | ChunkNotFound | ChunkReadErr nat

fun LoadChunk :: "(bytes \<Rightarrow> snapFS) \<Rightarrow> Store \<Rightarrow> u64 \<Rightarrow> u32 \<Rightarrow> u32 \<Rightarrow> chunk_result" where
  "LoadChunk fs [] height format index = ChunkNotFound"
| "LoadChunk fs (ls # rest) height format index =
     (if ld_Height ls \<noteq> height \<or> ld_Format ls \<noteq> format then LoadChunk fs rest height format index
      else if ld_Chunks ls \<le> index then ChunkNotFound
      else case sf_files (fs (ld_Dir ls)) (chunkFile (unat index)) of
          None \<Rightarrow> ChunkReadErr (unat index)
        | Some data \<Rightarrow> ChunkFound data)"

section \<open>The catalogue\<close>

definition fingerprintKey :: "loadedSnapshot \<Rightarrow> bytes" where
  "fingerprintKey ls =
     ld_ChainID ls @ go_string ''/'' @ fmt_nat (unat (ld_Height ls)) @ go_string ''/'' @ fmt_nat (unat (ld_Format ls)) @
     go_string ''/'' @ fmt_nat (unat (ld_Chunks ls)) @ go_string ''/'' @ hex_encode (ld_Hash ls)"

fun join_with :: "bytes \<Rightarrow> bytes list \<Rightarrow> bytes" where
  "join_with sep [] = []"
| "join_with sep [x] = x"
| "join_with sep (x # y # ys) = x @ sep @ join_with sep (y # ys)"

definition storeFingerprint :: "Store \<Rightarrow> bytes" where
  "storeFingerprint s =
     (if s = [] then go_string ''empty''
      else hex_encode (take 8 (sha256 (join_with (go_string ''|'') (sort (map fingerprintKey s))))))"

text \<open>
  The catalogue with its callback: once \<open>SetOnStore\<close> has been called with the reactor's \<open>SetProvider\<close>,
  a changed scan becomes what the reactor serves, \<open>ct_provider\<close>.  A cancelled context changes only the error
  \<open>Rescan\<close> returns, and is left out.
\<close>

record Catalog =
  ct_store :: "Store option"
  ct_fingerp :: bytes
  ct_onStore :: bool
  ct_provider :: "Store option"

definition NewCatalog :: Catalog where
  "NewCatalog = \<lparr>ct_store = None, ct_fingerp = [], ct_onStore = False, ct_provider = None\<rparr>"

definition SetOnStore :: "Catalog \<Rightarrow> Catalog" where
  "SetOnStore c = c\<lparr>ct_onStore := True\<rparr>"

definition emitStore :: "Catalog \<Rightarrow> Store \<Rightarrow> Catalog" where
  "emitStore c store =
     (let fp = storeFingerprint store;
          changed = (fp \<noteq> ct_fingerp c);
          c = c\<lparr>ct_fingerp := fp, ct_store := Some store\<rparr>
      in if changed \<and> ct_onStore c then c\<lparr>ct_provider := Some store\<rparr> else c)"

definition Rescan :: "(bytes \<Rightarrow> metaJSON option) \<Rightarrow> (bytes \<Rightarrow> snapFS) \<Rightarrow> bytes list option \<Rightarrow> bytes \<Rightarrow> VerifyMode \<Rightarrow> Catalog \<Rightarrow>
    (store_error, unit) outcome \<times> Catalog" where
  "Rescan unmarshal fs entries chainID mode c =
     (case LoadStoreFromRoot unmarshal fs entries chainID mode of
        Fail e \<Rightarrow> (Fail e, c)
      | Panic \<Rightarrow> (Panic, c)
      | Ok store \<Rightarrow> (Ok (), emitStore c store))"

text \<open>
  \<open>RunServe\<close> in dir-watch mode: the first scan, which ends the program when it fails, the hand-over of
  its store to the reactor, and the callback, wired once the reactor runs.  Then there is one
  rescan per tick or trigger; one that fails leaves the catalogue as it is.
\<close>

definition initialScan :: "(bytes \<Rightarrow> metaJSON option) \<Rightarrow> (bytes \<Rightarrow> snapFS) \<Rightarrow> bytes list option \<Rightarrow> bytes \<Rightarrow> VerifyMode \<Rightarrow>
    (store_error, Catalog) outcome" where
  "initialScan unmarshal fs entries chainID mode =
     (case Rescan unmarshal fs entries chainID mode NewCatalog of
        (Ok _, c) \<Rightarrow> Ok c
      | (Fail e, _) \<Rightarrow> Fail e
      | (Panic, _) \<Rightarrow> Panic)"

definition handOver :: "Catalog \<Rightarrow> Catalog" where
  "handOver c = c\<lparr>ct_provider := ct_store c\<rparr>"

definition startServing :: "(bytes \<Rightarrow> metaJSON option) \<Rightarrow> (bytes \<Rightarrow> snapFS) \<Rightarrow> bytes list option \<Rightarrow> bytes \<Rightarrow> VerifyMode \<Rightarrow>
    (store_error, Catalog) outcome" where
  "startServing unmarshal fs entries chainID mode =
     bind_outcome (initialScan unmarshal fs entries chainID mode) (\<lambda>c. Ok (SetOnStore (handOver c)))"

section \<open>The reactor\<close>

record ChunkRequest =
  cq_Height :: u64
  cq_Format :: u32
  cq_Index :: u32

record serveReactor =
  rx_provider :: "Store option"
  rx_shuttingDown :: bool
  rx_snapshotsServed :: nat
  rx_chunksServed :: nat
  rx_chunksMissing :: nat
  rx_chunksDrained :: nat
  rx_droppedRatePeer :: nat
  rx_droppedRateGlobal :: nat

text \<open>
  \<open>Receive\<close> of a \<open>ChunkRequest\<close>: what is sent back, if anything.  \<open>allowGlobal\<close> and \<open>allowPeer\<close> are the
  answers of the two rate limiters (true where a limiter is off), \<open>sent\<close> whether the queue takes the
  response.
\<close>

definition receiveChunkRequest :: "(bytes \<Rightarrow> snapFS) \<Rightarrow> bool \<Rightarrow> bool \<Rightarrow> bool \<Rightarrow> serveReactor \<Rightarrow> ChunkRequest \<Rightarrow>
    ChunkInfo option \<times> serveReactor" where
  "receiveChunkRequest fs allowGlobal allowPeer sent r m =
     (case rx_provider r of
        None \<Rightarrow> (None, r)
      | Some prov \<Rightarrow>
          let reply = (\<lambda>missing data. \<lparr>ci_Height = cq_Height m, ci_Format = cq_Format m, ci_Index = cq_Index m,
                ci_Missing = missing, ci_Bytes = data\<rparr>) in
          if rx_shuttingDown r then
            (if sent then (Some (reply True []), r\<lparr>rx_chunksDrained := rx_chunksDrained r + 1\<rparr>) else (None, r))
          else if \<not> allowGlobal then (None, r\<lparr>rx_droppedRateGlobal := rx_droppedRateGlobal r + 1\<rparr>)
          else if \<not> allowPeer then (None, r\<lparr>rx_droppedRatePeer := rx_droppedRatePeer r + 1\<rparr>)
          else case LoadChunk fs prov (cq_Height m) (cq_Format m) (cq_Index m) of
              ChunkFound data \<Rightarrow>
                (if sent then (Some (reply False data), r\<lparr>rx_chunksServed := rx_chunksServed r + 1\<rparr>) else (None, r))
            | _ \<Rightarrow>
                (if sent then (Some (reply True []), r\<lparr>rx_chunksMissing := rx_chunksMissing r + 1\<rparr>) else (None, r)))"

text \<open>A \<open>SnapshotsRequest\<close> is answered with one response per snapshot; \<open>sent i\<close> says whether the queue takes the \<open>i\<close>-th.\<close>

definition receiveSnapshotsRequest :: "(nat \<Rightarrow> bool) \<Rightarrow> serveReactor \<Rightarrow> Snapshot list \<times> serveReactor" where
  "receiveSnapshotsRequest sent r =
     (case rx_provider r of
        None \<Rightarrow> ([], r)
      | Some prov \<Rightarrow>
          let out = map snd (filter (\<lambda>(i, s). sent i) (enumerate 0 (ListSnapshots prov)))
          in (out, r\<lparr>rx_snapshotsServed := rx_snapshotsServed r + length out\<rparr>))"

section \<open>The fetcher's checks\<close>

text \<open>Cancellation, which the fetcher checks between chunks, is left out.\<close>

datatype offer_error = OfferParse meta_error | OfferCount | OfferZeroChunks | ChunkZeroMismatch | OfferDisk

definition offerHashes :: "Snapshot \<Rightarrow> (offer_error, bytes list) outcome" where
  "offerHashes offer =
     (case parseChunkHashes (sn_Metadata offer) of
        Panic \<Rightarrow> Panic
      | Fail e \<Rightarrow> Fail (OfferParse e)
      | Ok hashes \<Rightarrow> if of_nat (length hashes) \<noteq> sn_Chunks offer then Fail OfferCount else Ok hashes)"

definition verifyChunkZero :: "Snapshot \<Rightarrow> bytes \<Rightarrow> (offer_error, unit) outcome" where
  "verifyChunkZero offer data =
     bind_outcome (offerHashes offer) (\<lambda>hashes.
       if hashes = [] then Fail OfferZeroChunks
       else if sha256 data \<noteq> hashes ! 0 then Fail ChunkZeroMismatch
       else Ok ())"

text \<open>
  \<open>prepareSnapshotDir\<close> starts with the same two checks; then it makes the directory and, unless the file is
  there with the same content, writes \<open>metadata.bin\<close>.  The flags say which file operations work.
\<close>

definition prepareSnapshotDir :: "bool \<Rightarrow> bool \<Rightarrow> bool \<Rightarrow> Snapshot \<Rightarrow> (bytes \<rightharpoonup> bytes) \<Rightarrow>
    (offer_error, bytes list \<times> (bytes \<rightharpoonup> bytes)) outcome" where
  "prepareSnapshotDir mkdir fsync write offer files =
     bind_outcome (offerHashes offer) (\<lambda>hashes.
       if \<not> mkdir then Fail OfferDisk
       else if \<not> fsync then Fail OfferDisk
       else if files (go_string ''metadata.bin'') \<noteq> Some (sn_Metadata offer) then
         (if \<not> write then Fail OfferDisk else Ok (hashes, files(go_string ''metadata.bin'' \<mapsto> sn_Metadata offer)))
       else Ok (hashes, files))"

datatype snaphash_error = HashDisk nat | SnapshotHashMismatch

fun verifySnapshotHash_loop :: "(bytes \<rightharpoonup> bytes) \<Rightarrow> nat list \<Rightarrow> bytes \<Rightarrow> (snaphash_error, bytes) outcome" where
  "verifySnapshotHash_loop files [] h = Ok h"
| "verifySnapshotHash_loop files (i # is) h =
     (case files (chunkFile i) of None \<Rightarrow> Fail (HashDisk i) | Some b \<Rightarrow> verifySnapshotHash_loop files is (h @ b))"

definition verifySnapshotHash :: "(bytes \<rightharpoonup> bytes) \<Rightarrow> Snapshot \<Rightarrow> (snaphash_error, unit) outcome" where
  "verifySnapshotHash files offer =
     bind_outcome (verifySnapshotHash_loop files [0..<unat (sn_Chunks offer)] [])
       (\<lambda>h. if sha256 h \<noteq> sn_Hash offer then Fail SnapshotHashMismatch else Ok ())"

text \<open>What \<open>meta.json\<close> says, in the fields the other commands read.\<close>

definition savedMeta :: "bytes \<Rightarrow> Snapshot \<Rightarrow> metaJSON" where
  "savedMeta chainID offer =
     \<lparr>mj_ChainID = chainID, mj_Height = sn_Height offer, mj_Format = sn_Format offer, mj_Chunks = sn_Chunks offer,
      mj_HashHex = hex_encode (sn_Hash offer), mj_MetadataLen = int (length (sn_Metadata offer))\<rparr>"

text \<open>
  \<open>writeMeta\<close>: \<open>meta.json\<close>, a sync of the directory, the marker, another sync; any of the four may fail.
\<close>

definition writeMeta :: "(metaJSON \<Rightarrow> bytes) \<Rightarrow> bool \<Rightarrow> bool \<Rightarrow> bool \<Rightarrow> bool \<Rightarrow> bytes \<Rightarrow> Snapshot \<Rightarrow> snapFS \<Rightarrow> bool \<times> snapFS" where
  "writeMeta marshal writeJSON fsync1 mark fsync2 chainID offer d =
     (if \<not> writeJSON then (False, d)
      else let d = d\<lparr>sf_files := (sf_files d)(go_string ''meta.json'' \<mapsto> marshal (savedMeta chainID offer))\<rparr> in
        if \<not> fsync1 then (False, d)
        else if \<not> mark then (False, d)
        else let d = d\<lparr>sf_complete := Exists\<rparr> in (fsync2, d))"

end
