(* ===== verification/SnapServeProps.thy ===== *)
theory SnapServeProps
  imports SnapServe ChunkSchedProps DiffStateSync "HOL-Library.Multiset"
begin

text \<open>
  Serving and fetching together: a fetched snapshot can be served again, a served chunk is accepted by
  the fetcher's scheduler, and two cases in which what the program produces cannot be served.
\<close>

section \<open>Keys and names\<close>

lemma storeKey_inject [simp]: "storeKey h f = storeKey h' f' \<longleftrightarrow> h = h' \<and> f = f'"
proof
  assume eq: "storeKey h f = storeKey h' f'"
  have cut: "takeWhile is_digit (storeKey h f) = fmt_nat (unat h)" "dropWhile is_digit (storeKey h f) = go_string ''_'' @ fmt_nat (unat f)" for h f
  proof -
    have d: "\<forall>x \<in> set (fmt_nat (unat h)). is_digit x" using fmt_nat_digits by (simp add: list_all_iff)
    have "\<not> is_digit 95" by (simp add: is_digit_def)
    then show "takeWhile is_digit (storeKey h f) = fmt_nat (unat h)" "dropWhile is_digit (storeKey h f) = go_string ''_'' @ fmt_nat (unat f)"
      using d by (simp_all add: storeKey_def go_string_def takeWhile_append2 dropWhile_append2)
  qed
  from arg_cong [OF eq, of "takeWhile is_digit"] arg_cong [OF eq, of "dropWhile is_digit"] show "h = h' \<and> f = f'" by (simp add: cut word_unat_eq_iff)
qed simp

lemma chunkFile_chunkName: "chunkFile i = chunkName i"
  by (simp add: chunkFile_def chunkName_def)

lemma chunkFile_prefix: "HasPrefix (chunkFile i) (go_string ''chunk_'')"
  by (simp add: chunkFile_def)

lemma not_chunk_names:
  "\<not> HasPrefix (go_string ''metadata.bin'') (go_string ''chunk_'')" "\<not> HasPrefix (go_string ''metadata.bin'') (go_string ''.chunk_'')"
  "\<not> HasPrefix (go_string ''meta.json'') (go_string ''chunk_'')"
  by (simp_all add: HasPrefix_def go_string_def)

lemma chunkFile_not_meta [simp]:
  "chunkFile i \<noteq> go_string ''metadata.bin''" "chunkFile i \<noteq> go_string ''meta.json''"
  "go_string ''metadata.bin'' \<noteq> go_string ''meta.json''"
  using chunkFile_prefix [of i] not_chunk_names by (metis, metis) (simp add: go_string_def)

section \<open>What a download does to its directory\<close>

text \<open>
  Files are written under the names \<open>chunkFile\<close> gives and removed under names that begin like a chunk's or
  a temporary file's.  A predicate that survives both survives every run.
\<close>

locale dir_predicate =
  fixes Q :: "(bytes \<rightharpoonup> bytes) \<Rightarrow> bool"
  assumes put: "Q d \<Longrightarrow> i < 2 ^ 32 \<Longrightarrow> Q (d(chunkFile i \<mapsto> b))"
    and remove: "Q d \<Longrightarrow> HasPrefix n (go_string ''chunk_'') \<or> HasPrefix n (go_string ''.chunk_'') \<Longrightarrow> Q (d(n := None))"
begin

lemma quiet_dir: "quiet lim s s' \<Longrightarrow> sc_dir s' = sc_dir s"
  by (auto simp: quiet_def sc_core_def)

lemma dir_simps [simp]:
  "sc_dir (dispatch env s) = sc_dir s" "sc_dir (emit a s) = sc_dir s" "sc_dir (setStat p st s) = sc_dir s"
  "sc_dir (setPending i b s) = sc_dir s" "sc_dir (dropInflight i s) = sc_dir s"
  "sc_dir (banAndDrop env p r s) = sc_dir s" "sc_dir (fold (releaseChunk p) xs s) = sc_dir s"
  "sc_dir (fold (expireChunk env) xs s) = sc_dir s" "sc_dir (fold addProvisional ps s) = sc_dir s"
  "sc_dir (addProvisional p s) = sc_dir s" "sc_dir (mirrorBans env s) = sc_dir s"
  by (rule quiet_dir [OF quiet_dispatch_limit] quiet_dir [OF quiet_banAndDrop] quiet_dir [OF quiet_fold [OF quiet_releaseChunk]]
      quiet_dir [OF quiet_fold [OF quiet_expireChunk]] quiet_dir [OF quiet_fold [OF quiet_addProvisional [OF order_refl]]]
      quiet_dir [OF quiet_addProvisional [OF order_refl]] quiet_dir [OF quiet_mirrorBans] | simp add: upd_defs)+

lemma storeChunk_dir: "Q (sc_dir s) \<Longrightarrow> i < 2 ^ 32 \<Longrightarrow> Q (sc_dir (storeChunk env p st i b s))"
  by (auto simp: storeChunk_def Let_def put split: option.split)

lemma onEvent_dir:
  assumes "Q (sc_dir s)" and "onEvent env ev s = Ok s'"
  shows "Q (sc_dir s')"
proof (cases ev)
  case (Chunk p c)
  have "unat (ci_Index c) < 2 ^ 32" using unsigned_less [of "ci_Index c", where ?'a = nat] by simp
  with assms Chunk show ?thesis
    by (auto simp: onChunk_def Let_def case_prod_beta split: if_splits option.splits intro!: storeChunk_dir)
qed (use assms in \<open>auto simp: onTimeoutTick_def onConnect_def onRemoved_def Let_def split: option.splits\<close>)

lemma resumeEntry_dir: "Q (sc_dir s) \<Longrightarrow> Q (sc_dir (resumeEntry e s))"
  by (auto simp: resumeEntry_def removeEntry_def Let_def remove split: option.splits)

lemma initScheduler_dir:
  assumes "Q (sc_dir s)"
  shows "Q (sc_dir (initScheduler env good entries s))"
proof -
  have stats: "sc_dir (fold (\<lambda>p. setStat p st) ps t) = sc_dir t" for ps st and t :: "'a chunkScheduler"
    by (induction ps arbitrary: t) auto
  have "Q (sc_dir (fold resumeEntry es t))" if "Q (sc_dir t)" for es and t :: "'a chunkScheduler"
    using that by (induction es arbitrary: t) (auto intro: resumeEntry_dir)
  with assms show ?thesis by (simp add: initScheduler_def resumeFromDisk_def seedGood_def stats split: option.split)
qed

lemma runDownload_dir: "Q (sc_dir s) \<Longrightarrow> Q (sc_dir (snd (runDownload s evs)))"
proof (induction s evs rule: runDownload.induct)
  case (1 s evs)
  show ?case
  proof (cases "sc_chunks s \<le> sc_doneCount s \<or> (0 < sc_maxDiskFails s \<and> sc_maxDiskFails s \<le> sc_diskFails s) \<or> \<not> somePeerAlive s \<or> evs = []")
    case True
    with "1.prems" show ?thesis by (auto simp: runDownload.simps [of s])
  next
    case False
    then obtain env ev xs where evs: "evs = (env, ev) # xs" by (cases evs) auto
    show ?thesis
    proof (cases "ev = Cancel \<or> (\<nexists>s'. onEvent env ev s = Ok s')")
      case True
      with False evs "1.prems" show ?thesis by (cases ev) (auto simp: runDownload.simps [of s] split: outcome.splits)
    next
      case go: False
      then obtain s' where s': "onEvent env ev s = Ok s'" by blast
      have "runDownload s evs = runDownload s' xs" using False go evs s' by (cases ev) (auto simp: runDownload.simps [of s])
      moreover have "Q (sc_dir (snd (runDownload s' xs)))"
        using "1.IH" False go evs s' onEvent_dir [OF "1.prems" s'] by (cases ev) auto
      ultimately show ?thesis by simp
    qed
  qed
qed

end

text \<open>Chunk files have their canonical names only: \<open>chunk_7.bin\<close> would also pass for chunk 7.\<close>

definition canonical :: "(bytes \<rightharpoonup> bytes) \<Rightarrow> bool" where
  "canonical d \<longleftrightarrow> (\<forall>n i. d n \<noteq> None \<and> chunkIndex n = Some i \<longrightarrow> n = chunkFile i)"

interpretation canon: dir_predicate canonical
  by unfold_locales (auto simp: canonical_def)

interpretation keeps_metadata: dir_predicate "\<lambda>d. d (go_string ''metadata.bin'') = Some md" for md
proof
  show "d (go_string ''metadata.bin'') = Some md \<Longrightarrow> HasPrefix n (go_string ''chunk_'') \<or> HasPrefix n (go_string ''.chunk_'') \<Longrightarrow>
      (d(n := None)) (go_string ''metadata.bin'') = Some md" for d n using not_chunk_names by auto
qed (use chunkFile_not_meta(1) in \<open>auto dest: sym\<close>)

section \<open>Loading\<close>

lemma length_hexHashes [simp]: "length (hexHashes hs) = length hs"
  by (simp add: hexHashes_def)

lemma decodeHashes_hex [simp]: "decodeHashes i (hexHashes hs) = Ok hs"
  by (induction hs arbitrary: i) (simp_all add: hexHashes_def)

abbreviation chunk_bytes :: "(bytes \<rightharpoonup> bytes) \<Rightarrow> nat \<Rightarrow> bytes" where
  "chunk_bytes files n \<equiv> concat (map (\<lambda>i. the (files (chunkFile i))) [0..<n])"

lemma verifyChunks_loop_ok:
  assumes "\<forall>i \<in> set is. files (chunkFile i) \<noteq> None"
    and "mode = VerifyPerChunkHash \<longrightarrow> (\<forall>i \<in> set is. i < length per \<and> sha256 (the (files (chunkFile i))) = per ! i)"
  shows "verifyChunks_loop mode files per is agg = Ok (agg @ concat (map (\<lambda>i. the (files (chunkFile i))) is))"
  using assms by (induction "is" arbitrary: agg) auto

lemma verifyChunks_loop_Ok_iff:
  "verifyChunks_loop mode files per is agg = Ok out \<longleftrightarrow>
     (\<forall>i \<in> set is. files (chunkFile i) \<noteq> None \<and>
        (mode = VerifyPerChunkHash \<longrightarrow> i < length per \<and> sha256 (the (files (chunkFile i))) = per ! i)) \<and>
     out = agg @ concat (map (\<lambda>i. the (files (chunkFile i))) is)"
  by (induction "is" arbitrary: agg) (auto split: option.splits if_splits)

lemma verifySnapshotHash_loop_Ok_iff:
  "verifySnapshotHash_loop files is h = Ok out \<longleftrightarrow>
     (\<forall>i \<in> set is. files (chunkFile i) \<noteq> None) \<and> out = h @ concat (map (\<lambda>i. the (files (chunkFile i))) is)"
  by (induction "is" arbitrary: h) (auto split: option.splits)

lemma verifySnapshotHash_iff:
  "verifySnapshotHash files offer = Ok () \<longleftrightarrow>
     (\<forall>i < unat (sn_Chunks offer). files (chunkFile i) \<noteq> None) \<and>
     sha256 (chunk_bytes files (unat (sn_Chunks offer))) = sn_Hash offer"
  by (auto simp: verifySnapshotHash_def verifySnapshotHash_loop_Ok_iff)

lemma verifyChunks_iff:
  "verifyChunks files n want per mode = Ok () \<longleftrightarrow>
     (\<forall>i < unat n. files (chunkFile i) \<noteq> None \<and>
        (mode = VerifyPerChunkHash \<longrightarrow> i < length per \<and> sha256 (the (files (chunkFile i))) = per ! i)) \<and>
     sha256 (chunk_bytes files (unat n)) = want"
  by (auto simp: verifyChunks_def verifyChunks_loop_Ok_iff)

lemma offerHashes_Ok:
  "offerHashes offer = Ok hashes \<longleftrightarrow> parseChunkHashes (sn_Metadata offer) = Ok hashes \<and> of_nat (length hashes) = sn_Chunks offer"
  by (auto simp: offerHashes_def split: outcome.splits)

text \<open>A directory whose metadata and chunks belong to an offer loads as that offer.\<close>

definition holds_offer :: "(bytes \<Rightarrow> metaJSON option) \<Rightarrow> snapFS \<Rightarrow> bytes \<Rightarrow> Snapshot \<Rightarrow> bytes list \<Rightarrow> bool" where
  "holds_offer unmarshal d chainID offer hashes \<longleftrightarrow>
     sf_complete d = Exists \<and> sf_files d (go_string ''metadata.bin'') = Some (sn_Metadata offer) \<and>
     offerHashes offer = Ok hashes \<and> hashes \<noteq> [] \<and> length hashes < 2 ^ 32 \<and>
     (\<exists>raw. sf_files d (go_string ''meta.json'') = Some raw \<and>
        unmarshal raw = Some (savedMeta chainID offer)) \<and>
     (\<forall>i < length hashes. \<exists>b. sf_files d (chunkFile i) = Some b \<and> sha256 b = hashes ! i) \<and>
     sha256 (chunk_bytes (sf_files d) (length hashes)) = sn_Hash offer"

definition loaded_offer :: "bytes \<Rightarrow> bytes \<Rightarrow> Snapshot \<Rightarrow> loadedSnapshot" where
  "loaded_offer dir chainID offer =
     \<lparr>ld_Dir = dir, ld_ChainID = chainID, ld_Height = sn_Height offer, ld_Format = sn_Format offer, ld_Chunks = sn_Chunks offer,
      ld_Hash = sn_Hash offer, ld_Metadata = sn_Metadata offer\<rparr>"

lemma unat_chunks: "of_nat (length hs) = (n :: u32) \<Longrightarrow> length hs < 2 ^ 32 \<Longrightarrow> unat n = length hs"
  by (auto simp: unat_of_nat take_bit_nat_eq_self)

lemma loadOne_offer:
  assumes "holds_offer unmarshal (fs dir) chainID offer hashes"
  shows "loadOne unmarshal fs dir mode = Ok (loaded_offer dir chainID offer)"
proof -
  note h = assms [unfolded holds_offer_def offerHashes_Ok]
  from h obtain raw where raw: "sf_files (fs dir) (go_string ''meta.json'') = Some raw"
    "unmarshal raw = Some (savedMeta chainID offer)" by blast
  have n: "unat (sn_Chunks offer) = length hashes" using h unat_chunks by blast
  have "sn_Chunks offer \<noteq> 0" using n h by auto
  moreover have "length (sn_Hash offer) = 32" using h length_sha256 by metis
  moreover have "length (hexHashes hashes) = length hashes" by (simp add: hexHashes_def)
  moreover have "verifyChunks (sf_files (fs dir)) (sn_Chunks offer) (sn_Hash offer) hashes mode = Ok ()"
    using h n by (fastforce simp: verifyChunks_iff)
  ultimately show ?thesis
    using h raw by (simp add: loadOne_def ParseChunkHashes_eq checkMeta_def loaded_offer_def savedMeta_def)
qed

lemma LoadStore_offer:
  assumes "holds_offer unmarshal (fs dir) chainID offer hashes"
  shows "LoadStore unmarshal fs [dir] chainID mode = Ok [loaded_offer dir chainID offer]"
  using loadOne_offer [where fs = fs and dir = dir, OF assms, of mode]
  by (simp add: LoadStore_def newStore_def) (simp add: loaded_offer_def)

section \<open>From fetch to serve\<close>

lemma fetched_holds_offer:
  assumes "prepareSnapshotDir mkdir fsync write offer files0 = Ok (hashes, files)" and "canonical files" and "hashes \<noteq> []" and "length hashes < 2 ^ 32"
    and "runDownload (initScheduler env good entries (newScheduler (sn_Height offer) (sn_Format offer) (length hashes) hashes
      perPeer timeout failLimit strikes provInflight maxDisk files)) evs = (Some (Ok nbytes), s)"
    and "verifySnapshotHash (sc_dir s) offer = Ok ()" and "unmarshal (marshal (savedMeta chainID offer)) = Some (savedMeta chainID offer)"
    and "writeMeta marshal w1 f1 w2 f2 chainID offer d0 = (True, d)" and "sf_files d0 = sc_dir s"
  shows "holds_offer unmarshal d chainID offer hashes"
proof -
  let ?s0 = "newScheduler (sn_Height offer) (sn_Format offer) (length hashes) hashes perPeer timeout failLimit strikes provInflight maxDisk files"
  have off: "offerHashes offer = Ok hashes" and md: "files (go_string ''metadata.bin'') = Some (sn_Metadata offer)"
    using assms(1) by (auto simp: prepareSnapshotDir_def split: if_splits)
  have n: "unat (sn_Chunks offer) = length hashes" using off assms(4) by (intro unat_chunks) (simp_all add: offerHashes_Ok)
  have d0: "sc_dir ?s0 = files" by (simp add: newScheduler_def)
  have s: "s = snd (runDownload (initScheduler env good entries ?s0) evs)" using assms(5) by simp
  have can: "canonical (sc_dir s)"
    unfolding s by (intro canon.runDownload_dir canon.initScheduler_dir) (simp add: d0 assms(2))
  have meta: "sc_dir s (go_string ''metadata.bin'') = Some (sn_Metadata offer)"
    unfolding s by (intro keeps_metadata.runDownload_dir keeps_metadata.initScheduler_dir) (simp add: d0 md)
  have inv0: "sched_inv (initScheduler env good entries ?s0)" using assms(4) by (intro initScheduler_inv newScheduler_inv) auto
  have "sc_job (initScheduler env good entries ?s0) = (length hashes, hashes)"
    by (simp add: initScheduler_job) (simp add: sc_job_def newScheduler_def)
  with runDownload_inv [OF inv0, of evs] assms(5) have
    inv: "sched_inv s" and job: "sc_job s = (length hashes, hashes)" and fin: "sc_chunks s \<le> sc_doneCount s" by auto
  have "length (filter id (sc_completed s)) = length (sc_completed s)"
    using inv fin length_filter_le [of id "sc_completed s"] by (simp add: sched_inv_def)
  then have all: "\<forall>i < length (sc_completed s). sc_completed s ! i" using count_True_all by blast
  have stored: "\<exists>b. sc_dir s (chunkFile i) = Some b \<and> sha256 b = hashes ! i" if "i < length hashes" for i
  proof -
    have "sc_completed s ! i" using all inv job that by (simp add: sched_inv_def sc_job_def)
    then have "verified s i" using inv job that by (simp add: sched_inv_def sc_job_def)
    with can job show ?thesis by (auto simp: verified_def canonical_def sc_job_def)
  qed
  have "sf_files d = (sc_dir s)(go_string ''meta.json'' \<mapsto> marshal (savedMeta chainID offer))" "sf_complete d = Exists"
    using assms(8,9) by (auto simp: writeMeta_def Let_def split: if_splits)
  moreover have "sha256 (chunk_bytes (sc_dir s) (length hashes)) = sn_Hash offer"
    using assms(6) unfolding verifySnapshotHash_iff n by simp
  ultimately show ?thesis
    unfolding holds_offer_def using off assms(3,4,7) meta stored by simp
qed

text \<open>
  C35. What was fetched can be served.  When a fetch has gone through (metadata of the offer decoded,
  every chunk downloaded, the snapshot hash checked, \<open>meta.json\<close> and the marker written), the directory
  is accepted by \<open>LoadStore\<close> in every verification mode, the store advertises exactly the offer that was
  fetched, and every chunk it hands out has the hash of the metadata.  The directory held no chunk
  under a second name before the fetch, and \<open>meta.json\<close> is read back as written.
\<close>

theorem fetched_snapshot_served:
  assumes "prepareSnapshotDir mkdir fsync write offer files0 = Ok (hashes, files)" and "canonical files" and "hashes \<noteq> []" and "length hashes < 2 ^ 32"
    and "runDownload (initScheduler env good entries (newScheduler (sn_Height offer) (sn_Format offer) (length hashes) hashes
      perPeer timeout failLimit strikes provInflight maxDisk files)) evs = (Some (Ok nbytes), s)"
    and "verifySnapshotHash (sc_dir s) offer = Ok ()" and "unmarshal (marshal (savedMeta chainID offer)) = Some (savedMeta chainID offer)"
    and "writeMeta marshal w1 f1 w2 f2 chainID offer d0 = (True, fs dir)" and "sf_files d0 = sc_dir s"
  shows "\<exists>store. LoadStore unmarshal fs [dir] chainID mode = Ok store \<and> ListSnapshots store = [offer] \<and>
    (\<forall>i < length hashes. \<exists>b. LoadChunk fs store (sn_Height offer) (sn_Format offer) (of_nat i) = ChunkFound b \<and> sha256 b = hashes ! i)"
proof -
  have h: "holds_offer unmarshal (fs dir) chainID offer hashes" by (rule fetched_holds_offer [where unmarshal = unmarshal and marshal = marshal and d = "fs dir", OF assms])
  have n: "unat (sn_Chunks offer) = length hashes"
    using h by (intro unat_chunks) (simp_all add: holds_offer_def offerHashes_Ok)
  have "\<exists>b. LoadChunk fs [loaded_offer dir chainID offer] (sn_Height offer) (sn_Format offer) (of_nat i) = ChunkFound b \<and> sha256 b = hashes ! i"
    if "i < length hashes" for i
  proof -
    have i: "unat (of_nat i :: u32) = i" using that assms(4) by (simp add: unat_of_nat take_bit_nat_eq_self)
    then have "\<not> sn_Chunks offer \<le> of_nat i" using that n by (simp add: word_le_nat_alt)
    with h that i show ?thesis by (auto simp: holds_offer_def loaded_offer_def)
  qed
  with LoadStore_offer [where fs = fs and dir = dir, OF h, of mode] show ?thesis
    by (intro exI [of _ "[loaded_offer dir chainID offer]"]) (simp add: ListSnapshots_def loaded_offer_def)
qed

section \<open>From serve to fetch\<close>

definition store_good :: "(bytes \<Rightarrow> metaJSON option) \<Rightarrow> (bytes \<Rightarrow> snapFS) \<Rightarrow> VerifyMode \<Rightarrow> loadedSnapshot list \<Rightarrow> bool" where
  "store_good unmarshal fs mode loaded \<longleftrightarrow>
     (\<forall>ls \<in> set loaded. loadOne unmarshal fs (ld_Dir ls) mode = Ok ls) \<and>
     distinct (map (\<lambda>ls. storeKey (ld_Height ls) (ld_Format ls)) loaded)"

lemma loadOne_Dir: "loadOne unmarshal fs dir mode = Ok ls \<Longrightarrow> ld_Dir ls = dir"
  by (auto simp: loadOne_def split: stat.splits option.splits outcome.splits)

lemma LoadStore_loop_good:
  assumes "LoadStore_loop unmarshal fs chainID mode dirs seen loaded = Ok out" and "store_good unmarshal fs mode loaded"
    and "(\<lambda>ls. storeKey (ld_Height ls) (ld_Format ls)) ` set loaded \<subseteq> dom seen"
  shows "store_good unmarshal fs mode out"
  using assms
proof (induction dirs arbitrary: seen loaded)
  case (Cons dir dirs)
  from Cons.prems(1) obtain ls where ls: "loadOne unmarshal fs dir mode = Ok ls" "seen (storeKey (ld_Height ls) (ld_Format ls)) = None"
    "LoadStore_loop unmarshal fs chainID mode dirs (seen(storeKey (ld_Height ls) (ld_Format ls) \<mapsto> dir)) (loaded @ [ls]) = Ok out"
    by (auto simp: Let_def split: outcome.splits if_splits option.splits)
  have "storeKey (ld_Height ls) (ld_Format ls) \<notin> (\<lambda>ls. storeKey (ld_Height ls) (ld_Format ls)) ` set loaded" using Cons.prems(3) ls(2) by blast
  then have "store_good unmarshal fs mode (loaded @ [ls])" using Cons.prems(2) ls(1) loadOne_Dir [OF ls(1)] by (auto simp: store_good_def)
  moreover have "(\<lambda>ls. storeKey (ld_Height ls) (ld_Format ls)) ` set (loaded @ [ls]) \<subseteq>
      dom (seen(storeKey (ld_Height ls) (ld_Format ls) \<mapsto> dir))" using Cons.prems(3) by (simp only: dom_fun_upd set_append image_Un) auto
  ultimately show ?case using Cons.IH [OF ls(3)] by blast
qed simp

lemma LoadStore_good: "LoadStore unmarshal fs dirs chainID mode = Ok store \<Longrightarrow> store_good unmarshal fs mode store"
proof -
  assume "LoadStore unmarshal fs dirs chainID mode = Ok store"
  then obtain loaded where l: "LoadStore_loop unmarshal fs chainID mode dirs Map.empty [] = Ok loaded" "store = newStore loaded"
    by (auto simp: LoadStore_def split: if_splits)
  have "store_good unmarshal fs mode loaded" by (rule LoadStore_loop_good [OF l(1)]) (simp_all add: store_good_def)
  moreover have "distinct (map f (sort_key g xs)) = distinct (map f xs)" for f :: "loadedSnapshot \<Rightarrow> bytes" and g :: "loadedSnapshot \<Rightarrow> int" and xs
    by (metis mset_map mset_sort mset_eq_imp_distinct_iff)
  ultimately show ?thesis unfolding l(2) by (simp add: store_good_def newStore_def)
qed

lemma LoadChunk_member:
  assumes "ls \<in> set store" and "distinct (map (\<lambda>ls. storeKey (ld_Height ls) (ld_Format ls)) store)"
  shows "LoadChunk fs store (ld_Height ls) (ld_Format ls) index = LoadChunk fs [ls] (ld_Height ls) (ld_Format ls) index"
  using assms by (induction store) auto

lemma loadOne_parts:
  assumes "loadOne unmarshal fs dir VerifyPerChunkHash = Ok ls"
  shows "\<exists>hashes. parseChunkHashes (ld_Metadata ls) = Ok hashes \<and> of_nat (length hashes) = ld_Chunks ls \<and>
    (\<forall>i < unat (ld_Chunks ls). i < length hashes \<and> (\<exists>b. sf_files (fs dir) (chunkFile i) = Some b \<and> sha256 b = hashes ! i))"
proof -
  from assms obtain md hexes meta expected per where
    p: "ParseChunkHashes md = Ok hexes" "checkMeta meta md hexes = Ok (expected, per)"
      "verifyChunks (sf_files (fs dir)) (mj_Chunks meta) expected per VerifyPerChunkHash = Ok ()"
      "ld_Metadata ls = md" "ld_Chunks ls = mj_Chunks meta"
    by (auto simp: loadOne_def split: stat.splits option.splits outcome.splits)
  from p(1) obtain hashes where h: "parseChunkHashes md = Ok hashes" "hexes = hexHashes hashes"
    unfolding ParseChunkHashes_eq by (cases "parseChunkHashes md") auto
  from p(2) h(2) have "per = hashes" "of_nat (length hashes) = mj_Chunks meta"
    by (auto simp: checkMeta_def hexHashes_def split: if_splits option.splits) (simp_all add: hexHashes_def [symmetric])
  with p h show ?thesis by (force simp: verifyChunks_iff)
qed

lemma dispatch_core [simp]: "sc_completed (dispatch env s) = sc_completed s" "sc_dir (dispatch env s) = sc_dir s"
  using quiet_dispatch_limit [of s env] by (auto simp: quiet_def sc_core_def)

lemma storeChunk_stores:
  assumes "en_writeErr env = None" and "i < length (sc_completed s)"
  shows "sc_completed (storeChunk env p st i b s) ! i" and "sc_dir (storeChunk env p st i b s) (chunkFile i) = Some b"
  using assms by (simp_all add: storeChunk_def Let_def upd_defs)

lemma onChunk_accepts:
  assumes "sched_inv s" and "ci_Height c = sc_height s" and "ci_Format c = sc_format s" and "unat (ci_Index c) < sc_chunks s"
    and "\<not> sc_completed s ! unat (ci_Index c)" and "\<not> ci_Missing c" and "ci_Bytes c \<noteq> []"
    and "sha256 (ci_Bytes c) = sc_chunkHashes s ! unat (ci_Index c)" and "en_writeErr env = None"
  shows "\<exists>s'. onChunk env p c s = Ok s' \<and> sc_completed s' ! unat (ci_Index c) \<and> sc_dir s' (chunkFile (unat (ci_Index c))) = Some (ci_Bytes c)"
proof -
  let ?i = "unat (ci_Index c)"
  have "length (sc_completed s) = sc_chunks s" "length (sc_chunkHashes s) = sc_chunks s" using assms(1) by (simp_all add: sched_inv_def)
  then show ?thesis
    using assms(2-8) storeChunk_stores [OF assms(9), of ?i]
    by (auto simp: onChunk_def Let_def upd_defs split: option.splits)
qed

text \<open>
  C36. What is served is accepted.  Take a store loaded with per-chunk verification, a reactor that serves
  it over the same files, and a snapshot it advertises: the fetcher decodes the offer's metadata into as
  many hashes as there are chunks, a request for any of them is answered with data, and a scheduler
  that downloads this offer and has not got the chunk yet stores exactly these bytes as complete,
  provided they are not empty and the write succeeds.
\<close>

theorem served_chunk_accepted:
  assumes "LoadStore unmarshal fs dirs chainID VerifyPerChunkHash = Ok store" and "offer \<in> set (ListSnapshots store)"
    and "rx_provider r = Some store" and "\<not> rx_shuttingDown r" and "idx < sn_Chunks offer"
  shows "\<exists>hashes c r'. offerHashes offer = Ok hashes \<and>
    receiveChunkRequest fs True True True r \<lparr>cq_Height = sn_Height offer, cq_Format = sn_Format offer, cq_Index = idx\<rparr> = (Some c, r') \<and>
    \<not> ci_Missing c \<and>
    (\<forall>(s :: 'e chunkScheduler) env p. sched_inv s \<and> sc_height s = sn_Height offer \<and> sc_format s = sn_Format offer \<and> sc_chunkHashes s = hashes \<and>
       \<not> sc_completed s ! unat idx \<and> en_writeErr env = None \<and> ci_Bytes c \<noteq> [] \<longrightarrow>
       (\<exists>s'. onChunk env p c s = Ok s' \<and> sc_completed s' ! unat idx \<and> sc_dir s' (chunkFile (unat idx)) = Some (ci_Bytes c)))"
proof -
  note good = LoadStore_good [OF assms(1), unfolded store_good_def]
  from assms(2) obtain ls where ls: "ls \<in> set store" "offer = \<lparr>sn_Height = ld_Height ls, sn_Format = ld_Format ls, sn_Chunks = ld_Chunks ls,
      sn_Hash = ld_Hash ls, sn_Metadata = ld_Metadata ls\<rparr>" by (auto simp: ListSnapshots_def)
  have "loadOne unmarshal fs (ld_Dir ls) VerifyPerChunkHash = Ok ls" using good ls(1) by blast
  from loadOne_parts [OF this] obtain hashes where h: "parseChunkHashes (ld_Metadata ls) = Ok hashes" "of_nat (length hashes) = ld_Chunks ls"
    "\<forall>i < unat (ld_Chunks ls). i < length hashes \<and> (\<exists>b. sf_files (fs (ld_Dir ls)) (chunkFile i) = Some b \<and> sha256 b = hashes ! i)" by blast
  have i: "unat idx < unat (ld_Chunks ls)" using assms(5) ls(2) by (simp add: word_less_nat_alt)
  with h(3) obtain b where b: "sf_files (fs (ld_Dir ls)) (chunkFile (unat idx)) = Some b" "sha256 b = hashes ! unat idx" "unat idx < length hashes" by blast
  have "LoadChunk fs store (sn_Height offer) (sn_Format offer) idx = ChunkFound b"
    using LoadChunk_member [OF ls(1), of fs idx] good b(1) i ls(2) by (simp add: word_le_nat_alt)
  then have rcv: "\<exists>r'. receiveChunkRequest fs True True True r \<lparr>cq_Height = sn_Height offer, cq_Format = sn_Format offer, cq_Index = idx\<rparr> =
      (Some \<lparr>ci_Height = sn_Height offer, ci_Format = sn_Format offer, ci_Index = idx, ci_Missing = False, ci_Bytes = b\<rparr>, r')"
    using assms(3,4) by (simp add: receiveChunkRequest_def Let_def)
  have "\<exists>s'. onChunk env p \<lparr>ci_Height = sn_Height offer, ci_Format = sn_Format offer, ci_Index = idx, ci_Missing = False, ci_Bytes = b\<rparr> s = Ok s' \<and>
      sc_completed s' ! unat idx \<and> sc_dir s' (chunkFile (unat idx)) = Some b"
    if "sched_inv s" "sc_height s = sn_Height offer" "sc_format s = sn_Format offer" "sc_chunkHashes s = hashes" "\<not> sc_completed s ! unat idx"
      "en_writeErr env = None" "b \<noteq> []" for s :: "'e chunkScheduler" and env p
    using onChunk_accepts [OF that(1), of "\<lparr>ci_Height = sn_Height offer, ci_Format = sn_Format offer, ci_Index = idx, ci_Missing = False, ci_Bytes = b\<rparr>" env p]
      that b(2,3) by (simp add: sched_inv_def)
  moreover have "offerHashes offer = Ok hashes" using h(1,2) ls(2) by (simp add: offerHashes_Ok)
  ultimately show ?thesis using rcv by (intro exI [of _ hashes]) auto
qed

section \<open>Snapshots made by applying a diff\<close>

lemma ApplyStateSync_result:
  assumes "ApplyStateSync P zw inflate io db metaHash base diff outDir = Some (Ok res)" and "io_works io"
  defines "cs \<equiv> chunks_of CosmosSDKChunkSize (concat (zw (sr_out res)))"
  shows "cw_chunkHashes (sr_chunks res) = map sha256 cs" and "cw_dir (sr_chunks res) = named_from 0 outDir cs"
    and "sr_metadata res = encodeMetadataProto (map sha256 cs)" and "om_Chunks (sr_meta res) = length cs"
    and "om_HashHex (sr_meta res) = computeSnapshotHash (map sha256 cs)" and "om_MetadataLen (sr_meta res) = length (sr_metadata res)"
proof -
  have n: "0 < CosmosSDKChunkSize" by (simp add: CosmosSDKChunkSize_def)
  from assms(1) have w: "chunkWrites io (newChunkWriter outDir CosmosSDKChunkSize) (zw (sr_out res)) = Some (Inr (sr_chunks res))"
    and f: "sr_metadata res = encodeMetadataProto (cw_chunkHashes (sr_chunks res))" "om_Chunks (sr_meta res) = cw_chunkIdx (sr_chunks res)"
      "om_HashHex (sr_meta res) = computeSnapshotHash (cw_chunkHashes (sr_chunks res))" "om_MetadataLen (sr_meta res) = length (sr_metadata res)"
    by (auto simp: ApplyStateSync_def Let_def split: sum.splits prod.splits if_splits outcome.splits option.splits)
  from chunkWrites_state [OF assms(2) cw_state_new [OF n], of outDir "zw (sr_out res)"] w
  have "cw_chunkHashes (sr_chunks res) = map sha256 cs" "cw_dir (sr_chunks res) = named_from 0 outDir cs" "cw_chunkIdx (sr_chunks res) = length cs"
    by (auto simp: cs_def)
  with f show "cw_chunkHashes (sr_chunks res) = map sha256 cs" and "cw_dir (sr_chunks res) = named_from 0 outDir cs"
    and "sr_metadata res = encodeMetadataProto (map sha256 cs)" and "om_Chunks (sr_meta res) = length cs"
    and "om_HashHex (sr_meta res) = computeSnapshotHash (map sha256 cs)" and "om_MetadataLen (sr_meta res) = length (sr_metadata res)" by simp_all
qed

lemma length_concat_sha: "length (concat (map sha256 cs)) = 32 * length cs"
  by (induction cs) simp_all

text \<open>
  C39. A snapshot made by \<open>ApplyStateSync\<close> is not fit to be served.  Its \<open>meta.json\<close> carries the hash of the
  concatenated chunk hashes where the fetcher and the server expect the hash of the concatenated chunks:
  given the marker, \<open>LoadStore\<close> with either content check refuses the directory for its aggregate hash,
  unless these two different byte strings collide under SHA-256.
\<close>

theorem applied_snapshot_rejected:
  assumes "(ApplyStateSync P zw inflate io db metaHash base diff outDir :: (('e, 'z) sync_error, _) outcome option) = Some (Ok res)"
    and "io_works io" and "sf_complete (fs dir) = Exists"
    and "sf_files (fs dir) = (cw_dir (sr_chunks res))(go_string ''metadata.bin'' \<mapsto> sr_metadata res, go_string ''meta.json'' \<mapsto> raw)"
    and "unmarshal raw = Some \<lparr>mj_ChainID = [], mj_Height = om_Height (sr_meta res), mj_Format = om_Format (sr_meta res),
      mj_Chunks = of_nat (om_Chunks (sr_meta res)), mj_HashHex = om_HashHex (sr_meta res), mj_MetadataLen = int (om_MetadataLen (sr_meta res))\<rparr>"
    and "0 < om_Chunks (sr_meta res)" and "om_Chunks (sr_meta res) < 2 ^ 32" and "int (length (sr_metadata res)) < 2 ^ 63"
    and "length (concat (zw (sr_out res))) \<noteq> 32 * om_Chunks (sr_meta res)" and "mode \<noteq> VerifyMetadataOnly"
  shows "concat (cw_chunkHashes (sr_chunks res)) \<noteq> concat (zw (sr_out res)) \<and>
    (LoadStore unmarshal fs [dir] chainID mode = Fail (AtDir dir AggregateMismatch) \<or>
     sha256 (concat (cw_chunkHashes (sr_chunks res))) = sha256 (concat (zw (sr_out res))))"
proof -
  let ?cs = "chunks_of CosmosSDKChunkSize (concat (zw (sr_out res)))" and ?files = "sf_files (fs dir)"
  note r = ApplyStateSync_result [OF assms(1,2)]
  have cat: "concat ?cs = concat (zw (sr_out res))" by (rule concat_chunks_of) (simp add: CosmosSDKChunkSize_def)
  have ne: "concat (cw_chunkHashes (sr_chunks res)) \<noteq> concat (zw (sr_out res))"
    using assms(9) length_concat_sha [of ?cs] unfolding r(1,4) by metis
  have n: "unat (of_nat (length ?cs) :: u32) = length ?cs" using assms(7) unfolding r(4) by (simp add: unat_of_nat take_bit_nat_eq_self)
  have "(of_nat (length ?cs) :: u32) \<noteq> 0" using n assms(6) unfolding r(4) by (metis less_irrefl unat_0)
  moreover have chunk: "?files (chunkFile i) = Some (?cs ! i)" if "i < length ?cs" for i
    unfolding assms(4) using named_from_nth [OF that, of 0 outDir] r(2) chunkFile_not_meta by (simp add: chunkFile_chunkName)
  moreover have "ParseChunkHashes (sr_metadata res) = Ok (hexHashes (map sha256 ?cs))"
    unfolding ParseChunkHashes_eq r(3) using parse_encoded [of "map sha256 ?cs"] assms(8) unfolding r(3) by simp
  moreover have "verifyChunks ?files (of_nat (length ?cs)) (sha256 (concat (map sha256 ?cs))) (map sha256 ?cs) mode =
      (if sha256 (concat ?cs) \<noteq> sha256 (concat (map sha256 ?cs)) then Fail AggregateMismatch else Ok ())"
  proof -
    have "map (\<lambda>i. the (?files (chunkFile i))) [0..<length ?cs] = map ((!) ?cs) [0..<length ?cs]" by (rule map_cong) (simp_all add: chunk)
    then have "map (\<lambda>i. the (?files (chunkFile i))) [0..<length ?cs] = ?cs" by (simp add: map_nth)
    moreover have "verifyChunks_loop mode ?files (map sha256 ?cs) [0..<length ?cs] [] =
        Ok ([] @ concat (map (\<lambda>i. the (?files (chunkFile i))) [0..<length ?cs]))"
      by (rule verifyChunks_loop_ok) (simp_all add: chunk)
    ultimately show ?thesis by (simp add: verifyChunks_def n)
  qed
  ultimately have "loadOne unmarshal fs dir mode = Fail AggregateMismatch \<or> sha256 (concat (map sha256 ?cs)) = sha256 (concat ?cs)"
    using assms(3,4,5,10) r(4,5,6)
    by (auto simp: loadOne_def checkMeta_def computeSnapshotHash_def)
  then show ?thesis using ne cat r(1) by (auto simp: LoadStore_def)
qed

section \<open>A snapshot that moves\<close>

definition undir :: "loadedSnapshot \<Rightarrow> loadedSnapshot" where
  "undir ls = ls\<lparr>ld_Dir := []\<rparr>"

lemma storeFingerprint_undir: "map undir s = map undir s' \<Longrightarrow> storeFingerprint s = storeFingerprint s'"
proof -
  assume eq: "map undir s = map undir s'"
  have "fingerprintKey ls = fingerprintKey (undir ls)" for ls by (simp add: fingerprintKey_def undir_def)
  then have "map fingerprintKey t = map fingerprintKey (map undir t)" for t by simp
  then have "map fingerprintKey s = map fingerprintKey s'" using eq by metis
  moreover have "s = [] \<longleftrightarrow> s' = []" using eq by (metis map_is_Nil_conv)
  ultimately show ?thesis by (simp add: storeFingerprint_def)
qed

lemma startServing_provider:
  "startServing unmarshal fs entries chainID mode = Ok c \<Longrightarrow>
   \<exists>store. LoadStoreFromRoot unmarshal fs entries chainID mode = Ok store \<and> ct_provider c = Some store \<and>
     ct_fingerp c = storeFingerprint store \<and> ct_onStore c"
  by (auto simp: startServing_def initialScan_def handOver_def Rescan_def emitStore_def SetOnStore_def NewCatalog_def Let_def split: outcome.splits if_splits)

lemma LoadChunk_gone: "(\<forall>ls \<in> set store. \<forall>i. sf_files (fs (ld_Dir ls)) (chunkFile i) = None) \<Longrightarrow> LoadChunk fs store h f i \<noteq> ChunkFound b"
  by (induction store) auto

text \<open>
  C40. When the served snapshots are moved to other directories under the root, the next scan finds them,
  but the fingerprint, which leaves directories out, has not changed, so the reactor keeps the old
  store: from then on every chunk request for a snapshot that is there and advertised is answered
  \<open>Missing\<close>.  Of the catalogue only the store changes, so a later scan of the same snapshots does not help.
\<close>

theorem moved_snapshot_unserved:
  assumes "startServing unmarshal fs entries chainID mode = Ok c"
    and "LoadStoreFromRoot unmarshal fs' entries' chainID mode = Ok store'"
    and "map undir store' = map undir (the (ct_provider c))"
    and "\<forall>ls \<in> set (the (ct_provider c)). \<forall>i. sf_files (fs' (ld_Dir ls)) (chunkFile i) = None"
    and "rx_provider r = ct_provider (snd (Rescan unmarshal fs' entries' chainID mode c))" and "\<not> rx_shuttingDown r"
  shows "snd (Rescan unmarshal fs' entries' chainID mode c) = c\<lparr>ct_store := Some store'\<rparr> \<and>
    (\<forall>m. \<exists>reply. fst (receiveChunkRequest fs' True True True r m) = Some reply \<and> ci_Missing reply)"
proof -
  from startServing_provider [OF assms(1)] obtain store where
    c: "ct_provider c = Some store" "ct_fingerp c = storeFingerprint store" by blast
  have "storeFingerprint store' = ct_fingerp c" using storeFingerprint_undir [OF assms(3)] c by simp
  then have res: "snd (Rescan unmarshal fs' entries' chainID mode c) = c\<lparr>ct_store := Some store'\<rparr>"
    using assms(2) by (simp add: Rescan_def emitStore_def Let_def)
  then have p: "rx_provider r = Some store" using assms(5) c(1) by simp
  have "LoadChunk fs' store h f i \<noteq> ChunkFound b" for h f i b using LoadChunk_gone assms(4) c(1) by simp
  then have "\<exists>reply. fst (receiveChunkRequest fs' True True True r m) = Some reply \<and> ci_Missing reply" for m
    using p assms(6) by (auto simp: receiveChunkRequest_def Let_def split: chunk_result.split)
  with res show ?thesis by blast
qed

section \<open>Witnesses\<close>

definition ex_offer :: Snapshot where
  "ex_offer = \<lparr>sn_Height = 9, sn_Format = 1, sn_Chunks = 1, sn_Hash = sha256 [7], sn_Metadata = encodeMetadataProto [sha256 [7]]\<rparr>"

definition ex_unmarshal :: "bytes \<Rightarrow> metaJSON option" where
  "ex_unmarshal raw = (if raw = [1] then Some (savedMeta [99] ex_offer) else None)"

definition ex_files :: "bytes \<rightharpoonup> bytes" where
  "ex_files = [go_string ''metadata.bin'' \<mapsto> sn_Metadata ex_offer]"

definition ex_fs :: "bytes \<Rightarrow> bytes \<Rightarrow> snapFS" where
  "ex_fs at dir = (if dir = at then snd (writeMeta (\<lambda>_. [1]) True True True True [99] ex_offer
       \<lparr>sf_isDir = True, sf_complete = NotExist, sf_files = ex_files(chunkFile 0 \<mapsto> [7])\<rparr>)
     else \<lparr>sf_isDir = False, sf_complete = NotExist, sf_files = Map.empty\<rparr>)"

lemma ex_offerHashes: "offerHashes ex_offer = Ok [sha256 [7]]"
proof -
  have "int (length (encodeMetadataProto [sha256 [7]])) < 2 ^ 63"
    using length_PutUvarint(2) [of "32 :: u64"] by (simp add: hash_record_def)
  from parse_encoded [OF this] show ?thesis by (simp only: offerHashes_Ok ex_offer_def Snapshot.simps) simp
qed

lemma ex_holds: "holds_offer ex_unmarshal (ex_fs at at) [99] ex_offer [sha256 [7]]"
proof -
  have "sn_Hash ex_offer = sha256 [7]" by (simp add: ex_offer_def)
  then show ?thesis using ex_offerHashes
    by (simp add: holds_offer_def ex_fs_def writeMeta_def ex_files_def ex_unmarshal_def chunkFile_not_meta(1) [symmetric])
qed

abbreviation ex_store :: "bytes \<Rightarrow> Store" where
  "ex_store at \<equiv> [loaded_offer at [99] ex_offer]"

lemma ex_download_start:
  "initScheduler ex_env [] None (newScheduler 9 1 (length [sha256 [7]]) [sha256 [7]] 2 10 3 1 1 5 d) = ex_start\<lparr>sc_dir := d\<rparr>"
  by (simp add: sched_defs)

lemma ex_download:
  "\<exists>s. runDownload (initScheduler ex_env [] None (newScheduler 9 1 (length [sha256 [7]]) [sha256 [7]] 2 10 3 1 1 5 d))
       [(ex_env, Chunk [1] ex_chunk)] = (Some (Ok 1), s) \<and> sc_dir s = d(chunkFile 0 \<mapsto> [7])"
  unfolding ex_download_start [of d, unfolded ex_start_eq]
  by (simp add: runDownload.simps somePeerAlive_def onChunk_def storeChunk_def removeInflight_def promote_def sched_defs)

theorem fetched_snapshot_served_witness:
  "\<exists>store. LoadStore ex_unmarshal (ex_fs [2]) [[2]] [99] VerifyPerChunkHash = Ok store \<and> ListSnapshots store = [ex_offer]"
proof -
  obtain s where run: "runDownload (initScheduler ex_env [] None (newScheduler 9 1 (length [sha256 [7]]) [sha256 [7]] 2 10 3 1 1 5 ex_files))
      [(ex_env, Chunk [1] ex_chunk)] = (Some (Ok 1), s)" and dir: "sc_dir s = ex_files(chunkFile 0 \<mapsto> [7])" using ex_download by blast
  have "prepareSnapshotDir True True True ex_offer Map.empty = Ok ([sha256 [7]], ex_files)"
    by (simp add: prepareSnapshotDir_def ex_offerHashes ex_files_def)
  moreover have "canonical ex_files"
    using not_chunk_names(1) by (auto simp: canonical_def ex_files_def chunkIndex_def split: if_splits)
  moreover have "verifySnapshotHash (sc_dir s) ex_offer = Ok ()"
    unfolding dir verifySnapshotHash_iff by (simp add: ex_offer_def)
  moreover have "writeMeta (\<lambda>_. [1]) True True True True [99] ex_offer \<lparr>sf_isDir = True, sf_complete = NotExist, sf_files = sc_dir s\<rparr> = (True, ex_fs [2] [2])"
    unfolding dir by (simp add: ex_fs_def writeMeta_def)
  moreover have "sn_Height ex_offer = 9" "sn_Format ex_offer = 1" by (simp_all add: ex_offer_def)
  ultimately show ?thesis
    using fetched_snapshot_served [of True True True ex_offer Map.empty "[sha256 [7]]" ex_files ex_env "[]" None 2 10 3 1 1 5
        "[(ex_env, Chunk [1] ex_chunk)]" 1 s ex_unmarshal "\<lambda>_. [1]" "[99]" True True True True
        "\<lparr>sf_isDir = True, sf_complete = NotExist, sf_files = sc_dir s\<rparr>" "ex_fs [2]" "[2]" VerifyPerChunkHash] run
    by (auto simp: ex_unmarshal_def)
qed

lemma ex_LoadStore: "LoadStore ex_unmarshal (ex_fs at) [at] [99] mode = Ok (ex_store at)"
  by (rule LoadStore_offer [where fs = "ex_fs at", OF ex_holds])

abbreviation ex_reactor :: serveReactor where
  "ex_reactor \<equiv> \<lparr>rx_provider = Some (ex_store [2]), rx_shuttingDown = False, rx_snapshotsServed = 0, rx_chunksServed = 0, rx_chunksMissing = 0,
     rx_chunksDrained = 0, rx_droppedRatePeer = 0, rx_droppedRateGlobal = 0\<rparr>"

theorem served_chunk_accepted_witness:
  "\<exists>c r'. receiveChunkRequest (ex_fs [2]) True True True ex_reactor \<lparr>cq_Height = 9, cq_Format = 1, cq_Index = 0\<rparr> = (Some c, r') \<and>
     \<not> ci_Missing c"
proof -
  have "ex_offer \<in> set (ListSnapshots (ex_store [2]))" by (simp add: ListSnapshots_def loaded_offer_def)
  moreover have "0 < sn_Chunks ex_offer" "sn_Height ex_offer = 9" "sn_Format ex_offer = 1" by (simp_all add: ex_offer_def)
  ultimately show ?thesis using served_chunk_accepted [OF ex_LoadStore, of ex_offer "[2]" ex_reactor 0, where 'e = unit] by auto
qed

lemma ex_LoadStoreFromRoot: "LoadStoreFromRoot ex_unmarshal (ex_fs at) (Some [at]) [99] mode = Ok (ex_store at)"
  using loadOne_offer [where fs = "ex_fs at" and dir = at, OF ex_holds, of mode]
  by (simp add: LoadStoreFromRoot_def newStore_def) (simp add: loaded_offer_def ex_fs_def writeMeta_def)

theorem moved_snapshot_unserved_witness:
  "\<exists>c. startServing ex_unmarshal (ex_fs [2]) (Some [[2]]) [99] VerifyAggregateHash = Ok c \<and>
     snd (Rescan ex_unmarshal (ex_fs [3]) (Some [[3]]) [99] VerifyAggregateHash c) = c\<lparr>ct_store := Some (ex_store [3])\<rparr>"
proof -
  obtain c where c: "startServing ex_unmarshal (ex_fs [2]) (Some [[2]]) [99] VerifyAggregateHash = Ok c"
    by (auto simp: startServing_def initialScan_def handOver_def Rescan_def ex_LoadStoreFromRoot)
  have p: "ct_provider c = Some (ex_store [2])" using startServing_provider [OF c] by (simp add: ex_LoadStoreFromRoot)
  let ?r = "ex_reactor\<lparr>rx_provider := ct_provider (snd (Rescan ex_unmarshal (ex_fs [3]) (Some [[3]]) [99] VerifyAggregateHash c))\<rparr>"
  have "snd (Rescan ex_unmarshal (ex_fs [3]) (Some [[3]]) [99] VerifyAggregateHash c) = c\<lparr>ct_store := Some (ex_store [3])\<rparr>"
    using moved_snapshot_unserved [OF c ex_LoadStoreFromRoot, of "[3]" ?r] p
    by (simp add: undir_def loaded_offer_def ex_fs_def)
  with c show ?thesis by blast
qed

definition ex_applied_fs :: "sync_result \<Rightarrow> bytes \<Rightarrow> snapFS" where
  "ex_applied_fs res dir = \<lparr>sf_isDir = True, sf_complete = Exists,
     sf_files = (cw_dir (sr_chunks res))(go_string ''metadata.bin'' \<mapsto> sr_metadata res, go_string ''meta.json'' \<mapsto> [1])\<rparr>"

definition ex_applied_meta :: "sync_result \<Rightarrow> bytes \<Rightarrow> metaJSON option" where
  "ex_applied_meta res raw = Some \<lparr>mj_ChainID = [], mj_Height = om_Height (sr_meta res), mj_Format = om_Format (sr_meta res),
     mj_Chunks = of_nat (om_Chunks (sr_meta res)), mj_HashHex = om_HashHex (sr_meta res), mj_MetadataLen = int (om_MetadataLen (sr_meta res))\<rparr>"

abbreviation ex_io :: "unit chunk_io" where
  "ex_io \<equiv> \<lparr>io_create = \<lambda>_. None, io_write = \<lambda>_ _. None, io_close = \<lambda>_. None\<rparr>"

theorem applied_snapshot_rejected_witness:
  "\<exists>diff res. (ApplyStateSync mem_index (\<lambda>x. [x]) Inr ex_io Map.empty None (items_wire [[8, 1]]) diff Map.empty ::
      ((unit, unit) sync_error, _) outcome option) = Some (Ok res) \<and>
    concat (cw_chunkHashes (sr_chunks res)) \<noteq> sr_out res \<and>
    (LoadStore (ex_applied_meta res) (ex_applied_fs res) [[2]] [] VerifyAggregateHash = Fail (AtDir [2] AggregateMismatch) \<or>
     sha256 (concat (cw_chunkHashes (sr_chunks res))) = sha256 (sr_out res))"
proof -
  have s: "item_stream (items_wire [[8, 1]]) [[8, 1]]" "item_stream (items_wire [[8, 1], [8, 1]]) [[8, 1], [8, 1]]"
    by (rule item_stream_wire; simp add: item_fits_def)+
  have io: "io_works ex_io" by (simp add: io_works_def)
  have "\<exists>diff res. (ApplyStateSync mem_index (\<lambda>x. [x]) Inr ex_io Map.empty None (items_wire [[8, 1]]) diff Map.empty ::
      ((unit, unit) sync_error, _) outcome option) = Some (Ok res) \<and> sr_out res = items_wire [[8, 1], [8, 1]]"
    using mem_ix.compute_apply [where zw = "\<lambda>x. [x]" and inflate = "Inr :: bytes \<Rightarrow> unit + bytes" and metaHash = None
        and io = ex_io and bh = "[97]" and th = "[98]" and bH = 5 and tH = 6 and outDir = Map.empty and ?db1.0 = "Map.empty" and ?db2.0 = "Map.empty",
        OF s] by (force simp: io_works_def)
  then obtain diff res where
    res: "(ApplyStateSync mem_index (\<lambda>x. [x]) Inr ex_io Map.empty None (items_wire [[8, 1]]) diff Map.empty ::
      ((unit, unit) sync_error, _) outcome option) = Some (Ok res)" "sr_out res = items_wire [[8, 1], [8, 1]]" by blast
  have len: "0 < length (sr_out res)" "length (sr_out res) < 30" unfolding res(2) by (simp_all add: DiffStateSync.items_wire_def PutUvarint.simps)
  then have cs: "chunks_of CosmosSDKChunkSize (sr_out res) = [sr_out res]" by (simp add: CosmosSDKChunkSize_def)
  note r = ApplyStateSync_result [OF res(1) io, simplified concat.simps append_Nil2 cs]
  show ?thesis
    using applied_snapshot_rejected [OF res(1) io, of "ex_applied_fs res" "[2]" "[1]" "ex_applied_meta res" VerifyAggregateHash "[]"] res(1) len
      length_PutUvarint(2) [of "32 :: u64"]
    by (intro exI [of _ diff] exI [of _ res]) (simp add: r ex_applied_fs_def ex_applied_meta_def hash_record_def)
qed

end
