(* ===== verification/Spec2Isabelle.thy ===== *)
theory Spec2Isabelle
  imports Sha256_Vectors ImportProps ChunkRing ChunkSchedProps IndexProps WaveProps DiffVerify ConnManager ParallelTop SnapServeProps
begin

text \<open>
  Verification of malcom (\<open>src/\<close>), a tool that fetches Cosmos SDK state-sync snapshots from peers,
  imports them into an application database (pebble), and computes, applies and checks diffs between
  snapshots.

  \<^bold>\<open>The program.\<close>  A snapshot is a stream of items (a store's name, its IAVL nodes in post-order, the
  next store, then extensions), compressed and cut into chunk files.  \<open>internal/connect\<close> keeps
  connections to peers; \<open>internal/snapfetch\<close> asks peers for chunks and checks their hashes;
  \<open>internal/snapshotimport\<close> reads the stream, rebuilds every store's tree, hashes it and writes nodes,
  fast-storage entries, commit info and extensions; \<open>internal/snapshotdiff\<close> works on two chunk
  directories.  Stages run concurrently: a producer fills a bounded ring, a pool of workers imports
  stores from it, and inside a store a second pool may hash nodes.

  \<^bold>\<open>Shared layers.\<close>
  \<^item> \<open>Prelude\<close>: Go's integers as words, \<open>bytes\<close>, \<open>outcome\<close> (value, error, panic), generic lemmas and the
    collections \<open>frame_simps\<close> and others.  Where a Go loop may not end the model is an \<open>option\<close> and
    \<open>None\<close> means that it does not return.
  \<^item> \<open>GoStrings\<close>, \<open>Filepath\<close>, \<open>Varint\<close>: the used parts of \<open>fmt\<close>, \<open>strconv\<close>, \<open>strings\<close>, \<open>path/filepath\<close> and
    \<open>encoding/binary\<close>, with round trips.  \<open>Sha256\<close> is the hash itself, executable;
    \<open>Sha256_Vectors\<close> evaluates it on a published vector.

  \<^bold>\<open>Import, sequential\<close> (\<open>internal/snapshotimport\<close>).
  \<^item> \<open>IavlEnc\<close>: \<open>iavlenc.go\<close> and \<open>commitinfo.go\<close>, the byte formats.
  \<^item> \<open>SnapProto\<close>: \<open>snapproto.go\<close>, the item reader \<open>Next\<close>.  It decodes what was encoded, keeps the last
    item pinned, and on hostile bytes panics or loops where the properties say so.
  \<^item> \<open>StoreImporter\<close>: the stack machine of \<open>importer.go\<close>, its errors and its nonces.  \<open>ImportTree\<close> states
    what a run means: trees, their streams and Merkle roots, and the locale \<open>kv_sink\<close> (what the
    importer needs of the two \<open>set\<close> closures), extended by \<open>kv_sink_live\<close> for sinks that do not fail.
  \<^item> \<open>RunImport\<close>: \<open>runImport\<close> with its batch, \<open>ingester.go\<close> and \<open>extensions.go\<close>.  Pebble, the SSTable
    writer and the file system are records of operations, parameters of the model.
  \<^item> \<open>ImportDriver\<close>: the locales \<open>pebble\<close> (what a successful call does, as documented) and \<open>pebble_live\<close>
    (calls succeed), a \<open>sublocale\<close> that makes batch and ingester a \<open>kv_sink\<close>, and the correctness of
    the whole import.  \<open>mem_pebble\<close>, an in-memory database, interprets the locales.
  \<^item> \<open>ImportLog\<close>: the entries of a store as a function of its stream, whatever the sink.
  \<^item> \<open>ImportProps\<close>: what a root hash commits to, uniqueness of the stored tree, nonces, errors, paths.

  \<^bold>\<open>Import, parallel.\<close>
  \<^item> \<open>IndexScan\<close>, \<open>IndexProps\<close>: \<open>index.go\<close> and \<open>buildIndexFromReader\<close>, the pass that finds the stores'
    byte ranges, over readers that split their reads in any way.
  \<^item> \<open>ChunkRing\<close>: \<open>chunkring.go\<close>, every operation one step of \<open>ring_step\<close>; bounds, no loss, no eviction
    below a pin, and the deadlock of an item larger than the ring.
  \<^item> \<open>ParallelImport\<close>: \<open>ImportParallel\<close> and its three stages (\<open>parallel.go\<close>).  Workers share only the
    database and never read it, so a worker is the list of its operations and a run any interleaving
    of the lists.  \<open>SegmentReader\<close> ties the bytes a worker reads to the ring's steps, and shows that
    \<open>Write\<close> never ends once readers are gone and the rest does not fit.  \<open>ParallelProps\<close> and
    \<open>ParallelTop\<close>: the output is that of the sequential import, and the race that spoils it.
  \<^item> \<open>WavePar\<close>: \<open>importer_par.go\<close> as a step relation of main thread, dispatcher and workers.  \<open>WaveInv\<close>,
    \<open>WaveAdd\<close> (invariant), \<open>WaveSim\<close> (simulation of the sequential importer), \<open>WaveLive\<close> (progress and
    termination measure), \<open>WaveProps\<close> (the properties).

  \<^bold>\<open>Fetching and serving.\<close>
  \<^item> \<open>ChunkSched\<close>, \<open>ChunkSchedProps\<close>: the scheduler of \<open>snapfetch/download.go\<close> as a handler per event.
    A run is any finite sequence of events; peers and disk are parameters.
  \<^item> \<open>ConnManager\<close>: \<open>connect/manager.go\<close>, the dial loop, dial goroutines and callers interleaved.
  \<^item> \<open>SnapMeta\<close>: the two decoders of the metadata blob (\<open>snapfetch/helpers.go\<close>, \<open>snapshotinspect\<close>) and
    \<open>encoding/hex\<close>.  \<open>SnapServe\<close>: the store and the catalogue of \<open>snapserve\<close>, the reactor's answers
    (\<open>statesync/reactor.go\<close>) and the fetcher's checks of an offer and of the finished directory
    (\<open>snapfetch/session.go\<close>).  \<open>SnapServeProps\<close> composes them with the scheduler and the differ: what was
    fetched can be served, what is served is accepted, and two cases where it is not.  Its locale
    \<open>dir_predicate\<close> carries a property of the chunk directory through a whole download.

  \<^bold>\<open>Diffs\<close> (\<open>internal/snapshotdiff\<close>).
  \<^item> \<open>DiffFormat\<close> (headers), \<open>ChunkWriter\<close> (chunk files and metadata), \<open>DiffStateSync\<close> (state-sync diffs,
    over the locale \<open>pebble_index\<close> for the item index), \<open>DiffRecord\<close> (records; the locale
    \<open>field_scanner\<close> is the contract the three field parsers share), \<open>DiffCompute\<close> (\<open>diff.go\<close>),
    \<open>DiffApply\<close> (\<open>apply.go\<close>), \<open>DiffVerify\<close> (\<open>verify.go\<close>).
  \<^item> \<open>DiffMerge\<close>, \<open>DiffSim\<close>, \<open>DiffStream\<close>, \<open>DiffApplySim\<close> relate the loops to functions on lists of
    leaves, from which \<open>DiffProps\<close> has the round trip of compute and apply.

  \<^bold>\<open>Bounds and fuel.\<close>  Lengths and offsets are \<open>int\<close> or words as in the code; where a theorem needs a
  stream below \<open>2 ^ 63\<close> bytes or items within the reader's limits, it says so.  Loops are total
  functions with a measure (the remaining input); the only partial ones are \<open>partial_function (option)\<close>
  and their properties claim that a value is returned, or that none is.

  \<^bold>\<open>Not modelled.\<close>  Commands and flags (\<open>internal/cli\<close>, \<open>cmd\<close>), configuration files and templates, logging,
  the chain registry (HTTP and JSON), process control of a node under bootstrap and the scripts are
  input and output around library calls.  Peer exchange, the snapshot walk and the session of \<open>snapfetch\<close>,
  the event channels and limiter table of the state-sync reactor and the p2p stack of \<open>RunServe\<close> drive
  CometBFT's switch, whose code is not part of the repository.  JSON is a parameter.
  The readers of chunk files (\<open>chunkreader.go\<close>, \<open>tailread.go\<close>, \<open>prefetch.go\<close>) are zlib over files
  and enter as readers that deliver bytes.  Timings, statistics and pebble's tuning options are left
  out everywhere.  In \<open>processStoreSegment\<close> the decode pipeline in front of the wave-parallel pool is left
  out.  Memory reuse (buffer pools, arenas) is visible only where its count matters, in the ring.
\<close>

end
